(* ===== verification/Prelude.thy ===== *)
theory Prelude
  imports Main "HOL-Library.Word"
begin

text \<open>
  Shared vocabulary of the development: machine types, the faults a C or C++ statement can
  run into, the result type of code that can fault, C integer conversions, little-endian
  encodings and generic list lemmas.

  A value of type \<open>'a res\<close> is either \<open>Inr v\<close>, the code ran to its end with value \<open>v\<close>, or
  \<open>Inl f\<close>, it reached the faulting statement \<open>f\<close>: a failed \<open>assert\<close>, an access outside the
  object, a negative size passed to a memory function, a null dereference, a lock taken twice
  by its holder, a call of \<open>abort\<close>.  Faults never come from the model: each stands for a statement of the source.
\<close>

section \<open>Fact collections\<close>

named_theorems lock_simps \<open>operations under their lock, started from a free lock\<close>
named_theorems codec_simps \<open>encodings, decodings and their lengths\<close>
named_theorems size_simps \<open>the numeric values of the size macros\<close>
named_theorems up_simps \<open>component operations of a running server\<close>

section \<open>Machine types and faults\<close>

type_synonym u8 = "8 word"
type_synonym u16 = "16 word"
type_synonym u32 = "32 word"
type_synonym u64 = "64 word"

datatype fault =
    Assert_failed
  | Out_of_bounds
  | Bad_size
  | Null_deref
  | Deadlock
  | Use_after_free
  | Aborted

type_synonym 'a res = "fault + 'a"

fun bind_res :: "'a res \<Rightarrow> ('a \<Rightarrow> 'b res) \<Rightarrow> 'b res" where
  "bind_res (Inl f) k = Inl f"
| "bind_res (Inr a) k = k a"

lemma bind_res_Inr_iff [simp]:
  "bind_res m k = Inr b \<longleftrightarrow> (\<exists>a. m = Inr a \<and> k a = Inr b)"
  by (cases m) auto

lemma bind_res_Inl_iff:
  "bind_res m k = Inl f \<longleftrightarrow> m = Inl f \<or> (\<exists>a. m = Inr a \<and> k a = Inl f)"
  by (cases m) auto

lemma bind_res_assoc: "bind_res (bind_res m k) h = bind_res m (\<lambda>a. bind_res (k a) h)"
  by (cases m) auto

text \<open>
  Code that waits for its surroundings runs on the list of what they do; \<open>None\<close> means that it
  is still waiting when the list ends.
\<close>

definition run_bind :: "'a res option \<Rightarrow> ('a \<Rightarrow> 'b res option) \<Rightarrow> 'b res option" where
  "run_bind r k = (case r of None \<Rightarrow> None | Some (Inl f) \<Rightarrow> Some (Inl f) | Some (Inr a) \<Rightarrow> k a)"

lemma run_bind_simps [simp]:
  "run_bind None k = None" "run_bind (Some (Inl f)) k = Some (Inl f)" "run_bind (Some (Inr a)) k = k a"
  by (simp_all add: run_bind_def)

lemma run_bind_Inr_iff: "run_bind r k = Some (Inr b) \<longleftrightarrow> (\<exists>a. r = Some (Inr a) \<and> k a = Some (Inr b))"
  by (auto simp: run_bind_def split: option.splits sum.splits)

lemma run_bind_cong [fundef_cong]:
  "r = r' \<Longrightarrow> (\<And>a. r' = Some (Inr a) \<Longrightarrow> k a = k' a) \<Longrightarrow> run_bind r k = run_bind r' k'"
  by (auto simp: run_bind_def split: option.splits sum.splits)

text \<open>
  A C pointer to an object the program allocates and frees: null, pointing to a live object
  with its current contents, or dangling after \<open>free\<close> or \<open>delete\<close>.
\<close>

datatype 'a ptr = Null | Live 'a | Dangling

fun deref :: "'a ptr \<Rightarrow> 'a res" where
  "deref Null = Inl Null_deref"
| "deref (Live a) = Inr a"
| "deref Dangling = Inl Use_after_free"

lemma deref_Inr_iff [simp]: "deref p = Inr a \<longleftrightarrow> p = Live a"
  by (cases p) auto

lemma bind_res_cong [fundef_cong]:
  "m = m' \<Longrightarrow> (\<And>a. m' = Inr a \<Longrightarrow> k a = k' a) \<Longrightarrow> bind_res m k = bind_res m' k'"
  by (cases m') auto

section \<open>C integer conversions\<close>

text \<open>
  \<open>cint\<close> is the conversion of an integer to a 32-bit two's complement \<open>int\<close> (gcc's
  implementation-defined modular conversion), \<open>csize\<close> the conversion to a 64-bit \<open>size_t\<close>.
\<close>

definition cint :: "int \<Rightarrow> int" where
  "cint n = (n + 2147483648) mod 4294967296 - 2147483648"

definition csize :: "int \<Rightarrow> int" where
  "csize n = n mod 18446744073709551616"

lemma cint_id [simp]: "- 2147483648 \<le> n \<Longrightarrow> n < 2147483648 \<Longrightarrow> cint n = n"
  by (simp add: cint_def)

lemma cint_bounds: "- 2147483648 \<le> cint n" "cint n < 2147483648"
  by (simp_all add: cint_def)

lemma cint_high: "2147483648 \<le> n \<Longrightarrow> n < 6442450944 \<Longrightarrow> cint n = n - 4294967296"
proof -
  assume "2147483648 \<le> n" "n < 6442450944"
  then have "(n + 2147483648 - 4294967296) mod 4294967296 = n + 2147483648 - 4294967296"
    by (intro mod_pos_pos_trivial) auto
  moreover have "(n + 2147483648 - 4294967296) mod 4294967296 = (n + 2147483648) mod 4294967296"
    by (rule minus_mod_self2)
  ultimately have "(n + 2147483648) mod 4294967296 = n - 2147483648"
    by linarith
  then show ?thesis by (simp add: cint_def)
qed

lemma csize_id [simp]: "0 \<le> n \<Longrightarrow> n < 18446744073709551616 \<Longrightarrow> csize n = n"
  by (simp add: csize_def)

lemma csize_nonneg [simp]: "0 \<le> csize n"
  by (simp add: csize_def)

lemma csize_neg: "n < 0 \<Longrightarrow> - 9223372036854775808 \<le> n \<Longrightarrow> csize n = n + 18446744073709551616"
proof -
  assume "n < 0" "- 9223372036854775808 \<le> n"
  then have "(n + 18446744073709551616) mod 18446744073709551616 = n + 18446744073709551616"
    by (intro mod_pos_pos_trivial) auto
  then show ?thesis by (simp add: csize_def)
qed

section \<open>Little-endian encodings\<close>

text \<open>
  The wire structures are packed C structs read and written in place, so an integer field of
  \<open>k\<close> bytes is stored least significant byte first (the supported hosts are little-endian).
\<close>

primrec le_enc :: "nat \<Rightarrow> nat \<Rightarrow> u8 list" where
  "le_enc 0 n = []"
| "le_enc (Suc k) n = word_of_nat n # le_enc k (n div 256)"

primrec le_dec :: "u8 list \<Rightarrow> nat" where
  "le_dec [] = 0"
| "le_dec (b # bs) = unat b + 256 * le_dec bs"

lemma length_le_enc [simp, codec_simps]: "length (le_enc k n) = k"
  by (induction k arbitrary: n) auto

lemma unat_u8_less [simp]: "unat (b :: u8) < 256"
  by (rule order_less_le_trans [OF unsigned_less]) simp

lemma unat_u8_of_nat: "unat (word_of_nat n :: u8) = n mod 256"
  by (simp add: unat_of_nat)

lemma le_dec_bound: "le_dec bs < 256 ^ length bs"
proof (induction bs)
  case Nil
  then show ?case by simp
next
  case (Cons b bs)
  have "unat b + 256 * le_dec bs < 256 + 256 * le_dec bs"
    by simp
  also have "\<dots> = 256 * Suc (le_dec bs)" by simp
  also have "\<dots> \<le> 256 * 256 ^ length bs"
    using Cons.IH by (intro mult_le_mono2) (rule Suc_leI)
  finally show ?case by simp
qed

lemma le_dec_enc [simp, codec_simps]: "le_dec (le_enc k n) = n mod 256 ^ k"
proof (induction k arbitrary: n)
  case 0
  then show ?case by simp
next
  case (Suc k)
  have "le_dec (le_enc (Suc k) n) = n mod 256 + 256 * (n div 256 mod 256 ^ k)"
    by (simp add: Suc.IH unat_u8_of_nat)
  also have "\<dots> = n mod (256 * 256 ^ k)"
    by (simp add: mod_mult2_eq)
  finally show ?case by simp
qed

lemma le_enc_dec [simp, codec_simps]: "le_enc (length bs) (le_dec bs) = bs"
proof (induction bs)
  case Nil
  then show ?case by simp
next
  case (Cons b bs)
  have "(unat b + 256 * le_dec bs) div 256 = le_dec bs"
    by (simp add: div_add1_eq)
  moreover have "(word_of_nat (unat b + 256 * le_dec bs) :: u8) = b"
  proof (rule word_unat_eq_iff [THEN iffD2])
    have "unat (word_of_nat (unat b + 256 * le_dec bs) :: u8) = (unat b + 256 * le_dec bs) mod 256"
      by (rule unat_u8_of_nat)
    then show "unat (word_of_nat (unat b + 256 * le_dec bs) :: u8) = unat b"
      by simp
  qed
  ultimately show ?case by (simp add: Cons.IH)
qed

lemma unat_word_of_int_u32: "0 \<le> len \<Longrightarrow> len < 4294967296 \<Longrightarrow> unat (word_of_int len :: u32) = nat len"
  by (simp add: nat_eq_iff2 uint_nat [symmetric] flip: uint_nat) (simp add: uint_word_of_int)

lemma unat_u64_of_nat: "unat (word_of_nat n :: u64) = n mod 18446744073709551616"
  by (simp add: unat_of_nat)

lemma le_dec_append: "le_dec (a @ b) = le_dec a + 256 ^ length a * le_dec b"
  by (induction a) (auto simp: algebra_simps)

section \<open>Lists\<close>

lemma take_drop_append_exact [simp]:
  "length xs = n \<Longrightarrow> take n (xs @ ys) = xs"
  "length xs = n \<Longrightarrow> drop n (xs @ ys) = ys"
  by auto

lemma find_filter_hd: "find P xs = Some x \<Longrightarrow> filter P xs = x # filter P (drop 1 (dropWhile (\<lambda>y. \<not> P y) xs))"
  by (induction xs) (auto split: if_splits)

lemma find_None_filter: "find P xs = None \<longleftrightarrow> filter P xs = []"
  by (auto simp: find_None_iff filter_empty_conv)

end
