(* ===== verification/Config.thy ===== *)
theory Config
  imports Prelude
begin

text \<open>
  The size limits of \<open>src/inc/config.h\<close>, as the macros expand (none of them is
  parenthesised differently by its uses), and the sizes of the two wire headers.
\<close>

definition PACK_VERSION :: u16 where
  "PACK_VERSION = 0"

definition NET_PACK_SPACE_SIZE_LIMIT :: nat where
  "NET_PACK_SPACE_SIZE_LIMIT = 64 * 1024"

definition NET_RECV_BUFF_SIZE :: nat where
  "NET_RECV_BUFF_SIZE = 256 * 1024"

definition NET_PACK_SIZE_LIMIT :: nat where
  "NET_PACK_SIZE_LIMIT = NET_PACK_SPACE_SIZE_LIMIT + 1024"

definition NET_REMAIN_CACHE_SIZE :: nat where
  "NET_REMAIN_CACHE_SIZE = NET_PACK_SIZE_LIMIT"

definition NET_RECV_SIZE_LIMIT :: nat where
  "NET_RECV_SIZE_LIMIT = NET_RECV_BUFF_SIZE - NET_REMAIN_CACHE_SIZE"

definition NET_SEND_BUFF_SIZE :: nat where
  "NET_SEND_BUFF_SIZE = 256 * 1024"

definition NET_EPOLL_EVENT_MAX_SIZE :: nat where
  "NET_EPOLL_EVENT_MAX_SIZE = 100"

lemma size_limit_values [size_simps]:
  "NET_PACK_SPACE_SIZE_LIMIT = 65536" "NET_RECV_BUFF_SIZE = 262144"
  "NET_PACK_SIZE_LIMIT = 66560" "NET_REMAIN_CACHE_SIZE = 66560"
  "NET_RECV_SIZE_LIMIT = 195584" "NET_SEND_BUFF_SIZE = 262144"
  "NET_EPOLL_EVENT_MAX_SIZE = 100"
  by (simp_all add: NET_PACK_SPACE_SIZE_LIMIT_def NET_RECV_BUFF_SIZE_def
      NET_PACK_SIZE_LIMIT_def NET_REMAIN_CACHE_SIZE_def NET_RECV_SIZE_LIMIT_def
      NET_SEND_BUFF_SIZE_def NET_EPOLL_EVENT_MAX_SIZE_def)

end
