(* ===== verification/Pack.thy ===== *)
theory Pack
  imports Config
begin

text \<open>
  The wire protocol of \<open>src/core/pack.h\<close> and \<open>src/core/pack.c\<close>: the packed header
  \<open>net_pkg_t\<close>, \<open>parse_pack\<close>, \<open>create_pack\<close> and \<open>release_pack\<close>.

  The pair \<open>(buf, *buf_len)\<close> that \<open>parse_pack\<close> updates in place is the list of the first
  \<open>*buf_len\<close> bytes of the buffer; the pair of results is the returned length and \<open>*pack\<close>
  (\<open>None\<close> for a null pointer).  \<open>malloc\<close> is taken to succeed, as the code assumes.  The
  abstract view of the same bytes is \<open>frames\<close>: the complete frames at the head of a stream
  and the incomplete rest.
\<close>

section \<open>The header\<close>

record net_pkg_t =
  pkg_version :: u16
  pkg_msgID :: u32
  pkg_length :: u32
  pkg_data :: "u8 list"

definition SIZEOF_NET_PKG :: nat where
  "SIZEOF_NET_PKG = 2 + 4 + 4"

definition load_pkg :: "u8 list \<Rightarrow> net_pkg_t" where
  "load_pkg buf = \<lparr>pkg_version = word_of_nat (le_dec (take 2 buf)),
     pkg_msgID = word_of_nat (le_dec (take 4 (drop 2 buf))),
     pkg_length = word_of_nat (le_dec (take 4 (drop 6 buf))),
     pkg_data = drop 10 buf\<rparr>"

definition header_bytes :: "u16 \<Rightarrow> u32 \<Rightarrow> u32 \<Rightarrow> u8 list" where
  "header_bytes ver mid len = le_enc 2 (unat ver) @ le_enc 4 (unat mid) @ le_enc 4 (unat len)"

section \<open>The operations\<close>

definition parse_pack :: "u8 list \<Rightarrow> (int \<times> u8 list option \<times> u8 list) res" where
  "parse_pack buf =
     (let buf_len = int (length buf) in
      if csize buf_len < int SIZEOF_NET_PKG then Inr (0, None, buf)
      else
        let head = load_pkg buf;
            pack_len = cint (csize (uint (pkg_length head) + int SIZEOF_NET_PKG))
        in if buf_len < pack_len then Inr (0, None, buf)
           else if pack_len < 0 then Inl Bad_size
           else Inr (pack_len, Some (take (nat pack_len) buf), drop (nat pack_len) buf))"

definition create_pack :: "u8 list \<Rightarrow> int \<Rightarrow> u32 \<Rightarrow> (int \<times> u8 list) res" where
  "create_pack buf buf_len mid =
     (if buf_len < 0 then Inl Bad_size
      else if length buf < SIZEOF_NET_PKG + nat buf_len then Inl Out_of_bounds
      else Inr (cint (csize (buf_len + int SIZEOF_NET_PKG)),
                header_bytes PACK_VERSION mid (word_of_int buf_len) @ take (nat buf_len) buf
                  @ drop (SIZEOF_NET_PKG + nat buf_len) buf))"

text \<open>
  \<open>release_pack\<close> frees the block: over a set of live heap blocks it removes one.
\<close>

definition release_pack :: "'blk set \<Rightarrow> 'blk \<Rightarrow> 'blk set" where
  "release_pack heap pack = heap - {pack}"

section \<open>Frames of a byte stream\<close>

definition frame_len :: "u8 list \<Rightarrow> nat" where
  "frame_len bs = SIZEOF_NET_PKG + le_dec (take 4 (drop 6 bs))"

definition has_frame :: "u8 list \<Rightarrow> bool" where
  "has_frame bs \<longleftrightarrow> SIZEOF_NET_PKG \<le> length bs \<and> frame_len bs \<le> length bs"

lemma frame_len_pos [simp]: "0 < frame_len bs"
  by (simp add: frame_len_def SIZEOF_NET_PKG_def)

function frames :: "u8 list \<Rightarrow> u8 list list \<times> u8 list" where
  "frames bs =
     (if has_frame bs
      then let (fs, r) = frames (drop (frame_len bs) bs) in (take (frame_len bs) bs # fs, r)
      else ([], bs))"
  by pat_completeness auto
termination
  by (relation "measure length") (auto simp: has_frame_def SIZEOF_NET_PKG_def intro!: diff_less)

declare frames.simps [simp del]

text \<open>
  \<open>limited n bs\<close>: every frame header met while cutting the stream announces at most \<open>n\<close>
  bytes, header included.  It is the promise a client of this server keeps with
  \<open>n = NET_PACK_SIZE_LIMIT\<close>.
\<close>

function limited :: "nat \<Rightarrow> u8 list \<Rightarrow> bool" where
  "limited n bs =
     (if length bs < SIZEOF_NET_PKG then True
      else frame_len bs \<le> n \<and> (if has_frame bs then limited n (drop (frame_len bs) bs) else True))"
  by pat_completeness auto
termination
  by (relation "measure (\<lambda>(n, bs). length bs)") (auto simp: has_frame_def SIZEOF_NET_PKG_def intro!: diff_less)

declare limited.simps [simp del]

lemma frames_step:
  "has_frame bs \<Longrightarrow> frames bs =
     (take (frame_len bs) bs # fst (frames (drop (frame_len bs) bs)),
      snd (frames (drop (frame_len bs) bs)))"
  by (subst frames.simps) (simp add: split_beta)

lemma frames_stop: "\<not> has_frame bs \<Longrightarrow> frames bs = ([], bs)"
  by (subst frames.simps) simp

lemma limited_step:
  "has_frame bs \<Longrightarrow> limited n bs \<longleftrightarrow> frame_len bs \<le> n \<and> limited n (drop (frame_len bs) bs)"
  by (subst limited.simps) (auto simp: has_frame_def)

lemma limited_stop:
  "\<not> has_frame bs \<Longrightarrow> limited n bs \<longleftrightarrow> length bs < SIZEOF_NET_PKG \<or> frame_len bs \<le> n"
  by (subst limited.simps) auto

lemma not_has_frame_Nil [simp]: "\<not> has_frame []"
  by (simp add: has_frame_def SIZEOF_NET_PKG_def)

lemma frame_len_append:
  "SIZEOF_NET_PKG \<le> length a \<Longrightarrow> frame_len (a @ b) = frame_len a"
  by (simp add: frame_len_def SIZEOF_NET_PKG_def)

lemma has_frame_append: "has_frame a \<Longrightarrow> has_frame (a @ b)"
  by (auto simp: has_frame_def frame_len_append)

text \<open>The frames and the rest are the stream itself.\<close>

lemma frames_concat: "concat (fst (frames bs)) @ snd (frames bs) = bs"
proof (induction bs rule: frames.induct)
  case (1 bs)
  show ?case
  proof (cases "has_frame bs")
    case True
    then show ?thesis using "1.IH" [OF True] by (simp add: frames_step [OF True])
  next
    case False
    then show ?thesis by (simp add: frames_stop)
  qed
qed

lemma frames_rest: "\<not> has_frame (snd (frames bs))"
proof (induction bs rule: frames.induct)
  case (1 bs)
  then show ?case by (cases "has_frame bs") (auto simp: frames_step frames_stop)
qed

text \<open>Cutting a stream in two pieces does not change its frames.\<close>

lemma frames_append:
  "frames (a @ b) = (fst (frames a) @ fst (frames (snd (frames a) @ b)),
                     snd (frames (snd (frames a) @ b)))"
proof (induction a rule: frames.induct)
  case (1 a)
  show ?case
  proof (cases "has_frame a")
    case True
    let ?n = "frame_len a"
    from True have n: "?n \<le> length a" "frame_len (a @ b) = ?n" "has_frame (a @ b)"
      by (auto simp: has_frame_def frame_len_append has_frame_append)
    from "1.IH" [OF True]
    show ?thesis using n by (simp add: frames_step [OF True] frames_step [OF n(3)])
  next
    case False
    then show ?thesis by (simp add: frames_stop)
  qed
qed

lemma limited_append_left: "limited n (a @ b) \<Longrightarrow> limited n a"
proof (induction a rule: frames.induct)
  case (1 a)
  show ?case
  proof (cases "has_frame a")
    case True
    then have "limited n (drop (frame_len a) a @ b)" "frame_len a \<le> n"
      using "1.prems" by (auto simp: limited_step has_frame_append frame_len_append has_frame_def)
    then show ?thesis using "1.IH" True by (simp add: limited_step)
  next
    case False
    show ?thesis
    proof (cases "length a < SIZEOF_NET_PKG")
      case True
      then show ?thesis using False by (simp add: limited_stop)
    next
      case long: False
      then have "frame_len a \<le> n"
        using "1.prems" by (subst (asm) limited.simps) (auto simp: frame_len_append)
      then show ?thesis using False by (simp add: limited_stop)
    qed
  qed
qed

lemma limited_append_right:
  "limited n (a @ b) \<Longrightarrow> limited n (snd (frames a) @ b)"
proof (induction a rule: frames.induct)
  case (1 a)
  show ?case
  proof (cases "has_frame a")
    case True
    then have "limited n (drop (frame_len a) a @ b)"
      using "1.prems" by (auto simp: limited_step has_frame_append frame_len_append has_frame_def)
    then show ?thesis using "1.IH" True by (simp add: frames_step)
  next
    case False
    then show ?thesis using "1.prems" by (simp add: frames_stop)
  qed
qed

text \<open>An incomplete rest of a limited stream is shorter than the limit.\<close>

lemma limited_rest_length:
  "limited n bs \<Longrightarrow> SIZEOF_NET_PKG \<le> n \<Longrightarrow> length (snd (frames bs)) < n"
proof (induction bs rule: frames.induct)
  case (1 bs)
  show ?case
  proof (cases "has_frame bs")
    case True
    then show ?thesis using "1.IH" "1.prems" by (simp add: frames_step limited_step)
  next
    case False
    then show ?thesis using "1.prems" by (auto simp: frames_stop limited_stop has_frame_def)
  qed
qed

lemma limited_frame_length:
  "limited n bs \<Longrightarrow> f \<in> set (fst (frames bs)) \<Longrightarrow> length f \<le> n \<and> frame_len f = length f
     \<and> SIZEOF_NET_PKG \<le> length f"
proof (induction bs rule: frames.induct)
  case (1 bs)
  show ?case
  proof (cases "has_frame bs")
    case True
    have "SIZEOF_NET_PKG \<le> frame_len bs" by (simp add: frame_len_def)
    with True have "length (take (frame_len bs) bs) = frame_len bs"
      "frame_len (take (frame_len bs) bs) = frame_len bs"
      using frame_len_append [of "take (frame_len bs) bs" "drop (frame_len bs) bs"]
      by (simp_all add: has_frame_def)
    then show ?thesis using "1.IH" "1.prems" True \<open>SIZEOF_NET_PKG \<le> frame_len bs\<close>
      by (auto simp: frames_step limited_step)
  next
    case False
    then show ?thesis using "1.prems" by (simp add: frames_stop)
  qed
qed

section \<open>What the operations compute\<close>

definition announced :: "u8 list \<Rightarrow> nat" where
  "announced bs = le_dec (take 4 (drop 6 bs))"

lemma announced_bound: "announced bs < 4294967296"
proof -
  have "announced bs < 256 ^ length (take 4 (drop 6 bs))"
    unfolding announced_def by (rule le_dec_bound)
  also have "(256::nat) ^ length (take 4 (drop 6 bs)) \<le> 256 ^ 4"
    by (rule power_increasing) auto
  finally show ?thesis by simp
qed

lemma frame_len_announced: "frame_len bs = 10 + announced bs"
  by (simp add: frame_len_def announced_def SIZEOF_NET_PKG_def)

lemma pkg_length_load: "uint (pkg_length (load_pkg bs)) = int (announced bs)"
proof -
  have "unat (pkg_length (load_pkg bs)) = announced bs mod 4294967296"
    by (simp add: load_pkg_def announced_def unat_of_nat)
  then have "unat (pkg_length (load_pkg bs)) = announced bs"
    using announced_bound [of bs] by simp
  then show ?thesis
    by (metis uint_nat)
qed

lemma parse_pack_short: "length buf < 10 \<Longrightarrow> parse_pack buf = Inr (0, None, buf)"
  by (simp add: parse_pack_def SIZEOF_NET_PKG_def)

lemma parse_pack_unfold:
  assumes "10 \<le> length buf" "length buf < 2147483648"
  shows "parse_pack buf =
    (let n = cint (int (announced buf) + 10) in
     if int (length buf) < n then Inr (0, None, buf)
     else if n < 0 then Inl Bad_size
     else Inr (n, Some (take (nat n) buf), drop (nat n) buf))"
  using assms announced_bound [of buf]
  by (simp add: parse_pack_def SIZEOF_NET_PKG_def pkg_length_load Let_def)

lemma parse_pack_complete:
  "has_frame buf \<Longrightarrow> length buf < 2147483648 \<Longrightarrow>
   parse_pack buf = Inr (int (frame_len buf), Some (take (frame_len buf) buf), drop (frame_len buf) buf)"
  by (simp add: parse_pack_unfold has_frame_def frame_len_announced SIZEOF_NET_PKG_def
      nat_add_distrib add.commute)

lemma parse_pack_incomplete:
  assumes "\<not> has_frame buf" "length buf < 2147483648" "length buf < SIZEOF_NET_PKG \<or> frame_len buf < 2147483648"
  shows "parse_pack buf = Inr (0, None, buf)"
proof (cases "length buf < 10")
  case True
  then show ?thesis by (rule parse_pack_short)
next
  case False
  with assms have "frame_len buf < 2147483648" "length buf < frame_len buf"
    by (auto simp: has_frame_def SIZEOF_NET_PKG_def)
  then show ?thesis using assms False
    by (simp add: parse_pack_unfold frame_len_announced Let_def)
qed

lemma parse_pack_limited:
  assumes "\<not> has_frame buf" "length buf < 2147483648" "limited n buf" "n < 2147483648"
  shows "parse_pack buf = Inr (0, None, buf)"
  using assms by (intro parse_pack_incomplete) (auto simp: limited_stop)

lemma length_header [simp, codec_simps]: "length (header_bytes v m l) = 10"
  by (simp add: header_bytes_def)

lemma load_pkg_header [codec_simps]:
  "load_pkg (header_bytes v m l @ d) = \<lparr>pkg_version = v, pkg_msgID = m, pkg_length = l, pkg_data = d\<rparr>"
proof -
  have "unat v < 65536" by (rule order_less_le_trans [OF unsigned_less]) simp
  moreover have "unat m < 4294967296" by (rule order_less_le_trans [OF unsigned_less]) simp
  moreover have "unat l < 4294967296" by (rule order_less_le_trans [OF unsigned_less]) simp
  ultimately show ?thesis
    by (simp add: load_pkg_def header_bytes_def)
qed

lemma announced_header [codec_simps]: "announced (header_bytes v m l @ d) = unat l"
proof -
  have "unat l < 4294967296" by (rule order_less_le_trans [OF unsigned_less]) simp
  then show ?thesis by (simp add: announced_def header_bytes_def)
qed

lemma create_pack_result:
  assumes "0 \<le> len" "len < 2147483638" "10 + nat len \<le> length buf"
  shows "create_pack buf len mid =
    Inr (len + 10, header_bytes PACK_VERSION mid (word_of_int len) @ take (nat len) buf
                     @ drop (10 + nat len) buf)"
  using assms by (simp add: create_pack_def SIZEOF_NET_PKG_def nat_add_distrib)

text \<open>
  The response \<open>work_proc\<close> sends: the first \<open>create_pack\<close> result many bytes of the buffer.
\<close>

lemma create_pack_frame:
  fixes mid :: u32
  assumes "0 \<le> len" "len < 2147483638" "10 + nat len \<le> length buf"
  defines "p \<equiv> header_bytes PACK_VERSION mid (word_of_int len) @ take (nat len) buf"
  shows "length p = 10 + nat len" "frame_len (p @ rest) = 10 + nat len" "has_frame (p @ rest)"
    "load_pkg p = \<lparr>pkg_version = PACK_VERSION, pkg_msgID = mid, pkg_length = word_of_int len,
                   pkg_data = take (nat len) buf\<rparr>"
proof -
  show len: "length p = 10 + nat len" using assms by (simp add: p_def)
  have "announced (p @ rest) = nat len"
    unfolding p_def append_assoc announced_header using assms by (intro unat_word_of_int_u32) auto
  then show fl: "frame_len (p @ rest) = 10 + nat len" by (simp add: frame_len_announced)
  show "has_frame (p @ rest)" using len by (simp add: has_frame_def fl SIZEOF_NET_PKG_def)
  show "load_pkg p = \<lparr>pkg_version = PACK_VERSION, pkg_msgID = mid, pkg_length = word_of_int len,
                   pkg_data = take (nat len) buf\<rparr>"
    unfolding p_def by (rule load_pkg_header)
qed

section \<open>Properties\<close>

text \<open>
  C16: on a buffer of less than 2 GiB whose first header, if it is complete, announces a frame of
  less than 2 GiB, \<open>parse_pack\<close> cuts exactly the next frame of the stream off the buffer, or, when
  the frame is not complete, returns 0 and leaves the buffer as it was.  Nothing is asked of what
  follows that frame; the frames of 2 GiB and more are the other case.
\<close>
theorem parse_pack_cuts_one_frame:
  assumes "length buf < 2147483648" "length buf < SIZEOF_NET_PKG \<or> frame_len buf < 2147483648"
  shows "parse_pack buf =
    (if has_frame buf
     then Inr (int (frame_len buf), Some (take (frame_len buf) buf), drop (frame_len buf) buf)
     else Inr (0, None, buf))"
  using assms parse_pack_complete [of buf] parse_pack_incomplete [of buf] by simp

theorem parse_pack_cuts_one_frame_witness:
  "parse_pack (header_bytes 0 7 2 @ [1, 2, 3]) = Inr (12, Some (header_bytes 0 7 2 @ [1, 2]), [3])
   \<and> parse_pack (header_bytes 0 7 2 @ [1]) = Inr (0, None, header_bytes 0 7 2 @ [1])"
proof -
  let ?b = "header_bytes 0 7 2 @ [1, 2, 3]" and ?c = "header_bytes 0 7 2 @ [1]"
  have fl: "frame_len ?b = 12" by (simp add: frame_len_announced codec_simps)
  have hf: "has_frame ?b" by (simp add: has_frame_def fl SIZEOF_NET_PKG_def)
  have fc: "frame_len ?c = 12" by (simp add: frame_len_announced codec_simps)
  then have hc: "\<not> has_frame ?c" by (simp add: has_frame_def)
  show ?thesis
    using parse_pack_cuts_one_frame [of ?b] parse_pack_cuts_one_frame [of ?c] hf fl hc fc by simp
qed

text \<open>
  C8: \<open>create_pack\<close> and \<open>parse_pack\<close> are inverse: the bytes \<open>create_pack\<close> leaves in the
  buffer parse, whatever follows them in the stream, to one packet with version 0, the given
  message id, the payload length and exactly the payload.
\<close>
theorem create_then_parse:
  assumes "0 \<le> len" "len < 1073741824" "10 + nat len \<le> length buf"
    and "length rest < 1073741814"
  shows "\<exists>buf' p. create_pack buf len mid = Inr (len + 10, buf')
      \<and> length buf' = length buf
      \<and> parse_pack (take (nat (len + 10)) buf' @ rest) = Inr (len + 10, Some p, rest)
      \<and> load_pkg p = \<lparr>pkg_version = 0, pkg_msgID = mid, pkg_length = word_of_int len,
                      pkg_data = take (nat len) buf\<rparr>"
proof -
  let ?p = "header_bytes PACK_VERSION mid (word_of_int len) @ take (nat len) buf"
  let ?buf' = "?p @ drop (10 + nat len) buf"
  have "create_pack buf len mid = Inr (len + 10, ?buf')"
    using assms by (simp add: create_pack_result)
  moreover have "take (nat (len + 10)) ?buf' = ?p" "length ?buf' = length buf"
    using assms by (simp_all add: nat_add_distrib)
  moreover have "parse_pack (?p @ rest) = Inr (len + 10, Some ?p, rest)"
    using assms create_pack_frame(1) [where len = len and buf = buf and mid = mid]
      create_pack_frame(2,3) [where len = len and buf = buf and mid = mid and rest = rest]
    by (subst parse_pack_complete) (simp_all add: nat_add_distrib)
  moreover have "load_pkg ?p = \<lparr>pkg_version = 0, pkg_msgID = mid, pkg_length = word_of_int len,
                      pkg_data = take (nat len) buf\<rparr>"
    using create_pack_frame(4) [where len = len and buf = buf and mid = mid] assms
    by (simp add: PACK_VERSION_def)
  ultimately show ?thesis
    by (intro exI [of _ ?buf'] exI [of _ ?p]) simp
qed

theorem create_then_parse_witness:
  "\<exists>buf' p. create_pack (replicate 20 5) 3 9 = Inr (13, buf') \<and> length buf' = 20
      \<and> parse_pack (take 13 buf' @ [8]) = Inr (13, Some p, [8])
      \<and> pkg_msgID (load_pkg p) = 9 \<and> pkg_data (load_pkg p) = replicate 3 5"
proof -
  have "(0::int) \<le> 3" "(3::int) < 1073741824" "10 + nat 3 \<le> length (replicate 20 (5::u8))"
    "length [8::u8] < 1073741814"
    by simp_all
  from create_then_parse [OF this, of 9] obtain buf' p where
    "create_pack (replicate 20 5) 3 9 = Inr (13, buf')" "length buf' = 20"
    "parse_pack (take 13 buf' @ [8]) = Inr (13, Some p, [8])"
    "pkg_msgID (load_pkg p) = 9" "pkg_data (load_pkg p) = replicate 3 5"
    by auto
  then show ?thesis by blast
qed

text \<open>
  C23: the 32-bit length arithmetic of \<open>parse_pack\<close> wraps.  A complete header that announces
  a payload of 2 GiB - 10 bytes or more passes the completeness check although those bytes
  were never received: below 4 GiB - 10 the code allocates and copies a negative number of
  bytes; from 4 GiB - 10 on it cuts \<open>announced + 10 - 2 ^ 32\<close> bytes, fewer than a header.
\<close>
theorem parse_pack_length_wrap:
  assumes "10 \<le> length buf" "length buf < 2147483648" "2147483638 \<le> announced buf"
  shows "parse_pack buf =
    (if announced buf < 4294967286 then Inl Bad_size
     else let n = announced buf + 10 - 4294967296
          in Inr (int n, Some (take n buf), drop n buf))"
proof -
  have "int (announced buf) < 4294967296" using announced_bound [of buf] by simp
  with assms have c: "cint (int (announced buf) + 10) = int (announced buf) + 10 - 4294967296"
    by (intro cint_high) auto
  have i: "int (announced buf + 10 - 4294967296) = int (announced buf) + 10 - 4294967296"
    if "4294967286 \<le> announced buf" using that by simp
  show ?thesis
    using assms announced_bound [of buf]
    by (auto simp: parse_pack_unfold c Let_def i nat_diff_distrib nat_add_distrib)
qed

theorem parse_pack_length_wrap_witness:
  "parse_pack (header_bytes 0 1 4294967290 @ [1, 2]) =
     Inr (4, Some (take 4 (header_bytes 0 1 4294967290)), drop 4 (header_bytes 0 1 4294967290) @ [1, 2])"
  using parse_pack_length_wrap [of "header_bytes 0 1 4294967290 @ [1, 2]"]
  by (simp add: codec_simps)

end
