(* ===== verification/Interfaces.thy ===== *)
theory Interfaces
  imports Prelude
begin

text \<open>
  The contracts between the components, as locales.  \<open>keyed_store\<close> and \<open>keyed_store_insert\<close>
  are what the event handlers rely on of the connection table and of the receive cache;
  \<open>fifo_queue\<close> is what the thread pool relies on of its task queue.  The lemmas proved here
  hold for every provider that discharges the laws; each component interprets its contract on
  its own definitions.
\<close>

section \<open>A store with keyed entries\<close>

locale keyed_store =
  fixes lookup :: "'m \<Rightarrow> 'k \<Rightarrow> 'v option"
    and remove :: "'k \<Rightarrow> 'm \<Rightarrow> 'm"
    and ready :: "'m \<Rightarrow> bool"
  assumes lookup_remove: "ready m \<Longrightarrow> lookup (remove k m) j = (if j = k then None else lookup m j)"
    and ready_remove: "ready m \<Longrightarrow> ready (remove k m)"
begin

lemma ready_remove_all: "ready m \<Longrightarrow> ready (fold remove ks m)"
  by (induction ks arbitrary: m) (auto simp: ready_remove)

text \<open>Removing a list of keys removes exactly those keys, in any order and with repeats.\<close>

lemma lookup_remove_all:
  "ready m \<Longrightarrow> lookup (fold remove ks m) j = (if j \<in> set ks then None else lookup m j)"
  by (induction ks arbitrary: m) (auto simp: lookup_remove ready_remove)

lemma lookup_remove_swap:
  "ready m \<Longrightarrow> lookup (remove a (remove b m)) j = lookup (remove b (remove a m)) j"
  by (simp add: lookup_remove ready_remove)

end

locale keyed_store_insert = keyed_store +
  fixes insert :: "'k \<Rightarrow> 'v \<Rightarrow> 'm \<Rightarrow> 'm"
  assumes lookup_insert:
      "ready m \<Longrightarrow> lookup m k = None \<Longrightarrow> lookup (insert k v m) j = (if j = k then Some v else lookup m j)"
    and ready_insert: "ready m \<Longrightarrow> lookup m k = None \<Longrightarrow> ready (insert k v m)"
begin

text \<open>The find, remove, insert cycle the receive path runs on a connection's leftover bytes.\<close>

lemma lookup_replace:
  "ready m \<Longrightarrow> lookup (insert k v (remove k m)) j = (if j = k then Some v else lookup m j)"
  by (simp add: lookup_insert lookup_remove ready_remove)

lemma ready_replace: "ready m \<Longrightarrow> ready (insert k v (remove k m))"
  by (simp add: ready_insert lookup_remove ready_remove)

end

section \<open>A first-in first-out queue\<close>

text \<open>
  \<open>pop\<close> answers \<open>None\<close> on an empty queue.  \<open>contents\<close> reads the abstract list and \<open>valid\<close>
  is the representation invariant.
\<close>

datatype 'a queue_op = Push 'a | Pop

text \<open>A run of operations: the values popped, in order, and the final queue.\<close>

primrec run_queue ::
    "('a \<Rightarrow> 'q \<Rightarrow> 'q) \<Rightarrow> ('q \<Rightarrow> ('a \<times> 'q) option) \<Rightarrow> 'a queue_op list \<Rightarrow> 'q \<Rightarrow> 'a list \<times> 'q" where
  "run_queue push pop [] q = ([], q)"
| "run_queue push pop (op # ops) q =
     (case op of
        Push x \<Rightarrow> run_queue push pop ops (push x q)
      | Pop \<Rightarrow> (case pop q of
                 None \<Rightarrow> run_queue push pop ops q
               | Some (x, q') \<Rightarrow> (let (out, r) = run_queue push pop ops q' in (x # out, r))))"

primrec pushed :: "'a queue_op list \<Rightarrow> 'a list" where
  "pushed [] = []"
| "pushed (op # ops) = (case op of Push x \<Rightarrow> x # pushed ops | Pop \<Rightarrow> pushed ops)"

locale fifo_queue =
  fixes push :: "'a \<Rightarrow> 'q \<Rightarrow> 'q"
    and pop :: "'q \<Rightarrow> ('a \<times> 'q) option"
    and contents :: "'q \<Rightarrow> 'a list"
    and valid :: "'q \<Rightarrow> bool"
  assumes contents_push: "valid q \<Longrightarrow> contents (push x q) = contents q @ [x]"
    and valid_push: "valid q \<Longrightarrow> valid (push x q)"
    and pop_empty: "valid q \<Longrightarrow> contents q = [] \<Longrightarrow> pop q = None"
    and pop_cons: "valid q \<Longrightarrow> contents q = x # xs \<Longrightarrow>
      \<exists>q'. pop q = Some (x, q') \<and> contents q' = xs \<and> valid q'"
begin

text \<open>
  In every run the values popped, followed by what is still queued, are the values that were
  queued at the start followed by the pushed ones: nothing is lost, duplicated or reordered.
\<close>

lemma run_fifo:
  assumes "valid q"
  shows "fst (run_queue push pop ops q) @ contents (snd (run_queue push pop ops q)) = contents q @ pushed ops
           \<and> valid (snd (run_queue push pop ops q))"
  using assms
proof (induction ops arbitrary: q)
  case Nil
  then show ?case by simp
next
  case (Cons op ops)
  show ?case
  proof (cases op)
    case (Push x)
    then show ?thesis using Cons.IH [of "push x q"] Cons.prems by (simp add: contents_push valid_push)
  next
    case Pop
    show ?thesis
    proof (cases "contents q")
      case Nil
      then show ?thesis using Pop Cons.IH [of q] Cons.prems by (simp add: pop_empty)
    next
      case (Cons x xs)
      from pop_cons [OF \<open>valid q\<close> Cons] obtain q' where
        "pop q = Some (x, q')" "contents q' = xs" "valid q'" by blast
      then show ?thesis using Pop Cons.IH [of q'] Cons
        by (simp add: split_beta)
    qed
  qed
qed

end

end
