(* ===== verification/ConnTable.thy ===== *)
theory ConnTable
  imports Interfaces "HOL-Library.Signed_Division"
begin

text \<open>
  The connection table of \<open>src/conn/conn.h\<close> and \<open>src/conn/conn.cpp\<close>: a map from connection
  ids to connection records under a reader/writer lock, and the generator of connection ids.

  The C library's \<open>srand\<close> and \<open>rand\<close> are a record of two functions over a generator state;
  the readings of the monotonic clock are a list, one per call of the generator.  The retry
  loop of \<open>conn_insert\<close> runs on that list: \<open>None\<close> means that it is still looping after the
  given readings.
\<close>

section \<open>Data\<close>

type_synonym CONNID = u64

definition SVR_INVALID_CONNECT_ID :: CONNID where
  "SVR_INVALID_CONNECT_ID = 0xFFFFFFFFFFFFFFFF"

record clt_info_t =
  iptype :: u8
  ip :: "u8 list"
  client_fd :: int

record svr_connect_t =
  clt :: clt_info_t
  conntype :: int

datatype rwstate = Free | Readers nat | Writer

record conn_table_t =
  conn_map :: "CONNID \<Rightarrow> svr_connect_t option"
  rwlock :: rwstate

definition conn_rlock :: "conn_table_t \<Rightarrow> conn_table_t res" where
  "conn_rlock t = (case rwlock t of
      Free \<Rightarrow> Inr (t\<lparr>rwlock := Readers 1\<rparr>)
    | Readers n \<Rightarrow> Inr (t\<lparr>rwlock := Readers (n + 1)\<rparr>)
    | Writer \<Rightarrow> Inl Deadlock)"

definition conn_wlock :: "conn_table_t \<Rightarrow> conn_table_t res" where
  "conn_wlock t = (case rwlock t of Free \<Rightarrow> Inr (t\<lparr>rwlock := Writer\<rparr>) | _ \<Rightarrow> Inl Deadlock)"

definition conn_unlock :: "conn_table_t \<Rightarrow> conn_table_t" where
  "conn_unlock t = (case rwlock t of
      Readers n \<Rightarrow> t\<lparr>rwlock := (if n \<le> 1 then Free else Readers (n - 1))\<rparr>
    | _ \<Rightarrow> t\<lparr>rwlock := Free\<rparr>)"

section \<open>Connection ids\<close>

record 's prng =
  srand_fn :: "u32 \<Rightarrow> 's"
  rand_fn :: "'s \<Rightarrow> int \<times> 's"

primrec rand_words :: "'s prng \<Rightarrow> nat \<Rightarrow> 's \<Rightarrow> u8 list \<times> 's" where
  "rand_words P 0 s = ([], s)"
| "rand_words P (Suc n) s =
     (let (each_num, s') = rand_fn P s; (bs, s'') = rand_words P n s'
      in (le_enc 4 (unat (word_of_int each_num :: u32)) @ bs, s''))"

definition ssmp_rand :: "'s prng \<Rightarrow> int \<Rightarrow> nat \<Rightarrow> 's \<Rightarrow> u8 list \<times> 's" where
  "ssmp_rand P tv_sec nbytes s =
     (let (r, _) = rand_fn P s;
          seed = (word_of_int (tv_sec + r smod 10000) :: u32);
          s' = srand_fn P seed;
          remain = nbytes mod 4;
          (bs, s'') = rand_words P (nbytes div 4) s'
      in if remain \<noteq> 0
         then let (each_num, s3) = rand_fn P s''
              in (bs @ take remain (le_enc 4 (unat (word_of_int each_num :: u32))), s3)
         else (bs, s''))"

definition Gen_ConnID :: "'s prng \<Rightarrow> int \<Rightarrow> 's \<Rightarrow> CONNID \<times> 's" where
  "Gen_ConnID P tv_sec s =
     (let (bs, s') = ssmp_rand P tv_sec 8 s in (word_of_nat (le_dec bs), s'))"

section \<open>Operations\<close>

definition create_conn_table :: conn_table_t where
  "create_conn_table = \<lparr>conn_map = (\<lambda>_. None), rwlock = Free\<rparr>"

fun gen_unused :: "'s prng \<Rightarrow> int list \<Rightarrow> 's \<Rightarrow> (CONNID \<Rightarrow> svr_connect_t option) \<Rightarrow> (CONNID \<times> 's) option" where
  "gen_unused P [] s m = None"
| "gen_unused P (t # ts) s m =
     (let (cid, s') = Gen_ConnID P t s
      in if m cid \<noteq> None \<or> cid = SVR_INVALID_CONNECT_ID then gen_unused P ts s' m
         else Some (cid, s'))"

definition conn_insert ::
    "'s prng \<Rightarrow> int list \<Rightarrow> 's \<Rightarrow> conn_table_t \<Rightarrow> svr_connect_t \<Rightarrow> (CONNID \<times> conn_table_t \<times> 's) option res" where
  "conn_insert P clock s table conn =
     bind_res (conn_wlock table) (\<lambda>table.
       case gen_unused P clock s (conn_map table) of
         None \<Rightarrow> Inr None
       | Some (cid, s') \<Rightarrow>
           Inr (Some (cid, conn_unlock (table\<lparr>conn_map := (conn_map table)(cid \<mapsto> conn)\<rparr>), s')))"

definition conn_remove :: "conn_table_t \<Rightarrow> CONNID \<Rightarrow> (int \<times> conn_table_t) res" where
  "conn_remove table cid =
     bind_res (conn_wlock table) (\<lambda>table.
       let table = (if conn_map table cid \<noteq> None
                    then table\<lparr>conn_map := (conn_map table)(cid := None)\<rparr> else table)
       in Inr (0, conn_unlock table))"

definition conn_find :: "conn_table_t \<Rightarrow> CONNID \<Rightarrow> (int \<times> svr_connect_t option \<times> conn_table_t) res" where
  "conn_find table cid =
     bind_res (conn_rlock table) (\<lambda>table.
       case conn_map table cid of
         Some c \<Rightarrow> Inr (0, Some c, conn_unlock table)
       | None \<Rightarrow> Inr (- 1, None, conn_unlock table))"

definition conn_get_sockfd :: "conn_table_t \<Rightarrow> CONNID \<Rightarrow> (int \<times> conn_table_t) res" where
  "conn_get_sockfd table cid =
     bind_res (conn_rlock table) (\<lambda>table.
       let socket = (case conn_map table cid of Some c \<Rightarrow> client_fd (clt c) | None \<Rightarrow> - 1)
       in Inr (socket, conn_unlock table))"

definition release_conn_table :: "conn_table_t ptr \<Rightarrow> conn_table_t ptr" where
  "release_conn_table table = (case table of Live _ \<Rightarrow> Dangling | p \<Rightarrow> p)"

section \<open>The operations from a free lock\<close>

lemma conn_remove_free [lock_simps]:
  "rwlock t = Free \<Longrightarrow> conn_remove t cid = Inr (0, t\<lparr>conn_map := (conn_map t)(cid := None)\<rparr>)"
  by (cases t) (auto simp: conn_remove_def conn_wlock_def conn_unlock_def Let_def fun_eq_iff)

lemma conn_get_sockfd_free [lock_simps]:
  "rwlock t = Free \<Longrightarrow> conn_get_sockfd t cid =
     Inr (case conn_map t cid of Some c \<Rightarrow> client_fd (clt c) | None \<Rightarrow> - 1, t)"
  by (cases t) (auto simp: conn_get_sockfd_def conn_rlock_def conn_unlock_def Let_def split: option.splits)

lemma conn_find_free [lock_simps]:
  "rwlock t = Free \<Longrightarrow> conn_find t cid =
     Inr (if conn_map t cid = None then - 1 else 0, conn_map t cid, t)"
  by (cases t) (auto simp: conn_find_def conn_rlock_def conn_unlock_def split: option.splits)

lemma conn_insert_free [lock_simps]:
  "rwlock t = Free \<Longrightarrow> conn_insert P clock s t c =
     Inr (map_option (\<lambda>(cid, s'). (cid, t\<lparr>conn_map := (conn_map t)(cid \<mapsto> c)\<rparr>, s'))
            (gen_unused P clock s (conn_map t)))"
  by (cases t) (auto simp: conn_insert_def conn_wlock_def conn_unlock_def split: option.splits)

lemma gen_unused_Some:
  "gen_unused P ts s m = Some (cid, s') \<Longrightarrow> m cid = None \<and> cid \<noteq> SVR_INVALID_CONNECT_ID"
  by (induction P ts s m rule: gen_unused.induct) (auto simp: Let_def split: prod.splits if_splits)

text \<open>
  What the code relies on of the C library's generator: \<open>rand\<close> answers between 0 and
  \<open>RAND_MAX\<close>, which is \<open>2 ^ 31 - 1\<close>.
\<close>

definition rand_in_range :: "'s prng \<Rightarrow> bool" where
  "rand_in_range P \<longleftrightarrow> (\<forall>s. 0 \<le> fst (rand_fn P s) \<and> fst (rand_fn P s) < 2147483648)"

text \<open>The id the generator derives from a seed: two words of the reseeded generator.\<close>

definition id_of_seed :: "'s prng \<Rightarrow> u32 \<Rightarrow> CONNID" where
  "id_of_seed P seed = word_of_nat (le_dec (fst (rand_words P 2 (srand_fn P seed))))"

lemma Gen_ConnID_id_of_seed:
  "fst (Gen_ConnID P t s) = id_of_seed P (word_of_int (t + fst (rand_fn P s) smod 10000))"
  by (simp add: Gen_ConnID_def ssmp_rand_def id_of_seed_def split_beta Let_def)

definition low_word :: "CONNID \<Rightarrow> nat" where
  "low_word cid = unat cid mod 4294967296"

definition high_word :: "CONNID \<Rightarrow> nat" where
  "high_word cid = unat cid div 4294967296"

lemma unat_u32_of_rand:
  "0 \<le> r \<Longrightarrow> r < 2147483648 \<Longrightarrow> unat (word_of_int r :: u32) = nat r"
  by (rule unat_word_of_int_u32) auto

lemma id_of_seed_words:
  assumes "rand_in_range P"
  shows "low_word (id_of_seed P seed) < 2147483648" "high_word (id_of_seed P seed) < 2147483648"
proof -
  define r1 where "r1 = fst (rand_fn P (srand_fn P seed))"
  define r2 where "r2 = fst (rand_fn P (snd (rand_fn P (srand_fn P seed))))"
  have r: "0 \<le> r1" "r1 < 2147483648" "0 \<le> r2" "r2 < 2147483648"
    using assms by (auto simp: rand_in_range_def r1_def r2_def)
  have "le_dec (fst (rand_words P 2 (srand_fn P seed))) = nat r1 + 4294967296 * nat r2"
    using r by (simp add: numeral_2_eq_2 split_beta le_dec_append unat_u32_of_rand
        flip: r1_def r2_def)
  moreover have "nat r1 + 4294967296 * nat r2 < 18446744073709551616"
    using r by linarith
  ultimately have "unat (id_of_seed P seed) = nat r1 + 4294967296 * nat r2"
    unfolding id_of_seed_def unat_u64_of_nat by (simp only: mod_less)
  then show "low_word (id_of_seed P seed) < 2147483648" "high_word (id_of_seed P seed) < 2147483648"
    using r by (simp_all add: low_word_def high_word_def)
qed

lemma low_word_invalid: "low_word SVR_INVALID_CONNECT_ID = 4294967295"
  by (simp add: low_word_def SVR_INVALID_CONNECT_ID_def)

lemma Gen_ConnID_not_invalid:
  "rand_in_range P \<Longrightarrow> fst (Gen_ConnID P t s) \<noteq> SVR_INVALID_CONNECT_ID"
  using id_of_seed_words(1) [of P "word_of_int (t + fst (rand_fn P s) smod 10000)"] low_word_invalid
  by (auto simp: Gen_ConnID_id_of_seed)

section \<open>The table as a keyed store\<close>

definition conn_lookup :: "conn_table_t \<Rightarrow> CONNID \<Rightarrow> svr_connect_t option" where
  "conn_lookup t cid = conn_map t cid"

definition conn_drop :: "CONNID \<Rightarrow> conn_table_t \<Rightarrow> conn_table_t" where
  "conn_drop cid t = (case conn_remove t cid of Inr (_, t') \<Rightarrow> t' | Inl _ \<Rightarrow> t)"

definition conn_free :: "conn_table_t \<Rightarrow> bool" where
  "conn_free t \<longleftrightarrow> rwlock t = Free"

interpretation conn_store: keyed_store conn_lookup conn_drop conn_free
  by unfold_locales (auto simp: conn_lookup_def conn_drop_def conn_free_def lock_simps)

section \<open>Properties\<close>

primrec ids_tried :: "'s prng \<Rightarrow> int list \<Rightarrow> 's \<Rightarrow> CONNID list" where
  "ids_tried P [] s = []"
| "ids_tried P (t # ts) s = fst (Gen_ConnID P t s) # ids_tried P ts (snd (Gen_ConnID P t s))"

lemma gen_unused_None_iff:
  "gen_unused P ts s m = None \<longleftrightarrow>
     (\<forall>cid \<in> set (ids_tried P ts s). m cid \<noteq> None \<or> cid = SVR_INVALID_CONNECT_ID)"
  by (induction P ts s m rule: gen_unused.induct) (auto simp: Let_def split: prod.splits)

text \<open>The generator of the witnesses: a counter modulo the range of \<open>rand\<close>.\<close>

definition counter_prng :: "u32 prng" where
  "counter_prng = \<lparr>srand_fn = (\<lambda>seed. seed), rand_fn = (\<lambda>s. (uint s mod 2147483648, s + 1))\<rparr>"

lemma counter_prng_range: "rand_in_range counter_prng"
  by (simp add: rand_in_range_def counter_prng_def)

definition a_conn :: svr_connect_t where
  "a_conn = \<lparr>clt = \<lparr>iptype = 0, ip = replicate 16 0, client_fd = 7\<rparr>, conntype = 0\<rparr>"

text \<open>
  C17: when \<open>conn_insert\<close> returns, the id is new and is not the reserved invalid id, the record
  is found under it, every other entry is untouched and the lock is free again; it returns
  exactly when one of the ids it draws is neither taken nor the reserved one.
\<close>
theorem conn_insert_contract:
  assumes "rwlock t = Free"
  shows "\<exists>r. conn_insert P clock s t c = Inr r
    \<and> (r = None \<longleftrightarrow> (\<forall>cid \<in> set (ids_tried P clock s). conn_map t cid \<noteq> None \<or> cid = SVR_INVALID_CONNECT_ID))
    \<and> (\<forall>cid t' s'. r = Some (cid, t', s') \<longrightarrow>
         conn_map t cid = None \<and> cid \<noteq> SVR_INVALID_CONNECT_ID
         \<and> conn_find t' cid = Inr (0, Some c, t')
         \<and> (\<forall>j. j \<noteq> cid \<longrightarrow> conn_map t' j = conn_map t j) \<and> rwlock t' = Free)"
  using assms gen_unused_None_iff [of P clock s "conn_map t"]
  by (fastforce simp: lock_simps dest: gen_unused_Some)

theorem conn_insert_contract_witness:
  "\<exists>cid t' s'. conn_insert counter_prng [5] 3 create_conn_table a_conn = Inr (Some (cid, t', s'))
     \<and> conn_find t' cid = Inr (0, Some a_conn, t')"
proof -
  have free: "rwlock create_conn_table = Free" by (simp add: create_conn_table_def)
  have usable: "\<not> (\<forall>cid \<in> set (ids_tried counter_prng [5] 3).
      conn_map create_conn_table cid \<noteq> None \<or> cid = SVR_INVALID_CONNECT_ID)"
    using Gen_ConnID_not_invalid [OF counter_prng_range] by (simp add: create_conn_table_def)
  from conn_insert_contract [OF free, of counter_prng "[5]" 3 a_conn] usable
  show ?thesis by auto
qed

text \<open>
  C27: an id never collides with the reserved value, and carries far less than 64 bits: bits 31
  and 63 are always clear, and one clock second yields at most 10000 different ids, because the
  generator is reseeded with the second plus \<open>rand() % 10000\<close>.
\<close>
theorem conn_ids_per_second:
  assumes "rand_in_range P"
  shows "card (range (\<lambda>s. fst (Gen_ConnID P tv_sec s))) \<le> 10000
    \<and> fst (Gen_ConnID P tv_sec s) \<noteq> SVR_INVALID_CONNECT_ID
    \<and> low_word (fst (Gen_ConnID P tv_sec s)) < 2147483648
    \<and> high_word (fst (Gen_ConnID P tv_sec s)) < 2147483648"
proof -
  let ?ids = "(\<lambda>k. id_of_seed P (word_of_int (tv_sec + k))) ` {0..<10000}"
  have "range (\<lambda>s. fst (Gen_ConnID P tv_sec s)) \<subseteq> ?ids"
  proof
    fix x assume "x \<in> range (\<lambda>s. fst (Gen_ConnID P tv_sec s))"
    then obtain s where x: "x = id_of_seed P (word_of_int (tv_sec + fst (rand_fn P s) smod 10000))"
      by (auto simp: Gen_ConnID_id_of_seed)
    have "0 \<le> fst (rand_fn P s)" using assms by (simp add: rand_in_range_def)
    then have "fst (rand_fn P s) smod 10000 \<in> {0..<10000}"
      by (simp add: signed_modulo_int_def sgn_if)
    then show "x \<in> ?ids" using x by blast
  qed
  then have "card (range (\<lambda>s. fst (Gen_ConnID P tv_sec s))) \<le> card ?ids"
    by (intro card_mono) auto
  also have "\<dots> \<le> card {0..<10000 :: int}" by (rule card_image_le) simp
  finally show ?thesis
    using id_of_seed_words [OF assms] Gen_ConnID_not_invalid [OF assms]
    by (simp add: Gen_ConnID_id_of_seed)
qed

theorem conn_ids_per_second_witness:
  "card (range (\<lambda>s. fst (Gen_ConnID counter_prng 5 s))) \<le> 10000"
  using conn_ids_per_second [OF counter_prng_range, of 5 0] by simp

text \<open>
  consequently \<open>conn_insert\<close> holds the writer lock and spins, however often it draws, for
  as long as the clock shows a second whose 10000 ids are all taken.
\<close>
theorem conn_insert_spins:
  assumes "rand_in_range P" "rwlock t = Free"
    and "\<forall>k \<in> {0..<10000}. conn_map t (id_of_seed P (word_of_int (tv_sec + k))) \<noteq> None"
  shows "conn_insert P (replicate n tv_sec) s t c = Inr None"
proof -
  have taken: "conn_map t (fst (Gen_ConnID P tv_sec s)) \<noteq> None" for s
  proof -
    have "0 \<le> fst (rand_fn P s)" using assms(1) by (simp add: rand_in_range_def)
    then have "fst (rand_fn P s) smod 10000 \<in> {0..<10000}"
      by (simp add: signed_modulo_int_def sgn_if)
    then show ?thesis using assms(3) by (simp add: Gen_ConnID_id_of_seed)
  qed
  have "\<forall>cid \<in> set (ids_tried P (replicate n tv_sec) s). conn_map t cid \<noteq> None"
    using taken by (induction n arbitrary: s) auto
  then have "gen_unused P (replicate n tv_sec) s (conn_map t) = None"
    by (simp add: gen_unused_None_iff)
  then show ?thesis using assms(2) by (simp add: lock_simps)
qed

theorem conn_insert_spins_witness:
  "conn_insert counter_prng (replicate 1000 5) 3 \<lparr>conn_map = (\<lambda>_. Some a_conn), rwlock = Free\<rparr> a_conn
     = Inr None"
  by (rule conn_insert_spins [OF counter_prng_range]) auto

end
