(* ===== verification/RecvHelper.thy ===== *)
theory RecvHelper
  imports ConnTable
begin

text \<open>
  The receive cache of \<open>src/helper/recvhelper.h\<close> and \<open>src/helper/recvhelper.cpp\<close>: the bytes of
  an incomplete packet, per connection, under a mutex.  A call's data pointer and length are a
  byte list, the memory from the pointer on, and an \<open>int\<close>.

  The parameter \<open>ndebug\<close> tells whether the file is compiled with \<open>NDEBUG\<close>; the repository's
  build files do not define it, so \<open>False\<close> is the program as built.
\<close>

section \<open>Data and lock\<close>

record recv_helper_t =
  rh_lock :: bool
  m_datamap :: "CONNID \<Rightarrow> u8 list option"

definition recv_lock :: "recv_helper_t \<Rightarrow> recv_helper_t res" where
  "recv_lock h = (if rh_lock h then Inl Deadlock else Inr (h\<lparr>rh_lock := True\<rparr>))"

definition recv_unlock :: "recv_helper_t \<Rightarrow> recv_helper_t" where
  "recv_unlock h = h\<lparr>rh_lock := False\<rparr>"

section \<open>Operations\<close>

definition create_recv_helper :: recv_helper_t where
  "create_recv_helper = \<lparr>rh_lock = False, m_datamap = (\<lambda>_. None)\<rparr>"

definition release_recv_helper :: "recv_helper_t ptr \<Rightarrow> recv_helper_t ptr" where
  "release_recv_helper helper = (case helper of Live _ \<Rightarrow> Dangling | p \<Rightarrow> p)"

definition MRecv_insert :: "bool \<Rightarrow> recv_helper_t \<Rightarrow> CONNID \<Rightarrow> u8 list \<Rightarrow> int \<Rightarrow> (int \<times> recv_helper_t) res" where
  "MRecv_insert ndebug helper cid data len =
     bind_res (recv_lock helper) (\<lambda>helper.
       if m_datamap helper cid \<noteq> None
       then (if ndebug then Inr (- 1, recv_unlock helper) else Inl Assert_failed)
       else if len < 0 then Inl Bad_size
       else if int (length data) < len then Inl Out_of_bounds
       else Inr (0, recv_unlock (helper\<lparr>m_datamap := (m_datamap helper)(cid \<mapsto> take (nat len) data)\<rparr>)))"

definition MRecv_find :: "recv_helper_t \<Rightarrow> CONNID \<Rightarrow> int \<Rightarrow> (int \<times> u8 list option \<times> int \<times> recv_helper_t) res" where
  "MRecv_find helper cid len =
     bind_res (recv_lock helper) (\<lambda>helper.
       case m_datamap helper cid of
         None \<Rightarrow> Inr (- 1, None, - 1, recv_unlock helper)
       | Some d \<Rightarrow>
           if csize len < int (length d) then Inr (- 1, None, cint (int (length d)), recv_unlock helper)
           else Inr (0, Some d, cint (int (length d)), recv_unlock helper))"

definition MRecv_remove :: "recv_helper_t \<Rightarrow> CONNID \<Rightarrow> (int \<times> recv_helper_t) res" where
  "MRecv_remove helper cid =
     bind_res (recv_lock helper) (\<lambda>helper.
       let helper = (if m_datamap helper cid = None then helper
                     else helper\<lparr>m_datamap := (m_datamap helper)(cid := None)\<rparr>)
       in Inr (0, recv_unlock helper))"

section \<open>The operations from a free lock\<close>

lemma MRecv_insert_free [lock_simps]:
  "\<not> rh_lock h \<Longrightarrow> m_datamap h cid = None \<Longrightarrow> 0 \<le> len \<Longrightarrow> len \<le> int (length data) \<Longrightarrow>
   MRecv_insert nd h cid data len = Inr (0, h\<lparr>m_datamap := (m_datamap h)(cid \<mapsto> take (nat len) data)\<rparr>)"
  by (cases h) (auto simp: MRecv_insert_def recv_lock_def recv_unlock_def)

lemma MRecv_insert_twice [lock_simps]:
  "\<not> rh_lock h \<Longrightarrow> m_datamap h cid = Some d \<Longrightarrow>
   MRecv_insert nd h cid data len = (if nd then Inr (- 1, h) else Inl Assert_failed)"
  by (cases h) (auto simp: MRecv_insert_def recv_lock_def recv_unlock_def)

lemma MRecv_find_free [lock_simps]:
  "\<not> rh_lock h \<Longrightarrow> MRecv_find h cid len =
     (case m_datamap h cid of
        None \<Rightarrow> Inr (- 1, None, - 1, h)
      | Some d \<Rightarrow> if csize len < int (length d) then Inr (- 1, None, cint (int (length d)), h)
                 else Inr (0, Some d, cint (int (length d)), h))"
  by (cases h) (auto simp: MRecv_find_def recv_lock_def recv_unlock_def split: option.splits)

lemma MRecv_remove_free [lock_simps]:
  "\<not> rh_lock h \<Longrightarrow> MRecv_remove h cid = Inr (0, h\<lparr>m_datamap := (m_datamap h)(cid := None)\<rparr>)"
  by (cases h) (auto simp: MRecv_remove_def recv_lock_def recv_unlock_def Let_def fun_eq_iff)

section \<open>The cache as a keyed store\<close>

definition recv_lookup :: "recv_helper_t \<Rightarrow> CONNID \<Rightarrow> u8 list option" where
  "recv_lookup h cid = m_datamap h cid"

definition recv_drop :: "CONNID \<Rightarrow> recv_helper_t \<Rightarrow> recv_helper_t" where
  "recv_drop cid h = (case MRecv_remove h cid of Inr (_, h') \<Rightarrow> h' | Inl _ \<Rightarrow> h)"

definition recv_put :: "CONNID \<Rightarrow> u8 list \<Rightarrow> recv_helper_t \<Rightarrow> recv_helper_t" where
  "recv_put cid d h = (case MRecv_insert False h cid d (int (length d)) of Inr (_, h') \<Rightarrow> h' | Inl _ \<Rightarrow> h)"

definition recv_free :: "recv_helper_t \<Rightarrow> bool" where
  "recv_free h \<longleftrightarrow> \<not> rh_lock h"

interpretation recv_store: keyed_store_insert recv_lookup recv_drop recv_free recv_put
  by unfold_locales
    (auto simp: recv_lookup_def recv_drop_def recv_put_def recv_free_def lock_simps)

section \<open>Properties\<close>

text \<open>
  what the receive path does with a connection's leftover: dropping the old entry and
  storing new bytes makes exactly those bytes come back from \<open>MRecv_find\<close> when the caller's
  buffer is large enough, and the needed size with result -1 when it is not; no other
  connection's entry changes and the mutex is free after each call.
\<close>
theorem recv_cache_replace:
  assumes "\<not> rh_lock h" "length d < 2147483648" "0 \<le> len" "len < 2147483648"
  shows "\<exists>h'. bind_res (MRecv_remove h cid) (\<lambda>(_, h). MRecv_insert False h cid d (int (length d)))
               = Inr (0, h')
    \<and> MRecv_find h' cid len =
        (if int (length d) \<le> len then Inr (0, Some d, int (length d), h')
         else Inr (- 1, None, int (length d), h'))
    \<and> (\<forall>j. j \<noteq> cid \<longrightarrow> m_datamap h' j = m_datamap h j) \<and> \<not> rh_lock h'"
proof -
  let ?h' = "recv_put cid d (recv_drop cid h)"
  have "bind_res (MRecv_remove h cid) (\<lambda>(_, h). MRecv_insert False h cid d (int (length d))) = Inr (0, ?h')"
    using assms(1) by (simp add: recv_put_def recv_drop_def lock_simps)
  moreover have look: "recv_lookup ?h' j = (if j = cid then Some d else recv_lookup h j)" for j
    using assms(1) by (intro recv_store.lookup_replace) (simp add: recv_free_def)
  moreover have "recv_free ?h'"
    using assms(1) by (intro recv_store.ready_replace) (simp add: recv_free_def)
  ultimately show ?thesis using assms(2-4)
    by (intro exI [of _ ?h']) (simp add: lock_simps recv_lookup_def recv_free_def)
qed

theorem recv_cache_replace_witness:
  "\<exists>h'. bind_res (MRecv_remove create_recv_helper 5) (\<lambda>(_, h). MRecv_insert False h 5 [1, 2, 3] 3) = Inr (0, h')
     \<and> MRecv_find h' 5 66560 = Inr (0, Some [1, 2, 3], 3, h')"
  using recv_cache_replace [of create_recv_helper "[1, 2, 3]" 66560 5]
  by (auto simp: create_recv_helper_def)

end
