(* ===== verification/SendHelper.thy ===== *)
theory SendHelper
  imports ConnTable Config
begin

text \<open>
  The send queue of \<open>src/helper/sendhelper.h\<close> and \<open>src/helper/sendhelper.cpp\<close>: the responses
  of all connections in one list under a mutex.  A small response is appended to the entry at
  the front of the list when that entry belongs to the same connection.
\<close>

section \<open>Data and lock\<close>

record SEND_T =
  snd_conn_id :: CONNID
  snd_data :: "u8 list"

record send_queue_t =
  sq_lock :: bool
  m_list :: "SEND_T list"

definition create_send_queue :: send_queue_t where
  "create_send_queue = \<lparr>sq_lock = False, m_list = []\<rparr>"

definition queue_lock :: "send_queue_t \<Rightarrow> send_queue_t res" where
  "queue_lock q = (if sq_lock q then Inl Deadlock else Inr (q\<lparr>sq_lock := True\<rparr>))"

definition queue_unlock :: "send_queue_t \<Rightarrow> send_queue_t" where
  "queue_unlock q = q\<lparr>sq_lock := False\<rparr>"

section \<open>Operations\<close>

definition front_hit :: "SEND_T list \<Rightarrow> CONNID \<Rightarrow> bool" where
  "front_hit l cid = (case l of [] \<Rightarrow> False | e # _ \<Rightarrow> snd_conn_id e = cid)"

definition QSend_push :: "send_queue_t \<Rightarrow> CONNID \<Rightarrow> u8 list \<Rightarrow> int \<Rightarrow> (int \<times> send_queue_t) res" where
  "QSend_push queue connectId data len =
     bind_res (queue_lock queue) (\<lambda>queue.
       if len < 0 then Inl Bad_size
       else if int (length data) < len then Inl Out_of_bounds
       else
         let x = \<lparr>snd_conn_id = connectId, snd_data = take (nat len) data\<rparr>;
             hit = front_hit (m_list queue) connectId;
             l = (if hit \<and> csize (int (length (snd_data (hd (m_list queue)))) + len) < int NET_SEND_BUFF_SIZE
                  then (hd (m_list queue))\<lparr>snd_data := snd_data (hd (m_list queue)) @ snd_data x\<rparr>
                         # tl (m_list queue)
                  else m_list queue @ [x])
         in Inr (0, queue_unlock (queue\<lparr>m_list := l\<rparr>)))"

fun erase_first :: "CONNID \<Rightarrow> SEND_T list \<Rightarrow> SEND_T list" where
  "erase_first cid [] = []"
| "erase_first cid (e # es) = (if cid = snd_conn_id e then es else e # erase_first cid es)"

definition QSend_pop_first :: "send_queue_t \<Rightarrow> CONNID \<Rightarrow> int \<Rightarrow> (int \<times> u8 list option \<times> int \<times> send_queue_t) res" where
  "QSend_pop_first queue cid len =
     bind_res (queue_lock queue) (\<lambda>queue.
       case find (\<lambda>element. cid = snd_conn_id element) (m_list queue) of
         None \<Rightarrow> Inr (- 1, None, len, queue_unlock queue)
       | Some e \<Rightarrow>
           if csize len < int (length (snd_data e))
           then Inr (- 1, None, cint (int (length (snd_data e))), queue_unlock queue)
           else Inr (0, Some (snd_data e), cint (int (length (snd_data e))),
                     queue_unlock (queue\<lparr>m_list := erase_first cid (m_list queue)\<rparr>)))"

definition QSend_connid_of_front :: "send_queue_t \<Rightarrow> (CONNID \<times> send_queue_t) res" where
  "QSend_connid_of_front queue =
     bind_res (queue_lock queue) (\<lambda>queue.
       Inr (case m_list queue of [] \<Rightarrow> SVR_INVALID_CONNECT_ID | e # _ \<Rightarrow> snd_conn_id e, queue_unlock queue))"

fun erase_loop :: "CONNID \<Rightarrow> SEND_T list \<Rightarrow> SEND_T list" where
  "erase_loop cid [] = []"
| "erase_loop cid (e # es) = (if snd_conn_id e = cid then erase_loop cid es else e # erase_loop cid es)"

definition QSend_remove_all_by_connid :: "send_queue_t \<Rightarrow> CONNID \<Rightarrow> (int \<times> send_queue_t) res" where
  "QSend_remove_all_by_connid queue cid =
     bind_res (queue_lock queue) (\<lambda>queue.
       Inr (0, queue_unlock (queue\<lparr>m_list := erase_loop cid (m_list queue)\<rparr>)))"

definition QSend_size :: "send_queue_t \<Rightarrow> (int \<times> send_queue_t) res" where
  "QSend_size queue =
     bind_res (queue_lock queue) (\<lambda>queue. Inr (cint (int (length (m_list queue))), queue_unlock queue))"

section \<open>The operations from a free lock\<close>

lemma erase_loop_filter [simp]: "erase_loop cid l = filter (\<lambda>e. snd_conn_id e \<noteq> cid) l"
  by (induction l) auto

definition coalesces :: "SEND_T list \<Rightarrow> CONNID \<Rightarrow> nat \<Rightarrow> bool" where
  "coalesces l cid n \<longleftrightarrow> (\<exists>e es. l = e # es \<and> snd_conn_id e = cid
     \<and> length (snd_data e) + n < NET_SEND_BUFF_SIZE)"

definition push_list :: "CONNID \<Rightarrow> u8 list \<Rightarrow> SEND_T list \<Rightarrow> SEND_T list" where
  "push_list cid d l =
     (if coalesces l cid (length d) then (hd l)\<lparr>snd_data := snd_data (hd l) @ d\<rparr> # tl l
      else l @ [\<lparr>snd_conn_id = cid, snd_data = d\<rparr>])"

lemma QSend_push_free [lock_simps]:
  assumes "\<not> sq_lock q" "0 \<le> len" "len \<le> int (length data)"
    and "\<And>e. e \<in> set (m_list q) \<Longrightarrow> length (snd_data e) < 2147483648" "len < 2147483648"
  shows "QSend_push q cid data len = Inr (0, q\<lparr>m_list := push_list cid (take (nat len) data) (m_list q)\<rparr>)"
proof (cases "m_list q")
  case Nil
  then show ?thesis using assms
    by (cases q) (simp add: QSend_push_def queue_lock_def queue_unlock_def push_list_def coalesces_def
        front_hit_def)
next
  case (Cons e es)
  have l: "length (take (nat len) data) = nat len" using assms(2,3) by simp
  have "csize (int (length (snd_data e)) + len) < int NET_SEND_BUFF_SIZE
      \<longleftrightarrow> length (snd_data e) + nat len < NET_SEND_BUFF_SIZE"
  proof -
    have "length (snd_data e) < 2147483648" using assms(4) Cons by simp
    then have "csize (int (length (snd_data e)) + len) = int (length (snd_data e)) + len"
      using assms(2,5) by simp
    then show ?thesis using assms(2) by (simp add: size_simps) linarith
  qed
  then show ?thesis using assms l Cons
    by (cases q) (auto simp: QSend_push_def queue_lock_def queue_unlock_def push_list_def coalesces_def
        front_hit_def Let_def)
qed

lemma QSend_pop_first_free [lock_simps]:
  "\<not> sq_lock q \<Longrightarrow> QSend_pop_first q cid len =
     (case find (\<lambda>e. cid = snd_conn_id e) (m_list q) of
        None \<Rightarrow> Inr (- 1, None, len, q)
      | Some e \<Rightarrow> if csize len < int (length (snd_data e))
                 then Inr (- 1, None, cint (int (length (snd_data e))), q)
                 else Inr (0, Some (snd_data e), cint (int (length (snd_data e))),
                           q\<lparr>m_list := erase_first cid (m_list q)\<rparr>))"
  by (cases q) (auto simp: QSend_pop_first_def queue_lock_def queue_unlock_def split: option.splits)

lemma QSend_connid_of_front_free [lock_simps]:
  "\<not> sq_lock q \<Longrightarrow> QSend_connid_of_front q =
     Inr (case m_list q of [] \<Rightarrow> SVR_INVALID_CONNECT_ID | e # _ \<Rightarrow> snd_conn_id e, q)"
  by (cases q) (auto simp: QSend_connid_of_front_def queue_lock_def queue_unlock_def)

lemma QSend_remove_all_free [lock_simps]:
  "\<not> sq_lock q \<Longrightarrow> QSend_remove_all_by_connid q cid =
     Inr (0, q\<lparr>m_list := filter (\<lambda>e. snd_conn_id e \<noteq> cid) (m_list q)\<rparr>)"
  by (cases q) (auto simp: QSend_remove_all_by_connid_def queue_lock_def queue_unlock_def)

lemma QSend_size_free [lock_simps]:
  "\<not> sq_lock q \<Longrightarrow> QSend_size q = Inr (cint (int (length (m_list q))), q)"
  by (cases q) (auto simp: QSend_size_def queue_lock_def queue_unlock_def)

section \<open>The bytes queued for a connection\<close>

definition conn_bytes :: "CONNID \<Rightarrow> SEND_T list \<Rightarrow> u8 list" where
  "conn_bytes cid l = concat (map snd_data (filter (\<lambda>e. snd_conn_id e = cid) l))"

lemma conn_bytes_simps [simp]:
  "conn_bytes cid [] = []"
  "conn_bytes cid (e # es) = (if snd_conn_id e = cid then snd_data e else []) @ conn_bytes cid es"
  "conn_bytes cid (l @ l') = conn_bytes cid l @ conn_bytes cid l'"
  by (auto simp: conn_bytes_def)

lemma conn_bytes_filter [simp]:
  "conn_bytes j (filter (\<lambda>e. snd_conn_id e \<noteq> cid) l) = (if j = cid then [] else conn_bytes j l)"
  by (induction l) auto

lemma conn_bytes_erase_first:
  "find (\<lambda>e. cid = snd_conn_id e) l = Some e \<Longrightarrow>
     conn_bytes j l = (if j = cid then snd_data e @ conn_bytes j (erase_first cid l)
                       else conn_bytes j (erase_first cid l))"
  by (induction l) (auto split: if_splits)

lemma conn_bytes_push:
  "conn_bytes j (push_list cid d l) =
     (if j \<noteq> cid then conn_bytes j l
      else if coalesces l cid (length d) then snd_data (hd l) @ d @ conn_bytes cid (tl l)
      else conn_bytes cid l @ d)"
  by (auto simp: push_list_def coalesces_def)

text \<open>
  The size invariant: no entry is as large as the buffer the EPOLLOUT handler pops into.
\<close>

definition send_fits :: "SEND_T list \<Rightarrow> bool" where
  "send_fits l \<longleftrightarrow> (\<forall>e \<in> set l. length (snd_data e) < NET_SEND_BUFF_SIZE)"

lemma send_fits_push: "send_fits l \<Longrightarrow> length d < NET_SEND_BUFF_SIZE \<Longrightarrow> send_fits (push_list cid d l)"
  by (cases l) (auto simp: send_fits_def push_list_def coalesces_def)

lemma set_erase_first: "set (erase_first cid l) \<subseteq> set l"
  by (induction l) auto

lemma send_fits_erase [simp]:
  "send_fits l \<Longrightarrow> send_fits (erase_first cid l)"
  "send_fits l \<Longrightarrow> send_fits (filter P l)"
  using set_erase_first [of cid l] by (auto simp: send_fits_def)

lemma send_fits_Nil [simp]: "send_fits []"
  by (simp add: send_fits_def)

lemma QSend_push_fits:
  assumes "\<not> sq_lock q" "send_fits (m_list q)" "0 \<le> len" "len \<le> int (length data)" "len < 262144"
  shows "QSend_push q cid data len = Inr (0, q\<lparr>m_list := push_list cid (take (nat len) data) (m_list q)\<rparr>)"
  using assms by (intro QSend_push_free) (force simp: send_fits_def size_simps)+

section \<open>Properties\<close>

text \<open>
  C15: with every entry below the send buffer size, \<open>QSend_push\<close> of a response that fits keeps
  that bound, frees the mutex, leaves the bytes of every other connection alone and adds the
  response to its own connection: at the end, or right behind the front entry when it is
  coalesced with it.
\<close>
theorem QSend_push_contract:
  assumes "\<not> sq_lock q" "send_fits (m_list q)" "0 \<le> len" "len \<le> int (length data)" "len < 262144"
  shows "\<exists>q'. QSend_push q cid data len = Inr (0, q') \<and> \<not> sq_lock q' \<and> send_fits (m_list q')
    \<and> (\<forall>j. j \<noteq> cid \<longrightarrow> conn_bytes j (m_list q') = conn_bytes j (m_list q))
    \<and> conn_bytes cid (m_list q') =
        (if coalesces (m_list q) cid (nat len)
         then snd_data (hd (m_list q)) @ take (nat len) data @ conn_bytes cid (tl (m_list q))
         else conn_bytes cid (m_list q) @ take (nat len) data)"
proof -
  have "length (take (nat len) data) = nat len" "nat len < NET_SEND_BUFF_SIZE"
    using assms(3-5) by (simp_all add: size_simps)
  then show ?thesis using assms
    by (simp add: QSend_push_fits conn_bytes_push send_fits_push)
qed

theorem QSend_push_contract_witness:
  "\<exists>q'. QSend_push create_send_queue 4 [1, 2, 3] 2 = Inr (0, q') \<and> conn_bytes 4 (m_list q') = [1, 2]"
  using QSend_push_contract [of create_send_queue 2 "[1, 2, 3]" 4]
  by (auto simp: create_send_queue_def coalesces_def numeral_2_eq_2)

text \<open>
  \<open>QSend_pop_first\<close> hands out the oldest entry of its connection whole, or answers -1 with
  the needed size when the buffer is too small and -1 alone when there is none; the bytes
  still queued for the connection are those behind the entry, and no other connection's bytes
  change.  With the size invariant a buffer of \<open>NET_SEND_BUFF_SIZE\<close> is never too small.
\<close>
theorem QSend_pop_first_contract:
  assumes "\<not> sq_lock q" "send_fits (m_list q)" "len = int NET_SEND_BUFF_SIZE"
  shows "(find (\<lambda>e. cid = snd_conn_id e) (m_list q) = None \<longrightarrow>
           QSend_pop_first q cid len = Inr (- 1, None, len, q) \<and> conn_bytes cid (m_list q) = [])
    \<and> (\<forall>e. find (\<lambda>e. cid = snd_conn_id e) (m_list q) = Some e \<longrightarrow>
          (\<exists>q'. QSend_pop_first q cid len = Inr (0, Some (snd_data e), int (length (snd_data e)), q')
             \<and> conn_bytes cid (m_list q) = snd_data e @ conn_bytes cid (m_list q')
             \<and> (\<forall>j. j \<noteq> cid \<longrightarrow> conn_bytes j (m_list q') = conn_bytes j (m_list q))
             \<and> \<not> sq_lock q' \<and> send_fits (m_list q')))"
proof (intro conjI impI allI)
  assume none: "find (\<lambda>e. cid = snd_conn_id e) (m_list q) = None"
  then show "QSend_pop_first q cid len = Inr (- 1, None, len, q)"
    using assms by (simp add: lock_simps)
  show "conn_bytes cid (m_list q) = []"
    using none by (auto simp: find_None_iff conn_bytes_def)
next
  fix e assume some: "find (\<lambda>e. cid = snd_conn_id e) (m_list q) = Some e"
  then have "e \<in> set (m_list q)" by (auto simp: find_Some_iff)
  then have "length (snd_data e) < 262144"
    using assms(2) by (auto simp: send_fits_def size_simps)
  then show "\<exists>q'. QSend_pop_first q cid len = Inr (0, Some (snd_data e), int (length (snd_data e)), q')
             \<and> conn_bytes cid (m_list q) = snd_data e @ conn_bytes cid (m_list q')
             \<and> (\<forall>j. j \<noteq> cid \<longrightarrow> conn_bytes j (m_list q') = conn_bytes j (m_list q))
             \<and> \<not> sq_lock q' \<and> send_fits (m_list q')"
    using assms some conn_bytes_erase_first [OF some]
    by (simp add: lock_simps size_simps)
qed

theorem QSend_pop_first_contract_witness:
  "\<exists>q'. QSend_pop_first \<lparr>sq_lock = False, m_list = [\<lparr>snd_conn_id = 3, snd_data = [9]\<rparr>]\<rparr> 3 262144
     = Inr (0, Some [9], 1, q')"
  using QSend_pop_first_contract [of "\<lparr>sq_lock = False, m_list = [\<lparr>snd_conn_id = 3, snd_data = [9]\<rparr>]\<rparr>"
      262144 3]
  by (auto simp: send_fits_def size_simps)

text \<open>
  Coalescing with the front entry only can overtake: pushing four responses of the maximal
  packet size and then a small one for the same connection sends the small one before the
  fourth, because the first three fill the front entry, the fourth no longer fits and is
  appended, and the fifth fits into the front again.
\<close>
theorem QSend_push_overtakes:
  assumes "length a = NET_PACK_SIZE_LIMIT" "length b = NET_PACK_SIZE_LIMIT"
    and "length c = NET_PACK_SIZE_LIMIT" "length d = NET_PACK_SIZE_LIMIT" "length e < 1024"
  shows "\<exists>q1 q2 q3 q4 q5.
      QSend_push create_send_queue cid a (int (length a)) = Inr (0, q1)
    \<and> QSend_push q1 cid b (int (length b)) = Inr (0, q2)
    \<and> QSend_push q2 cid c (int (length c)) = Inr (0, q3)
    \<and> QSend_push q3 cid d (int (length d)) = Inr (0, q4)
    \<and> QSend_push q4 cid e (int (length e)) = Inr (0, q5)
    \<and> conn_bytes cid (m_list q5) = a @ b @ c @ e @ d"
proof -
  let ?T = "\<lambda>x. \<lparr>snd_conn_id = cid, snd_data = x\<rparr>"
  let ?Q = "\<lambda>l. \<lparr>sq_lock = False, m_list = l\<rparr>"
  note [simp] = push_list_def coalesces_def size_simps send_fits_def
  have "QSend_push create_send_queue cid a (int (length a)) = Inr (0, ?Q [?T a])"
    using assms by (subst QSend_push_fits) (auto simp: create_send_queue_def)
  moreover have "QSend_push (?Q [?T a]) cid b (int (length b)) = Inr (0, ?Q [?T (a @ b)])"
    using assms by (subst QSend_push_fits) auto
  moreover have "QSend_push (?Q [?T (a @ b)]) cid c (int (length c)) = Inr (0, ?Q [?T (a @ b @ c)])"
    using assms by (subst QSend_push_fits) auto
  moreover have "QSend_push (?Q [?T (a @ b @ c)]) cid d (int (length d)) = Inr (0, ?Q [?T (a @ b @ c), ?T d])"
    using assms by (subst QSend_push_fits) auto
  moreover have "QSend_push (?Q [?T (a @ b @ c), ?T d]) cid e (int (length e))
      = Inr (0, ?Q [?T (a @ b @ c @ e), ?T d])"
    using assms by (subst QSend_push_fits) auto
  ultimately show ?thesis
    by (intro exI conjI) (assumption | simp)+
qed

theorem QSend_push_overtakes_witness:
  "\<exists>q4 q5. QSend_push q4 1 [7] 1 = Inr (0, q5)
     \<and> conn_bytes 1 (m_list q5) = replicate 66560 1 @ replicate 66560 2 @ replicate 66560 3
         @ [7] @ replicate 66560 4"
  using QSend_push_overtakes [of "replicate 66560 1" "replicate 66560 2" "replicate 66560 3"
      "replicate 66560 4" "[7]" 1]
  by (fastforce simp: size_simps)

end
