(* ===== verification/Store.thy ===== *)
theory Store
  imports Prelude
begin

text \<open>
  A store of linked nodes for the pointer structures of the repository: addresses are natural
  numbers, a null pointer is \<open>None\<close>, \<open>malloc\<close> hands out an address never used before and
  \<open>free\<close> removes the cell, so that a later access through a stale pointer is the fault
  \<open>Use_after_free\<close>.  \<open>seg\<close> describes a doubly linked segment of such a store.
\<close>

type_synonym addr = nat

record 'd node =
  node_data :: 'd
  node_len :: nat
  node_prev :: "addr option"
  node_next :: "addr option"

record 'd store =
  cells :: "addr \<Rightarrow> 'd node option"
  brk :: addr

definition empty_store :: "'d store" where
  "empty_store = \<lparr>cells = (\<lambda>_. None), brk = 0\<rparr>"

definition alloc :: "'d node \<Rightarrow> 'd store \<Rightarrow> addr \<times> 'd store" where
  "alloc n m = (brk m, m\<lparr>cells := (cells m)(brk m \<mapsto> n), brk := brk m + 1\<rparr>)"

definition free_cell :: "addr \<Rightarrow> 'd store \<Rightarrow> 'd store" where
  "free_cell a m = m\<lparr>cells := (cells m)(a := None)\<rparr>"

definition load :: "'d store \<Rightarrow> addr option \<Rightarrow> 'd node res" where
  "load m p = (case p of
      None \<Rightarrow> Inl Null_deref
    | Some a \<Rightarrow> (case cells m a of None \<Rightarrow> Inl Use_after_free | Some n \<Rightarrow> Inr n))"

definition modify :: "addr option \<Rightarrow> ('d node \<Rightarrow> 'd node) \<Rightarrow> 'd store \<Rightarrow> 'd store res" where
  "modify p f m = (case p of
      None \<Rightarrow> Inl Null_deref
    | Some a \<Rightarrow> (case cells m a of
          None \<Rightarrow> Inl Use_after_free
        | Some n \<Rightarrow> Inr (m\<lparr>cells := (cells m)(a \<mapsto> f n)\<rparr>)))"

definition set_next :: "addr option \<Rightarrow> addr option \<Rightarrow> 'd store \<Rightarrow> 'd store res" where
  "set_next p v = modify p (\<lambda>n. n\<lparr>node_next := v\<rparr>)"

definition set_prev :: "addr option \<Rightarrow> addr option \<Rightarrow> 'd store \<Rightarrow> 'd store res" where
  "set_prev p v = modify p (\<lambda>n. n\<lparr>node_prev := v\<rparr>)"

lemma load_Some [simp]: "cells m a = Some n \<Longrightarrow> load m (Some a) = Inr n"
  by (simp add: load_def)

lemma set_next_Some [simp]:
  "cells m a = Some n \<Longrightarrow>
   set_next (Some a) v m = Inr (m\<lparr>cells := (cells m)(a \<mapsto> n\<lparr>node_next := v\<rparr>)\<rparr>)"
  by (simp add: set_next_def modify_def)

lemma set_prev_Some [simp]:
  "cells m a = Some n \<Longrightarrow>
   set_prev (Some a) v m = Inr (m\<lparr>cells := (cells m)(a \<mapsto> n\<lparr>node_prev := v\<rparr>)\<rparr>)"
  by (simp add: set_prev_def modify_def)

lemma null_access [simp]:
  "load m None = Inl Null_deref" "set_next None v m = Inl Null_deref" "set_prev None v m = Inl Null_deref"
  by (simp_all add: load_def set_next_def set_prev_def modify_def)

section \<open>Doubly linked segments\<close>

primrec seg :: "(addr \<Rightarrow> 'd node option) \<Rightarrow> addr option \<Rightarrow> addr list \<Rightarrow> addr option \<Rightarrow> bool" where
  "seg h pv [] nx \<longleftrightarrow> True"
| "seg h pv (a # as) nx \<longleftrightarrow>
     (\<exists>n. h a = Some n \<and> node_prev n = pv \<and> node_next n = (if as = [] then nx else Some (hd as)))
     \<and> seg h (Some a) as nx"

definition data_at :: "(addr \<Rightarrow> 'd node option) \<Rightarrow> addr \<Rightarrow> 'd" where
  "data_at h a = node_data (the (h a))"

lemma seg_append:
  "seg h pv (as @ bs) nx \<longleftrightarrow>
     seg h pv as (if bs = [] then nx else Some (hd bs))
     \<and> seg h (if as = [] then pv else Some (last as)) bs nx"
  by (induction as arbitrary: pv) (auto simp: hd_append)

lemma seg_frame [simp]: "a \<notin> set as \<Longrightarrow> seg (h(a := v)) pv as nx = seg h pv as nx"
  by (induction as arbitrary: pv) auto

lemma seg_dom: "seg h pv as nx \<Longrightarrow> a \<in> set as \<Longrightarrow> \<exists>n. h a = Some n"
  by (induction as arbitrary: pv) auto

lemma map_data_frame [simp]: "a \<notin> set as \<Longrightarrow> map (data_at (h(a := v))) as = map (data_at h) as"
  by (auto simp: data_at_def)

lemma data_at_link [simp]:
  "h a = Some n \<Longrightarrow> node_data n' = node_data n \<Longrightarrow> data_at (h(a \<mapsto> n')) = data_at h"
  by (auto simp: data_at_def fun_eq_iff)

text \<open>Following \<open>next\<close> pointers: the data met in at most \<open>k\<close> steps.\<close>

fun walk :: "nat \<Rightarrow> (addr \<Rightarrow> 'd node option) \<Rightarrow> addr option \<Rightarrow> 'd list" where
  "walk 0 h p = []"
| "walk (Suc k) h None = []"
| "walk (Suc k) h (Some a) = (case h a of None \<Rightarrow> [] | Some n \<Rightarrow> node_data n # walk k h (node_next n))"

lemma walk_seg:
  "seg h pv as None \<Longrightarrow> walk (length as) h (if as = [] then None else Some (hd as)) = map (data_at h) as"
proof (induction as arbitrary: pv)
  case Nil
  then show ?case by simp
next
  case (Cons a as)
  then obtain n where "h a = Some n" "node_next n = (if as = [] then None else Some (hd as))"
    "seg h (Some a) as None" by auto
  then show ?case using Cons.IH [of "Some a"] by (simp add: data_at_def)
qed

end
