(* ===== verification/Gqueue.thy ===== *)
theory Gqueue
  imports Store Interfaces
begin

text \<open>
  The task queue of \<open>third/queue/Gqueue.h\<close> and \<open>third/queue/Gqueue.c\<close>, at the level of its
  pointers: a doubly linked list behind a head node that is never removed.  The block a node
  owns (\<open>malloc(datalen)\<close> and its copied contents) is the node's data.

  A buffer of the caller is a flag, whether it is there, with its size.  The counter \<open>size\<close> of the
  code is an \<open>int\<close>; here it is unbounded, so the lemmas speak of queues with fewer than \<open>2 ^ 31\<close>
  nodes (the thread pool, the only user, keeps at most 65).

  The clean-up loop \<open>easy_queue_clear\<close> follows \<open>prev\<close> pointers, so it runs on fuel; the lemma
  \<open>clear_loop_enough\<close> shows that the number of queued nodes plus one is enough.
\<close>

section \<open>Data\<close>

record easy_queue_t =
  q_size :: int
  queue_head :: "addr option"
  queue_tail :: "addr option"

type_synonym 'd gq = "easy_queue_t \<times> 'd store"

section \<open>Operations\<close>

definition easy_queue_init :: "'d \<Rightarrow> 'd store \<Rightarrow> 'd gq" where
  "easy_queue_init nodata m =
     (let (p, m') = alloc \<lparr>node_data = nodata, node_len = 0, node_prev = None, node_next = None\<rparr> m
      in (\<lparr>q_size = 0, queue_head = Some p, queue_tail = Some p\<rparr>, m'))"

definition easy_queue_push :: "'d gq \<Rightarrow> 'd \<Rightarrow> nat \<Rightarrow> (int \<times> 'd gq) res" where
  "easy_queue_push qm data datalen =
     (let (q, m) = qm;
          (p, m) = alloc \<lparr>node_data = data, node_len = datalen, node_prev = None, node_next = None\<rparr> m
      in bind_res (set_next (queue_tail q) (Some p) m) (\<lambda>m.
         bind_res (set_prev (Some p) (queue_tail q) m) (\<lambda>m.
         Inr (0, q\<lparr>queue_tail := Some p, q_size := q_size q + 1\<rparr>, m))))"

definition easy_queue_pop :: "'d gq \<Rightarrow> bool \<Rightarrow> nat \<Rightarrow> (int \<times> 'd option \<times> nat \<times> 'd gq) res" where
  "easy_queue_pop qm buf buflen =
     (let (q, m) = qm in
      bind_res (load m (queue_head q)) (\<lambda>hd_node.
      case node_next hd_node of
        None \<Rightarrow> Inr (- 1, None, 0, q, m)
      | Some p \<Rightarrow>
        bind_res (load m (Some p)) (\<lambda>n.
        if \<not> buf \<or> buflen < node_len n then Inr (- 1, None, node_len n, q, m)
        else
          bind_res (set_next (queue_head q) (node_next n) m) (\<lambda>m.
          bind_res (case node_next n of
              Some b \<Rightarrow> bind_res (set_prev (Some b) (queue_head q) m) (\<lambda>m. Inr (q, m))
            | None \<Rightarrow> Inr (q\<lparr>queue_tail := queue_head q\<rparr>, m)) (\<lambda>(q, m).
          Inr (0, Some (node_data n), node_len n,
               q\<lparr>q_size := q_size q - 1\<rparr>, free_cell p m))))))"

text \<open>
  The loop of \<open>easy_queue_clear\<close>; the third component collects the blocks passed to the
  user's handler, with their sizes, in the order of the calls.
\<close>

fun clear_loop :: "nat \<Rightarrow> 'd gq \<Rightarrow> ('d \<times> nat) list \<Rightarrow> ('d gq \<times> ('d \<times> nat) list) res option" where
  "clear_loop 0 qm out = None"
| "clear_loop (Suc k) (q, m) out =
     (if queue_tail q = queue_head q then Some (Inr ((q, m), out))
      else
        let cursor = queue_tail q in
        case bind_res (load m cursor) (\<lambda>n.
             bind_res (set_next (node_prev n) None m) (\<lambda>m. Inr (n, m))) of
          Inl f \<Rightarrow> Some (Inl f)
        | Inr (n, m) \<Rightarrow>
            clear_loop k (q\<lparr>queue_tail := node_prev n, q_size := q_size q - 1\<rparr>, free_cell (the cursor) m)
              (out @ [(node_data n, node_len n)]))"

definition easy_queue_clear :: "nat \<Rightarrow> 'd gq \<Rightarrow> (int \<times> ('d \<times> nat) list \<times> 'd gq) res option" where
  "easy_queue_clear fuel qm =
     (case clear_loop fuel qm [] of
        None \<Rightarrow> None
      | Some (Inl f) \<Rightarrow> Some (Inl f)
      | Some (Inr (qm', out)) \<Rightarrow>
          Some (if q_size (fst qm') = 0 then Inr (0, out, qm') else Inl Assert_failed))"

definition easy_queue_uninit :: "'d gq \<Rightarrow> (int \<times> 'd store) res" where
  "easy_queue_uninit qm =
     (let (q, m) = qm in
      case queue_head q of
        None \<Rightarrow> Inr (0, m)
      | Some a \<Rightarrow> (case cells m a of None \<Rightarrow> Inl Use_after_free | Some _ \<Rightarrow> Inr (0, free_cell a m)))"

definition easy_queue_size :: "'d gq \<Rightarrow> int" where
  "easy_queue_size qm = q_size (fst qm)"

section \<open>Representation invariant and contents\<close>

text \<open>The block of a node, with its size.\<close>

definition block_at :: "(addr \<Rightarrow> 'd node option) \<Rightarrow> addr \<Rightarrow> 'd \<times> nat" where
  "block_at h a = (data_at h a, node_len (the (h a)))"

lemma map_block_frame [simp]: "a \<notin> set as \<Longrightarrow> map (block_at (h(a := v))) as = map (block_at h) as"
  by (auto simp: block_at_def data_at_def)

lemma block_at_link [simp]:
  "h a = Some n \<Longrightarrow> node_data n' = node_data n \<Longrightarrow> node_len n' = node_len n \<Longrightarrow> block_at (h(a \<mapsto> n')) = block_at h"
  by (auto simp: block_at_def data_at_def fun_eq_iff)

lemma map_block_at: "map fst (map (block_at h) as) = map (data_at h) as"
  by (simp add: block_at_def)

definition queue_at :: "'d gq \<Rightarrow> addr \<Rightarrow> addr list \<Rightarrow> bool" where
  "queue_at qm hd_a as \<longleftrightarrow>
     (let (q, m) = qm in
      queue_head q = Some hd_a \<and> queue_tail q = Some (last (hd_a # as))
      \<and> seg (cells m) None (hd_a # as) None \<and> distinct (hd_a # as)
      \<and> q_size q = int (length as) \<and> (\<forall>a. brk m \<le> a \<longrightarrow> cells m a = None))"

definition queue_ok :: "'d gq \<Rightarrow> bool" where
  "queue_ok qm \<longleftrightarrow> (\<exists>hd_a as. queue_at qm hd_a as)"

definition queue_contents :: "'d gq \<Rightarrow> 'd list" where
  "queue_contents qm =
     (case queue_head (fst qm) of
        None \<Rightarrow> []
      | Some a \<Rightarrow> (case cells (snd qm) a of
                    None \<Rightarrow> []
                  | Some n \<Rightarrow> walk (nat (q_size (fst qm))) (cells (snd qm)) (node_next n)))"

lemma queue_at_contents: "queue_at qm a as \<Longrightarrow> queue_contents qm = map (data_at (cells (snd qm))) as"
  using walk_seg [of "cells (snd qm)" "Some a" as]
  by (auto simp: queue_at_def queue_contents_def split_beta)

lemma queue_at_fresh: "queue_at qm a as \<Longrightarrow> brk (snd qm) \<notin> set (a # as)"
  by (auto simp: queue_at_def split_beta dest!: seg_dom)

lemma init_queue_at:
  "\<forall>a. brk m \<le> a \<longrightarrow> cells m a = None \<Longrightarrow> queue_at (easy_queue_init d m) (brk m) []"
  by (simp add: easy_queue_init_def alloc_def queue_at_def)

lemma push_queue_at:
  assumes "queue_at qm a as"
  shows "\<exists>qm'. easy_queue_push qm d n = Inr (0, qm') \<and> queue_at qm' a (as @ [brk (snd qm)])
    \<and> queue_contents qm' = queue_contents qm @ [d]
    \<and> dom (cells (snd qm')) = insert (brk (snd qm)) (dom (cells (snd qm)))
    \<and> map (block_at (cells (snd qm'))) (as @ [brk (snd qm)]) = map (block_at (cells (snd qm))) as @ [(d, n)]"
proof -
  obtain q m where qm: "qm = (q, m)" by (cases qm)
  let ?p = "brk m" and ?h = "cells m"
  from assms qm have q: "queue_head q = Some a" "queue_tail q = Some (last (a # as))" "q_size q = int (length as)"
    and s: "seg ?h None (a # as) None" and dist: "distinct (a # as)"
    and above: "\<And>b. ?p \<le> b \<Longrightarrow> ?h b = None"
    by (auto simp: queue_at_def)
  from queue_at_fresh [OF assms] qm have fresh: "?p \<notin> set (a # as)" by simp
  obtain xs l where all: "a # as = xs @ [l]" by (cases "a # as" rule: rev_cases) auto
  have last: "last (a # as) = l" unfolding all by simp
  have d: "l \<notin> set xs" "?p \<noteq> l" "?p \<notin> set xs"
    using dist [unfolded all] fresh [unfolded all] by auto
  have s2: "seg ?h None xs (Some l)" "seg ?h (if xs = [] then None else Some (last xs)) [l] None"
    using s unfolding all by (auto simp: seg_append)
  then obtain nl where nl: "?h l = Some nl" "node_prev nl = (if xs = [] then None else Some (last xs))"
    by auto
  let ?new = "\<lparr>node_data = d, node_len = n, node_prev = Some l, node_next = None\<rparr>"
  let ?h' = "?h(l \<mapsto> nl\<lparr>node_next := Some ?p\<rparr>, ?p \<mapsto> ?new)"
  let ?m' = "\<lparr>cells = ?h', brk = ?p + 1\<rparr>" and ?q' = "q\<lparr>queue_tail := Some ?p, q_size := q_size q + 1\<rparr>"
  have swap: "?h(?p \<mapsto> x, l \<mapsto> y, ?p \<mapsto> z) = ?h(l \<mapsto> y, ?p \<mapsto> z)" for x y z
    using d by (simp add: fun_upd_twist)
  have "easy_queue_push qm d n = Inr (0, ?q', ?m')"
    using nl d q last swap by (cases m) (simp add: easy_queue_push_def qm alloc_def)
  moreover have "seg ?h' None ((a # as) @ [?p]) None"
    unfolding all using nl s2(1) d by (simp add: seg_append)
  then have at: "queue_at (?q', ?m') a (as @ [?p])"
    using q dist fresh above d nl by (auto simp: queue_at_def)
  moreover have "map (data_at ?h') as = map (data_at ?h) as"
    using fresh nl by simp
  then have "queue_contents (?q', ?m') = queue_contents qm @ [d]"
    using queue_at_contents [OF at] queue_at_contents [OF assms] qm by (simp add: data_at_def)
  moreover have "dom ?h' = insert ?p (dom ?h)" using nl by auto
  moreover have "map (block_at ?h') (as @ [?p]) = map (block_at ?h) as @ [(d, n)]"
    using fresh nl by (simp add: block_at_def data_at_def)
  ultimately show ?thesis using qm by (intro exI [of _ "(?q', ?m')"]) simp
qed

lemma pop_empty_queue: "queue_at qm a [] \<Longrightarrow> easy_queue_pop qm b n = Inr (- 1, None, 0, qm)"
  by (cases qm) (auto simp: queue_at_def easy_queue_pop_def)

lemma queue_at_first:
  "queue_at qm a (p # ps) \<Longrightarrow> \<exists>n. cells (snd qm) p = Some n \<and> queue_contents qm = node_data n # map (data_at (cells (snd qm))) ps"
  by (frule queue_at_contents) (auto simp: queue_at_def data_at_def split_beta)

lemma pop_too_small:
  "queue_at qm a (p # ps) \<Longrightarrow> cells (snd qm) p = Some n \<Longrightarrow> \<not> b \<or> k < node_len n \<Longrightarrow>
   easy_queue_pop qm b k = Inr (- 1, None, node_len n, qm)"
  by (cases qm) (auto simp: queue_at_def easy_queue_pop_def)

lemma pop_queue_at:
  assumes "queue_at qm a (p # ps)" "cells (snd qm) p = Some n" "node_len n \<le> k"
  shows "\<exists>qm'. easy_queue_pop qm True k = Inr (0, Some (node_data n), node_len n, qm') \<and> queue_at qm' a ps
    \<and> queue_contents qm = node_data n # queue_contents qm'
    \<and> dom (cells (snd qm')) = dom (cells (snd qm)) - {p}
    \<and> map (block_at (cells (snd qm'))) ps = map (block_at (cells (snd qm))) ps"
proof -
  obtain q m where qm: "qm = (q, m)" by (cases qm)
  let ?h = "cells m"
  from assms qm have q: "queue_head q = Some a" "queue_tail q = Some (last (a # p # ps))"
    "q_size q = int (Suc (length ps))"
    and s: "seg ?h None (a # p # ps) None" and dist: "distinct (a # p # ps)"
    and above: "\<And>b. brk m \<le> b \<Longrightarrow> ?h b = None"
    by (auto simp: queue_at_def)
  from s obtain na where na: "?h a = Some na" "node_prev na = None" "node_next na = Some p" by auto
  have n: "?h p = Some n" using assms(2) qm by simp
  show ?thesis
  proof (cases ps)
    case Nil
    let ?h1 = "(?h(a \<mapsto> na\<lparr>node_next := None\<rparr>))(p := None)"
    let ?qm' = "(q\<lparr>queue_tail := Some a, q_size := q_size q - 1\<rparr>, m\<lparr>cells := ?h1\<rparr>)"
    have "easy_queue_pop qm True k = Inr (0, Some (node_data n), node_len n, ?qm')"
      using na n s Nil q assms(3) by (auto simp: easy_queue_pop_def qm free_cell_def)
    moreover have at: "queue_at ?qm' a ps"
      using q Nil na above dist by (auto simp: queue_at_def)
    moreover have "queue_contents qm = node_data n # queue_contents ?qm'"
      using queue_at_first [OF assms(1)] queue_at_contents [OF at] assms(2) Nil by auto
    moreover have "dom ?h1 = dom ?h - {p}" using na dist by auto
    ultimately show ?thesis using qm Nil by auto
  next
    case (Cons b bs)
    from s Cons obtain nb where nb: "?h b = Some nb" "node_prev nb = Some p"
      "node_next nb = (if bs = [] then None else Some (hd bs))" and sb: "seg ?h (Some b) bs None"
      and nn: "node_next n = Some b" using n by auto
    have d: "a \<noteq> p" "a \<noteq> b" "p \<noteq> b" "a \<notin> set bs" "p \<notin> set bs" "b \<notin> set bs" using dist Cons by auto
    let ?h1 = "(?h(a \<mapsto> na\<lparr>node_next := Some b\<rparr>, b \<mapsto> nb\<lparr>node_prev := Some a\<rparr>))(p := None)"
    let ?qm' = "(q\<lparr>q_size := q_size q - 1\<rparr>, m\<lparr>cells := ?h1\<rparr>)"
    have "easy_queue_pop qm True k = Inr (0, Some (node_data n), node_len n, ?qm')"
      using na n nb nn d q assms(3) by (simp add: easy_queue_pop_def qm free_cell_def)
    moreover have at: "queue_at ?qm' a ps"
      using q Cons na nb sb above d dist by (auto simp: queue_at_def)
    moreover have "queue_contents qm = node_data n # queue_contents ?qm'"
      using queue_at_first [OF assms(1)] queue_at_contents [OF at] assms(2) qm d na nb Cons
      by (auto simp: data_at_def)
    moreover have "dom ?h1 = dom ?h - {p}" using na nb d by auto
    moreover have "map (block_at ?h1) ps = map (block_at ?h) ps"
      using Cons d na nb by (simp add: block_at_def data_at_def)
    ultimately show ?thesis using qm
      by (intro exI [of _ ?qm']) simp
  qed
qed

text \<open>One round of the clean-up loop takes the last node off.\<close>

lemma take_last_off:
  assumes "queue_at (q, m) a (ps @ [p])" "cells m p = Some n"
  shows "queue_tail q = Some p \<and> queue_tail q \<noteq> queue_head q
    \<and> (\<exists>m1. set_next (node_prev n) None m = Inr m1
        \<and> queue_at (q\<lparr>queue_tail := node_prev n, q_size := q_size q - 1\<rparr>, free_cell p m1) a ps
        \<and> queue_contents (q, m) =
            queue_contents (q\<lparr>queue_tail := node_prev n, q_size := q_size q - 1\<rparr>, free_cell p m1) @ [node_data n]
        \<and> dom (cells (free_cell p m1)) = dom (cells m) - {p} \<and> cells m1 p = Some n
        \<and> data_at (cells (free_cell p m1)) a = data_at (cells m) a
        \<and> map (block_at (cells (free_cell p m1))) ps = map (block_at (cells m)) ps)"
proof -
  let ?h = "cells m"
  from assms have q: "queue_head q = Some a" "queue_tail q = Some p" "q_size q = int (Suc (length ps))"
    and s: "seg ?h None ((a # ps) @ [p]) None" and dist: "distinct ((a # ps) @ [p])"
    and above: "\<And>b. brk m \<le> b \<Longrightarrow> ?h b = None"
    by (auto simp: queue_at_def)
  obtain xs l where all: "a # ps = xs @ [l]" by (cases "a # ps" rule: rev_cases) auto
  have s2: "seg ?h None xs (Some l)" "seg ?h (if xs = [] then None else Some (last xs)) [l] (Some p)"
    "seg ?h (Some l) [p] None"
    using s unfolding all by (auto simp: seg_append)
  have n: "node_prev n = Some l" "node_next n = None" using s2(3) assms(2) by auto
  from s2(2) obtain nl where nl: "?h l = Some nl" "node_prev nl = (if xs = [] then None else Some (last xs))"
    by auto
  have d: "l \<noteq> p" "p \<notin> set (a # ps)" "l \<notin> set xs" "p \<notin> set xs" "p \<noteq> a"
    using dist dist [unfolded all] by auto
  let ?m1 = "m\<lparr>cells := ?h(l \<mapsto> nl\<lparr>node_next := None\<rparr>)\<rparr>"
  let ?h1 = "(?h(l \<mapsto> nl\<lparr>node_next := None\<rparr>))(p := None)"
  let ?q' = "q\<lparr>queue_tail := Some l, q_size := q_size q - 1\<rparr>" and ?m' = "m\<lparr>cells := ?h1\<rparr>"
  have m': "free_cell p ?m1 = ?m'" by (simp add: free_cell_def)
  have step: "set_next (node_prev n) None m = Inr ?m1" using n nl by simp
  have "seg ?h1 None (a # ps) None"
    unfolding all using s2 nl d by (simp add: seg_append)
  moreover have "last (a # ps) = l" unfolding all by simp
  ultimately have at: "queue_at (?q', ?m') a ps"
    using q dist above nl by (auto simp: queue_at_def)
  have "map (data_at ?h1) ps = map (data_at ?h) ps" using nl d by simp
  then have "queue_contents (q, m) = queue_contents (?q', ?m') @ [node_data n]"
    using queue_at_contents [OF assms(1)] queue_at_contents [OF at] assms(2)
    by (simp add: data_at_def)
  moreover have "dom ?h1 = dom ?h - {p}" using nl d by auto
  moreover have "data_at ?h1 a = data_at ?h a" using nl d by (simp add: data_at_def)
  moreover have "map (block_at ?h1) ps = map (block_at ?h) ps" using nl d by simp
  ultimately show ?thesis using at step m' n q d assms(2) by auto
qed

lemma clear_round:
  assumes "queue_at (q, m) a (ps @ [p])"
  shows "\<exists>q' m'. clear_loop (Suc k) (q, m) out = clear_loop k (q', m') (out @ [block_at (cells m) p])
    \<and> queue_at (q', m') a ps \<and> map (block_at (cells m')) ps = map (block_at (cells m)) ps
    \<and> dom (cells m') = dom (cells m) - {p}"
proof -
  obtain n where n: "cells m p = Some n" using assms by (auto simp: queue_at_def dest!: seg_dom)
  from take_last_off [OF assms n] obtain m1 where m1: "queue_tail q = Some p" "queue_tail q \<noteq> queue_head q"
    "set_next (node_prev n) None m = Inr m1"
    "queue_at (q\<lparr>queue_tail := node_prev n, q_size := q_size q - 1\<rparr>, free_cell p m1) a ps"
    "dom (cells (free_cell p m1)) = dom (cells m) - {p}"
    "map (block_at (cells (free_cell p m1))) ps = map (block_at (cells m)) ps" by blast
  have "clear_loop (Suc k) (q, m) out
      = clear_loop k (q\<lparr>queue_tail := node_prev n, q_size := q_size q - 1\<rparr>, free_cell p m1) (out @ [block_at (cells m) p])"
    using m1(1-3) n by (simp add: Let_def block_at_def data_at_def)
  then show ?thesis using m1(4-6) by blast
qed

lemma clear_loop_enough:
  "queue_at (q, m) a ps \<Longrightarrow> length ps < k \<Longrightarrow>
   \<exists>q' m'. clear_loop k (q, m) out = Some (Inr ((q', m'), out @ rev (map (block_at (cells m)) ps)))
     \<and> queue_at (q', m') a [] \<and> dom (cells m') = dom (cells m) - set ps"
proof (induction ps arbitrary: q m k out rule: rev_induct)
  case Nil
  then obtain j where "k = Suc j" by (cases k) auto
  with Nil show ?case by (auto simp: queue_at_def)
next
  case (snoc p ps)
  then obtain j where k: "k = Suc j" "length ps < j" by (cases k) auto
  from clear_round [OF snoc.prems(1), of j out] obtain q' m' where r:
    "clear_loop k (q, m) out = clear_loop j (q', m') (out @ [block_at (cells m) p])"
    "queue_at (q', m') a ps" "map (block_at (cells m')) ps = map (block_at (cells m)) ps"
    "dom (cells m') = dom (cells m) - {p}" using k by auto
  from snoc.IH [OF r(2) k(2), of "out @ [block_at (cells m) p]"] r(1,3,4) show ?case by auto
qed

section \<open>The queue contract\<close>

text \<open>
  Every block the thread pool queues has the same size \<open>k\<close>, and it pops with a buffer of that
  size; under that discipline the pointer structure is a first-in first-out queue.
\<close>

definition gq_push :: "nat \<Rightarrow> 'd \<Rightarrow> 'd gq \<Rightarrow> 'd gq" where
  "gq_push k x qm = (case easy_queue_push qm x k of Inr (_, qm') \<Rightarrow> qm' | Inl _ \<Rightarrow> qm)"

definition gq_pop :: "nat \<Rightarrow> 'd gq \<Rightarrow> ('d \<times> 'd gq) option" where
  "gq_pop k qm = (case easy_queue_pop qm True k of Inr (_, Some d, _, qm') \<Rightarrow> Some (d, qm') | _ \<Rightarrow> None)"

definition queue_sized :: "nat \<Rightarrow> 'd gq \<Rightarrow> bool" where
  "queue_sized k qm \<longleftrightarrow> (\<exists>a as. queue_at qm a as
     \<and> map (block_at (cells (snd qm))) as = map (\<lambda>d. (d, k)) (queue_contents qm))"

lemma queue_sizedI:
  "queue_at qm a as \<Longrightarrow> map (block_at (cells (snd qm))) as = map (\<lambda>d. (d, k)) (queue_contents qm) \<Longrightarrow> queue_sized k qm"
  unfolding queue_sized_def by blast

lemma push_sized:
  assumes "queue_sized k q"
  shows "\<exists>q'. easy_queue_push q x k = Inr (0, q') \<and> queue_contents q' = queue_contents q @ [x] \<and> queue_sized k q'"
proof -
  from assms obtain a as where at: "queue_at q a as" "map (block_at (cells (snd q))) as = map (\<lambda>d. (d, k)) (queue_contents q)"
    by (auto simp: queue_sized_def)
  from push_queue_at [OF at(1), of x k] obtain q' where
    "easy_queue_push q x k = Inr (0, q')" "queue_at q' a (as @ [brk (snd q)])"
    "queue_contents q' = queue_contents q @ [x]"
    "map (block_at (cells (snd q'))) (as @ [brk (snd q)]) = map (block_at (cells (snd q))) as @ [(x, k)]"
    by blast
  then show ?thesis using at(2) queue_sizedI [of q' a "as @ [brk (snd q)]" k] by auto
qed

lemma pop_sized_Nil: "queue_sized k q \<Longrightarrow> queue_contents q = [] \<Longrightarrow> easy_queue_pop q b j = Inr (- 1, None, 0, q)"
  unfolding queue_sized_def using queue_at_contents pop_empty_queue by (metis map_is_Nil_conv)

lemma pop_sized_Cons:
  assumes "queue_sized k q" "queue_contents q = x # xs"
  shows "\<exists>q'. easy_queue_pop q True k = Inr (0, Some x, k, q') \<and> queue_contents q' = xs \<and> queue_sized k q'"
proof -
  from assms(1) obtain a as where at: "queue_at q a as"
    and bl: "map (block_at (cells (snd q))) as = map (\<lambda>d. (d, k)) (queue_contents q)"
    by (auto simp: queue_sized_def)
  then obtain p ps where as: "as = p # ps" using assms(2) by (cases as) auto
  then obtain n where n: "cells (snd q) p = Some n"
    using at by (auto simp: queue_at_def split_beta)
  have n': "node_data n = x" "node_len n = k" "map (block_at (cells (snd q))) ps = map (\<lambda>d. (d, k)) xs"
    using bl assms(2) n as by (auto simp: block_at_def data_at_def)
  from pop_queue_at [OF at [unfolded as] n, of k] n' obtain q' where
    "easy_queue_pop q True k = Inr (0, Some x, k, q')" "queue_at q' a ps" "queue_contents q = x # queue_contents q'"
    "map (block_at (cells (snd q'))) ps = map (block_at (cells (snd q))) ps"
    by auto
  then show ?thesis using assms(2) n'(3) queue_sizedI [of q' a ps k] by auto
qed

interpretation gqueue: fifo_queue "gq_push k" "gq_pop k" queue_contents "queue_sized k" for k
proof
  fix q :: "'a gq" and x xs
  assume "queue_sized k q"
  then show "queue_contents (gq_push k x q) = queue_contents q @ [x]" "queue_sized k (gq_push k x q)"
    using push_sized [of k q x] by (auto simp: gq_push_def)
  show "queue_contents q = [] \<Longrightarrow> gq_pop k q = None"
    using pop_sized_Nil [OF \<open>queue_sized k q\<close>] by (simp add: gq_pop_def)
  show "queue_contents q = x # xs \<Longrightarrow> \<exists>q'. gq_pop k q = Some (x, q') \<and> queue_contents q' = xs \<and> queue_sized k q'"
    using pop_sized_Cons [OF \<open>queue_sized k q\<close>, of x xs] by (auto simp: gq_pop_def)
qed

definition store_ok :: "'d store \<Rightarrow> bool" where
  "store_ok m \<longleftrightarrow> (\<forall>a. brk m \<le> a \<longrightarrow> cells m a = None)"

lemma init_sized: "store_ok m \<Longrightarrow> queue_sized k (easy_queue_init d m)"
  using queue_at_contents [OF init_queue_at [of m d]] by (intro queue_sizedI [OF init_queue_at]) (auto simp: store_ok_def)

lemma init_contents: "store_ok m \<Longrightarrow> queue_contents (easy_queue_init d m) = []"
  using queue_at_contents [OF init_queue_at [of m d]] by (simp add: store_ok_def)

lemma empty_store_ok [simp]: "store_ok empty_store"
  by (simp add: store_ok_def empty_store_def)

section \<open>The operations on a well-formed queue\<close>

lemma size_sized: "queue_sized k q \<Longrightarrow> easy_queue_size q = int (length (queue_contents q))"
  unfolding queue_sized_def
proof (elim exE conjE)
  fix a as assume at: "queue_at q a as"
  then have "q_size (fst q) = int (length as)" by (auto simp: queue_at_def split_beta)
  then show "easy_queue_size q = int (length (queue_contents q))"
    by (simp add: easy_queue_size_def queue_at_contents [OF at])
qed

lemma clear_loop_short:
  "queue_at (q, m) a ps \<Longrightarrow> k \<le> length ps \<Longrightarrow> clear_loop k (q, m) out = None"
proof (induction ps arbitrary: q m k out rule: rev_induct)
  case Nil
  then show ?case by simp
next
  case (snoc p ps)
  show ?case
  proof (cases k)
    case 0
    then show ?thesis by simp
  next
    case (Suc j)
    from clear_round [OF snoc.prems(1), of j out] obtain q' m' where
      "clear_loop k (q, m) out = clear_loop j (q', m') (out @ [block_at (cells m) p])" "queue_at (q', m') a ps"
      using Suc by auto
    then show ?thesis using snoc.IH Suc snoc.prems(2) by simp
  qed
qed

lemma clear_sized:
  assumes "queue_sized k q" "easy_queue_clear fuel q = Some r"
  shows "\<exists>q' m'. r = Inr (0, rev (map (\<lambda>d. (d, k)) (queue_contents q)), q') \<and> easy_queue_uninit q' = Inr (0, m')"
proof -
  from assms(1) obtain a as where at: "queue_at (fst q, snd q) a as"
    and bl: "map (block_at (cells (snd q))) as = map (\<lambda>d. (d, k)) (queue_contents q)" by (auto simp: queue_sized_def)
  have "length as < fuel"
    using assms(2) clear_loop_short [OF at, of fuel "[]"]
    by (cases "fuel \<le> length as") (auto simp: easy_queue_clear_def)
  from clear_loop_enough [OF at this, of "[]"] obtain q2 m2 where
    l: "clear_loop fuel q [] = Some (Inr ((q2, m2), rev (map (\<lambda>d. (d, k)) (queue_contents q))))" "queue_at (q2, m2) a []"
    using bl by auto
  from l(2) obtain n where "queue_head q2 = Some a" "q_size q2 = 0" "cells m2 a = Some n"
    by (auto simp: queue_at_def)
  then show ?thesis using l assms(2)
    by (auto simp: easy_queue_clear_def easy_queue_uninit_def)
qed

lemma clear_sized_ends:
  "queue_sized k q \<Longrightarrow> \<exists>r. easy_queue_clear (Suc (length (queue_contents q))) q = Some r"
  unfolding queue_sized_def
proof (elim exE conjE)
  fix a as assume at: "queue_at q a as"
  then have "length as < Suc (length (queue_contents q))" by (simp add: queue_at_contents)
  from clear_loop_enough [OF _ this, of "fst q" "snd q" a "[]"] at
  show "\<exists>r. easy_queue_clear (Suc (length (queue_contents q))) q = Some r"
    by (auto simp: easy_queue_clear_def)
qed

section \<open>Properties\<close>

lemma gq_run_fifo:
  assumes "store_ok m"
  shows "\<exists>out q. run_queue (gq_push k) (gq_pop k) ops (easy_queue_init d m) = (out, q)
    \<and> out @ queue_contents q = pushed ops \<and> queue_sized k q"
  using gqueue.run_fifo [OF init_sized [OF assms(1)], of k ops d] init_contents [OF assms(1), of d]
  by (metis append_Nil prod.collapse)

text \<open>
  Calls with blocks and buffers of any size, and what each leaves the caller with: the code
  returned, the block copied into the buffer, and the length in \<open>*buflen\<close>.
\<close>

datatype 'd queue_call = Call_push 'd nat | Call_pop bool nat

fun do_call :: "'d queue_call \<Rightarrow> 'd gq \<Rightarrow> ((int \<times> 'd option \<times> nat) \<times> 'd gq) res" where
  "do_call (Call_push d n) qm = bind_res (easy_queue_push qm d n) (\<lambda>(r, qm). Inr ((r, None, n), qm))"
| "do_call (Call_pop buf n) qm = bind_res (easy_queue_pop qm buf n) (\<lambda>(r, d, k, qm). Inr ((r, d, k), qm))"

primrec do_calls :: "'d queue_call list \<Rightarrow> 'd gq \<Rightarrow> ((int \<times> 'd option \<times> nat) list \<times> 'd gq) res" where
  "do_calls [] qm = Inr ([], qm)"
| "do_calls (c # cs) qm =
     bind_res (do_call c qm) (\<lambda>(x, qm). bind_res (do_calls cs qm) (\<lambda>(xs, qm). Inr (x # xs, qm)))"

text \<open>The same calls on a plain list of blocks with their sizes.\<close>

fun fifo_call :: "'d queue_call \<Rightarrow> ('d \<times> nat) list \<Rightarrow> (int \<times> 'd option \<times> nat) \<times> ('d \<times> nat) list" where
  "fifo_call (Call_push d n) l = ((0, None, n), l @ [(d, n)])"
| "fifo_call (Call_pop buf n) [] = ((- 1, None, 0), [])"
| "fifo_call (Call_pop buf n) ((d, k) # l) =
     (if buf \<and> k \<le> n then ((0, Some d, k), l) else ((- 1, None, k), (d, k) # l))"

primrec fifo_calls :: "'d queue_call list \<Rightarrow> ('d \<times> nat) list \<Rightarrow> (int \<times> 'd option \<times> nat) list \<times> ('d \<times> nat) list" where
  "fifo_calls [] l = ([], l)"
| "fifo_calls (c # cs) l = (let (x, l) = fifo_call c l; (xs, l) = fifo_calls cs l in (x # xs, l))"

lemma do_call_refines:
  assumes "queue_at qm a as" "map (block_at (cells (snd qm))) as = l"
  shows "\<exists>qm' bs. do_call c qm = Inr (fst (fifo_call c l), qm') \<and> queue_at qm' a bs
    \<and> map (block_at (cells (snd qm'))) bs = snd (fifo_call c l)"
proof (cases c)
  case (Call_push d n)
  from push_queue_at [OF assms(1), of d n] obtain qm' where
    "easy_queue_push qm d n = Inr (0, qm')" "queue_at qm' a (as @ [brk (snd qm)])"
    "map (block_at (cells (snd qm'))) (as @ [brk (snd qm)]) = l @ [(d, n)]"
    using assms(2) by blast
  then show ?thesis using Call_push by (intro exI [of _ qm'] exI [of _ "as @ [brk (snd qm)]"]) simp
next
  case (Call_pop b n)
  show ?thesis
  proof (cases as)
    case Nil
    then show ?thesis using Call_pop assms pop_empty_queue [of qm a b n] by auto
  next
    case (Cons p ps)
    then obtain x where x: "cells (snd qm) p = Some x"
      using assms(1) by (auto simp: queue_at_def split_beta)
    have l: "l = (node_data x, node_len x) # map (block_at (cells (snd qm))) ps"
      using assms(2) Cons x by (simp add: block_at_def data_at_def)
    show ?thesis
    proof (cases "b \<and> node_len x \<le> n")
      case True
      with pop_queue_at [OF assms(1) [unfolded Cons] x, of n] obtain qm' where
        "easy_queue_pop qm True n = Inr (0, Some (node_data x), node_len x, qm')" "queue_at qm' a ps"
        "map (block_at (cells (snd qm'))) ps = map (block_at (cells (snd qm))) ps" by blast
      then show ?thesis using True Call_pop l by (intro exI [of _ qm'] exI [of _ ps]) simp
    next
      case False
      with pop_too_small [OF assms(1) [unfolded Cons] x, of b n]
      have "easy_queue_pop qm b n = Inr (- 1, None, node_len x, qm)" by auto
      then show ?thesis using False Call_pop l assms by (intro exI [of _ qm] exI [of _ as]) auto
    qed
  qed
qed

lemma do_calls_refine:
  "queue_at qm a as \<Longrightarrow> map (block_at (cells (snd qm))) as = l \<Longrightarrow>
   \<exists>qm' bs. do_calls cs qm = Inr (fst (fifo_calls cs l), qm') \<and> queue_at qm' a bs
     \<and> map (block_at (cells (snd qm'))) bs = snd (fifo_calls cs l)"
proof (induction cs arbitrary: qm as l)
  case (Cons c cs)
  from do_call_refines [OF Cons.prems, of c] obtain q1 bs where
    q1: "do_call c qm = Inr (fst (fifo_call c l), q1)" "queue_at q1 a bs" "map (block_at (cells (snd q1))) bs = snd (fifo_call c l)"
    by blast
  from Cons.IH [OF q1(2,3)] q1(1) show ?case by (fastforce simp: split_beta)
qed auto

text \<open>
  C13: from a fresh queue, any sequence of pushes and pops, with blocks and buffers of any size,
  runs without a fault and answers each call as a plain first-in first-out list does: a pop of an
  empty queue, without a buffer or with one too small for the oldest block returns -1, tells the
  size needed and takes nothing; every other pop returns 0 with the oldest block and its size.
  Afterwards the nodes from the head to the tail are a well-formed doubly linked list that holds
  exactly the blocks of that list, in order, and the counter is their number.
\<close>
theorem Gqueue_is_fifo:
  assumes "store_ok m"
  shows "\<exists>q a as. do_calls calls (easy_queue_init d m) = Inr (fst (fifo_calls calls []), q)
    \<and> queue_at q a as \<and> map (block_at (cells (snd q))) as = snd (fifo_calls calls [])
    \<and> easy_queue_size q = int (length (snd (fifo_calls calls [])))"
proof -
  have "queue_at (easy_queue_init d m) (brk m) []" using assms init_queue_at [of m d] by (simp add: store_ok_def)
  from do_calls_refine [OF this, of "[]" calls] obtain q as where
    q: "do_calls calls (easy_queue_init d m) = Inr (fst (fifo_calls calls []), q)" "queue_at q (brk m) as"
      "map (block_at (cells (snd q))) as = snd (fifo_calls calls [])" by auto
  have "length as = length (snd (fifo_calls calls []))" unfolding q(3) [symmetric] by simp
  then have "easy_queue_size q = int (length (snd (fifo_calls calls [])))"
    using q(2) by (auto simp: queue_at_def easy_queue_size_def split_beta)
  then show ?thesis using q by blast
qed

theorem Gqueue_is_fifo_witness:
  "\<exists>q a as. do_calls [Call_pop True 24, Call_push True 24, Call_push False 8, Call_pop True 23, Call_pop False 24, Call_pop True 24]
       (easy_queue_init True empty_store)
     = Inr ([(- 1, None, 0), (0, None, 24), (0, None, 8), (- 1, None, 24), (- 1, None, 24), (0, Some True, 24)], q)
     \<and> queue_at q a as \<and> map (block_at (cells (snd q))) as = [(False, 8)] \<and> easy_queue_size q = 1"
  using Gqueue_is_fifo [OF empty_store_ok, of "[Call_pop True 24, Call_push True 24, Call_push False 8,
      Call_pop True 23, Call_pop False 24, Call_pop True 24]" True]
  by (simp del: do_calls.simps split_paired_Ex)

lemma fold_push_at:
  assumes "queue_at qm a as"
  shows "\<exists>bs. queue_at (fold (gq_push k) ds qm) a (as @ bs) \<and> length bs = length ds
    \<and> map (block_at (cells (snd (fold (gq_push k) ds qm)))) (as @ bs) = map (block_at (cells (snd qm))) as @ map (\<lambda>d. (d, k)) ds
    \<and> dom (cells (snd (fold (gq_push k) ds qm))) = set bs \<union> dom (cells (snd qm))
    \<and> (\<forall>b \<in> set bs. brk (snd qm) \<le> b)"
  using assms
proof (induction ds arbitrary: qm as)
  case Nil
  then show ?case by auto
next
  case (Cons d ds)
  let ?qm = "gq_push k d qm" and ?p = "brk (snd qm)"
  from push_queue_at [OF Cons.prems, of d k] have q:
    "queue_at ?qm a (as @ [?p])" "map (block_at (cells (snd ?qm))) (as @ [?p]) = map (block_at (cells (snd qm))) as @ [(d, k)]"
    "dom (cells (snd ?qm)) = insert ?p (dom (cells (snd qm)))"
    unfolding gq_push_def by fastforce+
  have "brk (snd ?qm) = Suc ?p"
    using push_queue_at [OF Cons.prems, of d k] by (cases qm)
      (auto simp: gq_push_def easy_queue_push_def alloc_def set_next_def set_prev_def modify_def
        split: option.splits if_splits)
  moreover from Cons.IH [OF q(1)] obtain bs where
    "queue_at (fold (gq_push k) ds ?qm) a ((as @ [?p]) @ bs)" "length bs = length ds"
    "map (block_at (cells (snd (fold (gq_push k) ds ?qm)))) ((as @ [?p]) @ bs)
       = map (block_at (cells (snd ?qm))) (as @ [?p]) @ map (\<lambda>d. (d, k)) ds"
    "dom (cells (snd (fold (gq_push k) ds ?qm))) = set bs \<union> dom (cells (snd ?qm))"
    "\<forall>b \<in> set bs. brk (snd ?qm) \<le> b"
    by blast
  ultimately show ?case using q by (intro exI [of _ "?p # bs"]) auto
qed

text \<open>
  C14: clearing and releasing a queue gives every cell back: after \<open>easy_queue_init\<close> and any
  pushes, \<open>easy_queue_clear\<close> ends within one round per node plus one, hands the queued blocks,
  with their sizes, to the user's handler from the newest to the oldest, and with \<open>easy_queue_uninit\<close> the store
  holds exactly the cells it held before the queue was created.
\<close>
theorem Gqueue_lifecycle_no_leak:
  assumes "store_ok m"
  shows "\<exists>qm' m'. easy_queue_clear (length ds + 1) (fold (gq_push k) ds (easy_queue_init d m))
        = Some (Inr (0, rev (map (\<lambda>d. (d, k)) ds), qm'))
    \<and> easy_queue_uninit qm' = Inr (0, m') \<and> dom (cells m') = dom (cells m)"
proof -
  let ?q0 = "easy_queue_init d m" and ?a = "brk m"
  have at0: "queue_at ?q0 ?a []" using assms init_queue_at [of m d] by (simp add: store_ok_def)
  have dom0: "dom (cells (snd ?q0)) = insert ?a (dom (cells m))" "?a \<notin> dom (cells m)"
    "brk (snd ?q0) = Suc ?a"
    using assms by (auto simp: easy_queue_init_def alloc_def store_ok_def)
  obtain q1 m1 where q1: "fold (gq_push k) ds ?q0 = (q1, m1)" by fastforce
  from fold_push_at [OF at0, of k ds] q1 dom0 obtain bs where
    at1: "queue_at (q1, m1) ?a bs"
    and len: "length bs = length ds" and c1: "map (block_at (cells m1)) bs = map (\<lambda>d. (d, k)) ds"
    and dom1: "dom (cells m1) = set bs \<union> insert ?a (dom (cells m))"
    and new: "\<forall>b \<in> set bs. Suc ?a \<le> b"
    by auto
  have "length bs < length ds + 1" using len by simp
  from clear_loop_enough [OF at1 this, of "[]"] c1 obtain q2 m2 where
    r: "clear_loop (length ds + 1) (q1, m1) [] = Some (Inr ((q2, m2), rev (map (\<lambda>d. (d, k)) ds)))"
    and at2: "queue_at (q2, m2) ?a []" and dom2: "dom (cells m2) = dom (cells m1) - set bs"
    by auto
  from at2 obtain n where "queue_head q2 = Some ?a" "q_size q2 = 0" "cells m2 ?a = Some n"
    by (auto simp: queue_at_def)
  moreover have "set bs \<inter> dom (cells m) = {}"
    using new assms by (fastforce simp: store_ok_def dest: Suc_leD)
  moreover have "?a \<notin> set bs" using new by auto
  ultimately show ?thesis
    using r q1 dom1 dom2 dom0(2)
    by (auto simp: easy_queue_clear_def easy_queue_uninit_def free_cell_def simp del: clear_loop.simps)
qed

theorem Gqueue_lifecycle_no_leak_witness:
  "\<exists>qm' m'. easy_queue_clear 3 (fold (gq_push 24) [True, False] (easy_queue_init True empty_store))
      = Some (Inr (0, [(False, 24), (True, 24)], qm')) \<and> easy_queue_uninit qm' = Inr (0, m')
      \<and> dom (cells m') = {}"
  using Gqueue_lifecycle_no_leak [OF empty_store_ok, of "[True, False]" 24 True]
  by (simp add: empty_store_def numeral_3_eq_3 del: split_paired_Ex clear_loop.simps)

end
