(* ===== verification/ThreadPool.thy ===== *)
theory ThreadPool
  imports Gqueue "HOL-Library.Multiset"
begin

text \<open>
  The thread pool of \<open>third/threadpool/threadpool.h\<close> and \<open>third/threadpool/threadpool.c\<close>: worker
  threads over one task queue, a mutex, a condition variable and an exit semaphore.

  A worker's position in \<open>thread_func\<close> is a program counter.  A critical section (from
  \<open>uv_mutex_lock\<close> to \<open>uv_mutex_unlock\<close> or \<open>uv_cond_wait\<close>) runs without blocking, so it is one
  step; everything else is one step per call, in any interleaving.  A waiting worker may wake
  up at any time, as the condition variable's contract allows.  The logs \<open>accepted\<close>, \<open>started\<close>,
  \<open>proc_log\<close>, \<open>after_log\<close> and \<open>cancelled\<close> only record which calls were made.
\<close>

section \<open>Data\<close>

record 'w thread_param_t =
  tp_data :: 'w
  tp_proc :: bool
  tp_after_proc :: bool

definition SIZEOF_THREAD_PARAM :: nat where
  "SIZEOF_THREAD_PARAM = 24"

datatype 'w pc =
    Top
  | Repost
  | Locking
  | Waiting
  | Woken
  | Run "'w thread_param_t"
  | Finishing "'w thread_param_t"
  | Exited
  | Crashed

datatype ctl = Idle | Posted | Joining | Done

record 'w threadpool_t =
  exit_sem :: nat
  tp_queue :: "'w thread_param_t gq option"
  thread_num :: nat
  pcs :: "nat \<Rightarrow> 'w pc"
  ctl :: ctl
  accepted :: "'w thread_param_t list"
  started :: "'w thread_param_t list"
  proc_log :: "'w thread_param_t list"
  after_log :: "'w thread_param_t list"
  cancelled :: "'w thread_param_t list"

section \<open>Operations\<close>

definition no_param :: "'w thread_param_t" where
  "no_param = \<lparr>tp_data = undefined, tp_proc = False, tp_after_proc = False\<rparr>"

definition threadpool_init :: "nat \<Rightarrow> 'w thread_param_t store \<Rightarrow> 'w threadpool_t" where
  "threadpool_init threadnum m =
     \<lparr>exit_sem = 0, tp_queue = Some (easy_queue_init no_param m), thread_num = threadnum,
      pcs = (\<lambda>i. if i < threadnum then Top else Exited), ctl = Idle,
      accepted = [], started = [], proc_log = [], after_log = [], cancelled = []\<rparr>"

text \<open>\<open>uv_cond_broadcast\<close>: every waiting worker becomes ready to take the mutex again.\<close>

definition broadcast :: "(nat \<Rightarrow> 'w pc) \<Rightarrow> nat \<Rightarrow> 'w pc" where
  "broadcast p = (\<lambda>i. case p i of Waiting \<Rightarrow> Woken | x \<Rightarrow> x)"

definition threadpool_push_work :: "'w threadpool_t \<Rightarrow> 'w \<Rightarrow> bool \<Rightarrow> bool \<Rightarrow> (int \<times> 'w threadpool_t) res" where
  "threadpool_push_work tp d work after =
     (case tp_queue tp of
        None \<Rightarrow> Inl Null_deref
      | Some q \<Rightarrow>
          if 64 < easy_queue_size q then Inr (- 1, tp)
          else
            let param = \<lparr>tp_data = d, tp_proc = work, tp_after_proc = after\<rparr> in
            bind_res (easy_queue_push q param SIZEOF_THREAD_PARAM) (\<lambda>(_, q').
              Inr (0, tp\<lparr>tp_queue := Some q', pcs := broadcast (pcs tp), accepted := accepted tp @ [param]\<rparr>)))"

definition goto :: "nat \<Rightarrow> 'w pc \<Rightarrow> 'w threadpool_t \<Rightarrow> 'w threadpool_t" where
  "goto i p tp = tp\<lparr>pcs := (pcs tp)(i := p)\<rparr>"

text \<open>One step of worker \<open>i\<close> in \<open>thread_func\<close>; \<open>None\<close> when it cannot move by itself.\<close>

definition thread_func_step :: "nat \<Rightarrow> 'w threadpool_t \<Rightarrow> 'w threadpool_t option" where
  "thread_func_step i tp =
     (case pcs tp i of
        Top \<Rightarrow> Some (if 0 < exit_sem tp then goto i Repost (tp\<lparr>exit_sem := exit_sem tp - 1\<rparr>)
                     else goto i Locking tp)
      | Repost \<Rightarrow> Some (goto i Exited (tp\<lparr>exit_sem := exit_sem tp + 1\<rparr>))
      | Locking \<Rightarrow>
          (case tp_queue tp of
             None \<Rightarrow> Some (goto i Crashed tp)
           | Some q \<Rightarrow>
               (case easy_queue_pop q True SIZEOF_THREAD_PARAM of
                  Inl _ \<Rightarrow> Some (goto i Crashed tp)
                | Inr (r, el, _, q') \<Rightarrow>
                    (case (r = - 1, el) of
                       (False, Some e) \<Rightarrow>
                         Some (goto i (Run e) (tp\<lparr>tp_queue := Some q', started := started tp @ [e]\<rparr>))
                     | _ \<Rightarrow> Some (goto i Waiting (tp\<lparr>tp_queue := Some q'\<rparr>)))))
      | Woken \<Rightarrow> Some (goto i Top tp)
      | Run e \<Rightarrow> Some (goto i (Finishing e)
                   (if tp_proc e then tp\<lparr>proc_log := proc_log tp @ [e]\<rparr> else tp))
      | Finishing e \<Rightarrow> Some (goto i Top
                   (if tp_after_proc e then tp\<lparr>after_log := after_log tp @ [e]\<rparr> else tp))
      | _ \<Rightarrow> None)"

text \<open>
  \<open>queue_free_func\<close>, the handler \<open>easy_queue_clear\<close> calls for each block with its size, asserts
  the size and calls the block's \<open>after_proc\<close> without testing it.
\<close>

definition queue_free_func :: "'w thread_param_t \<Rightarrow> nat \<Rightarrow> 'w threadpool_t \<Rightarrow> 'w threadpool_t res" where
  "queue_free_func e len tp =
     (if len \<noteq> SIZEOF_THREAD_PARAM then Inl Assert_failed
      else if tp_after_proc e then Inr (tp\<lparr>after_log := after_log tp @ [e]\<rparr>) else Inl Null_deref)"

primrec free_all :: "('w thread_param_t \<times> nat) list \<Rightarrow> 'w threadpool_t \<Rightarrow> 'w threadpool_t res" where
  "free_all [] tp = Inr tp"
| "free_all (b # bs) tp = bind_res (queue_free_func (fst b) (snd b) tp) (free_all bs)"

text \<open>
  \<open>_threadpool_cancel_all\<close> in its three parts: raising the exit semaphore, the critical
  section that clears and releases the queue, and joining the workers.
\<close>

definition cancel_post :: "'w threadpool_t \<Rightarrow> 'w threadpool_t" where
  "cancel_post tp = tp\<lparr>exit_sem := exit_sem tp + 1, ctl := Posted\<rparr>"

definition cancel_clear :: "nat \<Rightarrow> 'w threadpool_t \<Rightarrow> 'w threadpool_t res option" where
  "cancel_clear fuel tp =
     (let tp = tp\<lparr>pcs := broadcast (pcs tp)\<rparr> in
      case tp_queue tp of
        None \<Rightarrow> Some (Inl Null_deref)
      | Some q \<Rightarrow>
          (case easy_queue_clear fuel q of
             None \<Rightarrow> None
           | Some (Inl f) \<Rightarrow> Some (Inl f)
           | Some (Inr (_, out, q')) \<Rightarrow>
               Some (bind_res (free_all out tp) (\<lambda>tp.
                     bind_res (easy_queue_uninit q') (\<lambda>_.
                     Inr (tp\<lparr>tp_queue := None, cancelled := map fst out, ctl := Joining\<rparr>))))))"

definition cancel_join :: "'w threadpool_t \<Rightarrow> 'w threadpool_t option" where
  "cancel_join tp =
     (if \<forall>i \<in> set [0..<thread_num tp]. (case pcs tp i of Exited \<Rightarrow> True | _ \<Rightarrow> False)
      then Some (tp\<lparr>ctl := Done\<rparr>) else None)"

text \<open>\<open>threadpool_uninit\<close> frees the pool once \<open>_threadpool_cancel_all\<close> has returned.\<close>

definition threadpool_uninit :: "'w threadpool_t \<Rightarrow> 'w threadpool_t ptr option" where
  "threadpool_uninit tp = map_option (\<lambda>_. Dangling) (cancel_join tp)"

section \<open>Interleavings\<close>

text \<open>
  The pool under any scheduler.  Work is pushed the way \<open>workpool_push_work\<close> does, with both
  callbacks, and no longer once the pool is being torn down.
\<close>

inductive tp_step :: "'w threadpool_t \<Rightarrow> 'w threadpool_t \<Rightarrow> bool" where
  worker: "i < thread_num s \<Longrightarrow> thread_func_step i s = Some t \<Longrightarrow> tp_step s t"
| spurious: "i < thread_num s \<Longrightarrow> pcs s i = Waiting \<Longrightarrow> tp_step s (goto i Woken s)"
| push: "ctl s = Idle \<Longrightarrow> threadpool_push_work s d True True = Inr (r, t) \<Longrightarrow> tp_step s t"
| post: "ctl s = Idle \<Longrightarrow> tp_step s (cancel_post s)"
| clear: "ctl s = Posted \<Longrightarrow> cancel_clear fuel s = Some (Inr t) \<Longrightarrow> tp_step s t"
| join: "ctl s = Joining \<Longrightarrow> cancel_join s = Some t \<Longrightarrow> tp_step s t"

inductive tp_reach :: "nat \<Rightarrow> 'w threadpool_t \<Rightarrow> bool" for n :: nat where
  init: "store_ok m \<Longrightarrow> tp_reach n (threadpool_init n m)"
| step: "tp_reach n s \<Longrightarrow> tp_step s t \<Longrightarrow> tp_reach n t"

inductive_cases worker_stepE: "tp_step s t"

section \<open>The invariant\<close>

definition running :: "'w pc \<Rightarrow> 'w thread_param_t multiset" where
  "running p = (case p of Run e \<Rightarrow> {#e#} | _ \<Rightarrow> {#})"

definition busy :: "'w pc \<Rightarrow> 'w thread_param_t multiset" where
  "busy p = (case p of Run e \<Rightarrow> {#e#} | Finishing e \<Rightarrow> {#e#} | _ \<Rightarrow> {#})"

definition both_callbacks :: "'w thread_param_t \<Rightarrow> bool" where
  "both_callbacks e \<longleftrightarrow> tp_proc e \<and> tp_after_proc e"

fun queue_inv :: "'w thread_param_t gq option \<Rightarrow> 'w thread_param_t list \<Rightarrow> 'w thread_param_t list \<Rightarrow>
    'w thread_param_t list \<Rightarrow> bool" where
  "queue_inv (Some q) st ca ac \<longleftrightarrow>
     queue_sized SIZEOF_THREAD_PARAM q \<and> st @ queue_contents q = ac
       \<and> length (queue_contents q) \<le> 65 \<and> ca = []"
| "queue_inv None st ca ac \<longleftrightarrow> st @ rev ca = ac"

definition tp_inv :: "nat \<Rightarrow> 'w threadpool_t \<Rightarrow> bool" where
  "tp_inv n s \<longleftrightarrow>
     thread_num s = n \<and> queue_inv (tp_queue s) (started s) (cancelled s) (accepted s)
     \<and> (ctl s \<in> {Idle, Posted} \<longleftrightarrow> tp_queue s \<noteq> None)
     \<and> mset (started s) = mset (proc_log s) + (\<Sum>i<n. running (pcs s i))
     \<and> mset (started s) + mset (cancelled s) = mset (after_log s) + (\<Sum>i<n. busy (pcs s i))
     \<and> (\<forall>e \<in> set (accepted s). both_callbacks e)"

lemma sum_update:
  fixes f :: "'b \<Rightarrow> 'a :: comm_monoid_add"
  assumes "i < (n::nat)"
  shows "(\<Sum>j<n. f ((p(i := x)) j)) + f (p i) = (\<Sum>j<n. f (p j)) + f x"
proof -
  have "(\<Sum>j<n. f ((p(i := x)) j)) = f x + (\<Sum>j\<in>{..<n} - {i}. f ((p(i := x)) j))"
    using assms by (subst sum.remove [of _ i]) auto
  also have "(\<Sum>j\<in>{..<n} - {i}. f ((p(i := x)) j)) = (\<Sum>j\<in>{..<n} - {i}. f (p j))"
    by (rule sum.cong) auto
  finally have "(\<Sum>j<n. f ((p(i := x)) j)) = f x + (\<Sum>j\<in>{..<n} - {i}. f (p j))" .
  moreover have "(\<Sum>j<n. f (p j)) = f (p i) + (\<Sum>j\<in>{..<n} - {i}. f (p j))"
    using assms by (subst sum.remove [of _ i]) auto
  ultimately show ?thesis by (simp add: ac_simps)
qed

lemma broadcast_carries [simp]:
  "running (broadcast p i) = running (p i)" "busy (broadcast p i) = busy (p i)"
  by (auto simp: broadcast_def running_def busy_def split: pc.splits)

lemma queue_inv_subset: "queue_inv q st ca ac \<Longrightarrow> set st \<union> set ca \<subseteq> set ac"
  by (cases q) auto

lemma queue_inv_mset:
  assumes "queue_inv q st ca ac"
  shows "mset st + mset ca \<subseteq># mset ac" "q = None \<Longrightarrow> mset st + mset ca = mset ac"
proof -
  show none: "mset st + mset ca = mset ac" if "q = None"
  proof -
    have "ac = st @ rev ca" using assms that by simp
    then show ?thesis by simp
  qed
  show "mset st + mset ca \<subseteq># mset ac"
  proof (cases q)
    case (Some qm)
    then have "ac = st @ queue_contents qm" "ca = []" using assms by auto
    then show ?thesis by simp
  qed (simp add: none)
qed

lemma busy_accepted:
  assumes "tp_inv n s" "i < n" "e \<in># busy (pcs s i)"
  shows "both_callbacks e"
proof -
  have "(\<Sum>j<n. busy (pcs s j)) = busy (pcs s i) + (\<Sum>j\<in>{..<n} - {i}. busy (pcs s j))"
    using assms(2) by (intro sum.remove) auto
  then have "e \<in># (\<Sum>j<n. busy (pcs s j))" using assms(3) by simp
  moreover have "mset (started s) + mset (cancelled s) = mset (after_log s) + (\<Sum>j<n. busy (pcs s j))"
    using assms(1) unfolding tp_inv_def by blast
  ultimately have "e \<in># mset (started s) + mset (cancelled s)" by (simp only: union_iff) simp
  moreover have "set (started s) \<union> set (cancelled s) \<subseteq> set (accepted s)"
    using assms(1) queue_inv_subset unfolding tp_inv_def by blast
  moreover have "\<forall>e \<in> set (accepted s). both_callbacks e" using assms(1) by (simp add: tp_inv_def)
  ultimately show ?thesis by auto
qed

text \<open>A worker step that neither takes work from the queue nor finishes any.\<close>

lemma tp_inv_goto:
  assumes "tp_inv n s" "i < n" "running p = running (pcs s i)" "busy p = busy (pcs s i)"
  shows "tp_inv n (goto i p (s\<lparr>exit_sem := k\<rparr>))" "tp_inv n (goto i p s)"
proof -
  have "(\<Sum>j<n. running (((pcs s)(i := p)) j)) = (\<Sum>j<n. running (pcs s j))"
    using sum_update [OF assms(2), of running "pcs s" p] assms(3) by simp
  moreover have "(\<Sum>j<n. busy (((pcs s)(i := p)) j)) = (\<Sum>j<n. busy (pcs s j))"
    using sum_update [OF assms(2), of busy "pcs s" p] assms(4) by simp
  ultimately show "tp_inv n (goto i p (s\<lparr>exit_sem := k\<rparr>))" "tp_inv n (goto i p s)"
    using assms(1) by (auto simp: tp_inv_def goto_def simp del: fun_upd_apply)
qed

lemma carries_simps [simp]:
  "running Top = {#}" "running Repost = {#}" "running Locking = {#}" "running Waiting = {#}"
  "running Woken = {#}" "running Exited = {#}" "running Crashed = {#}" "running (Run e) = {#e#}"
  "running (Finishing e) = {#}"
  "busy Top = {#}" "busy Repost = {#}" "busy Locking = {#}" "busy Waiting = {#}"
  "busy Woken = {#}" "busy Exited = {#}" "busy Crashed = {#}" "busy (Run e) = {#e#}"
  "busy (Finishing e) = {#e#}"
  by (simp_all add: running_def busy_def)

text \<open>Taking the front block, calling \<open>proc\<close>, calling \<open>after_proc\<close>.\<close>

lemma tp_inv_take:
  assumes "tp_inv n s" "i < n" "pcs s i = Locking" "tp_queue s = Some q" "queue_contents q = e # es"
    and "queue_contents q' = es" "queue_sized SIZEOF_THREAD_PARAM q'"
  shows "tp_inv n (goto i (Run e) (s\<lparr>tp_queue := Some q', started := started s @ [e]\<rparr>))"
proof -
  have "(\<Sum>j<n. running (((pcs s)(i := Run e)) j)) = (\<Sum>j<n. running (pcs s j)) + {#e#}"
    using sum_update [OF assms(2), of running "pcs s" "Run e"] assms(3) by simp
  moreover have "(\<Sum>j<n. busy (((pcs s)(i := Run e)) j)) = (\<Sum>j<n. busy (pcs s j)) + {#e#}"
    using sum_update [OF assms(2), of busy "pcs s" "Run e"] assms(3) by simp
  ultimately show ?thesis
    using assms by (auto simp: tp_inv_def goto_def simp del: fun_upd_apply)
qed

lemma tp_inv_proc:
  assumes "tp_inv n s" "i < n" "pcs s i = Run e"
  shows "tp_inv n (goto i (Finishing e) (s\<lparr>proc_log := proc_log s @ [e]\<rparr>))"
proof -
  have "(\<Sum>j<n. running (((pcs s)(i := Finishing e)) j)) + {#e#} = (\<Sum>j<n. running (pcs s j))"
    using sum_update [OF assms(2), of running "pcs s" "Finishing e"] assms(3) by simp
  moreover have "(\<Sum>j<n. busy (((pcs s)(i := Finishing e)) j)) = (\<Sum>j<n. busy (pcs s j))"
    using sum_update [OF assms(2), of busy "pcs s" "Finishing e"] assms(3) by simp
  ultimately show ?thesis
    using assms by (auto simp: tp_inv_def goto_def ac_simps simp del: fun_upd_apply)
qed

lemma tp_inv_after:
  assumes "tp_inv n s" "i < n" "pcs s i = Finishing e"
  shows "tp_inv n (goto i Top (s\<lparr>after_log := after_log s @ [e]\<rparr>))"
proof -
  have "(\<Sum>j<n. running (((pcs s)(i := Top)) j)) = (\<Sum>j<n. running (pcs s j))"
    using sum_update [OF assms(2), of running "pcs s" Top] assms(3) by simp
  moreover have "(\<Sum>j<n. busy (((pcs s)(i := Top)) j)) + {#e#} = (\<Sum>j<n. busy (pcs s j))"
    using sum_update [OF assms(2), of busy "pcs s" Top] assms(3) by simp
  ultimately show ?thesis
    using assms by (auto simp: tp_inv_def goto_def ac_simps simp del: fun_upd_apply)
qed

lemma tp_inv_locking:
  assumes "tp_inv n s" "i < n" "pcs s i = Locking" "thread_func_step i s = Some t"
  shows "tp_inv n t"
proof (cases "tp_queue s")
  case None
  then show ?thesis using assms tp_inv_goto(2) [of n s i Crashed]
    by (auto simp: thread_func_step_def)
next
  case (Some q)
  with assms(1) have sized: "queue_sized SIZEOF_THREAD_PARAM q"
    by (auto simp: tp_inv_def)
  show ?thesis
  proof (cases "queue_contents q")
    case Nil
    have "tp_inv n (goto i Waiting s)" using assms by (intro tp_inv_goto) simp_all
    moreover have same: "s\<lparr>tp_queue := Some q\<rparr> = s" using Some by (cases s) simp
    have "t = goto i Waiting (s\<lparr>tp_queue := Some q\<rparr>)"
      using assms(3,4) Some pop_sized_Nil [OF sized Nil] by (simp add: thread_func_step_def)
    ultimately show ?thesis by (simp only: same)
  next
    case (Cons e es)
    from pop_sized_Cons [OF sized Cons] obtain q' where q':
      "easy_queue_pop q True SIZEOF_THREAD_PARAM = Inr (0, Some e, SIZEOF_THREAD_PARAM, q')"
      "queue_contents q' = es" "queue_sized SIZEOF_THREAD_PARAM q'" by blast
    then have "t = goto i (Run e) (s\<lparr>tp_queue := Some q', started := started s @ [e]\<rparr>)"
      using assms Some by (simp add: thread_func_step_def)
    then show ?thesis using tp_inv_take [OF assms(1-3) Some Cons q'(2,3)] by simp
  qed
qed

lemma tp_inv_worker:
  assumes "tp_inv n s" "i < n" "thread_func_step i s = Some t"
  shows "tp_inv n t"
proof (cases "pcs s i")
  case Top
  then show ?thesis using assms tp_inv_goto [OF assms(1,2)]
    by (auto simp: thread_func_step_def split: if_splits)
next
  case Locking
  then show ?thesis using assms tp_inv_locking by blast
next
  case (Run e)
  then have "tp_proc e" using busy_accepted [OF assms(1,2), of e] by (simp add: both_callbacks_def)
  then show ?thesis using Run assms tp_inv_proc by (auto simp: thread_func_step_def)
next
  case (Finishing e)
  then have "tp_after_proc e" using busy_accepted [OF assms(1,2), of e] by (simp add: both_callbacks_def)
  then show ?thesis using Finishing assms tp_inv_after by (auto simp: thread_func_step_def)
qed (use assms tp_inv_goto [OF assms(1,2)] in \<open>auto simp: thread_func_step_def\<close>)

lemma tp_inv_broadcast: "tp_inv n s \<Longrightarrow> tp_inv n (s\<lparr>pcs := broadcast (pcs s)\<rparr>)"
  by (auto simp: tp_inv_def)

lemma tp_inv_push:
  assumes "tp_inv n s" "threadpool_push_work s d True True = Inr (r, t)"
  shows "tp_inv n t"
proof -
  let ?e = "\<lparr>tp_data = d, tp_proc = True, tp_after_proc = True\<rparr>"
  from assms(2) obtain q where q: "tp_queue s = Some q"
    by (auto simp: threadpool_push_work_def split: option.splits)
  with assms(1) have sized: "queue_sized SIZEOF_THREAD_PARAM q"
    by (auto simp: tp_inv_def)
  show ?thesis
  proof (cases "64 < easy_queue_size q")
    case True
    then show ?thesis using assms q by (auto simp: threadpool_push_work_def)
  next
    case False
    from push_sized [OF sized, of ?e] obtain q' where
      "easy_queue_push q ?e SIZEOF_THREAD_PARAM = Inr (0, q')"
      "queue_contents q' = queue_contents q @ [?e]" "queue_sized SIZEOF_THREAD_PARAM q'" by blast
    then show ?thesis using assms q False size_sized [OF sized]
      by (auto simp: threadpool_push_work_def tp_inv_def both_callbacks_def)
  qed
qed

lemma free_all_both:
  "\<forall>e \<in> set es. both_callbacks e \<Longrightarrow> free_all (map (\<lambda>e. (e, SIZEOF_THREAD_PARAM)) es) s = Inr (s\<lparr>after_log := after_log s @ es\<rparr>)"
  by (induction es arbitrary: s) (auto simp: queue_free_func_def both_callbacks_def)

lemma tp_inv_clear:
  assumes "tp_inv n s" "cancel_clear fuel s = Some (Inr t)"
  shows "tp_inv n t"
proof -
  from assms(2) obtain q where q: "tp_queue s = Some q"
    by (auto simp: cancel_clear_def Let_def split: option.splits)
  with assms(1) have sized: "queue_sized SIZEOF_THREAD_PARAM q"
    and acc: "started s @ queue_contents q = accepted s" "cancelled s = []"
    by (auto simp: tp_inv_def)
  from assms(2) q obtain r where r: "easy_queue_clear fuel q = Some r"
    by (auto simp: cancel_clear_def Let_def split: option.splits)
  from clear_sized [OF sized r] obtain q' m' where
    c: "r = Inr (0, rev (map (\<lambda>e. (e, SIZEOF_THREAD_PARAM)) (queue_contents q)), q')" "easy_queue_uninit q' = Inr (0, m')" by blast
  have "\<forall>e \<in> set (rev (queue_contents q)). both_callbacks e"
    using assms(1) set_append [of "started s" "queue_contents q"] acc(1) by (simp add: tp_inv_def)
  from free_all_both [OF this] assms(2) q r c have t:
    "t = s\<lparr>pcs := broadcast (pcs s), after_log := after_log s @ rev (queue_contents q),
           tp_queue := None, cancelled := rev (queue_contents q), ctl := Joining\<rparr>"
    by (simp add: cancel_clear_def rev_map comp_def)
  show ?thesis using assms(1) acc by (auto simp: t tp_inv_def)
qed

lemma tp_step_inv: "tp_step s t \<Longrightarrow> tp_inv n s \<Longrightarrow> tp_inv n t"
proof (induction rule: tp_step.induct)
  case (worker i s t)
  moreover from this have "i < n" by (simp add: tp_inv_def)
  ultimately show ?case by (blast intro: tp_inv_worker)
next
  case (spurious i s)
  moreover from this have "i < n" by (simp add: tp_inv_def)
  ultimately show ?case by (intro tp_inv_goto) simp_all
next
  case (push s d r t)
  then show ?case by (blast intro: tp_inv_push)
next
  case (post s)
  then show ?case by (auto simp: cancel_post_def tp_inv_def)
next
  case (clear s fuel t)
  then show ?case by (blast intro: tp_inv_clear)
next
  case (join s t)
  then have "t = s\<lparr>ctl := Done\<rparr>" by (simp add: cancel_join_def split: if_splits)
  with join show ?case by (auto simp: tp_inv_def)
qed

lemma tp_inv_init: "store_ok m \<Longrightarrow> tp_inv n (threadpool_init n m)"
  by (auto simp: tp_inv_def threadpool_init_def init_sized init_contents
      intro!: sum.neutral)

lemma tp_reach_inv: "tp_reach n s \<Longrightarrow> tp_inv n s"
  by (induction rule: tp_reach.induct) (auto intro: tp_inv_init tp_step_inv)

section \<open>No lost wake-up\<close>

text \<open>
  A worker waits only while the queue is empty, because a push broadcasts inside the critical
  section that fills it.  Before the pool is torn down the exit semaphore stays at zero and no
  worker leaves its loop.
\<close>

fun wake_inv :: "'w thread_param_t gq option \<Rightarrow> ctl \<Rightarrow> nat \<Rightarrow> (nat \<Rightarrow> 'w pc) \<Rightarrow> nat \<Rightarrow> bool" where
  "wake_inv (Some q) c k p n \<longleftrightarrow>
     (queue_contents q = [] \<or> (\<forall>i<n. p i \<noteq> Waiting))
     \<and> (c = Idle \<longrightarrow> k = 0 \<and> (\<forall>i<n. p i \<notin> {Repost, Exited, Crashed}))
     \<and> (\<forall>i<n. p i \<noteq> Crashed)"
| "wake_inv None c k p n \<longleftrightarrow> c \<notin> {Idle, Posted}"

definition tp_wake :: "nat \<Rightarrow> 'w threadpool_t \<Rightarrow> bool" where
  "tp_wake n s \<longleftrightarrow> tp_inv n s \<and> wake_inv (tp_queue s) (ctl s) (exit_sem s) (pcs s) n"

lemma wake_inv_update:
  assumes "wake_inv qo c k p n" "x \<noteq> Crashed \<or> qo = None"
    and "x = Waiting \<Longrightarrow> qo \<noteq> None \<Longrightarrow> queue_contents (the qo) = []"
    and "c = Idle \<Longrightarrow> x \<notin> {Repost, Exited}"
  shows "wake_inv qo c k (p(i := x)) n"
  using assms by (cases qo) (auto split: if_splits)

lemma wake_inv_no_sem: "wake_inv qo c k p n \<Longrightarrow> c \<noteq> Idle \<Longrightarrow> wake_inv qo c k' p n"
  by (cases qo) auto

lemma wake_goto:
  assumes "wake_inv (tp_queue s) (ctl s) (exit_sem s) (pcs s) n"
    and "tp_queue u = tp_queue s" "ctl u = ctl s" "pcs u = pcs s"
    and "ctl s = Idle \<Longrightarrow> exit_sem u = exit_sem s \<and> x \<notin> {Repost, Exited}"
    and "x \<noteq> Crashed" "x \<noteq> Waiting"
  shows "wake_inv (tp_queue (goto i x u)) (ctl (goto i x u)) (exit_sem (goto i x u)) (pcs (goto i x u)) n"
proof -
  have "wake_inv (tp_queue s) (ctl s) (exit_sem u) (pcs s) n"
    using assms(1,5) wake_inv_no_sem [OF assms(1)] by (cases "ctl s = Idle") auto
  then show ?thesis unfolding goto_def using assms by (auto intro!: wake_inv_update)
qed

lemma wake_worker:
  assumes "tp_inv n s" "wake_inv (tp_queue s) (ctl s) (exit_sem s) (pcs s) n" "i < n"
    and "thread_func_step i s = Some t"
  shows "wake_inv (tp_queue t) (ctl t) (exit_sem t) (pcs t) n"
proof (cases "pcs s i = Locking")
  case False
  have idle: "ctl s = Idle \<Longrightarrow> exit_sem s = 0 \<and> pcs s i \<noteq> Repost"
    using assms(2,3) by (cases "tp_queue s") auto
  then show ?thesis using False assms(4)
    by (cases "pcs s i")
      (auto simp: thread_func_step_def split: if_splits intro!: wake_goto [OF assms(2)])
next
  case True
  show ?thesis
  proof (cases "tp_queue s")
    case None
    then have "t = goto i Crashed s" using True assms(4) by (simp add: thread_func_step_def)
    then show ?thesis using None assms(2) by (simp add: goto_def)
  next
    case (Some q)
    with assms(1) have sized: "queue_sized SIZEOF_THREAD_PARAM q" by (auto simp: tp_inv_def)
    show ?thesis
    proof (cases "queue_contents q")
      case Nil
      then have "t = goto i Waiting (s\<lparr>tp_queue := Some q\<rparr>)"
        using True assms(4) Some pop_sized_Nil [OF sized Nil] by (simp add: thread_func_step_def)
      then show ?thesis using Some Nil assms(2) by (auto simp: goto_def)
    next
      case (Cons e es)
      from pop_sized_Cons [OF sized Cons] obtain q' where q':
        "easy_queue_pop q True SIZEOF_THREAD_PARAM = Inr (0, Some e, SIZEOF_THREAD_PARAM, q')"
        "queue_contents q' = es" by blast
      then have "t = goto i (Run e) (s\<lparr>tp_queue := Some q', started := started s @ [e]\<rparr>)"
        using True assms(4) Some by (simp add: thread_func_step_def)
      then show ?thesis using Some Cons assms(2) by (auto simp: goto_def)
    qed
  qed
qed

lemma broadcast_shapes [simp]:
  "broadcast p i \<noteq> Waiting" "broadcast p i = Repost \<longleftrightarrow> p i = Repost"
  "broadcast p i = Exited \<longleftrightarrow> p i = Exited" "broadcast p i = Crashed \<longleftrightarrow> p i = Crashed"
  by (auto simp: broadcast_def split: pc.splits)

lemma wake_clear:
  assumes "cancel_clear fuel s = Some (Inr t)"
  shows "tp_queue t = None" "ctl t = Joining"
  using assms by (auto simp: cancel_clear_def Let_def split: option.splits sum.splits)

lemma wake_push:
  assumes "wake_inv (tp_queue s) (ctl s) (exit_sem s) (pcs s) n"
    and "threadpool_push_work s d a b = Inr (r, t)"
  shows "wake_inv (tp_queue t) (ctl t) (exit_sem t) (pcs t) n"
  using assms by (auto simp: threadpool_push_work_def Let_def split: option.splits if_splits)

lemma tp_step_wake: "tp_step s t \<Longrightarrow> tp_wake n s \<Longrightarrow> wake_inv (tp_queue t) (ctl t) (exit_sem t) (pcs t) n"
proof (induction rule: tp_step.induct)
  case (worker i s t)
  moreover from this have "i < n" by (simp add: tp_wake_def tp_inv_def)
  ultimately show ?case using wake_worker by (auto simp: tp_wake_def)
next
  case (spurious i s)
  then show ?case by (intro wake_goto [of s]) (simp_all add: tp_wake_def)
next
  case (push s d r t)
  then show ?case using wake_push [of s n d True True r t] by (simp add: tp_wake_def)
next
  case (post s)
  then show ?case by (cases "tp_queue s") (auto simp: cancel_post_def tp_wake_def)
next
  case (clear s fuel t)
  then show ?case by (simp add: wake_clear)
next
  case (join s t)
  then have "t = s\<lparr>ctl := Done\<rparr>" by (simp add: cancel_join_def split: if_splits)
  with join show ?case by (cases "tp_queue s") (auto simp: tp_wake_def)
qed

lemma tp_reach_wake: "tp_reach n s \<Longrightarrow> tp_wake n s"
proof (induction rule: tp_reach.induct)
  case (init m)
  then show ?case
    using init_contents [of m no_param] tp_inv_init by (auto simp: tp_wake_def threadpool_init_def)
next
  case (step s t)
  then show ?case using tp_step_wake tp_step_inv by (auto simp: tp_wake_def)
qed

section \<open>Schedules\<close>

text \<open>A schedule as a list of events, run by the operations above.\<close>

datatype 'w event = Worker nat | Submit 'w | Post | Clear | Join

fun tp_event :: "'w event \<Rightarrow> 'w threadpool_t \<Rightarrow> 'w threadpool_t option" where
  "tp_event (Worker i) s = (if i < thread_num s then thread_func_step i s else None)"
| "tp_event (Submit d) s =
     (case ctl s of
        Idle \<Rightarrow> (case threadpool_push_work s d True True of Inr (_, t) \<Rightarrow> Some t | Inl _ \<Rightarrow> None)
      | _ \<Rightarrow> None)"
| "tp_event Post s = (case ctl s of Idle \<Rightarrow> Some (cancel_post s) | _ \<Rightarrow> None)"
| "tp_event Clear s =
     (case ctl s of
        Posted \<Rightarrow> (case cancel_clear 100 s of Some (Inr t) \<Rightarrow> Some t | _ \<Rightarrow> None)
      | _ \<Rightarrow> None)"
| "tp_event Join s = (case ctl s of Joining \<Rightarrow> cancel_join s | _ \<Rightarrow> None)"

primrec tp_run :: "'w event list \<Rightarrow> 'w threadpool_t \<Rightarrow> 'w threadpool_t option" where
  "tp_run [] s = Some s"
| "tp_run (e # es) s = (case tp_event e s of None \<Rightarrow> None | Some t \<Rightarrow> tp_run es t)"

lemma tp_event_step: "tp_event e s = Some t \<Longrightarrow> tp_step s t"
  by (induction e s rule: tp_event.induct)
    (auto split: if_splits ctl.splits sum.splits option.splits intro: tp_step.intros)

lemma tp_run_reach: "tp_run es s = Some t \<Longrightarrow> tp_reach n s \<Longrightarrow> tp_reach n t"
proof (induction es arbitrary: s)
  case (Cons e es)
  then obtain u where "tp_event e s = Some u" "tp_run es u = Some t"
    by (auto split: option.splits)
  then show ?case using Cons tp_reach.step [OF Cons.prems(2) tp_event_step] by blast
qed simp

lemma tp_run_init: "tp_run es (threadpool_init n empty_store) = Some t \<Longrightarrow> tp_reach n t"
  using tp_run_reach tp_reach.init [OF empty_store_ok] by blast

text \<open>Two jobs, one run by the only worker, the other cancelled.\<close>

definition demo_events :: "nat event list" where
  "demo_events = [Submit 7, Submit 8, Worker 0, Worker 0, Worker 0, Post, Clear, Worker 0,
     Worker 0, Worker 0, Join]"

lemma demo_run:
  "(case tp_run demo_events (threadpool_init 1 empty_store) of
      Some s \<Rightarrow> pcs s 0 = Exited \<and> ctl s = Done \<and> tp_queue s = None
        \<and> map tp_data (started s) = [7] \<and> map tp_data (after_log s) = [8, 7]
    | None \<Rightarrow> False)"
  by code_simp

section \<open>Properties\<close>

text \<open>
  C9: under every interleaving of workers, pushes, spurious wake-ups and the tear-down, work is
  started in the order it was accepted, what was accepted and not started is in the queue (or
  was handed to the cancellation), and the queue never holds more than 65 entries: the test
  \<open>easy_queue_size > 64\<close> admits one more entry than it names.
\<close>
theorem threadpool_fifo_bounded:
  assumes "tp_reach n s"
  shows "case tp_queue s of
      Some q \<Rightarrow> started s @ queue_contents q = accepted s \<and> length (queue_contents q) \<le> 65 \<and> cancelled s = []
    | None \<Rightarrow> started s @ rev (cancelled s) = accepted s"
proof -
  have "queue_inv (tp_queue s) (started s) (cancelled s) (accepted s)"
    using tp_reach_inv [OF assms] unfolding tp_inv_def by blast
  then show ?thesis by (cases "tp_queue s") auto
qed

theorem threadpool_fifo_bounded_witness:
  "\<exists>s. tp_run [Submit (7 :: nat), Submit 8, Worker 0, Worker 0] (threadpool_init 1 empty_store) = Some s
     \<and> map tp_data (accepted s) = [7, 8] \<and> map tp_data (started s) = [7]
     \<and> (case tp_queue s of
          Some q \<Rightarrow> started s @ queue_contents q = accepted s \<and> length (queue_contents q) \<le> 65 \<and> cancelled s = []
        | None \<Rightarrow> started s @ rev (cancelled s) = accepted s)"
proof -
  have "case tp_run [Submit (7 :: nat), Submit 8, Worker 0, Worker 0] (threadpool_init 1 empty_store) of
      Some s \<Rightarrow> map tp_data (accepted s) = [7, 8] \<and> map tp_data (started s) = [7] | None \<Rightarrow> False"
    by code_simp
  then obtain s where s: "tp_run [Submit (7 :: nat), Submit 8, Worker 0, Worker 0] (threadpool_init 1 empty_store) = Some s"
    "map tp_data (accepted s) = [7, 8]" "map tp_data (started s) = [7]"
    by (cases "tp_run [Submit (7 :: nat), Submit 8, Worker 0, Worker 0] (threadpool_init 1 empty_store)")
      (simp_all del: tp_run.simps)
  show ?thesis
    by (rule exI [of _ s], intro conjI s threadpool_fifo_bounded [OF tp_run_init [OF s(1)]])
qed

text \<open>
  C5: every accepted work item gets its \<open>after_proc\<close> exactly once and its \<open>proc\<close> at most once,
  counted as multisets over all interleavings: once the pool is torn down and all workers have
  left \<open>thread_func\<close>, the \<open>after_proc\<close> calls are exactly the accepted items, and the \<open>proc\<close>
  calls exactly those a worker took; at every earlier moment neither log exceeds what was
  accepted.
\<close>
theorem threadpool_callbacks_exactly_once:
  assumes "tp_reach n s"
  shows "mset (proc_log s) \<subseteq># mset (accepted s) \<and> mset (after_log s) \<subseteq># mset (accepted s)
    \<and> (ctl s \<in> {Joining, Done} \<and> (\<forall>i<n. pcs s i = Exited) \<longrightarrow>
        mset (after_log s) = mset (accepted s) \<and> mset (proc_log s) = mset (started s))"
proof -
  have q: "queue_inv (tp_queue s) (started s) (cancelled s) (accepted s)"
    and c: "ctl s \<in> {Idle, Posted} \<longleftrightarrow> tp_queue s \<noteq> None"
    and p: "mset (started s) = mset (proc_log s) + (\<Sum>i<n. running (pcs s i))"
    and a: "mset (started s) + mset (cancelled s) = mset (after_log s) + (\<Sum>i<n. busy (pcs s i))"
    using tp_reach_inv [OF assms] unfolding tp_inv_def by blast+
  note le = queue_inv_mset(1) [OF q] and eq = queue_inv_mset(2) [OF q]
  have "mset (proc_log s) \<subseteq># mset (started s)" unfolding p by simp
  also have "\<dots> \<subseteq># mset (accepted s)" using le by (rule subset_mset.order_trans [rotated]) simp
  finally have "mset (proc_log s) \<subseteq># mset (accepted s)" .
  moreover have "mset (after_log s) \<subseteq># mset (accepted s)"
    using le unfolding a by (rule subset_mset.order_trans [rotated]) simp
  moreover have "mset (after_log s) = mset (accepted s) \<and> mset (proc_log s) = mset (started s)"
    if "ctl s \<in> {Joining, Done}" "\<forall>i<n. pcs s i = Exited"
  proof -
    have "tp_queue s = None" using c that(1) by auto
    moreover have "(\<Sum>i<n. running (pcs s i)) = {#}" "(\<Sum>i<n. busy (pcs s i)) = {#}"
      using that(2) by simp_all
    ultimately show ?thesis using eq a p by simp
  qed
  ultimately show ?thesis by blast
qed

theorem threadpool_callbacks_exactly_once_witness:
  "\<exists>s. tp_run demo_events (threadpool_init 1 empty_store) = Some s \<and> length (accepted s) = 2
     \<and> mset (after_log s) = mset (accepted s) \<and> mset (proc_log s) = mset (started s)"
proof -
  obtain s where s: "tp_run demo_events (threadpool_init 1 empty_store) = Some s"
    "pcs s 0 = Exited" "ctl s = Done" "length (after_log s) = 2"
    using demo_run by (auto split: option.splits)
  then have "mset (after_log s) = mset (accepted s) \<and> mset (proc_log s) = mset (started s)"
    using threadpool_callbacks_exactly_once [OF tp_run_init [OF s(1)]] by simp
  then show ?thesis using s by (metis size_mset)
qed

text \<open>
  C10: no wake-up is lost.  While work is queued no worker sleeps on the condition variable, and
  until the tear-down begins every worker can either make a step or sleeps on an empty queue:
  none has left its loop and none has faulted.
\<close>
theorem threadpool_no_lost_wakeup:
  assumes "tp_reach n s" "i < n" "tp_queue s = Some q"
  shows "(queue_contents q \<noteq> [] \<longrightarrow> pcs s i \<noteq> Waiting)
    \<and> (ctl s = Idle \<longrightarrow> (\<exists>t. thread_func_step i s = Some t) \<or> (pcs s i = Waiting \<and> queue_contents q = []))"
proof -
  have w: "wake_inv (Some q) (ctl s) (exit_sem s) (pcs s) n"
    using tp_reach_wake [OF assms(1)] assms(3) by (simp add: tp_wake_def)
  have "\<exists>t. thread_func_step i s = Some t" if "pcs s i \<notin> {Waiting, Exited, Crashed}"
    using that assms(3) by (cases "pcs s i") (auto simp: thread_func_step_def split: sum.splits bool.splits option.splits)
  then show ?thesis using w assms(2) by auto
qed

theorem threadpool_no_lost_wakeup_witness:
  "\<exists>s q. tp_run [Worker 0, Worker 0, Submit (7 :: nat)] (threadpool_init 1 empty_store) = Some s
     \<and> tp_queue s = Some q \<and> queue_contents q \<noteq> [] \<and> pcs s 0 \<noteq> Waiting"
proof -
  have "case tp_run [Worker 0, Worker 0, Submit (7 :: nat)] (threadpool_init 1 empty_store) of
      Some s \<Rightarrow> (case tp_queue s of Some q \<Rightarrow> map tp_data (queue_contents q) = [7] | None \<Rightarrow> False)
    | None \<Rightarrow> False"
    by code_simp
  then obtain s q where s: "tp_run [Worker 0, Worker 0, Submit (7 :: nat)] (threadpool_init 1 empty_store) = Some s"
    "tp_queue s = Some q" "queue_contents q \<noteq> []"
    by (auto split: option.splits simp del: tp_run.simps)
  then have "pcs s 0 \<noteq> Waiting"
    using threadpool_no_lost_wakeup [OF tp_run_init [OF s(1)] _ s(2), of 0] by simp
  then show ?thesis using s by blast
qed

text \<open>
  C24: tearing the pool down can crash it.  A worker that tested the exit semaphore before it was
  raised, or between another worker's \<open>uv_sem_trywait\<close> and \<open>uv_sem_post\<close>, goes on to call
  \<open>easy_queue_pop\<close> on \<open>tp->queue\<close>, which \<open>_threadpool_cancel_all\<close> has set to \<open>NULL\<close>: such a
  state is reachable with one worker, and with two workers even when both test the semaphore
  after the queue is gone.
\<close>
theorem threadpool_teardown_can_crash:
  "(\<exists>s. tp_reach 1 s \<and> pcs s 0 = (Crashed :: nat pc))
   \<and> (\<exists>s t. tp_reach 2 s \<and> tp_queue s = None \<and> pcs s 0 = Top \<and> pcs s 1 = Top
        \<and> tp_run [Worker 0, Worker 1, Worker 1] s = Some t \<and> pcs t 1 = (Crashed :: nat pc))"
proof
  have "case tp_run [Worker 0, Post, Clear, Worker 0] (threadpool_init 1 empty_store) of
      Some s \<Rightarrow> pcs s 0 = (Crashed :: nat pc) | None \<Rightarrow> False"
    by code_simp
  then show "\<exists>s. tp_reach 1 s \<and> pcs s 0 = (Crashed :: nat pc)"
    by (auto split: option.splits simp del: tp_run.simps intro: tp_run_init)
  have "case tp_run [Post, Clear] (threadpool_init 2 empty_store) of
      Some s \<Rightarrow> tp_queue s = None \<and> pcs s 0 = (Top :: nat pc) \<and> pcs s 1 = Top
        \<and> (case tp_run [Worker 0, Worker 1, Worker 1] s of Some t \<Rightarrow> pcs t 1 = Crashed | None \<Rightarrow> False)
    | None \<Rightarrow> False"
    by code_simp
  then show "\<exists>s t. tp_reach 2 s \<and> tp_queue s = None \<and> pcs s 0 = Top \<and> pcs s 1 = Top
        \<and> tp_run [Worker 0, Worker 1, Worker 1] s = Some t \<and> pcs t 1 = (Crashed :: nat pc)"
    by (auto split: option.splits simp del: tp_run.simps intro: tp_run_init)
qed

end
