(* ===== verification/Common.thy ===== *)
theory Common
  imports Pack RecvHelper SendHelper ThreadPool
begin

text \<open>
  The server's state: \<open>net_svr_t\<close> of \<open>src/inc/common.h\<close> with the records it points to
  (\<open>work_pool_t\<close> of \<open>src/core/engine.h\<close>, \<open>send_thread_t\<close> and \<open>send_helper_t\<close> of
  \<open>src/helper/sendhelper.h\<close>), and \<open>sys\<close>, which adds what the operating system keeps for the
  process: the heap blocks alive, the epoll interest list of \<open>ep_fd\<close>, the open and the
  non-blocking descriptors and, for each descriptor, the bytes handed to \<open>send\<close> so far.

  The pointer \<open>thread->cache\<close> always equals \<open>helper->m_queue\<close>, \<open>pool.sendthread\<close> always
  \<open>shpr->thread\<close> and \<open>work->pool\<close> and \<open>thread->svr\<close> always the one server, so the state holds
  each of these objects once.
\<close>

section \<open>Data\<close>

type_synonym TASKHANDLER = "u8 list \<Rightarrow> int \<Rightarrow> u8 list \<Rightarrow> int \<Rightarrow> int \<times> u8 list \<times> int"

text \<open>\<open>_work_t\<close> of \<open>engine.c\<close>; \<open>wk_pack\<close> and \<open>wk_self\<close> are the addresses of the two blocks.\<close>

record work_t =
  wk_connid :: CONNID
  wk_size :: u32
  wk_data :: "u8 list"
  wk_pack :: nat
  wk_self :: nat

record work_pool_t =
  thread_pool :: "work_t threadpool_t ptr"
  poolsize :: int
  processmsg :: "TASKHANDLER option"

text \<open>
  The position of the send thread in \<open>send_func\<close>: reading the queue, about to call \<open>send_wait\<close>,
  or blocked in it.
\<close>

datatype send_pc = SLook | SWait | SBlocked

record send_thread_t =
  st_started :: bool
  st_pc :: send_pc

record send_helper_t =
  m_queue :: "send_queue_t ptr"
  sh_thread :: "send_thread_t ptr"

record net_svr_t =
  svr_sock :: int
  ep_fd :: int
  lis_tid :: bool
  loop_tid :: bool
  conntable :: "conn_table_t ptr"
  pool :: work_pool_t
  shpr :: "send_helper_t ptr"
  rhpr :: "recv_helper_t ptr"

record epoll_event =
  ev_events :: u32
  ev_u64 :: CONNID

record sys = net_svr_t +
  live :: "nat set"
  fresh :: nat
  interest :: "int \<Rightarrow> epoll_event option"
  open_fds :: "int set"
  nonblock :: "int set"
  sent :: "int \<Rightarrow> u8 list"

section \<open>Heap blocks\<close>

definition malloc_block :: "sys \<Rightarrow> nat \<times> sys" where
  "malloc_block s = (fresh s, s\<lparr>live := insert (fresh s) (live s), fresh := fresh s + 1\<rparr>)"

definition free_block :: "nat \<Rightarrow> sys \<Rightarrow> sys res" where
  "free_block b s = (if b \<in> live s then Inr (s\<lparr>live := live s - {b}\<rparr>) else Inl Use_after_free)"

section \<open>The epoll interest list\<close>

definition EPOLLIN :: u32 where "EPOLLIN = 1"
definition EPOLLOUT :: u32 where "EPOLLOUT = 4"
definition EPOLLET :: u32 where "EPOLLET = 0x80000000"

definition ev_all :: u32 where "ev_all = or (or EPOLLIN EPOLLET) EPOLLOUT"
definition ev_in :: u32 where "ev_in = or EPOLLIN EPOLLET"

text \<open>
  \<open>epoll_ctl\<close> as documented: \<open>EPOLL_CTL_ADD\<close> fails on a registered descriptor, \<open>EPOLL_CTL_MOD\<close>
  on an unregistered one, both on a closed one; \<open>ok = False\<close> is any other failure (no memory,
  no watches left).
\<close>

definition epoll_add :: "bool \<Rightarrow> int \<Rightarrow> epoll_event \<Rightarrow> sys \<Rightarrow> int \<times> sys" where
  "epoll_add ok fd ev s =
     (if ok \<and> fd \<in> open_fds s \<and> interest s fd = None
      then (0, s\<lparr>interest := (interest s)(fd \<mapsto> ev)\<rparr>) else (- 1, s))"

definition epoll_mod :: "bool \<Rightarrow> int \<Rightarrow> epoll_event \<Rightarrow> sys \<Rightarrow> int \<times> sys" where
  "epoll_mod ok fd ev s =
     (if ok \<and> fd \<in> open_fds s \<and> interest s fd \<noteq> None
      then (0, s\<lparr>interest := (interest s)(fd \<mapsto> ev)\<rparr>) else (- 1, s))"

text \<open>\<open>close\<close> also takes the descriptor out of the interest list.\<close>

definition close_fd :: "int \<Rightarrow> sys \<Rightarrow> sys" where
  "close_fd fd s = s\<lparr>open_fds := open_fds s - {fd}, nonblock := nonblock s - {fd},
     interest := (interest s)(fd := None)\<rparr>"

section \<open>Reaching the components through their pointers\<close>

definition with_table :: "(conn_table_t \<Rightarrow> ('a \<times> conn_table_t) res) \<Rightarrow> sys \<Rightarrow> ('a \<times> sys) res" where
  "with_table f s =
     bind_res (deref (conntable s)) (\<lambda>t. bind_res (f t) (\<lambda>(a, t). Inr (a, s\<lparr>conntable := Live t\<rparr>)))"

definition with_cache :: "(recv_helper_t \<Rightarrow> ('a \<times> recv_helper_t) res) \<Rightarrow> sys \<Rightarrow> ('a \<times> sys) res" where
  "with_cache f s =
     bind_res (deref (rhpr s)) (\<lambda>h. bind_res (f h) (\<lambda>(a, h). Inr (a, s\<lparr>rhpr := Live h\<rparr>)))"

definition with_queue :: "(send_queue_t \<Rightarrow> ('a \<times> send_queue_t) res) \<Rightarrow> sys \<Rightarrow> ('a \<times> sys) res" where
  "with_queue f s =
     bind_res (deref (shpr s)) (\<lambda>h. bind_res (deref (m_queue h)) (\<lambda>q.
     bind_res (f q) (\<lambda>(a, q). Inr (a, s\<lparr>shpr := Live (h\<lparr>m_queue := Live q\<rparr>)\<rparr>))))"

definition with_pool :: "(work_t threadpool_t \<Rightarrow> ('a \<times> work_t threadpool_t) res) \<Rightarrow> sys \<Rightarrow> ('a \<times> sys) res" where
  "with_pool f s =
     bind_res (deref (thread_pool (pool s))) (\<lambda>tp. bind_res (f tp) (\<lambda>(a, tp).
     Inr (a, s\<lparr>pool := (pool s)\<lparr>thread_pool := Live tp\<rparr>\<rparr>)))"

section \<open>Views of a running server\<close>

text \<open>
  In a running server every component is allocated and no lock is held between operations.
  The views read the contents; outside a running server they are unspecified.
\<close>

definition the_live :: "'a ptr \<Rightarrow> 'a" where
  "the_live p = (case p of Live a \<Rightarrow> a)"

definition is_live :: "'a ptr \<Rightarrow> bool" where
  "is_live p \<longleftrightarrow> (case p of Live _ \<Rightarrow> True | _ \<Rightarrow> False)"

lemma the_live_simps [simp]: "the_live (Live a) = a" "is_live (Live a)" "\<not> is_live Null" "\<not> is_live Dangling"
  by (simp_all add: the_live_def is_live_def)

lemma is_live_iff: "is_live p \<longleftrightarrow> (\<exists>a. p = Live a)"
  by (cases p) (auto simp: is_live_def)

definition table_of :: "sys \<Rightarrow> conn_table_t" where "table_of s = the_live (conntable s)"
definition cache_of :: "sys \<Rightarrow> recv_helper_t" where "cache_of s = the_live (rhpr s)"
definition queue_of :: "sys \<Rightarrow> send_queue_t" where "queue_of s = the_live (m_queue (the_live (shpr s)))"
definition tpool_of :: "sys \<Rightarrow> work_t threadpool_t" where "tpool_of s = the_live (thread_pool (pool s))"

definition sys_up :: "sys \<Rightarrow> bool" where
  "sys_up s \<longleftrightarrow> is_live (conntable s) \<and> is_live (rhpr s) \<and> is_live (shpr s)
     \<and> is_live (m_queue (the_live (shpr s))) \<and> is_live (sh_thread (the_live (shpr s)))
     \<and> is_live (thread_pool (pool s))
     \<and> rwlock (table_of s) = Free \<and> \<not> rh_lock (cache_of s) \<and> \<not> sq_lock (queue_of s)"

definition conns :: "sys \<Rightarrow> CONNID \<Rightarrow> svr_connect_t option" where
  "conns s = conn_map (table_of s)"

definition leftovers :: "sys \<Rightarrow> CONNID \<Rightarrow> u8 list option" where
  "leftovers s = m_datamap (cache_of s)"

definition sendlist :: "sys \<Rightarrow> SEND_T list" where
  "sendlist s = m_list (queue_of s)"

definition set_conns :: "(CONNID \<Rightarrow> svr_connect_t option) \<Rightarrow> sys \<Rightarrow> sys" where
  "set_conns m s = s\<lparr>conntable := Live ((table_of s)\<lparr>conn_map := m\<rparr>)\<rparr>"

definition set_leftovers :: "(CONNID \<Rightarrow> u8 list option) \<Rightarrow> sys \<Rightarrow> sys" where
  "set_leftovers m s = s\<lparr>rhpr := Live ((cache_of s)\<lparr>m_datamap := m\<rparr>)\<rparr>"

definition set_sendlist :: "SEND_T list \<Rightarrow> sys \<Rightarrow> sys" where
  "set_sendlist l s = s\<lparr>shpr := Live ((the_live (shpr s))\<lparr>m_queue := Live ((queue_of s)\<lparr>m_list := l\<rparr>)\<rparr>)\<rparr>"

definition set_tpool :: "work_t threadpool_t \<Rightarrow> sys \<Rightarrow> sys" where
  "set_tpool tp s = s\<lparr>pool := (pool s)\<lparr>thread_pool := Live tp\<rparr>\<rparr>"

lemmas view_defs = conns_def leftovers_def sendlist_def table_of_def cache_of_def queue_of_def tpool_of_def

lemma set_views [simp]:
  "conns (set_conns m s) = m" "leftovers (set_conns m s) = leftovers s"
  "sendlist (set_conns m s) = sendlist s" "tpool_of (set_conns m s) = tpool_of s"
  "conns (set_leftovers r s) = conns s" "leftovers (set_leftovers r s) = r"
  "sendlist (set_leftovers r s) = sendlist s" "tpool_of (set_leftovers r s) = tpool_of s"
  "conns (set_sendlist l s) = conns s" "leftovers (set_sendlist l s) = leftovers s"
  "sendlist (set_sendlist l s) = l" "tpool_of (set_sendlist l s) = tpool_of s"
  "conns (set_tpool tp s) = conns s" "leftovers (set_tpool tp s) = leftovers s"
  "sendlist (set_tpool tp s) = sendlist s" "tpool_of (set_tpool tp s) = tp"
  by (simp_all add: view_defs set_conns_def set_leftovers_def set_sendlist_def set_tpool_def)

lemma set_up [simp]:
  assumes "sys_up s"
  shows "sys_up (set_conns m s)" "sys_up (set_leftovers r s)" "sys_up (set_sendlist l s)" "sys_up (set_tpool tp s)"
  using assms by (auto simp: sys_up_def view_defs set_conns_def set_leftovers_def set_sendlist_def set_tpool_def)

lemma set_kernel [simp]:
  "live (set_conns m s) = live s" "fresh (set_conns m s) = fresh s" "interest (set_conns m s) = interest s"
  "open_fds (set_conns m s) = open_fds s" "sent (set_conns m s) = sent s" "nonblock (set_conns m s) = nonblock s"
  "live (set_leftovers r s) = live s" "fresh (set_leftovers r s) = fresh s" "interest (set_leftovers r s) = interest s"
  "open_fds (set_leftovers r s) = open_fds s" "sent (set_leftovers r s) = sent s" "nonblock (set_leftovers r s) = nonblock s"
  "live (set_sendlist l s) = live s" "fresh (set_sendlist l s) = fresh s" "interest (set_sendlist l s) = interest s"
  "open_fds (set_sendlist l s) = open_fds s" "sent (set_sendlist l s) = sent s" "nonblock (set_sendlist l s) = nonblock s"
  "live (set_tpool tp s) = live s" "fresh (set_tpool tp s) = fresh s" "interest (set_tpool tp s) = interest s"
  "open_fds (set_tpool tp s) = open_fds s" "sent (set_tpool tp s) = sent s" "nonblock (set_tpool tp s) = nonblock s"
  by (simp_all add: set_conns_def set_leftovers_def set_sendlist_def set_tpool_def)

lemma set_processmsg [simp]:
  "processmsg (pool (set_conns m s)) = processmsg (pool s)" "processmsg (pool (set_leftovers r s)) = processmsg (pool s)"
  "processmsg (pool (set_sendlist l s)) = processmsg (pool s)" "processmsg (pool (set_tpool tp s)) = processmsg (pool s)"
  by (simp_all add: set_conns_def set_leftovers_def set_sendlist_def set_tpool_def)

lemma kernel_views [simp]:
  "conns (s\<lparr>live := a\<rparr>) = conns s" "leftovers (s\<lparr>live := a\<rparr>) = leftovers s" "sendlist (s\<lparr>live := a\<rparr>) = sendlist s"
  "tpool_of (s\<lparr>live := a\<rparr>) = tpool_of s" "sys_up (s\<lparr>live := a\<rparr>) = sys_up s"
  "conns (s\<lparr>fresh := b\<rparr>) = conns s" "leftovers (s\<lparr>fresh := b\<rparr>) = leftovers s" "sendlist (s\<lparr>fresh := b\<rparr>) = sendlist s"
  "tpool_of (s\<lparr>fresh := b\<rparr>) = tpool_of s" "sys_up (s\<lparr>fresh := b\<rparr>) = sys_up s"
  "conns (s\<lparr>interest := c\<rparr>) = conns s" "leftovers (s\<lparr>interest := c\<rparr>) = leftovers s"
  "sendlist (s\<lparr>interest := c\<rparr>) = sendlist s" "tpool_of (s\<lparr>interest := c\<rparr>) = tpool_of s"
  "sys_up (s\<lparr>interest := c\<rparr>) = sys_up s"
  "conns (s\<lparr>open_fds := d\<rparr>) = conns s" "leftovers (s\<lparr>open_fds := d\<rparr>) = leftovers s"
  "sendlist (s\<lparr>open_fds := d\<rparr>) = sendlist s" "tpool_of (s\<lparr>open_fds := d\<rparr>) = tpool_of s"
  "sys_up (s\<lparr>open_fds := d\<rparr>) = sys_up s"
  "conns (s\<lparr>nonblock := d\<rparr>) = conns s" "leftovers (s\<lparr>nonblock := d\<rparr>) = leftovers s"
  "sendlist (s\<lparr>nonblock := d\<rparr>) = sendlist s" "tpool_of (s\<lparr>nonblock := d\<rparr>) = tpool_of s"
  "sys_up (s\<lparr>nonblock := d\<rparr>) = sys_up s"
  "conns (s\<lparr>sent := e\<rparr>) = conns s" "leftovers (s\<lparr>sent := e\<rparr>) = leftovers s" "sendlist (s\<lparr>sent := e\<rparr>) = sendlist s"
  "tpool_of (s\<lparr>sent := e\<rparr>) = tpool_of s" "sys_up (s\<lparr>sent := e\<rparr>) = sys_up s"
  by (simp_all add: view_defs sys_up_def)

section \<open>Component operations of a running server\<close>

lemma same_fields:
  "conntable s = Live (table_of s) \<Longrightarrow> s\<lparr>conntable := Live (table_of s)\<rparr> = s"
  "rhpr s = Live (cache_of s) \<Longrightarrow> s\<lparr>rhpr := Live (cache_of s)\<rparr> = s"
  by (cases s, simp)+

lemma with_table_up:
  "sys_up s \<Longrightarrow> with_table f s =
     bind_res (f (table_of s)) (\<lambda>(a, t). Inr (a, s\<lparr>conntable := Live t\<rparr>))"
  by (auto simp: with_table_def sys_up_def is_live_iff table_of_def)

lemma with_cache_up:
  "sys_up s \<Longrightarrow> with_cache f s = bind_res (f (cache_of s)) (\<lambda>(a, t). Inr (a, s\<lparr>rhpr := Live t\<rparr>))"
  by (auto simp: with_cache_def sys_up_def is_live_iff cache_of_def)

lemma with_queue_up:
  "sys_up s \<Longrightarrow> with_queue f s =
     bind_res (f (queue_of s)) (\<lambda>(a, q). Inr (a, s\<lparr>shpr := Live ((the_live (shpr s))\<lparr>m_queue := Live q\<rparr>)\<rparr>))"
  by (auto simp: with_queue_def sys_up_def is_live_iff queue_of_def)

lemma with_pool_up:
  "sys_up s \<Longrightarrow> with_pool f s = bind_res (f (tpool_of s)) (\<lambda>(a, tp). Inr (a, set_tpool tp s))"
  by (auto simp: with_pool_def sys_up_def is_live_iff tpool_of_def set_tpool_def)

lemma up_locks:
  assumes "sys_up s"
  shows "rwlock (table_of s) = Free" "\<not> rh_lock (cache_of s)" "\<not> sq_lock (queue_of s)"
    "s\<lparr>conntable := Live (table_of s)\<rparr> = s" "s\<lparr>rhpr := Live (cache_of s)\<rparr> = s"
    "s\<lparr>shpr := Live ((the_live (shpr s))\<lparr>m_queue := Live (queue_of s)\<rparr>)\<rparr> = s"
  using assms by (cases s; auto simp: sys_up_def is_live_iff view_defs)+

lemma table_ops_up [up_simps]:
  assumes "sys_up s"
  shows "with_table (\<lambda>t. conn_get_sockfd t cid) s =
      Inr (case conns s cid of Some c \<Rightarrow> client_fd (clt c) | None \<Rightarrow> - 1, s)"
    and "with_table (\<lambda>t. conn_remove t cid) s = Inr (0, set_conns ((conns s)(cid := None)) s)"
  using up_locks [OF assms]
  by (simp_all add: with_table_up [OF assms] lock_simps conns_def set_conns_def)

lemma cache_ops_up [up_simps]:
  assumes "sys_up s"
  shows "with_cache (\<lambda>h. MRecv_remove h cid) s = Inr (0, set_leftovers ((leftovers s)(cid := None)) s)"
    and "leftovers s cid = None \<Longrightarrow> 0 \<le> len \<Longrightarrow> len \<le> int (length data) \<Longrightarrow>
      with_cache (\<lambda>h. MRecv_insert nd h cid data len) s =
        Inr (0, set_leftovers ((leftovers s)(cid \<mapsto> take (nat len) data)) s)"
  using up_locks [OF assms]
  by (simp_all add: with_cache_up [OF assms] lock_simps leftovers_def set_leftovers_def)

lemma cache_find_up [up_simps]:
  assumes "sys_up s"
  shows "with_cache (\<lambda>h. bind_res (MRecv_find h cid len) (\<lambda>(r, d, n, h). Inr ((r, d, n), h))) s =
      Inr (case leftovers s cid of
             None \<Rightarrow> (- 1, None, - 1)
           | Some d \<Rightarrow> if csize len < int (length d) then (- 1, None, cint (int (length d)))
                      else (0, Some d, cint (int (length d))), s)"
  using up_locks [OF assms]
  by (auto simp: with_cache_up [OF assms] lock_simps leftovers_def split: option.splits)

lemma queue_ops_up [up_simps]:
  assumes "sys_up s"
  shows "with_queue QSend_connid_of_front s =
      Inr (case sendlist s of [] \<Rightarrow> SVR_INVALID_CONNECT_ID | e # _ \<Rightarrow> snd_conn_id e, s)"
    and "with_queue (\<lambda>q. QSend_remove_all_by_connid q cid) s =
      Inr (0, set_sendlist (filter (\<lambda>e. snd_conn_id e \<noteq> cid) (sendlist s)) s)"
  using up_locks [OF assms]
  by (simp_all add: with_queue_up [OF assms] lock_simps sendlist_def set_sendlist_def)

lemma queue_push_up:
  assumes "sys_up s" "0 \<le> len" "len \<le> int (length data)" "len < 2147483648"
    and "\<And>e. e \<in> set (sendlist s) \<Longrightarrow> length (snd_data e) < 2147483648"
  shows "with_queue (\<lambda>q. QSend_push q cid data len) s =
      Inr (0, set_sendlist (push_list cid (take (nat len) data) (sendlist s)) s)"
  using up_locks [OF assms(1)] assms(2-)
  by (simp add: with_queue_up [OF assms(1)] lock_simps sendlist_def set_sendlist_def)

lemma queue_pop_up [up_simps]:
  assumes "sys_up s"
  shows "with_queue (\<lambda>q. bind_res (QSend_pop_first q cid len) (\<lambda>(r, d, n, q). Inr ((r, d, n), q))) s =
      Inr (case find (\<lambda>e. cid = snd_conn_id e) (sendlist s) of
             None \<Rightarrow> ((- 1, None, len), s)
           | Some e \<Rightarrow> if csize len < int (length (snd_data e))
                      then ((- 1, None, cint (int (length (snd_data e)))), s)
                      else ((0, Some (snd_data e), cint (int (length (snd_data e)))),
                            set_sendlist (erase_first cid (sendlist s)) s))"
  using up_locks [OF assms]
  by (auto simp: with_queue_up [OF assms] lock_simps sendlist_def set_sendlist_def split: option.splits)

end
