(* ===== verification/SendThread.thy ===== *)
theory SendThread
  imports Common
begin

text \<open>
  The send thread of \<open>src/helper/sendhelper.cpp\<close>: \<open>create_send_helper\<close>, \<open>sendhelper_start\<close>,
  \<open>send_wait\<close>, \<open>send_signal\<close>, one step of \<open>send_func\<close>, \<open>release_send_helper\<close>.

  \<open>send_func\<close> reads the queue and decides to wait in one step and enters \<open>send_wait\<close> in the
  next, as nothing keeps other threads from running in between.
\<close>

section \<open>Operations\<close>

definition create_send_helper :: send_helper_t where
  "create_send_helper =
     \<lparr>m_queue = Live create_send_queue, sh_thread = Live \<lparr>st_started = False, st_pc = SLook\<rparr>\<rparr>"

definition with_sender :: "(send_thread_t \<Rightarrow> send_thread_t) \<Rightarrow> sys \<Rightarrow> sys res" where
  "with_sender f s =
     bind_res (deref (shpr s)) (\<lambda>h. bind_res (deref (sh_thread h)) (\<lambda>t.
     Inr (s\<lparr>shpr := Live (h\<lparr>sh_thread := Live (f t)\<rparr>)\<rparr>)))"

definition sendhelper_start :: "sys \<Rightarrow> sys res" where
  "sendhelper_start = with_sender (\<lambda>t. t\<lparr>st_started := True\<rparr>)"

definition send_wait :: "sys \<Rightarrow> sys res" where
  "send_wait = with_sender (\<lambda>t. t\<lparr>st_pc := SBlocked\<rparr>)"

text \<open>\<open>pthread_cond_signal\<close> wakes the thread if it is blocked and has no effect otherwise.\<close>

definition send_signal :: "sys \<Rightarrow> sys res" where
  "send_signal = with_sender (\<lambda>t. if st_pc t = SBlocked then t\<lparr>st_pc := SLook\<rparr> else t)"

text \<open>
  One step of \<open>send_func\<close> of a thread that is not blocked; \<open>ok\<close> is whether \<open>epoll_ctl\<close>
  succeeds on a registered descriptor.
\<close>

definition send_func_step :: "bool \<Rightarrow> sys \<Rightarrow> sys res" where
  "send_func_step ok s =
     bind_res (deref (shpr s)) (\<lambda>h. bind_res (deref (sh_thread h)) (\<lambda>thread.
     if st_pc thread = SWait then send_wait s
     else
       bind_res (with_queue QSend_connid_of_front s) (\<lambda>(connid, s).
       if connid = SVR_INVALID_CONNECT_ID then with_sender (\<lambda>t. t\<lparr>st_pc := SWait\<rparr>) s
       else
         bind_res (with_table (\<lambda>t. conn_get_sockfd t connid) s) (\<lambda>(socket, s).
         if socket = - 1 then Inr s
         else
           let (r, s) = epoll_mod ok socket \<lparr>ev_events = ev_all, ev_u64 = connid\<rparr> s
           in if r \<noteq> 0
              then bind_res (with_queue (\<lambda>q. QSend_remove_all_by_connid q connid) s) (\<lambda>(_, s).
                   bind_res (with_table (\<lambda>t. conn_remove t connid) s) (\<lambda>(_, s). Inr s))
              else Inr s))))"

definition release_send_helper :: "send_helper_t ptr \<Rightarrow> send_helper_t ptr res" where
  "release_send_helper helper =
     bind_res (deref helper) (\<lambda>h. bind_res (deref (sh_thread h)) (\<lambda>_. Inr Dangling))"

section \<open>The operations in a running server\<close>

definition sender_pc :: "sys \<Rightarrow> send_pc" where
  "sender_pc s = st_pc (the_live (sh_thread (the_live (shpr s))))"

definition set_sender :: "send_pc \<Rightarrow> sys \<Rightarrow> sys" where
  "set_sender p s = s\<lparr>shpr := Live ((the_live (shpr s))\<lparr>sh_thread :=
     Live ((the_live (sh_thread (the_live (shpr s))))\<lparr>st_pc := p\<rparr>)\<rparr>)\<rparr>"

lemma set_sender_views [simp]:
  "conns (set_sender p s) = conns s" "leftovers (set_sender p s) = leftovers s"
  "sendlist (set_sender p s) = sendlist s" "tpool_of (set_sender p s) = tpool_of s"
  "live (set_sender p s) = live s" "fresh (set_sender p s) = fresh s" "interest (set_sender p s) = interest s"
  "open_fds (set_sender p s) = open_fds s" "sent (set_sender p s) = sent s" "nonblock (set_sender p s) = nonblock s"
  "processmsg (pool (set_sender p s)) = processmsg (pool s)"
  "sender_pc (set_sender p s) = p" "sys_up s \<Longrightarrow> sys_up (set_sender p s)"
  by (auto simp: set_sender_def view_defs sender_pc_def sys_up_def)

lemma sender_pc_sets [simp]:
  "sender_pc (set_conns m s) = sender_pc s" "sender_pc (set_leftovers r s) = sender_pc s"
  "sender_pc (set_sendlist l s) = sender_pc s" "sender_pc (set_tpool tp s) = sender_pc s"
  "sender_pc (s\<lparr>live := a\<rparr>) = sender_pc s" "sender_pc (s\<lparr>fresh := b\<rparr>) = sender_pc s"
  "sender_pc (s\<lparr>interest := c\<rparr>) = sender_pc s" "sender_pc (s\<lparr>open_fds := d\<rparr>) = sender_pc s"
  "sender_pc (s\<lparr>nonblock := d\<rparr>) = sender_pc s" "sender_pc (s\<lparr>sent := e\<rparr>) = sender_pc s"
  by (simp_all add: sender_pc_def set_conns_def set_leftovers_def set_sendlist_def set_tpool_def)

lemma send_signal_up [up_simps]:
  "sys_up s \<Longrightarrow> send_signal s = Inr (if sender_pc s = SBlocked then set_sender SLook s else s)"
proof -
  assume "sys_up s"
  then obtain h t where h: "shpr s = Live h" "sh_thread h = Live t"
    by (auto simp: sys_up_def is_live_iff)
  then have "s\<lparr>shpr := Live (h\<lparr>sh_thread := Live t\<rparr>)\<rparr> = s"
    by (cases s, cases h) simp
  then show ?thesis using h by (simp add: send_signal_def with_sender_def sender_pc_def set_sender_def)
qed

lemma send_wait_up [up_simps]: "sys_up s \<Longrightarrow> send_wait s = Inr (set_sender SBlocked s)"
  by (auto simp: send_wait_def with_sender_def sys_up_def is_live_iff set_sender_def)

text \<open>What one step does, case by case.\<close>

lemma send_func_step_up:
  assumes "sys_up s"
  shows "send_func_step ok s = Inr
    (if sender_pc s = SWait then set_sender SBlocked s
     else case sendlist s of
       [] \<Rightarrow> set_sender SWait s
     | e # _ \<Rightarrow>
         let cid = snd_conn_id e in
         if cid = SVR_INVALID_CONNECT_ID then set_sender SWait s
         else case conns s cid of
           None \<Rightarrow> s
         | Some c \<Rightarrow>
             if client_fd (clt c) = - 1 then s
             else if ok \<and> client_fd (clt c) \<in> open_fds s \<and> interest s (client_fd (clt c)) \<noteq> None
             then s\<lparr>interest := (interest s)(client_fd (clt c) \<mapsto> \<lparr>ev_events = ev_all, ev_u64 = cid\<rparr>)\<rparr>
             else set_conns ((conns s)(cid := None))
                    (set_sendlist (filter (\<lambda>e. snd_conn_id e \<noteq> cid) (sendlist s)) s))"
proof -
  from assms obtain h t where h: "shpr s = Live h" "sh_thread h = Live t"
    by (auto simp: sys_up_def is_live_iff)
  have pc: "sender_pc s = st_pc t" by (simp add: sender_pc_def h)
  have park: "with_sender (\<lambda>t. t\<lparr>st_pc := SWait\<rparr>) s = Inr (set_sender SWait s)"
    by (simp add: with_sender_def h set_sender_def)
  show ?thesis
  proof (cases "sender_pc s = SWait")
    case True
    then show ?thesis using h pc assms by (simp add: send_func_step_def send_wait_up)
  next
    case False
    then show ?thesis using h pc assms park
      by (cases "sendlist s")
        (auto simp: send_func_step_def up_simps epoll_mod_def Let_def split: option.splits)
  qed
qed

end
