(* ===== verification/Engine.thy ===== *)
theory Engine
  imports SendThread
begin

text \<open>
  The work engine of \<open>src/core/engine.c\<close>: starting and stopping the pool, pushing a parsed
  packet to it, and what a worker does with one (\<open>work_proc\<close>, then \<open>thread_completed\<close>).

  The user's \<open>TASKHANDLER\<close> is the function \<open>processmsg\<close> of the pool: from the request bytes,
  their length, the output memory and its size it computes a result code, the output memory
  afterwards and the output length.  \<open>junk\<close> is what \<open>malloc(NET_PACK_SIZE_LIMIT)\<close> happens to
  contain.
\<close>

section \<open>Operations\<close>

definition work_proc :: "u8 list \<Rightarrow> work_t \<Rightarrow> sys \<Rightarrow> sys res" where
  "work_proc junk work s =
     (if length (wk_data work) < SIZEOF_NET_PKG then Inl Out_of_bounds
      else
        let pack = load_pkg (wk_data work) in
        if csize (uint (pkg_length pack) + int SIZEOF_NET_PKG) \<noteq> uint (wk_size work) then Inl Assert_failed
        else
          (case processmsg (pool s) of
             None \<Rightarrow> Inr s
           | Some proc \<Rightarrow>
               let (outblk, s) = malloc_block s;
                   (ret, outdata, outlen) =
                     proc (pkg_data pack) (cint (uint (pkg_length pack))) junk (int NET_PACK_SIZE_LIMIT)
               in bind_res
                    (if ret = 0
                     then
                       let msgID = cint (uint (pkg_msgID pack)) in
                       bind_res (create_pack outdata outlen (word_of_int msgID)) (\<lambda>(outlen, outdata).
                       bind_res (with_queue (\<lambda>q. QSend_push q (wk_connid work) outdata outlen) s) (\<lambda>(_, s).
                       send_signal s))
                     else Inr s)
                    (free_block outblk)))"

definition thread_completed :: "work_t \<Rightarrow> sys \<Rightarrow> sys res" where
  "thread_completed work s = bind_res (free_block (wk_pack work) s) (free_block (wk_self work))"

definition workpool_start :: "int \<Rightarrow> work_t thread_param_t store \<Rightarrow> TASKHANDLER option \<Rightarrow> int \<Rightarrow> sys \<Rightarrow> sys res" where
  "workpool_start nprocs m procfunc psize s =
     (let psize = (if psize \<le> 0 then nprocs * 2 + 1 else psize) in
      bind_res (deref (shpr s)) (\<lambda>h.
      Inr (s\<lparr>pool := \<lparr>thread_pool = Live (threadpool_init (nat psize) m), poolsize = psize,
                       processmsg = procfunc\<rparr>\<rparr>)))"

text \<open>A packet is its bytes and the address of its block.\<close>

definition workpool_push_work :: "CONNID \<Rightarrow> u8 list \<times> nat \<Rightarrow> int \<Rightarrow> sys \<Rightarrow> (int \<times> sys) res" where
  "workpool_push_work connid data len s =
     (let (buf, s) = malloc_block s;
          work = \<lparr>wk_connid = connid, wk_size = word_of_int len, wk_data = fst data,
                  wk_pack = snd data, wk_self = buf\<rparr>
      in bind_res (with_pool (\<lambda>tp. threadpool_push_work tp work True True) s) (\<lambda>(ret, s).
         if ret = - 1 then bind_res (free_block buf s) (\<lambda>s. Inr (ret, s))
         else Inr (ret, s)))"

text \<open>
  One step of worker \<open>i\<close>: a step of \<open>thread_func\<close> in which calling \<open>proc\<close> runs \<open>work_proc\<close>
  and calling \<open>after_proc\<close> runs \<open>thread_completed\<close>.  A worker that cannot move stays, and
  one that pops from the released queue faults.
\<close>

definition worker_step :: "u8 list \<Rightarrow> nat \<Rightarrow> sys \<Rightarrow> sys res" where
  "worker_step junk i s =
     bind_res (deref (thread_pool (pool s))) (\<lambda>tp.
     if thread_num tp \<le> i then Inr s
     else
       case thread_func_step i tp of
         None \<Rightarrow> Inr s
       | Some tp' \<Rightarrow>
           bind_res
             (case pcs tp i of
                Run e \<Rightarrow> if tp_proc e then work_proc junk (tp_data e) s else Inr s
              | Finishing e \<Rightarrow> if tp_after_proc e then thread_completed (tp_data e) s else Inr s
              | _ \<Rightarrow> Inr s)
             (\<lambda>s. case pcs tp' i of Crashed \<Rightarrow> Inl Null_deref | _ \<Rightarrow> Inr (set_tpool tp' s)))"

primrec run_workers :: "u8 list \<Rightarrow> nat list \<Rightarrow> sys \<Rightarrow> sys res" where
  "run_workers junk [] s = Inr s"
| "run_workers junk (i # is) s = bind_res (worker_step junk i s) (run_workers junk is)"

text \<open>
  \<open>workpool_stop\<close>: \<open>threadpool_uninit\<close> raises the semaphore, clears the queue (completing each
  block that was still queued), joins the workers and frees the pool; the workers run \<open>before\<close>
  and \<open>after\<close> the queue is cleared.  \<open>None\<close>: the queue is not cleared within \<open>fuel\<close> rounds, or
  not all workers have returned yet.
\<close>

primrec complete_all :: "work_t thread_param_t list \<Rightarrow> sys \<Rightarrow> sys res" where
  "complete_all [] s = Inr s"
| "complete_all (e # es) s = bind_res (thread_completed (tp_data e) s) (complete_all es)"

definition workpool_stop :: "u8 list \<Rightarrow> nat \<Rightarrow> nat list \<Rightarrow> nat list \<Rightarrow> sys \<Rightarrow> sys res option" where
  "workpool_stop junk fuel before after s =
     run_bind (Some (deref (thread_pool (pool s)))) (\<lambda>tp.
     run_bind (Some (run_workers junk before (set_tpool (cancel_post tp) s))) (\<lambda>s.
     run_bind (Some (deref (thread_pool (pool s)))) (\<lambda>tp.
     run_bind (cancel_clear fuel tp) (\<lambda>tp.
     run_bind (Some (complete_all (cancelled tp) (set_tpool tp s))) (\<lambda>s.
     run_bind (Some (run_workers junk after s)) (\<lambda>s.
     run_bind (Some (deref (thread_pool (pool s)))) (\<lambda>tp.
     case threadpool_uninit tp of
       None \<Rightarrow> None
     | Some p \<Rightarrow> Some (Inr (s\<lparr>pool := (pool s)\<lparr>thread_pool := p\<rparr>\<rparr>)))))))))"

section \<open>A worker's response\<close>

text \<open>
  The contract of the user's handler: it keeps the output memory's size and, when it reports
  success, leaves a payload that fits behind a header.  The room for the header is not handed
  to the handler as a limit: \<open>*out_len\<close> starts as the whole memory.
\<close>

definition handler_ok :: "u8 list \<Rightarrow> TASKHANDLER \<Rightarrow> bool" where
  "handler_ok junk h \<longleftrightarrow>
     (\<forall>req n. case h req n junk (int NET_PACK_SIZE_LIMIT) of
        (ret, out, outlen) \<Rightarrow> length out = NET_PACK_SIZE_LIMIT
          \<and> (ret = 0 \<longrightarrow> 0 \<le> outlen \<and> outlen + int SIZEOF_NET_PKG \<le> int NET_PACK_SIZE_LIMIT))"

text \<open>The response to a request packet: none when the handler reports failure.\<close>

definition response :: "u8 list \<Rightarrow> TASKHANDLER \<Rightarrow> u8 list \<Rightarrow> u8 list option" where
  "response junk h req =
     (case h (drop 10 req) (cint (int (announced req))) junk (int NET_PACK_SIZE_LIMIT) of
        (ret, out, outlen) \<Rightarrow>
          if ret = 0
          then Some (header_bytes PACK_VERSION (pkg_msgID (load_pkg req)) (word_of_int outlen)
                       @ take (nat outlen) out)
          else None)"

definition work_ok :: "work_t \<Rightarrow> bool" where
  "work_ok w \<longleftrightarrow> length (wk_data w) = frame_len (wk_data w) \<and> length (wk_data w) \<le> NET_PACK_SIZE_LIMIT
     \<and> wk_size w = word_of_int (int (length (wk_data w)))"

lemma work_ok_size: "work_ok w \<Longrightarrow> uint (wk_size w) = int (length (wk_data w)) \<and> 10 \<le> length (wk_data w)"
proof -
  assume w: "work_ok w"
  then have "length (wk_data w) < 4294967296" by (simp add: work_ok_def size_simps)
  then have "unat (wk_size w) = nat (int (length (wk_data w)))"
    using w unfolding work_ok_def by (metis unat_word_of_int_u32 of_nat_0_le_iff of_nat_less_iff of_nat_numeral)
  then have "uint (wk_size w) = int (length (wk_data w))" by (simp add: uint_nat flip: unsigned_of_int)
  moreover have "10 \<le> length (wk_data w)" using w by (simp add: work_ok_def frame_len_announced)
  ultimately show ?thesis by simp
qed

lemma u32_cint_roundtrip: "(word_of_int (cint (uint m)) :: u32) = m"
proof -
  have "(word_of_int (cint (uint m)) :: u32) = word_of_int (cint (uint m) mod 4294967296)"
    by (simp add: word_of_int_eq_iff take_bit_eq_mod)
  also have "cint (uint m) mod 4294967296 = uint m mod 4294967296"
    by (simp add: cint_def mod_diff_left_eq)
  also have "uint m mod 4294967296 = uint m"
    using unsigned_less [of m] by (intro mod_pos_pos_trivial) auto
  finally show ?thesis by simp
qed

lemma handler_okD:
  assumes "handler_ok junk h" "h req n junk (int NET_PACK_SIZE_LIMIT) = (ret, out, outlen)"
  shows "length out = 66560" "ret = 0 \<Longrightarrow> 0 \<le> outlen" "ret = 0 \<Longrightarrow> outlen + 10 \<le> 66560"
proof -
  show "length out = 66560" "ret = 0 \<Longrightarrow> 0 \<le> outlen" "ret = 0 \<Longrightarrow> outlen + 10 \<le> 66560"
    using spec [OF spec [OF assms(1) [unfolded handler_ok_def], of req], of n] assms(2)
    by (simp_all add: SIZEOF_NET_PKG_def size_simps)
qed

lemma response_frame:
  assumes "handler_ok junk h" "response junk h req = Some r"
  shows "length r \<le> NET_PACK_SIZE_LIMIT" "10 \<le> length r" "frames r = ([r], [])"
    "pkg_msgID (load_pkg r) = pkg_msgID (load_pkg req)" "pkg_version (load_pkg r) = 0"
proof -
  obtain ret out outlen where h:
    "h (drop 10 req) (cint (int (announced req))) junk (int NET_PACK_SIZE_LIMIT) = (ret, out, outlen)"
    by (cases "h (drop 10 req) (cint (int (announced req))) junk (int NET_PACK_SIZE_LIMIT)") auto
  with assms(2) have r: "ret = 0"
    "r = header_bytes PACK_VERSION (pkg_msgID (load_pkg req)) (word_of_int outlen) @ take (nat outlen) out"
    by (auto simp: response_def split: if_splits)
  have ok: "length out = NET_PACK_SIZE_LIMIT" "0 \<le> outlen" "outlen + 10 \<le> 66560"
    using handler_okD [OF assms(1) h] r(1) by (simp_all add: size_simps)
  then have b: "outlen < 2147483638" "10 + nat outlen \<le> length out" by (auto simp: size_simps)
  note f = create_pack_frame [OF ok(2) b, of "pkg_msgID (load_pkg req)", folded r(2)]
  from f(1) ok show "length r \<le> NET_PACK_SIZE_LIMIT" "10 \<le> length r" by (auto simp: size_simps)
  have "has_frame r" "frame_len r = length r" using f(1) f(2,3) [of "[]"] by simp_all
  then show "frames r = ([r], [])" by (simp add: frames_step frames_stop)
  show "pkg_msgID (load_pkg r) = pkg_msgID (load_pkg req)" "pkg_version (load_pkg r) = 0"
    using f(4) by (simp_all add: PACK_VERSION_def)
qed

section \<open>Whole responses in the send queue\<close>

text \<open>
  \<open>whole\<close>: every entry of the send queue is a sequence of complete frames; \<open>queued\<close> are those
  frames with their connections, \<open>answers\<close> the responses to a list of processed packets.
\<close>

definition whole :: "SEND_T list \<Rightarrow> bool" where
  "whole l \<longleftrightarrow> (\<forall>e \<in> set l. snd (frames (snd_data e)) = [])"

definition entry_frames :: "SEND_T \<Rightarrow> (CONNID \<times> u8 list) multiset" where
  "entry_frames e = image_mset (Pair (snd_conn_id e)) (mset (fst (frames (snd_data e))))"

definition queued :: "SEND_T list \<Rightarrow> (CONNID \<times> u8 list) multiset" where
  "queued l = sum_list (map entry_frames l)"

definition answer :: "u8 list \<Rightarrow> TASKHANDLER \<Rightarrow> work_t thread_param_t \<Rightarrow> (CONNID \<times> u8 list) multiset" where
  "answer junk h e = (case response junk h (wk_data (tp_data e)) of
      None \<Rightarrow> {#} | Some r \<Rightarrow> {#(wk_connid (tp_data e), r)#})"

definition answers :: "u8 list \<Rightarrow> TASKHANDLER \<Rightarrow> work_t thread_param_t list \<Rightarrow> (CONNID \<times> u8 list) multiset" where
  "answers junk h es = sum_list (map (answer junk h) es)"

lemma answers_append [simp]: "answers junk h (es @ [e]) = answers junk h es + answer junk h e"
  by (simp add: answers_def)

lemma queued_simps [simp]: "queued [] = {#}" "queued (e # l) = entry_frames e + queued l" "queued (l @ l') = queued l + queued l'"
  by (simp_all add: queued_def)

lemma push_list_whole:
  assumes "whole l" "frames r = ([r], [])"
  shows "whole (push_list cid r l)" "queued (push_list cid r l) = add_mset (cid, r) (queued l)"
proof -
  have "whole (push_list cid r l) \<and> queued (push_list cid r l) = add_mset (cid, r) (queued l)"
  proof (cases "coalesces l cid (length r)")
    case True
    then obtain e es where l: "l = e # es" "snd_conn_id e = cid" by (auto simp: coalesces_def)
    have "frames (snd_data e @ r) = (fst (frames (snd_data e)) @ [r], [])"
      using assms l by (simp add: frames_append whole_def)
    then show ?thesis using assms l True by (simp add: push_list_def whole_def entry_frames_def)
  next
    case False
    then show ?thesis using assms by (auto simp: push_list_def whole_def entry_frames_def)
  qed
  then show "whole (push_list cid r l)" "queued (push_list cid r l) = add_mset (cid, r) (queued l)" by auto
qed

section \<open>What a worker's step leaves alone\<close>

definition same_net :: "sys \<Rightarrow> sys \<Rightarrow> bool" where
  "same_net s t \<longleftrightarrow> conns t = conns s \<and> leftovers t = leftovers s \<and> interest t = interest s
     \<and> open_fds t = open_fds s \<and> nonblock t = nonblock s \<and> sent t = sent s
     \<and> processmsg (pool t) = processmsg (pool s)"

lemma same_net_refl [simp]: "same_net s s"
  by (simp add: same_net_def)

lemma same_net_trans: "same_net s t \<Longrightarrow> same_net t u \<Longrightarrow> same_net s u"
  by (simp add: same_net_def)

lemma work_proc_up:
  assumes "sys_up s" "processmsg (pool s) = Some h" "handler_ok junk h" "work_ok w"
    and "send_fits (sendlist s)" "fresh s \<notin> live s"
  shows "\<exists>t. work_proc junk w s = Inr t \<and> sys_up t \<and> same_net s t \<and> tpool_of t = tpool_of s
    \<and> live t = live s \<and> fresh t = fresh s + 1
    \<and> sendlist t = (case response junk h (wk_data w) of None \<Rightarrow> sendlist s
                    | Some r \<Rightarrow> push_list (wk_connid w) r (sendlist s))
    \<and> sender_pc t = (if response junk h (wk_data w) \<noteq> None \<and> sender_pc s = SBlocked then SLook else sender_pc s)"
proof -
  note ws = work_ok_size [OF assms(4)]
  have len: "uint (pkg_length (load_pkg (wk_data w))) + 10 = int (length (wk_data w))"
    using assms(4) by (simp add: work_ok_def pkg_length_load frame_len_announced)
  have small: "int (length (wk_data w)) < 66561" using assms(4) by (simp add: work_ok_def size_simps)
  let ?mid = "pkg_msgID (load_pkg (wk_data w))"
  obtain ret out outlen where h:
    "h (drop 10 (wk_data w)) (cint (int (announced (wk_data w)))) junk (int NET_PACK_SIZE_LIMIT) = (ret, out, outlen)"
    by (cases "h (drop 10 (wk_data w)) (cint (int (announced (wk_data w)))) junk (int NET_PACK_SIZE_LIMIT)") auto
  let ?s1 = "s\<lparr>live := insert (fresh s) (live s), fresh := fresh s + 1\<rparr>"
  have up1: "sys_up ?s1" "sendlist ?s1 = sendlist s" "sender_pc ?s1 = sender_pc s" using assms(1) by simp_all
  have mid: "(word_of_int (cint (uint ?mid)) :: u32) = ?mid" by (rule u32_cint_roundtrip)
  have data: "pkg_data (load_pkg (wk_data w)) = drop 10 (wk_data w)" by (simp add: load_pkg_def)
  have start: "work_proc junk w s =
    bind_res (if ret = 0 then
         bind_res (create_pack out outlen ?mid) (\<lambda>(outlen, outdata).
         bind_res (with_queue (\<lambda>q. QSend_push q (wk_connid w) outdata outlen) ?s1) (\<lambda>(_, s). send_signal s))
       else Inr ?s1) (free_block (fresh s))"
    using ws len small assms(2) h
    by (simp add: work_proc_def SIZEOF_NET_PKG_def Let_def malloc_block_def mid data pkg_length_load)
  show ?thesis
  proof (cases "ret = 0")
    case False
    then have "response junk h (wk_data w) = None" using h by (simp add: response_def)
    then show ?thesis using False assms up1 by (simp add: start free_block_def same_net_def)
  next
    case True
    have ok: "length out = 66560" "0 \<le> outlen" "outlen + 10 \<le> 66560"
      using handler_okD [OF assms(3) h] True by simp_all
    let ?r = "header_bytes PACK_VERSION ?mid (word_of_int outlen) @ take (nat outlen) out"
    have resp: "response junk h (wk_data w) = Some ?r" using True h by (simp add: response_def)
    have cp: "create_pack out outlen ?mid = Inr (outlen + 10, ?r @ drop (10 + nat outlen) out)"
      using ok by (simp add: create_pack_result)
    have tk: "take (nat (outlen + 10)) (?r @ drop (10 + nat outlen) out) = ?r"
      using ok by (intro take_drop_append_exact(1)) (simp add: nat_add_distrib)
    have "\<And>e. e \<in> set (sendlist s) \<Longrightarrow> length (snd_data e) < 2147483648"
      using assms(5) by (force simp: send_fits_def size_simps)
    then have push: "with_queue (\<lambda>q. QSend_push q (wk_connid w) (?r @ drop (10 + nat outlen) out) (outlen + 10)) ?s1
       = Inr (0, set_sendlist (push_list (wk_connid w) ?r (sendlist s)) ?s1)"
      using queue_push_up [OF up1(1), of "outlen + 10" "?r @ drop (10 + nat outlen) out" "wk_connid w"] ok up1(2)
      unfolding tk by simp
    have "work_proc junk w s =
      bind_res (send_signal (set_sendlist (push_list (wk_connid w) ?r (sendlist s)) ?s1)) (free_block (fresh s))"
      unfolding start if_P [OF True] cp bind_res.simps prod.case push ..
    then show ?thesis using assms up1
      by (simp add: send_signal_up resp free_block_def same_net_def)
  qed
qed

section \<open>The invariant of a running engine\<close>

text \<open>
  \<open>pending\<close> is the work accepted and not yet completed, \<open>blocks\<close> the heap blocks it owns.  The
  heap invariant says that the live blocks are exactly those, each once, and the blocks \<open>X\<close>
  that the operation under way holds: nothing leaks and nothing is freed early or twice.
\<close>

definition pending :: "'w threadpool_t \<Rightarrow> 'w thread_param_t multiset" where
  "pending tp = mset (accepted tp) - mset (after_log tp)"

definition blocks :: "work_t thread_param_t multiset \<Rightarrow> nat multiset" where
  "blocks M = image_mset (\<lambda>e. wk_pack (tp_data e)) M + image_mset (\<lambda>e. wk_self (tp_data e)) M"

definition heap_inv :: "nat multiset \<Rightarrow> sys \<Rightarrow> bool" where
  "heap_inv X s \<longleftrightarrow> finite (live s) \<and> (\<forall>b \<in> live s. b < fresh s)
     \<and> mset_set (live s) = blocks (pending (tpool_of s)) + X"

definition engine_inv :: "u8 list \<Rightarrow> TASKHANDLER \<Rightarrow> nat \<Rightarrow> nat multiset \<Rightarrow> sys \<Rightarrow> bool" where
  "engine_inv junk h n X s \<longleftrightarrow> sys_up s \<and> tp_inv n (tpool_of s) \<and> ctl (tpool_of s) = Idle
     \<and> processmsg (pool s) = Some h \<and> handler_ok junk h \<and> send_fits (sendlist s) \<and> whole (sendlist s)
     \<and> (\<forall>e \<in> set (accepted (tpool_of s)). work_ok (tp_data e)) \<and> heap_inv X s"

lemma thread_func_step_logs:
  assumes "thread_func_step i tp = Some tp'"
  shows "accepted tp' = accepted tp" "ctl tp' = ctl tp" "thread_num tp' = thread_num tp"
    "after_log tp' = after_log tp @ (case pcs tp i of Finishing e \<Rightarrow> if tp_after_proc e then [e] else [] | _ \<Rightarrow> [])"
    "proc_log tp' = proc_log tp @ (case pcs tp i of Run e \<Rightarrow> if tp_proc e then [e] else [] | _ \<Rightarrow> [])"
    "length (started tp) \<le> length (started tp')"
  using assms
  by (auto simp: thread_func_step_def goto_def
      split: pc.splits option.splits sum.splits if_splits bool.splits)

lemma finishing_pending:
  assumes "tp_inv n tp" "i < n" "pcs tp i = Finishing e"
  shows "e \<in># pending tp"
proof -
  have "(\<Sum>j<n. busy (pcs tp j)) = busy (pcs tp i) + (\<Sum>j\<in>{..<n} - {i}. busy (pcs tp j))"
    using assms(2) by (intro sum.remove) auto
  then obtain B where B: "(\<Sum>j<n. busy (pcs tp j)) = add_mset e B" using assms(3) by simp
  have q: "queue_inv (tp_queue tp) (started tp) (cancelled tp) (accepted tp)"
    and *: "mset (started tp) + mset (cancelled tp) = mset (after_log tp) + (\<Sum>j<n. busy (pcs tp j))"
    using assms(1) unfolding tp_inv_def by blast+
  from queue_inv_mset(1) [OF q] have "mset (after_log tp) + add_mset e B \<subseteq># mset (accepted tp)"
    unfolding * B .
  then obtain C where "mset (accepted tp) = mset (after_log tp) + add_mset e B + C"
    using mset_subset_eq_exists_conv by blast
  then show ?thesis by (simp add: pending_def)
qed

lemma busy_item_ok:
  assumes "engine_inv junk h n X s" "i < n" "pcs (tpool_of s) i \<in> {Run e, Finishing e}"
  shows "both_callbacks e" "work_ok (tp_data e)"
proof -
  let ?tp = "tpool_of s"
  have inv: "tp_inv n ?tp" using assms(1) by (simp add: engine_inv_def)
  have e: "e \<in># busy (pcs ?tp i)" using assms(3) by auto
  then show "both_callbacks e" using busy_accepted inv assms(2) by blast
  have "(\<Sum>j<n. busy (pcs ?tp j)) = busy (pcs ?tp i) + (\<Sum>j\<in>{..<n} - {i}. busy (pcs ?tp j))"
    using assms(2) by (intro sum.remove) auto
  then have "e \<in># (\<Sum>j<n. busy (pcs ?tp j))" using e by simp
  moreover have *: "mset (started ?tp) + mset (cancelled ?tp) = mset (after_log ?tp) + (\<Sum>j<n. busy (pcs ?tp j))"
    and q: "queue_inv (tp_queue ?tp) (started ?tp) (cancelled ?tp) (accepted ?tp)"
    using inv unfolding tp_inv_def by blast+
  ultimately have "e \<in># mset (started ?tp) + mset (cancelled ?tp)" unfolding * by simp
  then have "e \<in> set (accepted ?tp)" using queue_inv_subset [OF q] by auto
  then show "work_ok (tp_data e)" using assms(1) by (simp add: engine_inv_def)
qed

lemma mset_set_remove:
  assumes "finite A" "mset_set A = add_mset a M"
  shows "a \<in> A \<and> mset_set (A - {a}) = M"
proof -
  have "a \<in># mset_set A" using assms(2) by simp
  then have a: "a \<in> A" using assms(1) by simp
  then have "mset_set A = add_mset a (mset_set (A - {a}))" using assms(1) by (rule mset_set.remove [rotated])
  then show ?thesis using a assms(2) by simp
qed

lemma thread_completed_up:
  assumes "heap_inv X s" "e \<in># pending (tpool_of s)"
  shows "\<exists>L. thread_completed (tp_data e) s = Inr (s\<lparr>live := L\<rparr>) \<and> finite L \<and> L \<subseteq> live s
     \<and> mset_set L = blocks (pending (tpool_of s) - {#e#}) + X"
proof -
  let ?w = "tp_data e" and ?P = "pending (tpool_of s)"
  obtain P where P: "?P = add_mset e P" using assms(2) by (metis insert_DiffM)
  have fin: "finite (live s)" and "mset_set (live s) = blocks ?P + X" using assms(1) by (auto simp: heap_inv_def)
  then have m: "mset_set (live s) = add_mset (wk_pack ?w) (add_mset (wk_self ?w) (blocks P + X))"
    by (simp add: P blocks_def)
  from mset_set_remove [OF fin m] have 1: "wk_pack ?w \<in> live s"
    "mset_set (live s - {wk_pack ?w}) = add_mset (wk_self ?w) (blocks P + X)" by auto
  from mset_set_remove [OF _ 1(2)] fin have 2: "wk_self ?w \<in> live s - {wk_pack ?w}"
    "mset_set (live s - {wk_pack ?w} - {wk_self ?w}) = blocks P + X" by auto
  have "thread_completed ?w s = Inr (s\<lparr>live := live s - {wk_pack ?w} - {wk_self ?w}\<rparr>)"
    using 1 2 by (simp add: thread_completed_def free_block_def)
  then show ?thesis using 2 fin P by (intro exI [of _ "live s - {wk_pack ?w} - {wk_self ?w}"]) auto
qed

lemma pending_step:
  assumes "thread_func_step i tp = Some tp'"
  shows "pending tp' = (case pcs tp i of Finishing e \<Rightarrow> if tp_after_proc e then pending tp - {#e#} else pending tp
                        | _ \<Rightarrow> pending tp)"
  using thread_func_step_logs(1,4) [OF assms] by (auto simp: pending_def split: pc.splits)

text \<open>
  What worker steps do to the send queue: each packet run adds exactly its response.
\<close>

definition accounts :: "u8 list \<Rightarrow> TASKHANDLER \<Rightarrow> sys \<Rightarrow> sys \<Rightarrow> bool" where
  "accounts junk h s t \<longleftrightarrow>
     answers junk h (proc_log (tpool_of t)) + queued (sendlist s)
       = answers junk h (proc_log (tpool_of s)) + queued (sendlist t)"

lemma accounts_trans: "accounts junk h s t \<Longrightarrow> accounts junk h t u \<Longrightarrow> accounts junk h s u"
proof -
  have "a3 + q1 = a1 + q3" if "a2 + q1 = a1 + q2" "a3 + q2 = a2 + q3"
    for a1 a2 a3 q1 q2 q3 :: "(CONNID \<times> u8 list) multiset"
  proof -
    have "(a3 + q1) + (a2 + q2) = (a1 + q3) + (a2 + q2)"
      using arg_cong2 [OF that, of "(+)"] by (simp add: ac_simps)
    then show ?thesis by (simp only: add_right_cancel)
  qed
  then show "accounts junk h s t \<Longrightarrow> accounts junk h t u \<Longrightarrow> accounts junk h s u"
    unfolding accounts_def by blast
qed

lemma heap_inv_fresh: "heap_inv X s \<Longrightarrow> fresh s \<notin> live s"
  by (auto simp: heap_inv_def)

lemma engine_inv_tp:
  assumes "engine_inv junk h n X s" "thread_func_step i (tpool_of s) = Some tp'" "i < n"
  shows "tp_inv n tp'" "ctl tp' = Idle" "\<forall>e \<in> set (accepted tp'). work_ok (tp_data e)"
  using assms tp_inv_worker [of n "tpool_of s" i tp'] thread_func_step_logs(1,2) [OF assms(2)]
  by (auto simp: engine_inv_def)

definition engine_step_post ::
    "u8 list \<Rightarrow> TASKHANDLER \<Rightarrow> nat \<Rightarrow> nat multiset \<Rightarrow> sys \<Rightarrow> sys \<Rightarrow> bool" where
  "engine_step_post junk h n X s t \<longleftrightarrow>
     engine_inv junk h n X t \<and> same_net s t \<and> accepted (tpool_of t) = accepted (tpool_of s)
     \<and> length (started (tpool_of s)) \<le> length (started (tpool_of t)) \<and> accounts junk h s t"

lemma worker_call_post:
  assumes inv: "engine_inv junk h n X s" and st: "thread_func_step i (tpool_of s) = Some tp'" and "i < n"
    and u: "same_net s u" "sys_up u" "send_fits (sendlist u)" "whole (sendlist u)" "heap_inv X (set_tpool tp' u)"
    and acc: "answers junk h (proc_log tp') + queued (sendlist s)
      = answers junk h (proc_log (tpool_of s)) + queued (sendlist u)"
  shows "engine_step_post junk h n X s (set_tpool tp' u)"
proof -
  note tpi = engine_inv_tp [OF inv st \<open>i < n\<close>] and logs = thread_func_step_logs(1,6) [OF st]
  have "processmsg (pool u) = Some h" "handler_ok junk h"
    using inv u(1) by (auto simp: engine_inv_def same_net_def)
  then have "engine_inv junk h n X (set_tpool tp' u)"
    using u tpi by (simp add: engine_inv_def)
  then show ?thesis using u(1) logs acc
    by (simp add: engine_step_post_def same_net_def accounts_def)
qed

lemma worker_run_post:
  assumes inv: "engine_inv junk h n X s" and st: "thread_func_step i (tpool_of s) = Some tp'" and i: "i < n"
    and e: "pcs (tpool_of s) i = Run e"
  shows "\<exists>u. work_proc junk (tp_data e) s = Inr u \<and> engine_step_post junk h n X s (set_tpool tp' u)"
proof -
  note * = inv [unfolded engine_inv_def]
  have ok: "both_callbacks e" "work_ok (tp_data e)" using busy_item_ok [OF inv i, of e] e by auto
  have "fresh s \<notin> live s" using * heap_inv_fresh by blast
  from work_proc_up [of s h junk "tp_data e", OF _ _ _ ok(2) _ this] * obtain u where
    u: "work_proc junk (tp_data e) s = Inr u" "sys_up u" "same_net s u" "tpool_of u = tpool_of s"
      "live u = live s" "fresh u = fresh s + 1"
      "sendlist u = (case response junk h (wk_data (tp_data e)) of None \<Rightarrow> sendlist s
                | Some r \<Rightarrow> push_list (wk_connid (tp_data e)) r (sendlist s))"
    by blast
  have q: "send_fits (sendlist u)" "whole (sendlist u)"
    "queued (sendlist u) = queued (sendlist s) + answer junk h e"
    using * u(7) response_frame(1,3) [of junk h "wk_data (tp_data e)"] push_list_whole [of "sendlist s"]
    by (auto intro!: send_fits_push simp: size_simps answer_def split: option.splits)
  have "proc_log tp' = proc_log (tpool_of s) @ [e]"
    using thread_func_step_logs(5) [OF st] e ok by (simp add: both_callbacks_def)
  moreover have "heap_inv X (set_tpool tp' u)"
    using * u(5,6) pending_step [OF st] e by (auto simp: heap_inv_def)
  ultimately show ?thesis
    using u q by (intro exI [of _ u] conjI worker_call_post [OF inv st i]) simp_all
qed

lemma worker_finish_post:
  assumes inv: "engine_inv junk h n X s" and st: "thread_func_step i (tpool_of s) = Some tp'" and i: "i < n"
    and e: "pcs (tpool_of s) i = Finishing e"
  shows "\<exists>u. thread_completed (tp_data e) s = Inr u \<and> engine_step_post junk h n X s (set_tpool tp' u)"
proof -
  note * = inv [unfolded engine_inv_def]
  have ok: "both_callbacks e" using busy_item_ok(1) [OF inv i, of e] e by auto
  have "e \<in># pending (tpool_of s)" using finishing_pending e i * by blast
  then obtain L where L: "thread_completed (tp_data e) s = Inr (s\<lparr>live := L\<rparr>)" "finite L" "L \<subseteq> live s"
    "mset_set L = blocks (pending (tpool_of s) - {#e#}) + X"
    using thread_completed_up * by blast
  have "pending tp' = pending (tpool_of s) - {#e#}"
    using pending_step [OF st] e ok by (simp add: both_callbacks_def)
  then have "heap_inv X (set_tpool tp' (s\<lparr>live := L\<rparr>))"
    using * L by (auto simp: heap_inv_def)
  moreover have "proc_log tp' = proc_log (tpool_of s)" using thread_func_step_logs(5) [OF st] e by simp
  ultimately show ?thesis
    using L(1) * by (intro exI [of _ "s\<lparr>live := L\<rparr>"] conjI worker_call_post [OF inv st i])
      (simp_all add: same_net_def)
qed

lemma worker_quiet_post:
  assumes inv: "engine_inv junk h n X s" and st: "thread_func_step i (tpool_of s) = Some tp'" and i: "i < n"
    and quiet: "\<And>e. pcs (tpool_of s) i \<noteq> Run e" "\<And>e. pcs (tpool_of s) i \<noteq> Finishing e"
  shows "engine_step_post junk h n X s (set_tpool tp' s)"
proof -
  note * = inv [unfolded engine_inv_def]
  have p: "pending tp' = pending (tpool_of s)" "proc_log tp' = proc_log (tpool_of s)"
    using pending_step [OF st] thread_func_step_logs(5) [OF st] quiet by (auto split: pc.splits)
  then have "heap_inv X (set_tpool tp' s)" using * by (simp add: heap_inv_def)
  then show ?thesis using * p by (intro worker_call_post [OF inv st i]) simp_all
qed

text \<open>While the queue exists no worker step faults.\<close>

lemma no_crash:
  assumes inv: "engine_inv junk h n X s" and st: "thread_func_step i (tpool_of s) = Some tp'" and i: "i < n"
  shows "(case pcs tp' i of Crashed \<Rightarrow> Inl Null_deref | _ \<Rightarrow> Inr u) = Inr u"
proof -
  have inv': "tp_inv n (tpool_of s)" "ctl (tpool_of s) = Idle" using inv by (auto simp: engine_inv_def)
  then obtain q where q: "tp_queue (tpool_of s) = Some q" by (auto simp: tp_inv_def)
  then have sized: "queue_sized SIZEOF_THREAD_PARAM q" using inv'(1) by (auto simp: tp_inv_def)
  have "pcs tp' i \<noteq> Crashed"
  proof (cases "pcs (tpool_of s) i")
    case Locking
    show ?thesis
    proof (cases "queue_contents q")
      case Nil
      then show ?thesis using Locking q st pop_sized_Nil [OF sized Nil]
        by (auto simp: thread_func_step_def goto_def)
    next
      case (Cons e es)
      from pop_sized_Cons [OF sized Cons] show ?thesis using Locking q st
        by (auto simp: thread_func_step_def goto_def)
    qed
  qed (use st in \<open>auto simp: thread_func_step_def goto_def split: if_splits\<close>)
  then show ?thesis by (cases "pcs tp' i") simp_all
qed

lemma worker_step_up:
  assumes inv: "engine_inv junk h n X s"
  shows "\<exists>t. worker_step junk i s = Inr t \<and> engine_step_post junk h n X s t"
proof -
  let ?tp = "tpool_of s"
  have tn: "thread_num ?tp = n" using inv by (simp add: tp_inv_def engine_inv_def)
  have tp: "thread_pool (pool s) = Live ?tp"
    using inv by (auto simp: engine_inv_def sys_up_def is_live_iff tpool_of_def)
  show ?thesis
  proof (cases "n \<le> i \<or> thread_func_step i ?tp = None")
    case True
    then have "worker_step junk i s = Inr s" using tp tn by (auto simp: worker_step_def)
    then show ?thesis using inv by (simp add: engine_step_post_def accounts_def)
  next
    case False
    then obtain tp' where st: "thread_func_step i ?tp = Some tp'" and i: "i < n" by auto
    note nc = no_crash [OF inv st i]
    show ?thesis
    proof (cases "pcs ?tp i")
      case (Run e)
      moreover have "tp_proc e" using busy_item_ok(1) [OF inv i, of e] Run by (simp add: both_callbacks_def)
      ultimately show ?thesis using worker_run_post [OF inv st i Run] tp tn st i
        by (auto simp: worker_step_def nc)
    next
      case (Finishing e)
      moreover have "tp_after_proc e"
        using busy_item_ok(1) [OF inv i, of e] Finishing by (simp add: both_callbacks_def)
      ultimately show ?thesis using worker_finish_post [OF inv st i Finishing] tp tn st i
        by (auto simp: worker_step_def nc)
    qed (use worker_quiet_post [OF inv st i] tp tn st i in \<open>auto simp: worker_step_def nc\<close>)
  qed
qed

lemma engine_step_post_trans:
  "engine_step_post junk h n X s t \<Longrightarrow> engine_step_post junk h n X t u \<Longrightarrow> engine_step_post junk h n X s u"
  by (auto simp: engine_step_post_def intro: same_net_trans accounts_trans)

lemma engine_step_post_refl [simp]: "engine_inv junk h n X s \<Longrightarrow> engine_step_post junk h n X s s"
  by (simp add: engine_step_post_def accounts_def)

lemma run_workers_up:
  assumes "engine_inv junk h n X s"
  shows "\<exists>t. run_workers junk is s = Inr t \<and> engine_step_post junk h n X s t"
  using assms
proof (induction "is" arbitrary: s)
  case (Cons i "is")
  from worker_step_up [OF Cons.prems] obtain u where
    u: "worker_step junk i s = Inr u" "engine_step_post junk h n X s u" by blast
  then have "engine_inv junk h n X u" by (simp add: engine_step_post_def)
  from Cons.IH [OF this] u show ?case by (auto intro: engine_step_post_trans)
qed simp

section \<open>Pushing a packet\<close>

definition backlog :: "sys \<Rightarrow> nat" where
  "backlog s = length (accepted (tpool_of s)) - length (started (tpool_of s))"

lemma backlog_contents:
  assumes "engine_inv junk h n X s"
  obtains q where "tp_queue (tpool_of s) = Some q" "queue_sized SIZEOF_THREAD_PARAM q"
    "length (queue_contents q) = backlog s" "backlog s \<le> 65"
proof -
  have tp: "tp_inv n (tpool_of s)" "ctl (tpool_of s) = Idle" using assms by (auto simp: engine_inv_def)
  then obtain q where q: "tp_queue (tpool_of s) = Some q" by (auto simp: tp_inv_def)
  with tp(1) have inv: "queue_inv (Some q) (started (tpool_of s)) (cancelled (tpool_of s)) (accepted (tpool_of s))"
    unfolding tp_inv_def by metis
  then have "length (started (tpool_of s)) + length (queue_contents q) = length (accepted (tpool_of s))"
    by (metis length_append queue_inv.simps(1))
  then show thesis using that [OF q] inv by (simp add: backlog_def)
qed

definition work_param :: "CONNID \<Rightarrow> u8 list \<Rightarrow> nat \<Rightarrow> nat \<Rightarrow> work_t thread_param_t" where
  "work_param cid pack blk buf =
     \<lparr>tp_data = \<lparr>wk_connid = cid, wk_size = word_of_int (int (length pack)), wk_data = pack,
                 wk_pack = blk, wk_self = buf\<rparr>, tp_proc = True, tp_after_proc = True\<rparr>"

lemma pending_push:
  assumes "tp_inv n tp" "accepted tp' = accepted tp @ [e]" "after_log tp' = after_log tp"
  shows "pending tp' = add_mset e (pending tp)"
proof -
  have q: "queue_inv (tp_queue tp) (started tp) (cancelled tp) (accepted tp)"
    and a: "mset (started tp) + mset (cancelled tp) = mset (after_log tp) + (\<Sum>i<n. busy (pcs tp i))"
    using assms(1) unfolding tp_inv_def by blast+
  have "mset (after_log tp) \<subseteq># mset (accepted tp)"
    using queue_inv_mset(1) [OF q] unfolding a by (rule subset_mset.order_trans [rotated]) simp
  then obtain C where "mset (accepted tp) = mset (after_log tp) + C"
    using mset_subset_eq_exists_conv by blast
  then show ?thesis using assms(2,3) by (simp add: pending_def)
qed

lemma push_full_up:
  assumes "engine_inv junk h n X s" "64 < backlog s"
  shows "workpool_push_work cid (pack, blk) len s = Inr (- 1, s\<lparr>live := live s, fresh := fresh s + 1\<rparr>)"
    and "engine_step_post junk h n X s (s\<lparr>live := live s, fresh := fresh s + 1\<rparr>)"
proof -
  note * = assms(1) [unfolded engine_inv_def]
  obtain q where q: "tp_queue (tpool_of s) = Some q" "queue_sized SIZEOF_THREAD_PARAM q"
    "length (queue_contents q) = backlog s" by (rule backlog_contents [OF assms(1)])
  have "fresh s \<notin> live s" using * heap_inv_fresh by blast
  moreover have "set_tpool (tpool_of s) (s\<lparr>live := a, fresh := b\<rparr>) = s\<lparr>live := a, fresh := b\<rparr>" for a b
    using * by (cases s, cases "pool s") (auto simp: set_tpool_def sys_up_def is_live_iff tpool_of_def)
  ultimately show "workpool_push_work cid (pack, blk) len s = Inr (- 1, s\<lparr>live := live s, fresh := fresh s + 1\<rparr>)"
    using * q assms(2) size_sized [OF q(2)]
    by (simp add: workpool_push_work_def malloc_block_def with_pool_up threadpool_push_work_def Let_def
        free_block_def)
  show "engine_step_post junk h n X s (s\<lparr>live := live s, fresh := fresh s + 1\<rparr>)"
    using * by (auto simp: engine_step_post_def engine_inv_def same_net_def accounts_def heap_inv_def)
qed

lemma push_room_up:
  assumes inv: "engine_inv junk h n (X + {#blk#}) s" and room: "backlog s \<le> 64"
    and pack: "length pack = frame_len pack" "length pack \<le> NET_PACK_SIZE_LIMIT"
  shows "\<exists>t. workpool_push_work cid (pack, blk) (int (length pack)) s = Inr (0, t)
    \<and> engine_inv junk h n X t \<and> same_net s t \<and> accounts junk h s t
    \<and> accepted (tpool_of t) = accepted (tpool_of s) @ [work_param cid pack blk (fresh s)]
    \<and> started (tpool_of t) = started (tpool_of s)
    \<and> pcs (tpool_of t) = broadcast (pcs (tpool_of s)) \<and> exit_sem (tpool_of t) = exit_sem (tpool_of s) \<and> sendlist t = sendlist s"
proof -
  note * = inv [unfolded engine_inv_def]
  let ?e = "work_param cid pack blk (fresh s)" and ?tp = "tpool_of s"
  obtain q where q: "tp_queue ?tp = Some q" "queue_sized SIZEOF_THREAD_PARAM q"
    "length (queue_contents q) = backlog s" by (rule backlog_contents [OF inv])
  from push_sized [OF q(2), of ?e] obtain q' where q':
    "easy_queue_push q ?e SIZEOF_THREAD_PARAM = Inr (0, q')" by blast
  let ?tp' = "?tp\<lparr>tp_queue := Some q', pcs := broadcast (pcs ?tp), accepted := accepted ?tp @ [?e]\<rparr>"
  let ?t = "set_tpool ?tp' (s\<lparr>live := insert (fresh s) (live s), fresh := fresh s + 1\<rparr>)"
  have tpush: "threadpool_push_work ?tp (tp_data ?e) True True = Inr (0, ?tp')"
    using q room q' size_sized [OF q(2)]
    by (simp add: threadpool_push_work_def work_param_def Let_def)
  have push: "workpool_push_work cid (pack, blk) (int (length pack)) s = Inr (0, ?t)"
    using * tpush by (simp add: workpool_push_work_def malloc_block_def with_pool_up work_param_def Let_def)
  have "tp_inv n ?tp'" using tp_inv_push [OF _ tpush] * by blast
  moreover have "work_ok (tp_data ?e)" using pack by (simp add: work_ok_def work_param_def)
  moreover have "heap_inv X ?t"
  proof -
    have "pending ?tp' = add_mset ?e (pending ?tp)" by (rule pending_push [of n]) (use * in simp_all)
    moreover have "blocks (add_mset ?e P) = blocks P + {#blk#} + {#fresh s#}" for P
      by (simp add: blocks_def work_param_def)
    moreover have "fresh s \<notin> live s" "finite (live s)" using * heap_inv_fresh by (auto simp: heap_inv_def)
    ultimately show ?thesis using * by (auto simp: heap_inv_def)
  qed
  ultimately have "engine_inv junk h n X ?t" using * by (auto simp: engine_inv_def)
  then show ?thesis using push by (intro exI [of _ ?t]) (simp add: same_net_def accounts_def)
qed

section \<open>A concrete server\<close>

text \<open>
  The server of the witnesses: just created, with \<open>n\<close> workers and the given handler, and a
  handler that sends a request's payload back.
\<close>

definition idle_sys :: "TASKHANDLER option \<Rightarrow> nat \<Rightarrow> sys" where
  "idle_sys h n =
     \<lparr>svr_sock = 3, ep_fd = 4, lis_tid = False, loop_tid = False, conntable = Live create_conn_table,
      pool = \<lparr>thread_pool = Live (threadpool_init n empty_store), poolsize = int n, processmsg = h\<rparr>,
      shpr = Live create_send_helper, rhpr = Live create_recv_helper, live = {}, fresh = 0,
      interest = (\<lambda>_. None), open_fds = {3, 4}, nonblock = {}, sent = (\<lambda>_. [])\<rparr>"

definition echo :: TASKHANDLER where
  "echo req n out lim =
     (if 0 \<le> n \<and> n \<le> lim - 10 \<and> length req = nat n then (0, req @ drop (nat n) out, n) else (1, out, 0))"

definition echo_junk :: "u8 list" where
  "echo_junk = replicate NET_PACK_SIZE_LIMIT 0"

definition ping :: "u8 list" where
  "ping = header_bytes 0 7 2 @ [1, 2]"

lemma echo_ok: "handler_ok echo_junk echo"
  by (auto simp: handler_ok_def echo_def echo_junk_def SIZEOF_NET_PKG_def size_simps)

lemma idle_sys_views [simp]:
  "sys_up (idle_sys h n)" "conns (idle_sys h n) = (\<lambda>_. None)" "leftovers (idle_sys h n) = (\<lambda>_. None)"
  "sendlist (idle_sys h n) = []" "tpool_of (idle_sys h n) = threadpool_init n empty_store"
  "processmsg (pool (idle_sys h n)) = h" "live (idle_sys h n) = {}" "fresh (idle_sys h n) = 0"
  "sender_pc (idle_sys h n) = SLook" "interest (idle_sys h n) = (\<lambda>_. None)" "open_fds (idle_sys h n) = {3, 4}"
  by (simp_all add: idle_sys_def sys_up_def view_defs create_conn_table_def create_recv_helper_def
      create_send_helper_def create_send_queue_def sender_pc_def)

lemma idle_engine_inv:
  assumes "handler_ok junk h"
  shows "engine_inv junk h n {#} (idle_sys (Some h) n)"
  using assms tp_inv_init [OF empty_store_ok, of n]
  by (simp add: engine_inv_def heap_inv_def pending_def blocks_def threadpool_init_def whole_def)

lemma ping_facts: "announced ping = 2" "length ping = 12" "frame_len ping = 12" "pkg_msgID (load_pkg ping) = 7"
  "drop 10 ping = [1, 2]"
  by (simp_all add: ping_def announced_header load_pkg_header frame_len_announced)

section \<open>Properties\<close>

text \<open>
  C7: a worker runs a well-formed request to the end without faulting, and its answer is one
  well-formed frame with the request's message id, protocol version 0 and at most
  \<open>NET_PACK_SIZE_LIMIT\<close> bytes, queued for the connection the request came from; the send
  thread, if it was blocked, is awake afterwards.  A request whose handler reports failure is
  answered by nothing.  The output buffer is freed again.
\<close>
theorem work_proc_answers:
  assumes "sys_up s" "processmsg (pool s) = Some h" "handler_ok junk h" "work_ok w"
    and "send_fits (sendlist s)" "fresh s \<notin> live s"
  shows "\<exists>t. work_proc junk w s = Inr t \<and> live t = live s \<and>
    (case h (drop 10 (wk_data w)) (cint (int (announced (wk_data w)))) junk (int NET_PACK_SIZE_LIMIT) of
       (ret, out, outlen) \<Rightarrow>
         if ret \<noteq> 0 then sendlist t = sendlist s
         else sender_pc t \<noteq> SBlocked \<and> (\<exists>r. sendlist t = push_list (wk_connid w) r (sendlist s)
              \<and> frames r = ([r], []) \<and> length r \<le> NET_PACK_SIZE_LIMIT \<and> drop 10 r = take (nat outlen) out
              \<and> pkg_msgID (load_pkg r) = pkg_msgID (load_pkg (wk_data w)) \<and> pkg_version (load_pkg r) = 0))"
proof -
  obtain ret out outlen where o:
    "h (drop 10 (wk_data w)) (cint (int (announced (wk_data w)))) junk (int NET_PACK_SIZE_LIMIT) = (ret, out, outlen)"
    by (cases "h (drop 10 (wk_data w)) (cint (int (announced (wk_data w)))) junk (int NET_PACK_SIZE_LIMIT)") auto
  from work_proc_up [OF assms] obtain t where t: "work_proc junk w s = Inr t" "live t = live s"
    "sendlist t = (case response junk h (wk_data w) of None \<Rightarrow> sendlist s
                    | Some r \<Rightarrow> push_list (wk_connid w) r (sendlist s))"
    "sender_pc t = (if response junk h (wk_data w) \<noteq> None \<and> sender_pc s = SBlocked then SLook else sender_pc s)"
    by blast
  show ?thesis
  proof (cases "ret = 0")
    case False
    then show ?thesis using t o by (simp add: response_def)
  next
    case True
    then obtain r where r: "response junk h (wk_data w) = Some r"
      "r = header_bytes PACK_VERSION (pkg_msgID (load_pkg (wk_data w))) (word_of_int outlen) @ take (nat outlen) out"
      using o by (simp add: response_def)
    then have "drop 10 r = take (nat outlen) out" by simp
    then show ?thesis using True t o r(1) response_frame [OF assms(3) r(1)] by auto
  qed
qed

theorem work_proc_answers_witness:
  "\<exists>t r. work_proc echo_junk (tp_data (work_param 5 ping 0 1)) (idle_sys (Some echo) 1) = Inr t
     \<and> sendlist t = push_list 5 r [] \<and> pkg_msgID (load_pkg r) = 7 \<and> drop 10 r = [1, 2]"
proof -
  have "work_ok (tp_data (work_param 5 ping 0 1))"
    by (simp add: work_ok_def work_param_def ping_facts size_simps)
  from work_proc_answers [OF _ _ echo_ok this, of "idle_sys (Some echo) 1"] show ?thesis
    by (auto simp: work_param_def ping_facts echo_def size_simps)
qed

text \<open>
  C26: \<open>work_proc\<close> tells the handler that the whole block may be filled, but \<open>create_pack\<close> then
  shifts the payload by the header: a handler that reports success with a payload in the last
  ten bytes of the limit it was given makes the worker write behind the block.
\<close>
theorem work_proc_header_overflow:
  assumes "sys_up s" "processmsg (pool s) = Some h" "work_ok w"
    and "h (drop 10 (wk_data w)) (cint (int (announced (wk_data w)))) junk (int NET_PACK_SIZE_LIMIT) = (0, out, outlen)"
    and "length out = NET_PACK_SIZE_LIMIT" "int NET_PACK_SIZE_LIMIT - 10 < outlen" "outlen \<le> int NET_PACK_SIZE_LIMIT"
  shows "work_proc junk w s = Inl Out_of_bounds"
proof -
  note ws = work_ok_size [OF assms(3)]
  have len: "uint (pkg_length (load_pkg (wk_data w))) + 10 = int (length (wk_data w))"
    using assms(3) by (simp add: work_ok_def pkg_length_load frame_len_announced)
  have small: "int (length (wk_data w)) < 66561" using assms(3) by (simp add: work_ok_def size_simps)
  have data: "pkg_data (load_pkg (wk_data w)) = drop 10 (wk_data w)" by (simp add: load_pkg_def)
  have "create_pack out outlen mid = Inl Out_of_bounds" for mid
    using assms(5-7) by (auto simp: create_pack_def SIZEOF_NET_PKG_def size_simps)
  then show ?thesis
    using ws len small assms(2,4)
    by (simp add: work_proc_def SIZEOF_NET_PKG_def Let_def malloc_block_def data pkg_length_load)
qed

theorem work_proc_header_overflow_witness:
  "work_proc echo_junk (tp_data (work_param 5 ping 0 1))
     (idle_sys (Some (\<lambda>req n out lim. (0, out, lim))) 1) = Inl Out_of_bounds"
proof -
  have "work_ok (tp_data (work_param 5 ping 0 1))"
    by (simp add: work_ok_def work_param_def ping_facts size_simps)
  then show ?thesis
    by (intro work_proc_header_overflow [where out = echo_junk and outlen = "int NET_PACK_SIZE_LIMIT"])
      (simp_all add: echo_junk_def)
qed

end
