(* ===== verification/EpSvr.thy ===== *)
theory EpSvr
  imports Engine
begin

text \<open>
  The event handlers of \<open>src/ep_svr.c\<close>: \<open>set_socket_unblock\<close>, one turn of \<open>listen_thread\<close>,
  \<open>handle_EPOLLIN_event\<close>, \<open>handle_EPOLLOUT_event\<close> and one turn of \<open>work_routine\<close>.

  What the kernel answers is an argument: the results of \<open>recv\<close> and \<open>send\<close> on the handler's
  socket are lists, and \<open>env\<close> is what the workers do while the handler runs, one schedule
  before each attempt to push a packet.  A handler that is still retrying when its list ends
  has the value \<open>None\<close>.  \<open>ndebug\<close> tells whether \<open>assert\<close> is compiled out; the build files leave
  it in.
\<close>

section \<open>Accepting connections\<close>

text \<open>\<open>getfl\<close> and \<open>setfl\<close> are what the two calls of \<open>fcntl\<close> return.\<close>

definition set_socket_unblock :: "int \<Rightarrow> int \<Rightarrow> int \<Rightarrow> sys \<Rightarrow> int \<times> sys" where
  "set_socket_unblock getfl setfl fd s =
     (if getfl = - 1 then (- 1, s)
      else if setfl = - 1 then (- 1, s)
      else (0, s\<lparr>nonblock := insert fd (nonblock s)\<rparr>))"

datatype accept_result =
    Accept_failed
  | Accepted int "u8 list" bool

text \<open>
  One turn of the loop of \<open>listen_thread\<close>: \<open>Accepted fd addr ntop\<close> is a new descriptor, the
  client's four address bytes and whether \<open>inet_ntop\<close> succeeds.  The first result is whether
  the loop goes on.  \<open>conn_insert\<close> may still be drawing ids when the clock readings end.
\<close>

definition accept_conn :: "int \<Rightarrow> u8 list \<Rightarrow> svr_connect_t" where
  "accept_conn fd addr =
     \<lparr>clt = \<lparr>iptype = 0, ip = take 4 addr @ replicate 12 0, client_fd = fd\<rparr>, conntype = 0\<rparr>"

definition listen_turn ::
    "'p prng \<Rightarrow> int list \<Rightarrow> 'p \<Rightarrow> int \<Rightarrow> int \<Rightarrow> bool \<Rightarrow> accept_result \<Rightarrow> sys \<Rightarrow> (bool \<times> sys \<times> 'p) res option" where
  "listen_turn P clock rs getfl setfl ok r s =
     (case r of
        Accept_failed \<Rightarrow> Some (Inr (True, s, rs))
      | Accepted fd addr ntop \<Rightarrow>
          let s = s\<lparr>open_fds := insert fd (open_fds s)\<rparr> in
          if \<not> ntop then Some (Inr (False, s, rs))
          else
            let (_, s) = set_socket_unblock getfl setfl fd s in
            run_bind (Some (deref (conntable s))) (\<lambda>t.
            run_bind (Some (conn_insert P clock rs t (accept_conn fd addr))) (\<lambda>r.
            case r of
              None \<Rightarrow> None
            | Some (connId, t, rs) \<Rightarrow>
                let s = s\<lparr>conntable := Live t\<rparr>;
                    (err, s) = epoll_add ok fd \<lparr>ev_events = ev_all, ev_u64 = connId\<rparr> s
                in run_bind (Some (if err = - 1
                      then bind_res (with_table (\<lambda>t. conn_remove t connId) s) (\<lambda>(_, s). Inr s)
                      else Inr s)) (\<lambda>s. Some (Inr (True, s, rs))))))"

text \<open>\<open>listen_thread\<close> runs no turn at all when \<open>listen\<close> fails.\<close>

definition listen_thread_start :: "int \<Rightarrow> bool" where
  "listen_thread_start err \<longleftrightarrow> \<not> err \<noteq> 0"

section \<open>Receiving\<close>

datatype recv_ev = RData "u8 list" | RAgain | RErr | RClosed

text \<open>
  \<open>recv\<close> with room for \<open>len\<close> bytes: the result, whether \<open>errno\<close> is \<open>EAGAIN\<close>, the bytes
  stored and what is still to come.  Bytes that do not fit stay in the socket.
\<close>

fun recv_call :: "int \<Rightarrow> recv_ev list \<Rightarrow> int \<times> bool \<times> u8 list \<times> recv_ev list" where
  "recv_call len [] = (- 1, True, [], [])"
| "recv_call len (RAgain # rs) = (- 1, True, [], rs)"
| "recv_call len (RErr # rs) = (- 1, False, [], rs)"
| "recv_call len (RClosed # rs) = (0, False, [], rs)"
| "recv_call len (RData bs # rs) =
     (let k = min (length bs) (nat (csize len)) in
      (int k, False, take k bs, if k < length bs then RData (drop k bs) # rs else rs))"

fun push_retry ::
    "u8 list \<Rightarrow> nat list list \<Rightarrow> CONNID \<Rightarrow> u8 list \<times> nat \<Rightarrow> int \<Rightarrow> sys \<Rightarrow> (nat list list \<times> sys) res option" where
  "push_retry junk [] connid pack pack_len s = None"
| "push_retry junk (ws # env) connid pack pack_len s =
     run_bind (Some (run_workers junk ws s)) (\<lambda>s.
     run_bind (Some (workpool_push_work connid pack pack_len s)) (\<lambda>(ret, s).
     if ret = - 1 then push_retry junk env connid pack pack_len s else Some (Inr (env, s))))"

lemma parse_pack_shrinks:
  assumes "parse_pack buf = Inr (n, p, rest)" "n \<noteq> 0"
  shows "length rest < length buf"
  using assms by (auto simp: parse_pack_def Let_def SIZEOF_NET_PKG_def csize_def split: if_splits)

text \<open>Parse all complete packets of the buffer and push each to the pool.\<close>

function parse_push ::
    "u8 list \<Rightarrow> nat list list \<Rightarrow> CONNID \<Rightarrow> u8 list \<Rightarrow> sys \<Rightarrow> (nat list list \<times> u8 list \<times> sys) res option" where
  "parse_push junk env connid buf s =
     (case parse_pack buf of
        Inl f \<Rightarrow> Some (Inl f)
      | Inr (pack_len, pack, rest) \<Rightarrow>
          let (blk, s) = (case pack of None \<Rightarrow> (0, s) | Some _ \<Rightarrow> malloc_block s) in
          if pack_len = 0 then Some (Inr (env, rest, s))
          else
            run_bind (push_retry junk env connid (case pack of None \<Rightarrow> [] | Some p \<Rightarrow> p, blk) pack_len s) (\<lambda>(env, s).
            parse_push junk env connid rest s))"
  by pat_completeness auto
termination
  by (relation "measure (\<lambda>(junk, env, connid, buf, s). length buf)") (auto dest: parse_pack_shrinks)

declare parse_push.simps [simp del]

definition script_bytes :: "recv_ev list \<Rightarrow> u8 list" where
  "script_bytes rs = concat (map (\<lambda>r. case r of RData bs \<Rightarrow> bs | _ \<Rightarrow> []) rs)"

lemma script_bytes_simps [simp]:
  "script_bytes [] = []" "script_bytes (RData bs # rs) = bs @ script_bytes rs"
  "script_bytes (RAgain # rs) = script_bytes rs" "script_bytes (RErr # rs) = script_bytes rs"
  "script_bytes (RClosed # rs) = script_bytes rs" "script_bytes (a @ b) = script_bytes a @ script_bytes b"
  by (simp_all add: script_bytes_def)

lemma recv_call_bytes:
  "recv_call len rs = (err, wb, bs, rs') \<Longrightarrow>
     script_bytes rs = bs @ script_bytes rs' \<and> (0 < err \<longrightarrow> bs \<noteq> []) \<and> int (length bs) = max 0 err"
  by (induction len rs rule: recv_call.induct) (auto simp: Let_def split: if_splits)

lemma recv_call_less:
  assumes "recv_call len rs = (err, wb, bs, rs')" "0 < err"
  shows "length (script_bytes rs') < length (script_bytes rs)"
  using recv_call_bytes [OF assms(1)] assms(2) by auto

text \<open>
  The receive loop.  \<open>buf\<close> are the valid bytes at the head of \<open>recv_buff\<close>, \<open>rest\<close> those still
  there after parsing; \<open>recv\<close> appends behind them.
\<close>

function in_loop ::
    "u8 list \<Rightarrow> nat list list \<Rightarrow> CONNID \<Rightarrow> u8 list \<Rightarrow> recv_ev list \<Rightarrow> sys \<Rightarrow> (int \<times> bool \<times> u8 list \<times> sys) res option" where
  "in_loop junk env connid buf script s =
     run_bind (parse_push junk env connid buf s) (\<lambda>(env, rest, s).
       let (err, wb, data, script') = recv_call (int NET_RECV_SIZE_LIMIT - int (length rest)) script in
       if NET_RECV_BUFF_SIZE < length rest + length data then Some (Inl Out_of_bounds)
       else if 0 < err then in_loop junk env connid (rest @ data) script' s
       else Some (Inr (err, wb, rest, s)))"
  by pat_completeness auto
termination
  by (relation "measure (\<lambda>(junk, env, connid, buf, script, s). length (script_bytes script))")
    (auto dest: recv_call_less [OF sym])

declare in_loop.simps [simp del]

text \<open>Put the connection's cached bytes in front of the received ones.\<close>

definition take_leftover :: "bool \<Rightarrow> CONNID \<Rightarrow> u8 list \<Rightarrow> sys \<Rightarrow> (u8 list \<times> sys) res" where
  "take_leftover ndebug connid data s =
     bind_res (with_cache (\<lambda>h. bind_res (MRecv_find h connid (int NET_REMAIN_CACHE_SIZE))
                 (\<lambda>(r, d, n, h). Inr ((r, d, n), h))) s) (\<lambda>((result, cached, cache_size), s).
     bind_res
       (if result = 0
        then let buf = (case cached of None \<Rightarrow> [] | Some d \<Rightarrow> d) @ data in
             if NET_RECV_BUFF_SIZE < length buf then Inl Out_of_bounds else Inr buf
        else if result = - 1 \<and> cache_size \<noteq> - 1 then (if ndebug then Inr data else Inl Assert_failed)
        else Inr data) (\<lambda>buf.
     bind_res (with_cache (\<lambda>h. MRecv_remove h connid) s) (\<lambda>(_, s). Inr (buf, s))))"

text \<open>After the loop: cache the incomplete rest, report an error, or drop the connection.\<close>

definition in_finish :: "bool \<Rightarrow> CONNID \<Rightarrow> int \<Rightarrow> int \<Rightarrow> bool \<Rightarrow> u8 list \<Rightarrow> sys \<Rightarrow> sys res" where
  "in_finish ndebug connid curfd err wb rest s =
     (if err \<le> - 1 then
        if wb then
          if rest \<noteq> [] \<and> \<not> ndebug
          then bind_res (with_cache (\<lambda>h. MRecv_insert ndebug h connid rest (int (length rest))) s)
                 (\<lambda>(r, s). if r = 0 then Inr s else Inl Assert_failed)
          else Inr s
        else Inr s
      else if err = 0 then
        bind_res (with_queue (\<lambda>q. QSend_remove_all_by_connid q connid) s) (\<lambda>(_, s).
        bind_res (with_table (\<lambda>t. conn_remove t connid) s) (\<lambda>(_, s).
        bind_res (with_cache (\<lambda>h. MRecv_remove h connid) s) (\<lambda>(_, s).
        Inr (close_fd curfd s))))
      else Inr s)"

definition handle_EPOLLIN_event ::
    "u8 list \<Rightarrow> bool \<Rightarrow> nat list list \<Rightarrow> recv_ev list \<Rightarrow> epoll_event \<Rightarrow> sys \<Rightarrow> sys res option" where
  "handle_EPOLLIN_event junk ndebug env script event s =
     (let connid = ev_u64 event in
      run_bind (Some (with_table (\<lambda>t. conn_get_sockfd t connid) s)) (\<lambda>(curfd, s).
      if curfd = - 1 then Some (Inr s)
      else
        let (err, wb, data, script) = recv_call (int NET_RECV_SIZE_LIMIT) script in
        run_bind
          (if 0 < err
           then run_bind (Some (take_leftover ndebug connid data s)) (\<lambda>(buf, s).
                in_loop junk env connid buf script s)
           else Some (Inr (err, wb, [], s)))
          (\<lambda>(err, wb, rest, s). Some (in_finish ndebug connid curfd err wb rest s))))"

section \<open>What the receive path pushes\<close>

text \<open>
  \<open>pushes cid fs s t\<close>: between \<open>s\<close> and \<open>t\<close> the pool accepted exactly the packets \<open>fs\<close>, in
  this order, for connection \<open>cid\<close>.  \<open>room k env s\<close>: the pool has room for \<open>k\<close> more packets
  and \<open>env\<close> an entry for each.
\<close>

definition accepted_packets :: "sys \<Rightarrow> (CONNID \<times> u8 list) list" where
  "accepted_packets s = map (\<lambda>e. (wk_connid (tp_data e), wk_data (tp_data e))) (accepted (tpool_of s))"

definition pushes :: "CONNID \<Rightarrow> u8 list list \<Rightarrow> sys \<Rightarrow> sys \<Rightarrow> bool" where
  "pushes cid fs s t \<longleftrightarrow> accepted_packets t = accepted_packets s @ map (Pair cid) fs"

definition room :: "nat \<Rightarrow> nat list list \<Rightarrow> sys \<Rightarrow> bool" where
  "room k env s \<longleftrightarrow> backlog s + k \<le> 65 \<and> k \<le> length env"

definition in_post ::
    "u8 list \<Rightarrow> TASKHANDLER \<Rightarrow> nat \<Rightarrow> nat multiset \<Rightarrow> CONNID \<Rightarrow> u8 list list \<Rightarrow> sys \<Rightarrow> sys \<Rightarrow> bool" where
  "in_post junk h n X cid fs s t \<longleftrightarrow>
     engine_inv junk h n X t \<and> same_net s t \<and> accounts junk h s t \<and> pushes cid fs s t
     \<and> length (started (tpool_of s)) \<le> length (started (tpool_of t))"

lemma in_post_trans:
  "in_post junk h n X cid fs s t \<Longrightarrow> in_post junk h n Y cid gs t u \<Longrightarrow> in_post junk h n Y cid (fs @ gs) s u"
  by (auto simp: in_post_def pushes_def intro: same_net_trans accounts_trans)

lemma in_post_engine:
  "engine_step_post junk h n X s t \<Longrightarrow> in_post junk h n X cid [] s t"
  by (auto simp: in_post_def engine_step_post_def pushes_def accepted_packets_def)

lemma engine_post_backlog: "engine_step_post junk h n X s t \<Longrightarrow> backlog t \<le> backlog s"
  by (auto simp: engine_step_post_def backlog_def)

lemma push_retry_up:
  assumes "engine_inv junk h n (X + {#blk#}) s"
    and pack: "length pack = frame_len pack" "length pack \<le> NET_PACK_SIZE_LIMIT"
  shows "case push_retry junk env cid (pack, blk) (int (length pack)) s of
      None \<Rightarrow> \<not> room 1 env s
    | Some r \<Rightarrow> \<exists>env' t. r = Inr (env', t) \<and> in_post junk h n X cid [pack] s t
        \<and> (\<forall>k. room (Suc k) env s \<longrightarrow> room k env' t)"
  using assms(1)
proof (induction env arbitrary: s)
  case Nil
  then show ?case by (simp add: room_def)
next
  case (Cons ws env)
  from run_workers_up [OF Cons.prems, of ws] obtain u where
    u: "run_workers junk ws s = Inr u" "engine_step_post junk h n (X + {#blk#}) s u" by blast
  note uinv = u(2) [unfolded engine_step_post_def, THEN conjunct1]
  show ?case
  proof (cases "64 < backlog u")
    case True
    note full = push_full_up [OF uinv True]
    let ?v = "u\<lparr>live := live u, fresh := fresh u + 1\<rparr>"
    have sv: "engine_step_post junk h n (X + {#blk#}) s ?v"
      using engine_step_post_trans [OF u(2) full(2)] .
    then have vinv: "engine_inv junk h n (X + {#blk#}) ?v" by (simp add: engine_step_post_def)
    have no_room: "\<not> room (Suc k) (ws # env) s" for k
      using True engine_post_backlog [OF u(2)] by (simp add: room_def)
    have step: "push_retry junk (ws # env) cid (pack, blk) (int (length pack)) s
        = push_retry junk env cid (pack, blk) (int (length pack)) ?v"
      using u(1) full(1) by simp
    show ?thesis
    proof (cases "push_retry junk env cid (pack, blk) (int (length pack)) ?v")
      case None
      then show ?thesis unfolding step using no_room [of 0] by simp
    next
      case (Some r)
      with Cons.IH [OF vinv] obtain env' t where
        "r = Inr (env', t)" "in_post junk h n X cid [pack] ?v t" by auto
      then show ?thesis unfolding step
        using Some no_room in_post_trans [OF in_post_engine [OF sv, of cid], of X "[pack]" t] by auto
    qed
  next
    case False
    with push_room_up [OF uinv _ pack, of cid] obtain t where
      t: "workpool_push_work cid (pack, blk) (int (length pack)) u = Inr (0, t)"
        "engine_inv junk h n X t" "same_net u t" "accounts junk h u t"
        "accepted (tpool_of t) = accepted (tpool_of u) @ [work_param cid pack blk (fresh u)]"
        "started (tpool_of t) = started (tpool_of u)"
      by auto
    have "in_post junk h n X cid [pack] u t"
      using t by (simp add: in_post_def pushes_def accepted_packets_def work_param_def)
    then have "in_post junk h n X cid [pack] s t"
      using in_post_trans [OF in_post_engine [OF u(2), of cid], of X "[pack]" t] by simp
    moreover have "backlog t \<le> Suc (backlog s)"
      using t(5,6) engine_post_backlog [OF u(2)] by (simp add: backlog_def)
    ultimately show ?thesis using u(1) t(1) by (auto simp: room_def)
  qed
qed

lemma engine_inv_malloc:
  assumes "engine_inv junk h n X s"
  shows "engine_inv junk h n (X + {#fresh s#}) (snd (malloc_block s))"
  using assms heap_inv_fresh [of X s]
  by (auto simp: engine_inv_def malloc_block_def heap_inv_def)

lemma in_post_malloc:
  "in_post junk h n X cid fs (snd (malloc_block s)) t \<longleftrightarrow> in_post junk h n X cid fs s t"
  by (simp add: in_post_def malloc_block_def same_net_def accounts_def pushes_def accepted_packets_def)

lemma frame_len_nz [simp]: "frame_len bs \<noteq> 0"
  by (simp add: frame_len_announced)

lemma parse_push_up:
  assumes "engine_inv junk h n {#} s" "limited NET_PACK_SIZE_LIMIT buf" "length buf \<le> NET_RECV_BUFF_SIZE"
  shows "case parse_push junk env cid buf s of
      None \<Rightarrow> \<not> room (length (fst (frames buf))) env s
    | Some r \<Rightarrow> \<exists>env' t. r = Inr (env', snd (frames buf), t) \<and> in_post junk h n {#} cid (fst (frames buf)) s t
        \<and> (\<forall>k. room (length (fst (frames buf)) + k) env s \<longrightarrow> room k env' t)"
  using assms
proof (induction buf arbitrary: s env rule: frames.induct)
  case (1 buf)
  have len: "length buf < 2147483648" using "1.prems"(3) by (simp add: size_simps)
  show ?case
  proof (cases "has_frame buf")
    case False
    have "parse_pack buf = Inr (0, None, buf)"
      by (rule parse_pack_limited [OF False len "1.prems"(2)]) (simp add: size_simps)
    then have "parse_push junk env cid buf s = Some (Inr (env, buf, s))"
      by (subst parse_push.simps) simp
    then show ?thesis using "1.prems"(1) False
      by (simp add: frames_stop in_post_def pushes_def accounts_def)
  next
    case True
    let ?p = "take (frame_len buf) buf" and ?rest = "drop (frame_len buf) buf"
    let ?s1 = "snd (malloc_block s)" and ?b = "fresh s"
    have fr: "frames buf = (?p # fst (frames ?rest), snd (frames ?rest))" by (rule frames_step [OF True])
    have lim: "limited NET_PACK_SIZE_LIMIT ?rest" "length ?rest \<le> NET_RECV_BUFF_SIZE"
      using "1.prems"(2,3) True by (simp_all add: limited_step)
    have p: "length ?p = frame_len ?p" "length ?p \<le> NET_PACK_SIZE_LIMIT" "length ?p = frame_len buf"
      using limited_frame_length [OF "1.prems"(2), of ?p] fr True by (auto simp: has_frame_def)
    have inv1: "engine_inv junk h n ({#} + {#?b#}) ?s1" by (rule engine_inv_malloc [OF "1.prems"(1)])
    have bl1: "backlog ?s1 = backlog s" by (simp add: malloc_block_def backlog_def)
    then have room1: "room k env ?s1 \<longleftrightarrow> room k env s" for k env by (simp add: room_def)
    have step: "parse_push junk env cid buf s =
        run_bind (push_retry junk env cid (?p, ?b) (int (length ?p)) ?s1) (\<lambda>(env, s). parse_push junk env cid ?rest s)"
      using parse_pack_complete [OF True len] p(3)
      by (subst parse_push.simps) (simp add: malloc_block_def)
    note retry = push_retry_up [OF inv1 p(1,2), of env cid]
    show ?thesis
    proof (cases "push_retry junk env cid (?p, ?b) (int (length ?p)) ?s1")
      case None
      then have "\<not> room 1 env s" using retry room1 by simp
      then show ?thesis using None unfolding step fr by (auto simp: room_def)
    next
      case (Some r)
      with retry obtain env1 t where r: "r = Inr (env1, t)" "in_post junk h n {#} cid [?p] ?s1 t"
        "\<And>k. room (Suc k) env ?s1 \<Longrightarrow> room k env1 t" by auto
      have tinv: "engine_inv junk h n {#} t" using r(2) by (simp add: in_post_def)
      have st: "in_post junk h n {#} cid [?p] s t" using r(2) by (simp add: in_post_malloc)
      note IH = "1.IH" [OF True tinv lim, of env1]
      have go: "parse_push junk env cid buf s = parse_push junk env1 cid ?rest t"
        using Some r(1) unfolding step by simp
      show ?thesis
      proof (cases "parse_push junk env1 cid ?rest t")
        case None
        then have "\<not> room (length (fst (frames ?rest))) env1 t" using IH by simp
        then have "\<not> room (length (fst (frames buf))) env s" using r(3) room1 unfolding fr by auto
        then show ?thesis using None unfolding go by simp
      next
        case (Some r')
        with IH obtain env2 u where r': "r' = Inr (env2, snd (frames ?rest), u)"
          "in_post junk h n {#} cid (fst (frames ?rest)) t u"
          "\<And>k. room (length (fst (frames ?rest)) + k) env1 t \<Longrightarrow> room k env2 u" by auto
        then show ?thesis
          using Some in_post_trans [OF st r'(2)] r(3) room1 unfolding go fr by auto
      qed
    qed
  qed
qed

section \<open>The receive loop\<close>

text \<open>
  What the socket delivers: non-empty chunks of data, then the end of this event (the socket is
  empty, closed by the peer, or in error).
\<close>

datatype recv_end = Ends_again | Ends_closed | Ends_error

fun end_events :: "recv_end \<Rightarrow> recv_ev list" where
  "end_events Ends_again = [RAgain]"
| "end_events Ends_closed = [RClosed]"
| "end_events Ends_error = [RErr]"

fun end_result :: "recv_end \<Rightarrow> int \<times> bool" where
  "end_result Ends_again = (- 1, True)"
| "end_result Ends_closed = (0, False)"
| "end_result Ends_error = (- 1, False)"

definition script_of :: "u8 list list \<Rightarrow> recv_end \<Rightarrow> recv_ev list" where
  "script_of cs e = map RData cs @ end_events e"

definition chunks_ok :: "u8 list list \<Rightarrow> bool" where
  "chunks_ok cs \<longleftrightarrow> [] \<notin> set cs"

lemma recv_end: "fst (end_result e) \<le> 0" "\<exists>rs. recv_call len (script_of [] e) = (fst (end_result e), snd (end_result e), [], rs)"
  by (cases e; simp add: script_of_def)+

lemma recv_chunk:
  assumes "chunks_ok cs" "cs \<noteq> []" "0 < len" "len < 2147483648"
  shows "\<exists>d cs'. recv_call len (script_of cs e) = (int (length d), False, d, script_of cs' e)
    \<and> d \<noteq> [] \<and> int (length d) \<le> len \<and> chunks_ok cs' \<and> concat cs = d @ concat cs'"
proof -
  from assms(1,2) obtain c cs1 where cs: "cs = c # cs1" "c \<noteq> []" by (cases cs) (auto simp: chunks_ok_def)
  show ?thesis
  proof (cases "nat len < length c")
    case True
    then show ?thesis using assms cs
      by (intro exI [of _ "take (nat len) c"] exI [of _ "drop (nat len) c # cs1"])
        (auto simp: script_of_def chunks_ok_def Let_def)
  next
    case False
    then show ?thesis using assms cs
      by (intro exI [of _ c] exI [of _ cs1]) (auto simp: script_of_def chunks_ok_def Let_def)
  qed
qed

lemma in_loop_up:
  assumes "engine_inv junk h n {#} s" "limited NET_PACK_SIZE_LIMIT (buf @ concat cs)"
    and "length buf \<le> NET_RECV_BUFF_SIZE" "chunks_ok cs"
  shows "case in_loop junk env cid buf (script_of cs e) s of
      None \<Rightarrow> \<not> room (length (fst (frames (buf @ concat cs)))) env s
    | Some r \<Rightarrow> \<exists>t. r = Inr (fst (end_result e), snd (end_result e), snd (frames (buf @ concat cs)), t)
        \<and> in_post junk h n {#} cid (fst (frames (buf @ concat cs))) s t"
  using assms
proof (induction "length (concat cs)" arbitrary: buf cs s env rule: less_induct)
  case less
  have limb: "limited NET_PACK_SIZE_LIMIT buf" by (rule limited_append_left [OF less.prems(2)])
  note parse = parse_push_up [OF less.prems(1) limb less.prems(3), of env cid]
  let ?rest = "snd (frames buf)"
  have "length ?rest < NET_PACK_SIZE_LIMIT"
    by (rule limited_rest_length [OF limb]) (simp add: SIZEOF_NET_PKG_def size_simps)
  then have rest: "length ?rest < 66560" by (simp add: size_simps)
  have fa: "frames (buf @ concat cs) = (fst (frames buf) @ fst (frames (?rest @ concat cs)), snd (frames (?rest @ concat cs)))"
    by (rule frames_append)
  show ?case
  proof (cases "parse_push junk env cid buf s")
    case None
    then have "in_loop junk env cid buf (script_of cs e) s = None" by (subst in_loop.simps) simp
    moreover have "\<not> room (length (fst (frames (buf @ concat cs)))) env s"
      using parse None fa by (auto simp: room_def)
    ultimately show ?thesis by simp
  next
    case (Some r)
    with parse obtain env1 t where r: "r = Inr (env1, ?rest, t)" "in_post junk h n {#} cid (fst (frames buf)) s t"
      "\<And>k. room (length (fst (frames buf)) + k) env s \<Longrightarrow> room k env1 t" by auto
    have tinv: "engine_inv junk h n {#} t" using r(2) by (simp add: in_post_def)
    show ?thesis
    proof (cases "cs = []")
      case True
      obtain rs where "recv_call (int NET_RECV_SIZE_LIMIT - int (length ?rest)) (script_of [] e)
          = (fst (end_result e), snd (end_result e), [], rs)" using recv_end(2) by blast
      then have "in_loop junk env cid buf (script_of cs e) s
          = Some (Inr (fst (end_result e), snd (end_result e), ?rest, t))"
        using Some r(1) rest recv_end(1) [of e] True
        by (subst in_loop.simps) (simp add: size_simps)
      moreover have "frames ?rest = ([], ?rest)" by (rule frames_stop [OF frames_rest])
      ultimately show ?thesis using True r(2) by simp
    next
      case False
      have "0 < int NET_RECV_SIZE_LIMIT - int (length ?rest)"
        "int NET_RECV_SIZE_LIMIT - int (length ?rest) < 2147483648"
        using rest by (simp_all add: size_simps)
      from recv_chunk [OF less.prems(4) False this, of e] obtain d cs' where
        d: "recv_call (int NET_RECV_SIZE_LIMIT - int (length ?rest)) (script_of cs e)
            = (int (length d), False, d, script_of cs' e)"
          "d \<noteq> []" "int (length d) \<le> int NET_RECV_SIZE_LIMIT - int (length ?rest)" "chunks_ok cs'"
          "concat cs = d @ concat cs'" by blast
      have fits: "length (?rest @ d) \<le> NET_RECV_BUFF_SIZE" using d(3) by (simp add: size_simps)
      have lim': "limited NET_PACK_SIZE_LIMIT ((?rest @ d) @ concat cs')"
        using limited_append_right [OF less.prems(2)] d(5) by simp
      have go: "in_loop junk env cid buf (script_of cs e) s = in_loop junk env1 cid (?rest @ d) (script_of cs' e) t"
        using Some r(1) d(1,2) fits by (subst in_loop.simps) simp
      have "length (concat cs') < length (concat cs)" using d(2,5) by simp
      note IH = less.hyps [OF this tinv lim' fits d(4), of env1]
      have fb: "frames (buf @ concat cs)
          = (fst (frames buf) @ fst (frames ((?rest @ d) @ concat cs')), snd (frames ((?rest @ d) @ concat cs')))"
        using fa d(5) by simp
      show ?thesis
      proof (cases "in_loop junk env1 cid (?rest @ d) (script_of cs' e) t")
        case None
        then have "\<not> room (length (fst (frames ((?rest @ d) @ concat cs')))) env1 t" using IH by simp
        then have "\<not> room (length (fst (frames (buf @ concat cs)))) env s" using r(3) unfolding fb by auto
        then show ?thesis using None unfolding go by simp
      next
        case (Some r')
        with IH obtain u where u: "r' = Inr (fst (end_result e), snd (end_result e), snd (frames ((?rest @ d) @ concat cs')), u)"
          "in_post junk h n {#} cid (fst (frames ((?rest @ d) @ concat cs'))) t u" by auto
        then show ?thesis using Some in_post_trans [OF r(2) u(2)] unfolding go fb by simp
      qed
    qed
  qed
qed

section \<open>The EPOLLIN handler\<close>

definition left_bytes :: "sys \<Rightarrow> CONNID \<Rightarrow> u8 list" where
  "left_bytes s cid = (case leftovers s cid of None \<Rightarrow> [] | Some d \<Rightarrow> d)"

text \<open>What the handler leaves behind once the packets are pushed.\<close>

definition drop_conn :: "CONNID \<Rightarrow> int \<Rightarrow> sys \<Rightarrow> sys" where
  "drop_conn cid fd s =
     close_fd fd (set_leftovers ((leftovers s)(cid := None)) (set_conns ((conns s)(cid := None))
       (set_sendlist (filter (\<lambda>e. snd_conn_id e \<noteq> cid) (sendlist s)) s)))"

fun in_end :: "recv_end \<Rightarrow> CONNID \<Rightarrow> int \<Rightarrow> u8 list \<Rightarrow> sys \<Rightarrow> sys" where
  "in_end Ends_again cid fd rest t = (if rest = [] then t else set_leftovers ((leftovers t)(cid \<mapsto> rest)) t)"
| "in_end Ends_closed cid fd rest t = drop_conn cid fd t"
| "in_end Ends_error cid fd rest t = t"

lemma take_leftover_up:
  assumes "sys_up s" "length (left_bytes s cid) \<le> NET_REMAIN_CACHE_SIZE" "length data \<le> NET_RECV_SIZE_LIMIT"
  shows "take_leftover False cid data s = Inr (left_bytes s cid @ data, set_leftovers ((leftovers s)(cid := None)) s)"
  using assms
  by (auto simp: take_leftover_def up_simps left_bytes_def size_simps split: option.splits)

lemma in_finish_up:
  assumes "sys_up t" "leftovers t cid = None"
  shows "in_finish False cid fd (fst (end_result e)) (snd (end_result e)) rest t = Inr (in_end e cid fd rest t)"
  using assms by (cases e) (auto simp: in_finish_def up_simps drop_conn_def)

lemma engine_inv_leftovers [simp]:
  "engine_inv junk h n X s \<Longrightarrow> engine_inv junk h n X (set_leftovers m s)"
  by (simp add: engine_inv_def heap_inv_def)

lemma handle_EPOLLIN_up:
  assumes inv: "engine_inv junk h n {#} s" and conn: "conns s cid = Some c" "client_fd (clt c) \<noteq> - 1"
    and left: "length (left_bytes s cid) \<le> NET_REMAIN_CACHE_SIZE"
    and lim: "limited NET_PACK_SIZE_LIMIT (left_bytes s cid @ concat cs)"
    and cs: "chunks_ok cs" "cs \<noteq> []" and ev: "ev_u64 ev = cid"
  defines "fr \<equiv> frames (left_bytes s cid @ concat cs)"
  shows "case handle_EPOLLIN_event junk False env (script_of cs e) ev s of
      None \<Rightarrow> \<not> room (length (fst fr)) env s
    | Some r \<Rightarrow> \<exists>t. in_post junk h n {#} cid (fst fr) (set_leftovers ((leftovers s)(cid := None)) s) t
        \<and> r = Inr (in_end e cid (client_fd (clt c)) (snd fr) t)"
proof -
  have up: "sys_up s" using inv by (simp add: engine_inv_def)
  let ?s0 = "set_leftovers ((leftovers s)(cid := None)) s"
  have "0 < int NET_RECV_SIZE_LIMIT" "int NET_RECV_SIZE_LIMIT < 2147483648" by (simp_all add: size_simps)
  from recv_chunk [OF cs this, of e] obtain d cs' where d:
    "recv_call (int NET_RECV_SIZE_LIMIT) (script_of cs e) = (int (length d), False, d, script_of cs' e)"
    "d \<noteq> []" "int (length d) \<le> int NET_RECV_SIZE_LIMIT" "chunks_ok cs'" "concat cs = d @ concat cs'" by blast
  let ?buf = "left_bytes s cid @ d"
  have take: "take_leftover False cid d s = Inr (?buf, ?s0)"
    using take_leftover_up [OF up left] d(3) by simp
  have fits: "length ?buf \<le> NET_RECV_BUFF_SIZE" using left d(3) by (simp add: size_simps)
  have lim': "limited NET_PACK_SIZE_LIMIT (?buf @ concat cs')" using lim d(5) by simp
  have fr: "fr = frames (?buf @ concat cs')" using d(5) by (simp add: fr_def)
  have room0: "room k env ?s0 \<longleftrightarrow> room k env s" for k by (simp add: room_def backlog_def)
  have inv0: "engine_inv junk h n {#} ?s0" using inv by simp
  note loop = in_loop_up [OF inv0 lim' fits d(4), where env = env and cid = cid and e = e, folded fr]
  have go: "handle_EPOLLIN_event junk False env (script_of cs e) ev s =
      run_bind (in_loop junk env cid ?buf (script_of cs' e) ?s0)
        (\<lambda>(err, wb, rest, s). Some (in_finish False cid (client_fd (clt c)) err wb rest s))"
    using conn d(1,2) take ev up by (simp add: handle_EPOLLIN_event_def up_simps)
  show ?thesis
  proof (cases "in_loop junk env cid ?buf (script_of cs' e) ?s0")
    case None
    then show ?thesis using loop room0 unfolding go by simp
  next
    case (Some r)
    with loop obtain t where t: "r = Inr (fst (end_result e), snd (end_result e), snd fr, t)"
      "in_post junk h n {#} cid (fst fr) ?s0 t" by auto
    then have "sys_up t" "leftovers t cid = None"
      by (auto simp: in_post_def engine_inv_def same_net_def)
    then show ?thesis using t Some unfolding go by (auto simp: in_finish_up)
  qed
qed

definition leftover_ok :: "sys \<Rightarrow> CONNID \<Rightarrow> bool" where
  "leftover_ok s cid \<longleftrightarrow> (\<forall>d. leftovers s cid = Some d \<longrightarrow> d \<noteq> [] \<and> \<not> has_frame d)"

lemma leftover_frames: "leftover_ok s cid \<Longrightarrow> frames (left_bytes s cid) = ([], left_bytes s cid)"
  by (auto simp: leftover_ok_def left_bytes_def frames_stop split: option.splits)

lemma leftover_length:
  assumes "leftover_ok s cid" "limited NET_PACK_SIZE_LIMIT (left_bytes s cid @ x)"
  shows "length (left_bytes s cid) \<le> NET_REMAIN_CACHE_SIZE"
proof -
  have "length (snd (frames (left_bytes s cid))) < NET_PACK_SIZE_LIMIT"
    by (rule limited_rest_length [OF limited_append_left [OF assms(2)]]) (simp add: SIZEOF_NET_PKG_def size_simps)
  then show ?thesis using leftover_frames [OF assms(1)] by (simp add: size_simps)
qed

lemma in_post_backlog: "in_post junk h n X cid fs s t \<Longrightarrow> backlog t \<le> backlog s + length fs"
proof -
  assume p: "in_post junk h n X cid fs s t"
  then have "length (accepted_packets t) = length (accepted_packets s) + length fs"
    by (simp add: in_post_def pushes_def)
  moreover have "length (started (tpool_of s)) \<le> length (started (tpool_of t))"
    using p by (simp add: in_post_def)
  ultimately show ?thesis by (simp add: accepted_packets_def backlog_def)
qed

section \<open>A concrete connection\<close>

definition client_sys :: "TASKHANDLER option \<Rightarrow> nat \<Rightarrow> sys" where
  "client_sys h n = (set_conns [5 \<mapsto> a_conn] (idle_sys h n))
     \<lparr>open_fds := {3, 4, 7}, interest := [7 \<mapsto> \<lparr>ev_events = ev_all, ev_u64 = 5\<rparr>]\<rparr>"

definition client_ev :: epoll_event where
  "client_ev = \<lparr>ev_events = EPOLLIN, ev_u64 = 5\<rparr>"

lemma client_sys_views [simp]:
  "sys_up (client_sys h n)" "conns (client_sys h n) = [5 \<mapsto> a_conn]" "leftovers (client_sys h n) = (\<lambda>_. None)"
  "sendlist (client_sys h n) = []" "tpool_of (client_sys h n) = threadpool_init n empty_store"
  "open_fds (client_sys h n) = {3, 4, 7}"
  "interest (client_sys h n) = [7 \<mapsto> \<lparr>ev_events = ev_all, ev_u64 = 5\<rparr>]" "ev_u64 client_ev = 5"
  "client_fd (clt a_conn) = 7" "left_bytes (client_sys h n) cid = []" "leftover_ok (client_sys h n) cid"
  "accepted_packets (client_sys h n) = []" "backlog (client_sys h n) = 0"
  "sender_pc (client_sys h n) = SLook" "processmsg (pool (client_sys h n)) = h"
  by (simp_all add: client_sys_def client_ev_def a_conn_def left_bytes_def leftover_ok_def
      accepted_packets_def backlog_def threadpool_init_def)

lemma client_engine_inv: "handler_ok junk h \<Longrightarrow> engine_inv junk h n {#} (client_sys (Some h) n)"
  using idle_engine_inv [of junk h n]
  by (simp add: engine_inv_def heap_inv_def client_sys_def)

text \<open>A request followed by the first three bytes of another.\<close>

definition ping_and_more :: "u8 list" where
  "ping_and_more = ping @ take 3 ping"

lemma ping_and_more_frames:
  "frames ping_and_more = ([ping], take 3 ping)" "limited NET_PACK_SIZE_LIMIT ping_and_more"
proof -
  have len: "frame_len ping_and_more = 12"
    using frame_len_append [of ping "take 3 ping"] by (simp add: ping_and_more_def ping_facts SIZEOF_NET_PKG_def)
  have f: "has_frame ping_and_more"
    unfolding has_frame_def len by (simp add: ping_and_more_def ping_facts SIZEOF_NET_PKG_def)
  have d: "take 12 ping_and_more = ping" "drop 12 ping_and_more = take 3 ping"
    by (simp_all add: ping_and_more_def ping_facts)
  have short: "\<not> has_frame (take 3 ping)" "length (take 3 ping) < SIZEOF_NET_PKG"
    by (simp_all add: has_frame_def ping_facts SIZEOF_NET_PKG_def)
  then show "frames ping_and_more = ([ping], take 3 ping)"
    using frames_step [OF f] by (simp add: len d frames_stop)
  show "limited NET_PACK_SIZE_LIMIT ping_and_more"
    using limited_step [OF f] short by (simp add: len d limited_stop size_simps)
qed

lemma ping_chunks: "concat [take 5 ping, drop 5 ping @ take 3 ping] = ping_and_more"
  "chunks_ok [take 5 ping, drop 5 ping @ take 3 ping]"
proof -
  have "concat [take 5 ping, drop 5 ping @ take 3 ping] = (take 5 ping @ drop 5 ping) @ take 3 ping" by simp
  then show "concat [take 5 ping, drop 5 ping @ take 3 ping] = ping_and_more"
    by (simp only: append_take_drop_id ping_and_more_def)
  have "ping \<noteq> []" "drop 5 ping \<noteq> []" using ping_facts(2) by auto
  then show "chunks_ok [take 5 ping, drop 5 ping @ take 3 ping]" by (simp add: chunks_ok_def)
qed

section \<open>Properties of the EPOLLIN handler\<close>

lemma EPOLLIN_event_post:
  assumes "engine_inv junk h n {#} s" "conns s (ev_u64 ev) = Some c" "client_fd (clt c) \<noteq> - 1"
    and "leftover_ok s (ev_u64 ev)" "limited NET_PACK_SIZE_LIMIT (left_bytes s (ev_u64 ev) @ concat cs)"
    and "chunks_ok cs" "cs \<noteq> []"
  shows "case handle_EPOLLIN_event junk False env (script_of cs Ends_again) ev s of
      None \<Rightarrow> \<not> room (length (fst (frames (left_bytes s (ev_u64 ev) @ concat cs)))) env s
    | Some r \<Rightarrow> \<exists>t. r = Inr t \<and> engine_inv junk h n {#} t \<and> accounts junk h s t
        \<and> accepted_packets t = accepted_packets s
            @ map (Pair (ev_u64 ev)) (fst (frames (left_bytes s (ev_u64 ev) @ concat cs)))
        \<and> leftovers t = (leftovers s)(ev_u64 ev :=
            (let rest = snd (frames (left_bytes s (ev_u64 ev) @ concat cs)) in if rest = [] then None else Some rest))
        \<and> backlog t \<le> backlog s + length (fst (frames (left_bytes s (ev_u64 ev) @ concat cs)))
        \<and> conns t = conns s \<and> interest t = interest s \<and> open_fds t = open_fds s"
proof -
  let ?cid = "ev_u64 ev" and ?s0 = "set_leftovers ((leftovers s)(ev_u64 ev := None)) s"
  let ?fr = "frames (left_bytes s ?cid @ concat cs)"
  note up = handle_EPOLLIN_up [OF assms(1-3) leftover_length [OF assms(4,5)] assms(5-7) refl, of env Ends_again]
  show ?thesis
  proof (cases "handle_EPOLLIN_event junk False env (script_of cs Ends_again) ev s")
    case None
    then show ?thesis using up by simp
  next
    case (Some r)
    with up obtain t where t: "in_post junk h n {#} ?cid (fst ?fr) ?s0 t"
      "r = Inr (in_end Ends_again ?cid (client_fd (clt c)) (snd ?fr) t)" by auto
    let ?t = "in_end Ends_again ?cid (client_fd (clt c)) (snd ?fr) t"
    have s0: "backlog ?s0 = backlog s" "accepted_packets ?s0 = accepted_packets s"
      by (simp_all add: backlog_def accepted_packets_def)
    have post: "engine_inv junk h n {#} t" "conns t = conns s" "interest t = interest s" "open_fds t = open_fds s"
      "leftovers t = (leftovers s)(?cid := None)" "accounts junk h ?s0 t"
      "accepted_packets t = accepted_packets s @ map (Pair ?cid) (fst ?fr)"
      using t(1) s0 by (auto simp: in_post_def same_net_def pushes_def)
    have views: "accepted_packets (set_leftovers m t) = accepted_packets t" "backlog (set_leftovers m t) = backlog t"
      "accounts junk h s (set_leftovers m t) = accounts junk h ?s0 t" "accounts junk h s t = accounts junk h ?s0 t"
      for m by (simp_all add: backlog_def accepted_packets_def accounts_def)
    show ?thesis using Some t(2) post in_post_backlog [OF t(1)] s0 views
      by (cases "snd ?fr = []") (simp_all add: Let_def)
  qed
qed

text \<open>
  C4: one EPOLLIN event of a running server.  Whatever bytes of a well-formed stream arrive, in
  whatever chunks, the handler neither faults nor overruns its buffers; it hands the pool
  exactly the packets completed by these bytes and the connection's leftover, in order and for
  this connection, and keeps exactly the incomplete rest.  It touches no other connection's
  leftover, and it returns if the pool has room for the packets.
\<close>
theorem EPOLLIN_pushes_the_frames:
  assumes "engine_inv junk h n {#} s" "conns s (ev_u64 ev) = Some c" "client_fd (clt c) \<noteq> - 1"
    and "leftover_ok s (ev_u64 ev)" "limited NET_PACK_SIZE_LIMIT (left_bytes s (ev_u64 ev) @ concat cs)"
    and "chunks_ok cs" "cs \<noteq> []"
  shows "case handle_EPOLLIN_event junk False env (script_of cs Ends_again) ev s of
      None \<Rightarrow> \<not> room (length (fst (frames (left_bytes s (ev_u64 ev) @ concat cs)))) env s
    | Some r \<Rightarrow> \<exists>t. r = Inr t \<and> engine_inv junk h n {#} t \<and> accounts junk h s t
        \<and> accepted_packets t = accepted_packets s
            @ map (Pair (ev_u64 ev)) (fst (frames (left_bytes s (ev_u64 ev) @ concat cs)))
        \<and> leftovers t = (leftovers s)(ev_u64 ev :=
            (let rest = snd (frames (left_bytes s (ev_u64 ev) @ concat cs)) in if rest = [] then None else Some rest))
        \<and> backlog t \<le> backlog s + length (fst (frames (left_bytes s (ev_u64 ev) @ concat cs)))
        \<and> conns t = conns s \<and> interest t = interest s \<and> open_fds t = open_fds s"
  using EPOLLIN_event_post [OF assms] .

theorem EPOLLIN_pushes_the_frames_witness:
  "\<exists>t. handle_EPOLLIN_event echo_junk False [[]]
      (script_of [take 5 ping, drop 5 ping @ take 3 ping] Ends_again) client_ev (client_sys (Some echo) 2) = Some (Inr t)
    \<and> accepted_packets t = [(5, ping)] \<and> leftovers t 5 = Some (take 3 ping)"
  using EPOLLIN_pushes_the_frames [OF client_engine_inv [OF echo_ok], where n = 2 and ev = client_ev and c = a_conn
      and cs = "[take 5 ping, drop 5 ping @ take 3 ping]" and env = "[[]]"] ping_chunks ping_and_more_frames ping_facts(2)
  by (auto simp: room_def split: option.splits simp del: concat.simps)


text \<open>
  A run of EPOLLIN events of one connection, each with its own chunks and workers' schedule.
\<close>

fun in_events :: "u8 list \<Rightarrow> epoll_event \<Rightarrow> (nat list list \<times> u8 list list) list \<Rightarrow> sys \<Rightarrow> sys res option" where
  "in_events junk ev [] s = Some (Inr s)"
| "in_events junk ev ((env, cs) # es) s =
     run_bind (handle_EPOLLIN_event junk False env (script_of cs Ends_again) ev s) (in_events junk ev es)"

fun envs_room :: "nat \<Rightarrow> (nat list list \<times> u8 list list) list \<Rightarrow> bool" where
  "envs_room k [] \<longleftrightarrow> True"
| "envs_room k ((env, cs) # es) \<longleftrightarrow> k \<le> length env \<and> envs_room k es"

lemma envs_room_le: "envs_room (j + k) es \<Longrightarrow> envs_room k es"
  by (induction "j + k" es rule: envs_room.induct) auto

definition event_bytes :: "(nat list list \<times> u8 list list) list \<Rightarrow> u8 list" where
  "event_bytes es = concat (map (\<lambda>(env, cs). concat cs) es)"

lemma event_bytes_simps [simp]:
  "event_bytes [] = []" "event_bytes ((env, cs) # es) = concat cs @ event_bytes es"
  by (simp_all add: event_bytes_def)

text \<open>
  C3: packet boundaries do not depend on how TCP cuts the stream.  Over any sequence of events
  and chunks that together deliver a well-formed stream, the packets pushed are the packets of
  the whole stream, each once and in order, and the leftover is the stream's incomplete end.
  The run completes if the pool has room for all of them.
\<close>
theorem EPOLLIN_stream:
  assumes "engine_inv junk h n {#} s" "conns s (ev_u64 ev) = Some c" "client_fd (clt c) \<noteq> - 1"
    and "leftover_ok s (ev_u64 ev)" "limited NET_PACK_SIZE_LIMIT (left_bytes s (ev_u64 ev) @ event_bytes es)"
    and "\<forall>(env, cs) \<in> set es. chunks_ok cs \<and> cs \<noteq> []"
  shows "case in_events junk ev es s of
      None \<Rightarrow> \<not> (backlog s + length (fst (frames (left_bytes s (ev_u64 ev) @ event_bytes es))) \<le> 65
        \<and> envs_room (length (fst (frames (left_bytes s (ev_u64 ev) @ event_bytes es)))) es)
    | Some r \<Rightarrow> \<exists>t. r = Inr t
        \<and> accepted_packets t = accepted_packets s
            @ map (Pair (ev_u64 ev)) (fst (frames (left_bytes s (ev_u64 ev) @ event_bytes es)))
        \<and> left_bytes t (ev_u64 ev) = snd (frames (left_bytes s (ev_u64 ev) @ event_bytes es))"
  using assms
proof (induction es arbitrary: s)
  case Nil
  then show ?case using leftover_frames by simp
next
  case (Cons ecs es)
  obtain env cs where ecs: "ecs = (env, cs)" by fastforce
  let ?cid = "ev_u64 ev"
  let ?l = "left_bytes s ?cid"
  have cs: "chunks_ok cs" "cs \<noteq> []" using Cons.prems(6) ecs by auto
  have lim: "limited NET_PACK_SIZE_LIMIT ((?l @ concat cs) @ event_bytes es)" using Cons.prems(5) ecs by simp
  have fa: "frames (?l @ event_bytes (ecs # es)) =
      (fst (frames (?l @ concat cs)) @ fst (frames (snd (frames (?l @ concat cs)) @ event_bytes es)),
       snd (frames (snd (frames (?l @ concat cs)) @ event_bytes es)))"
    using frames_append [of "?l @ concat cs" "event_bytes es"] ecs by simp
  note one = EPOLLIN_event_post [OF Cons.prems(1-4) limited_append_left [OF lim] cs, of env]
  show ?case
  proof (cases "handle_EPOLLIN_event junk False env (script_of cs Ends_again) ev s")
    case None
    then have "\<not> room (length (fst (frames (?l @ concat cs)))) env s" using one by simp
    then show ?thesis using None ecs unfolding fa by (auto simp: room_def)
  next
    case (Some r)
    with one obtain t where t: "r = Inr t" "engine_inv junk h n {#} t"
      "accepted_packets t = accepted_packets s @ map (Pair ?cid) (fst (frames (?l @ concat cs)))"
      "leftovers t = (leftovers s)(?cid :=
          (let rest = snd (frames (?l @ concat cs)) in if rest = [] then None else Some rest))"
      "backlog t \<le> backlog s + length (fst (frames (?l @ concat cs)))" "conns t = conns s"
      by auto
    have left: "left_bytes t ?cid = snd (frames (?l @ concat cs))" "leftover_ok t ?cid"
      using t(4) frames_rest [of "?l @ concat cs"] by (auto simp: left_bytes_def leftover_ok_def Let_def)
    have lim': "limited NET_PACK_SIZE_LIMIT (left_bytes t ?cid @ event_bytes es)"
      unfolding left(1) by (rule limited_append_right [OF lim])
    have conn: "conns t ?cid = Some c" using t(6) Cons.prems(2) by simp
    have ch: "\<forall>(env, cs) \<in> set es. chunks_ok cs \<and> cs \<noteq> []" using Cons.prems(6) by simp
    note IH = Cons.IH [OF t(2) conn Cons.prems(3) left(2) lim' ch, unfolded left(1)]
    have go: "in_events junk ev (ecs # es) s = in_events junk ev es t" using Some t(1) ecs by simp
    show ?thesis
    proof (cases "in_events junk ev es t")
      case None
      then show ?thesis using IH t(5) unfolding go fa by (auto simp: ecs dest: envs_room_le)
    next
      case (Some r')
      then show ?thesis using IH t(3) unfolding go fa by auto
    qed
  qed
qed

theorem EPOLLIN_stream_witness:
  "\<exists>t. in_events echo_junk client_ev [([[]], [take 5 ping]), ([[]], [drop 5 ping, take 3 ping])]
      (client_sys (Some echo) 2) = Some (Inr t)
    \<and> accepted_packets t = [(5, ping)] \<and> left_bytes t 5 = take 3 ping"
proof -
  have b: "event_bytes [([[]], [take 5 ping]), ([[]], [drop 5 ping, take 3 ping])] = ping_and_more"
    unfolding event_bytes_def ping_and_more_def by simp
  have "ping \<noteq> []" "drop 5 ping \<noteq> []" using ping_facts(2) by auto
  then have c: "\<forall>(env, cs) \<in> set [([[]], [take 5 ping]), ([[]], [drop 5 ping, take 3 ping])]. chunks_ok cs \<and> cs \<noteq> []"
    by (simp add: chunks_ok_def)
  show ?thesis
    using EPOLLIN_stream [OF client_engine_inv [OF echo_ok], where n = 2 and ev = client_ev and c = a_conn
        and es = "[([[]], [take 5 ping]), ([[]], [drop 5 ping, take 3 ping])]"] b c ping_and_more_frames
    by (auto split: option.splits simp del: event_bytes_simps in_events.simps)
qed


lemma queued_other:
  "queued (filter (\<lambda>e. snd_conn_id e \<noteq> cid) l) = filter_mset (\<lambda>x. fst x \<noteq> cid) (queued l)"
proof -
  have "filter_mset (\<lambda>x. fst x \<noteq> cid) (entry_frames e) = (if snd_conn_id e = cid then {#} else entry_frames e)" for e
    by (auto simp: entry_frames_def filter_mset_image_mset filter_mset_eq_conv)
  then show ?thesis by (induction l) auto
qed


lemma ping_frames: "frames ping = ([ping], [])"
proof -
  have "has_frame ping" by (simp add: has_frame_def ping_facts SIZEOF_NET_PKG_def)
  then show ?thesis using frames_step [of ping] by (simp add: ping_facts frames_stop)
qed

lemma client_queue_inv:
  assumes "handler_ok junk h"
  shows "engine_inv junk h n {#} (set_sendlist [\<lparr>snd_conn_id = 9, snd_data = ping\<rparr>, \<lparr>snd_conn_id = 5, snd_data = ping\<rparr>] (client_sys (Some h) n))"
  using client_engine_inv [OF assms, of n] ping_frames
  by (simp add: engine_inv_def heap_inv_def send_fits_def whole_def ping_facts size_simps)


text \<open>
  A socket error other than \<open>EAGAIN\<close> ends the event without any clean-up: the connection
  stays in the table, its descriptor open and registered, its queued responses queued, while
  the bytes of the packet being received are thrown away.
\<close>
theorem EPOLLIN_error_keeps_connection:
  assumes "engine_inv junk h n {#} s" "conns s (ev_u64 ev) = Some c" "client_fd (clt c) \<noteq> - 1"
    and "leftover_ok s (ev_u64 ev)" "limited NET_PACK_SIZE_LIMIT (left_bytes s (ev_u64 ev) @ concat cs)"
    and "chunks_ok cs" "cs \<noteq> []"
  shows "case handle_EPOLLIN_event junk False env (script_of cs Ends_error) ev s of
      None \<Rightarrow> \<not> room (length (fst (frames (left_bytes s (ev_u64 ev) @ concat cs)))) env s
    | Some r \<Rightarrow> \<exists>t. r = Inr t \<and> conns t (ev_u64 ev) = Some c \<and> leftovers t (ev_u64 ev) = None
        \<and> open_fds t = open_fds s \<and> interest t = interest s"
  using handle_EPOLLIN_up [OF assms(1-3) leftover_length [OF assms(4,5)] assms(5-7) refl, of env Ends_error] assms(2)
  by (auto simp: in_post_def same_net_def split: option.splits)

theorem EPOLLIN_error_keeps_connection_witness:
  "\<exists>t. handle_EPOLLIN_event echo_junk False [[]]
      (script_of [take 5 ping, drop 5 ping @ take 3 ping] Ends_error) client_ev (client_sys (Some echo) 2) = Some (Inr t)
    \<and> conns t 5 = Some a_conn \<and> leftovers t 5 = None \<and> 7 \<in> open_fds t"
  using EPOLLIN_error_keeps_connection [OF client_engine_inv [OF echo_ok], where n = 2 and ev = client_ev and c = a_conn
      and cs = "[take 5 ping, drop 5 ping @ take 3 ping]" and env = "[[]]"] ping_chunks ping_and_more_frames ping_facts(2)
  by (auto simp: room_def split: option.splits simp del: concat.simps)


section \<open>Streams that break the size limit\<close>

text \<open>A buffer holding part of a packet that announces more than was received.\<close>

definition partial_pkg :: "u8 list \<Rightarrow> bool" where
  "partial_pkg bs \<longleftrightarrow> 10 \<le> length bs \<and> length bs < announced bs + 10 \<and> announced bs + 10 < 2147483648"

lemma parse_push_partial:
  assumes "partial_pkg bs"
  shows "parse_push junk env cid bs s = Some (Inr (env, bs, s))"
proof -
  have "parse_pack bs = Inr (0, None, bs)"
    using assms by (simp add: partial_pkg_def parse_pack_unfold Let_def)
  then show ?thesis by (subst parse_push.simps) simp
qed

lemma announced_append: "10 \<le> length d \<Longrightarrow> announced (d @ x) = announced d"
  by (simp add: announced_def)

text \<open>One event that delivers part of a packet to a connection with no leftover.\<close>

lemma EPOLLIN_partial:
  assumes "sys_up s" "conns s cid = Some c" "client_fd (clt c) \<noteq> - 1" "leftovers s cid = None"
    and "partial_pkg bs" "length bs < NET_RECV_SIZE_LIMIT" "ev_u64 ev = cid"
  shows "handle_EPOLLIN_event junk ndebug env (script_of [bs] Ends_again) ev s =
    Some (Inr (set_leftovers (if ndebug then leftovers s else (leftovers s)(cid \<mapsto> bs)) s))"
proof -
  have bs: "bs \<noteq> []" "length bs \<le> 195584" "length bs \<le> 262144" "0 < length bs" "length bs < 195584"
    using assms(5,6) by (auto simp: partial_pkg_def size_simps)
  have noop: "set_leftovers (leftovers s) s = s"
    using assms(1) by (cases s) (auto simp: set_leftovers_def leftovers_def cache_of_def sys_up_def is_live_iff)
  have same: "(leftovers s)(cid := None) = leftovers s" using assms(4) by auto
  have loop: "in_loop junk env cid bs [RAgain] s = Some (Inr (- 1, True, bs, s))"
    using bs by (subst in_loop.simps) (simp add: parse_push_partial [OF assms(5)] size_simps)
  have take: "take_leftover ndebug cid bs s = Inr (bs, s)"
    using assms(1,4) by (simp add: take_leftover_def up_simps same noop)
  have "recv_call (int NET_RECV_SIZE_LIMIT) (script_of [bs] Ends_again) = (int (length bs), False, bs, [RAgain])"
    using bs by (simp add: script_of_def Let_def size_simps)
  then show ?thesis using assms(1-4,7) bs take loop
    by (auto simp: handle_EPOLLIN_event_def in_finish_def up_simps noop)
qed

lemma partial_huge:
  "k < 1073741824 \<Longrightarrow> partial_pkg (header_bytes 0 1 1073741824 @ replicate k 0)"
  by (simp add: partial_pkg_def announced_header)

text \<open>
  C21: a client can stop the server.  Send a header announcing a packet beyond the limit and
  between 66561 and 195583 bytes of it: the EPOLLIN handler caches them, although
  \<open>NET_REMAIN_CACHE_SIZE\<close> is the size of the buffer they are read back into, and the next byte
  of this connection fails the \<open>assert(0)\<close> marked ``not too likely''.
\<close>
theorem EPOLLIN_oversized_rest_asserts:
  assumes "sys_up s" "conns s (ev_u64 ev) = Some c" "client_fd (clt c) \<noteq> - 1" "leftovers s (ev_u64 ev) = None"
    and "partial_pkg bs" "NET_REMAIN_CACHE_SIZE < length bs" "length bs < NET_RECV_SIZE_LIMIT"
  shows "run_bind (handle_EPOLLIN_event junk False env (script_of [bs] Ends_again) ev s)
      (handle_EPOLLIN_event junk False env' (RData (b # x) # rs) ev) = Some (Inl Assert_failed)"
proof -
  let ?t = "set_leftovers ((leftovers s)(ev_u64 ev \<mapsto> bs)) s"
  have first: "handle_EPOLLIN_event junk False env (script_of [bs] Ends_again) ev s = Some (Inr ?t)"
    using EPOLLIN_partial [OF assms(1-5,7) refl, of junk False env] by simp
  have t: "sys_up ?t" "conns ?t (ev_u64 ev) = Some c" "leftovers ?t (ev_u64 ev) = Some bs"
    using assms(1,2) by simp_all
  obtain k d rest where "recv_call (int NET_RECV_SIZE_LIMIT) (RData (b # x) # rs) = (k, False, d, rest)" "0 < k"
    by (simp add: Let_def size_simps)
  moreover have "take_leftover False (ev_u64 ev) d ?t = Inl Assert_failed"
    using t(1,3) assms(6,7) by (simp add: take_leftover_def up_simps size_simps)
  ultimately have "handle_EPOLLIN_event junk False env' (RData (b # x) # rs) ev ?t = Some (Inl Assert_failed)"
    using t assms(3) by (simp add: handle_EPOLLIN_event_def up_simps del: recv_call.simps)
  then show ?thesis using first by simp
qed

theorem EPOLLIN_oversized_rest_asserts_witness:
  "run_bind (handle_EPOLLIN_event echo_junk False []
        (script_of [header_bytes 0 1 1073741824 @ replicate 70000 0] Ends_again) client_ev (client_sys (Some echo) 2))
      (handle_EPOLLIN_event echo_junk False [] [RData [0]] client_ev) = Some (Inl Assert_failed)"
  by (rule EPOLLIN_oversized_rest_asserts [where c = a_conn and x = "[]" and rs = "[]"])
    (simp_all add: partial_huge size_simps)


text \<open>
  C20: a client can overrun the stack buffer.  After an event that leaves a partial packet of at
  most \<open>NET_REMAIN_CACHE_SIZE\<close> bytes in the cache, an event that fills
  \<open>NET_RECV_SIZE_LIMIT\<close> bytes makes \<open>NET_RECV_SIZE_LIMIT - err\<close> negative; converted to
  \<open>size_t\<close> it no longer limits \<open>recv\<close>, which stores whatever the client sent next.
\<close>
theorem EPOLLIN_recv_overflow:
  assumes "sys_up s" "conns s (ev_u64 ev) = Some c" "client_fd (clt c) \<noteq> - 1" "leftovers s (ev_u64 ev) = None"
    and "partial_pkg d" "length d \<le> NET_REMAIN_CACHE_SIZE" "partial_pkg (d @ x)"
    and "length x = NET_RECV_SIZE_LIMIT" "NET_REMAIN_CACHE_SIZE < length d + length y" "length y < 2147483648"
  shows "run_bind (handle_EPOLLIN_event junk False env (script_of [d] Ends_again) ev s)
      (handle_EPOLLIN_event junk False env' (RData x # RData y # rs) ev) = Some (Inl Out_of_bounds)"
proof -
  let ?t = "set_leftovers ((leftovers s)(ev_u64 ev \<mapsto> d)) s"
  have d: "length d \<le> 66560" "0 < length d" using assms(5,6) by (auto simp: partial_pkg_def size_simps)
  have first: "handle_EPOLLIN_event junk False env (script_of [d] Ends_again) ev s = Some (Inr ?t)"
    using EPOLLIN_partial [OF assms(1-5) _ refl, of junk False env] d by (simp add: size_simps)
  have t: "sys_up ?t" "conns ?t (ev_u64 ev) = Some c" "left_bytes ?t (ev_u64 ev) = d"
    using assms(1,2) by (simp_all add: left_bytes_def)
  have r: "recv_call (int NET_RECV_SIZE_LIMIT) (RData x # RData y # rs) = (int (length x), False, x, RData y # rs)"
    "0 < int (length x)"
    using assms(8) by (simp_all add: Let_def size_simps)
  let ?u = "set_leftovers ((leftovers ?t)(ev_u64 ev := None)) ?t"
  have take: "take_leftover False (ev_u64 ev) x ?t = Inr (d @ x, ?u)"
    using take_leftover_up [of ?t "ev_u64 ev" x] t assms(6,8) by simp
  have "csize (int NET_RECV_SIZE_LIMIT - int (length (d @ x))) = 18446744073709551616 - int (length d)"
    using d assms(8) by (simp add: csize_neg size_simps)
  moreover have "length y \<le> nat (18446744073709551616 - int (length d))" using assms(10) d by linarith
  ultimately have "recv_call (int NET_RECV_SIZE_LIMIT - int (length (d @ x))) (RData y # rs) = (int (length y), False, y, rs)"
    by (simp add: Let_def min_absorb1 del: length_append)
  then have "in_loop junk env' (ev_u64 ev) (d @ x) (RData y # rs) ?u = Some (Inl Out_of_bounds)"
    using assms(8,9) by (subst in_loop.simps) (simp add: parse_push_partial [OF assms(7)] size_simps)
  then have "handle_EPOLLIN_event junk False env' (RData x # RData y # rs) ev ?t = Some (Inl Out_of_bounds)"
    using t r take assms(3) by (simp add: handle_EPOLLIN_event_def up_simps del: recv_call.simps)
  then show ?thesis using first by simp
qed

theorem EPOLLIN_recv_overflow_witness:
  "run_bind (handle_EPOLLIN_event echo_junk False []
        (script_of [header_bytes 0 1 1073741824 @ replicate 60000 0] Ends_again) client_ev (client_sys (Some echo) 2))
      (handle_EPOLLIN_event echo_junk False [] [RData (replicate 195584 0), RData (replicate 10000 0)] client_ev)
    = Some (Inl Out_of_bounds)"
proof -
  have "partial_pkg (header_bytes 0 1 1073741824 @ replicate (60000 + 195584) 0)" by (rule partial_huge) simp
  then have "partial_pkg ((header_bytes 0 1 1073741824 @ replicate 60000 0) @ replicate 195584 0)"
    by (simp only: replicate_add append_assoc)
  then show ?thesis
    by (intro EPOLLIN_recv_overflow [where c = a_conn]) (simp_all add: partial_huge size_simps)
qed


text \<open>
  the call that caches the incomplete rest is the argument of an \<open>assert\<close>.  In a build that
  defines \<open>NDEBUG\<close> it is not executed: every packet that arrives in more than one event loses
  its first part, and the rest is parsed as if it were a header.
\<close>
theorem EPOLLIN_ndebug_loses_rest:
  assumes "sys_up s" "conns s (ev_u64 ev) = Some c" "client_fd (clt c) \<noteq> - 1" "leftovers s (ev_u64 ev) = None"
    and "partial_pkg bs" "length bs < NET_RECV_SIZE_LIMIT"
  shows "\<exists>t u. handle_EPOLLIN_event junk True env (script_of [bs] Ends_again) ev s = Some (Inr t)
      \<and> leftovers t (ev_u64 ev) = None
      \<and> handle_EPOLLIN_event junk False env (script_of [bs] Ends_again) ev s = Some (Inr u)
      \<and> leftovers u (ev_u64 ev) = Some bs"
  using EPOLLIN_partial [OF assms refl, of junk True env] EPOLLIN_partial [OF assms refl, of junk False env] assms(4)
  by simp

theorem EPOLLIN_ndebug_loses_rest_witness:
  "\<exists>t. handle_EPOLLIN_event echo_junk True []
        (script_of [header_bytes 0 1 1073741824 @ replicate 5 0] Ends_again) client_ev (client_sys (Some echo) 2) = Some (Inr t)
      \<and> leftovers t 5 = None"
  using EPOLLIN_ndebug_loses_rest [of "client_sys (Some echo) 2" client_ev a_conn
      "header_bytes 0 1 1073741824 @ replicate 5 0" echo_junk "[]"] partial_huge [of 5]
  by (simp add: size_simps) blast


end
