(* ===== verification/EpOut.thy ===== *)
theory EpOut
  imports EpSvr
begin

text \<open>
  Sending: \<open>handle_EPOLLOUT_event\<close> of \<open>src/ep_svr.c\<close>.  The results of \<open>send\<close> on the handler's
  socket are a list; \<open>sent\<close> collects, per descriptor, the bytes \<open>send\<close> has taken.
\<close>

section \<open>The handler\<close>

datatype send_ev = SSent nat | SAgain | SErr

text \<open>
  The \<open>do ... while\<close> loop: the bytes taken from \<open>data\<close>, and whether the loop ended because
  nothing was left.  \<open>continue\<close> goes to the loop condition.
\<close>

fun send_loop :: "send_ev list \<Rightarrow> u8 list \<Rightarrow> (u8 list \<times> bool) option" where
  "send_loop [] data = None"
| "send_loop (SErr # es) data = Some ([], False)"
| "send_loop (SAgain # es) data = (if 0 < length data then send_loop es data else Some ([], True))"
| "send_loop (SSent n # es) data =
     (let send_len = min n (length data); data' = drop send_len data in
      if 0 < length data' then map_option (\<lambda>(out, ok). (take send_len data @ out, ok)) (send_loop es data')
      else Some (take send_len data, True))"

definition handle_EPOLLOUT_event :: "send_ev list \<Rightarrow> bool \<Rightarrow> epoll_event \<Rightarrow> sys \<Rightarrow> sys res option" where
  "handle_EPOLLOUT_event script ok event s =
     (let connid = ev_u64 event in
      run_bind (Some (with_table (\<lambda>t. conn_get_sockfd t connid) s)) (\<lambda>(sockfd, s).
      if sockfd = - 1 then Some (Inr s)
      else
        run_bind (Some (with_queue (\<lambda>q. bind_res (QSend_pop_first q connid (int NET_SEND_BUFF_SIZE))
                    (\<lambda>(r, d, n, q). Inr ((r, d, n), q))) s)) (\<lambda>((r, d, buflen), s).
        run_bind
          (if r = - 1 then Some (Inr s)
           else case send_loop script (case d of None \<Rightarrow> [] | Some d \<Rightarrow> d) of
                  None \<Rightarrow> None
                | Some (out, _) \<Rightarrow> Some (Inr (s\<lparr>sent := (sent s)(sockfd := sent s sockfd @ out)\<rparr>)))
          (\<lambda>s. let (_, s) = epoll_mod ok sockfd (event\<lparr>ev_events := ev_in\<rparr>) s in Some (Inr s)))))"

section \<open>The send loop\<close>

lemma send_loop_prefix:
  "send_loop es data = Some (out, ok) \<Longrightarrow> \<exists>rest. data = out @ rest \<and> (ok \<longrightarrow> rest = [])"
proof (induction es data arbitrary: out ok rule: send_loop.induct)
  case (4 n es data)
  let ?k = "min n (length data)"
  show ?case
  proof (cases "0 < length (drop ?k data)")
    case True
    then have "send_loop (SSent n # es) data
        = map_option (\<lambda>(out, ok). (take ?k data @ out, ok)) (send_loop es (drop ?k data))"
      by (simp only: send_loop.simps Let_def if_True)
    with "4.prems" obtain out' where o: "send_loop es (drop ?k data) = Some (out', ok)" "out = take ?k data @ out'"
      by (auto simp del: send_loop.simps)
    from "4.IH" [OF refl refl True o(1)] obtain rest where "drop ?k data = out' @ rest" "ok \<longrightarrow> rest = []" by blast
    then show ?thesis using o(2) by (metis append.assoc append_take_drop_id)
  next
    case False
    then show ?thesis using "4.prems" by (auto simp: Let_def)
  qed
qed (auto split: if_splits)

lemma send_loop_no_error:
  "SErr \<notin> set es \<Longrightarrow> send_loop es data = Some (out, ok) \<Longrightarrow> out = data"
proof (induction es data arbitrary: out ok rule: send_loop.induct)
  case (4 n es data)
  let ?k = "min n (length data)"
  show ?case
  proof (cases "0 < length (drop ?k data)")
    case True
    then have "send_loop (SSent n # es) data
        = map_option (\<lambda>(out, ok). (take ?k data @ out, ok)) (send_loop es (drop ?k data))"
      by (simp only: send_loop.simps Let_def if_True)
    with "4.prems" obtain out' where "send_loop es (drop ?k data) = Some (out', ok)" "out = take ?k data @ out'"
      by (auto simp del: send_loop.simps)
    then show ?thesis using "4.IH" [OF refl refl True] "4.prems"(1) by auto
  next
    case False
    then show ?thesis using "4.prems" by (auto simp: Let_def)
  qed
qed (auto split: if_splits)

fun send_capacity :: "send_ev list \<Rightarrow> nat" where
  "send_capacity [] = 0"
| "send_capacity (SSent n # es) = n + send_capacity es"
| "send_capacity (_ # es) = send_capacity es"

lemma send_loop_complete:
  "SErr \<notin> set es \<Longrightarrow> data \<noteq> [] \<Longrightarrow> length data \<le> send_capacity es \<Longrightarrow> send_loop es data = Some (data, True)"
proof (induction es data rule: send_loop.induct)
  case (4 n es data)
  let ?k = "min n (length data)"
  show ?case
  proof (cases "0 < length (drop ?k data)")
    case True
    then have "send_loop es (drop ?k data) = Some (drop ?k data, True)"
      using "4.IH" [OF refl refl True] "4.prems" by auto
    then show ?thesis using True by (simp add: Let_def min_def split: if_splits)
  next
    case False
    then show ?thesis by (auto simp: Let_def)
  qed
qed auto

section \<open>The handler in a running server\<close>

lemma epoll_mod_snd: "snd (epoll_mod ok fd ev s) =
    s\<lparr>interest := (if ok \<and> fd \<in> open_fds s \<and> interest s fd \<noteq> None then (interest s)(fd \<mapsto> ev) else interest s)\<rparr>"
  by (cases s) (auto simp: epoll_mod_def)

lemma handle_EPOLLOUT_up:
  assumes "sys_up s" "send_fits (sendlist s)"
  shows "handle_EPOLLOUT_event script ok ev s =
    (case conns s (ev_u64 ev) of
       None \<Rightarrow> Some (Inr s)
     | Some c \<Rightarrow>
         if client_fd (clt c) = - 1 then Some (Inr s)
         else case find (\<lambda>e. ev_u64 ev = snd_conn_id e) (sendlist s) of
           None \<Rightarrow> Some (Inr (snd (epoll_mod ok (client_fd (clt c)) (ev\<lparr>ev_events := ev_in\<rparr>) s)))
         | Some e \<Rightarrow>
             (case send_loop script (snd_data e) of
                None \<Rightarrow> None
              | Some (out, _) \<Rightarrow>
                  Some (Inr (snd (epoll_mod ok (client_fd (clt c)) (ev\<lparr>ev_events := ev_in\<rparr>)
                    ((set_sendlist (erase_first (ev_u64 ev) (sendlist s)) s)
                       \<lparr>sent := (sent s)(client_fd (clt c) := sent s (client_fd (clt c)) @ out)\<rparr>))))))"
proof (cases "conns s (ev_u64 ev)")
  case None
  then show ?thesis using assms by (simp add: handle_EPOLLOUT_event_def up_simps)
next
  case conn: (Some c)
  show ?thesis
  proof (cases "find (\<lambda>e. ev_u64 ev = snd_conn_id e) (sendlist s)")
    case None
    then show ?thesis using assms conn by (simp add: handle_EPOLLOUT_event_def up_simps split_beta)
  next
    case (Some e)
    then have "e \<in> set (sendlist s)" by (auto simp: find_Some_iff)
    then have "length (snd_data e) < 262144" using assms(2) by (auto simp: send_fits_def size_simps)
    then have "\<not> csize (int NET_SEND_BUFF_SIZE) < int (length (snd_data e))" by (simp add: size_simps)
    then show ?thesis using assms conn Some
      by (cases "send_loop script (snd_data e)")
        (auto simp: handle_EPOLLOUT_event_def up_simps split_beta)
  qed
qed

section \<open>Properties\<close>

text \<open>
  C11: an EPOLLOUT event of a running server sends the oldest queued entry of its connection,
  whole and only to that connection's descriptor, however the kernel splits it and however
  often its buffer is full, as long as \<open>send\<close> reports no error; exactly that entry leaves the
  queue, and afterwards the descriptor waits for input only.  Without a queued entry nothing is
  sent.
\<close>
theorem EPOLLOUT_sends_oldest:
  assumes "sys_up s" "send_fits (sendlist s)" "conns s (ev_u64 ev) = Some c" "client_fd (clt c) \<noteq> - 1"
    and "\<forall>e \<in> set (sendlist s). snd_data e \<noteq> []" "SErr \<notin> set script" "NET_SEND_BUFF_SIZE \<le> send_capacity script"
    and "client_fd (clt c) \<in> open_fds s" "interest s (client_fd (clt c)) \<noteq> None"
  shows "\<exists>t. handle_EPOLLOUT_event script True ev s = Some (Inr t)
    \<and> interest t (client_fd (clt c)) = Some (ev\<lparr>ev_events := ev_in\<rparr>)
    \<and> (case find (\<lambda>e. ev_u64 ev = snd_conn_id e) (sendlist s) of
         None \<Rightarrow> sent t = sent s \<and> sendlist t = sendlist s
       | Some e \<Rightarrow> sent t = (sent s)(client_fd (clt c) := sent s (client_fd (clt c)) @ snd_data e)
           \<and> sendlist t = erase_first (ev_u64 ev) (sendlist s))"
proof (cases "find (\<lambda>e. ev_u64 ev = snd_conn_id e) (sendlist s)")
  case None
  then show ?thesis using assms by (simp add: handle_EPOLLOUT_up epoll_mod_snd)
next
  case (Some e)
  then have e: "e \<in> set (sendlist s)" by (auto simp: find_Some_iff)
  then have "length (snd_data e) \<le> send_capacity script" "snd_data e \<noteq> []"
    using assms(2,5,7) by (force simp: send_fits_def)+
  then have "send_loop script (snd_data e) = Some (snd_data e, True)"
    using assms(6) by (intro send_loop_complete)
  then show ?thesis using assms Some by (simp add: handle_EPOLLOUT_up epoll_mod_snd)
qed

theorem EPOLLOUT_sends_oldest_witness:
  "\<exists>t. handle_EPOLLOUT_event [SSent 1, SAgain, SSent 300000] True client_ev
      (set_sendlist [\<lparr>snd_conn_id = 5, snd_data = ping\<rparr>] (client_sys None 1)) = Some (Inr t)
    \<and> sent t 7 = sent (client_sys None 1) 7 @ ping \<and> sendlist t = []"
proof -
  have "ping \<noteq> []" using ping_facts(2) by auto
  then show ?thesis
    using EPOLLOUT_sends_oldest [of "set_sendlist [\<lparr>snd_conn_id = 5, snd_data = ping\<rparr>] (client_sys None 1)"
        client_ev a_conn "[SSent 1, SAgain, SSent 300000]"]
    by (auto simp: send_fits_def ping_facts size_simps)
qed


text \<open>
  when \<open>send\<close> fails in the middle of a response, the entry is already off the queue and its
  unsent end is lost, while the connection stays in use: the next response queued for it
  follows the truncated frame on the wire.
\<close>
theorem EPOLLOUT_error_truncates:
  assumes "sys_up s" "send_fits (sendlist s)" "conns s (ev_u64 ev) = Some c" "client_fd (clt c) \<noteq> - 1"
    and "sendlist s = [e, e']" "snd_conn_id e = ev_u64 ev" "snd_conn_id e' = ev_u64 ev"
    and "0 < n" "n < length (snd_data e)" "snd_data e' \<noteq> []" "length (snd_data e') \<le> k"
  shows "\<exists>t u. handle_EPOLLOUT_event [SSent n, SErr] ok ev s = Some (Inr t)
    \<and> handle_EPOLLOUT_event [SSent k] ok ev t = Some (Inr u)
    \<and> sent u (client_fd (clt c)) = sent s (client_fd (clt c)) @ take n (snd_data e) @ snd_data e'
    \<and> sendlist u = [] \<and> conns u = conns s"
proof -
  let ?fd = "client_fd (clt c)"
  have loop1: "send_loop [SSent n, SErr] (snd_data e) = Some (take n (snd_data e), False)"
    using assms(9) by (simp add: Let_def)
  have loop2: "send_loop [SSent k] (snd_data e') = Some (snd_data e', True)"
    using assms(11) by (simp add: Let_def)
  obtain i where t: "handle_EPOLLOUT_event [SSent n, SErr] ok ev s = Some (Inr
      ((set_sendlist [e'] s)\<lparr>sent := (sent s)(?fd := sent s ?fd @ take n (snd_data e)), interest := i\<rparr>))"
    using assms(1-6) loop1 by (simp add: handle_EPOLLOUT_up epoll_mod_snd del: send_loop.simps)
  let ?t = "(set_sendlist [e'] s)\<lparr>sent := (sent s)(?fd := sent s ?fd @ take n (snd_data e)), interest := i\<rparr>"
  have "send_fits [e']" using assms(2,5) by (simp add: send_fits_def)
  then obtain u where u: "handle_EPOLLOUT_event [SSent k] ok ev ?t = Some (Inr u)"
    "sent u ?fd = sent s ?fd @ take n (snd_data e) @ snd_data e'" "sendlist u = []" "conns u = conns s"
    using assms(1,3,4,7) loop2 by (simp add: handle_EPOLLOUT_up epoll_mod_snd del: send_loop.simps)
  then show ?thesis using t by blast
qed

theorem EPOLLOUT_error_truncates_witness:
  "\<exists>t u. handle_EPOLLOUT_event [SSent 4, SErr] True client_ev
        (set_sendlist [\<lparr>snd_conn_id = 5, snd_data = ping\<rparr>, \<lparr>snd_conn_id = 5, snd_data = ping\<rparr>] (client_sys None 1))
        = Some (Inr t)
    \<and> handle_EPOLLOUT_event [SSent 100] True client_ev t = Some (Inr u)
    \<and> sent u 7 = sent (client_sys None 1) 7 @ take 4 ping @ ping"
proof -
  let ?e = "\<lparr>snd_conn_id = 5, snd_data = ping\<rparr>"
  have "ping \<noteq> []" using ping_facts(2) by auto
  then show ?thesis
    using EPOLLOUT_error_truncates [of "set_sendlist [?e, ?e] (client_sys None 1)" client_ev a_conn ?e ?e 4 100 True]
    by (auto simp: send_fits_def ping_facts size_simps)
qed


end
