(* ===== verification/NetSvr.thy ===== *)
theory NetSvr
  imports EpOut
begin

text \<open>
  The server as a whole: \<open>net_create\<close>, \<open>net_start\<close>, \<open>net_destroy\<close> and the batch loop of
  \<open>work_routine\<close> of \<open>src/ep_svr.c\<close>, and the interleavings of its threads.
\<close>

section \<open>Life cycle\<close>

text \<open>
  \<open>net_create\<close>: \<open>sock\<close> and \<open>epfd\<close> are what \<open>socket\<close> and \<open>epoll_create\<close> return, \<open>nprocs\<close> what
  \<open>get_nprocs\<close> does, \<open>m\<close> the store the task queue is allocated in.  The first result is whether
  a server is returned; when it is not, the struct is freed.
\<close>

definition open_fd :: "int \<Rightarrow> sys \<Rightarrow> sys" where
  "open_fd fd s = (if 0 \<le> fd then s\<lparr>open_fds := insert fd (open_fds s)\<rparr> else s)"

definition net_create ::
    "int \<Rightarrow> int \<Rightarrow> int \<Rightarrow> work_t thread_param_t store \<Rightarrow> TASKHANDLER option \<Rightarrow> int \<Rightarrow> sys \<Rightarrow> (bool \<times> sys) res" where
  "net_create sock epfd nprocs m proc psize s =
     (let s = s\<lparr>svr_sock := - 1, ep_fd := - 1, conntable := Null, shpr := Null, rhpr := Null\<rparr>;
          s = open_fd sock (s\<lparr>svr_sock := sock\<rparr>);
          failed = (\<lambda>s. let s = (if 0 \<le> svr_sock s then close_fd (svr_sock s) s else s);
                            s = (if 0 \<le> ep_fd s then close_fd (ep_fd s) s else s)
                        in Inr (False, s))
      in if svr_sock s = - 1 then failed s
         else
           let s = open_fd epfd (s\<lparr>ep_fd := epfd\<rparr>) in
           if svr_sock s = - 1 then failed s
           else
             let s = s\<lparr>conntable := Live create_conn_table\<rparr>;
                 s = s\<lparr>rhpr := Live create_recv_helper\<rparr>;
                 s = s\<lparr>shpr := Live create_send_helper\<rparr>
             in bind_res (sendhelper_start s) (\<lambda>s.
                bind_res (workpool_start nprocs m proc psize s) (\<lambda>s. Inr (True, s))))"

text \<open>\<open>pton\<close> and \<open>bound\<close> are what \<open>inet_pton\<close> and \<open>bind\<close> return.\<close>

definition net_start :: "int \<Rightarrow> int \<Rightarrow> sys \<Rightarrow> int \<times> sys" where
  "net_start pton bound s =
     (if pton \<noteq> 1 then (- 1, s)
      else if bound \<noteq> 0 then (- 1, s)
      else (0, s\<lparr>loop_tid := True, lis_tid := True\<rparr>))"

definition net_destroy :: "u8 list \<Rightarrow> nat \<Rightarrow> nat list \<Rightarrow> nat list \<Rightarrow> sys \<Rightarrow> (int \<times> sys) res option" where
  "net_destroy junk fuel before after s =
     (let s = s\<lparr>rhpr := release_recv_helper (rhpr s)\<rparr> in
      run_bind (workpool_stop junk fuel before after s) (\<lambda>s.
      run_bind (Some (release_send_helper (shpr s))) (\<lambda>p.
      let s = s\<lparr>shpr := p\<rparr>;
          s = s\<lparr>conntable := release_conn_table (conntable s)\<rparr>;
          s = close_fd (ep_fd s) s
      in Some (Inr (0, s)))))"

section \<open>The batch loop\<close>

text \<open>
  One batch of \<open>work_routine\<close>: for each event of \<open>epoll_wait\<close> first EPOLLIN, then EPOLLOUT.
  The inputs of the two handlers come with the event.
\<close>

record io_event =
  io_event :: epoll_event
  io_env :: "nat list list"
  io_recv :: "recv_ev list"
  io_send :: "send_ev list"
  io_ok :: bool

fun work_batch :: "u8 list \<Rightarrow> bool \<Rightarrow> io_event list \<Rightarrow> sys \<Rightarrow> sys res option" where
  "work_batch junk ndebug [] s = Some (Inr s)"
| "work_batch junk ndebug (e # es) s =
     run_bind (if and (ev_events (io_event e)) EPOLLIN \<noteq> 0
               then handle_EPOLLIN_event junk ndebug (io_env e) (io_recv e) (io_event e) s else Some (Inr s)) (\<lambda>s.
     run_bind (if and (ev_events (io_event e)) EPOLLOUT \<noteq> 0
               then handle_EPOLLOUT_event (io_send e) (io_ok e) (io_event e) s else Some (Inr s)) (\<lambda>s.
     work_batch junk ndebug es s))"

definition work_routine_turn :: "u8 list \<Rightarrow> bool \<Rightarrow> io_event list \<Rightarrow> sys \<Rightarrow> sys res option" where
  "work_routine_turn junk ndebug es s = work_batch junk ndebug (take NET_EPOLL_EVENT_MAX_SIZE es) s"

section \<open>The invariant of a running server\<close>

text \<open>
  Every connection has an open descriptor of its own and an id other than the reserved one;
  what is cached for a connection is not empty and not a complete packet.
\<close>

definition table_ok :: "sys \<Rightarrow> bool" where
  "table_ok s \<longleftrightarrow>
     (\<forall>cid c. conns s cid = Some c \<longrightarrow>
        0 \<le> client_fd (clt c) \<and> client_fd (clt c) \<in> open_fds s \<and> cid \<noteq> SVR_INVALID_CONNECT_ID)
     \<and> (\<forall>a b ca cb. conns s a = Some ca \<and> conns s b = Some cb \<and> client_fd (clt ca) = client_fd (clt cb) \<longrightarrow> a = b)"

definition sys_inv :: "u8 list \<Rightarrow> TASKHANDLER \<Rightarrow> nat \<Rightarrow> sys \<Rightarrow> bool" where
  "sys_inv junk h n s \<longleftrightarrow> engine_inv junk h n {#} s \<and> table_ok s \<and> (\<forall>cid. leftover_ok s cid)"

section \<open>Interleavings\<close>

text \<open>
  A record of what an EPOLLOUT event put on a descriptor: the descriptor the connection has in the
  table, the queue entry that was due, the bytes by which the output of that descriptor grew,
  and whether \<open>send\<close> reported an error.  The theorems compare the records with \<open>sent\<close>, which holds
  every byte that \<open>send\<close> took on any descriptor.
\<close>

record transmission =
  tr_fd :: int
  tr_entry :: SEND_T
  tr_bytes :: "u8 list"
  tr_error :: bool

definition transmitted :: "send_ev list \<Rightarrow> epoll_event \<Rightarrow> sys \<Rightarrow> sys \<Rightarrow> transmission list" where
  "transmitted script ev s t =
     (case conns s (ev_u64 ev) of
        None \<Rightarrow> []
      | Some c \<Rightarrow>
          let fd = client_fd (clt c) in
          if fd = - 1 then []
          else (case find (\<lambda>e. ev_u64 ev = snd_conn_id e) (sendlist s) of
                  None \<Rightarrow> []
                | Some e \<Rightarrow> [\<lparr>tr_fd = fd, tr_entry = e, tr_bytes = drop (length (sent s fd)) (sent t fd),
                             tr_error = (SErr \<in> set script)\<rparr>]))"

text \<open>
  The steps of a running server: a worker, the send thread (unless it is blocked), a spurious
  or signalled wake-up, the listener accepting a new descriptor, and the two event handlers.
  A client keeps the size limit; the socket may deliver any chunks and end any way.  The
  second component of a state collects the records of the transmissions.

  Each step is one call of a thread's loop body: a whole event handler, a whole turn of
  \<open>send_func\<close>, one position of a worker.  The locks inside are taken and released within the
  step; the workers also run in the middle of \<open>handle_EPOLLIN_event\<close>, before each attempt to push
  a packet, and \<open>send_func\<close> is cut where it decides to wait.
\<close>

type_synonym net = "sys \<times> transmission list"

inductive sys_step :: "u8 list \<Rightarrow> 'p prng \<Rightarrow> net \<Rightarrow> net \<Rightarrow> bool" for junk P where
  worker: "worker_step junk i s = Inr t \<Longrightarrow> sys_step junk P (s, out) (t, out)"
| sender: "sender_pc s \<noteq> SBlocked \<Longrightarrow> send_func_step ok s = Inr t \<Longrightarrow> sys_step junk P (s, out) (t, out)"
| wake: "sender_pc s = SBlocked \<Longrightarrow> sys_step junk P (s, out) (set_sender SLook s, out)"
| accept: "fd \<notin> open_fds s \<Longrightarrow> 0 \<le> fd \<Longrightarrow>
    listen_turn P clock rs getfl setfl ok (Accepted fd addr ntop) s = Some (Inr (go, t, rs')) \<Longrightarrow>
    sys_step junk P (s, out) (t, out)"
| receive: "chunks_ok cs \<Longrightarrow> limited NET_PACK_SIZE_LIMIT (left_bytes s (ev_u64 ev) @ concat cs) \<Longrightarrow>
    handle_EPOLLIN_event junk False env (script_of cs e) ev s = Some (Inr t) \<Longrightarrow>
    sys_step junk P (s, out) (t, out)"
| transmit: "handle_EPOLLOUT_event script ok ev s = Some (Inr t) \<Longrightarrow>
    sys_step junk P (s, out) (t, out @ transmitted script ev s t)"

text \<open>Before the server is created nothing was allocated and nothing was sent.\<close>

inductive sys_reach :: "u8 list \<Rightarrow> 'p prng \<Rightarrow> TASKHANDLER \<Rightarrow> int \<Rightarrow> int \<Rightarrow> net \<Rightarrow> bool"
  for junk P h nprocs psize where
  created: "store_ok m \<Longrightarrow> live s0 = {} \<Longrightarrow> sent s0 = (\<lambda>_. []) \<Longrightarrow> 0 \<le> sock \<Longrightarrow>
    net_create sock epfd nprocs m (Some h) psize s0 = Inr (True, s) \<Longrightarrow>
    sys_reach junk P h nprocs psize (s, [])"
| step: "sys_reach junk P h nprocs psize x \<Longrightarrow> sys_step junk P x y \<Longrightarrow> sys_reach junk P h nprocs psize y"

section \<open>Preservation\<close>

text \<open>
  \<open>acct_le s t\<close>: from \<open>s\<close> to \<open>t\<close> the queue gained at most the responses to the packets run.
\<close>

definition acct_le :: "u8 list \<Rightarrow> TASKHANDLER \<Rightarrow> sys \<Rightarrow> sys \<Rightarrow> bool" where
  "acct_le junk h s t \<longleftrightarrow>
     answers junk h (proc_log (tpool_of s)) + queued (sendlist t)
       \<subseteq># answers junk h (proc_log (tpool_of t)) + queued (sendlist s)"

lemma accounts_le: "accounts junk h s t \<Longrightarrow> acct_le junk h s t"
  by (simp add: accounts_def acct_le_def)

lemma queued_filter: "queued (filter P l) \<subseteq># queued l"
  by (induction l) (auto intro: subset_mset.add_mono subset_mset.add_increasing)

lemma queued_erase:
  "find (\<lambda>e. cid = snd_conn_id e) l = Some e \<Longrightarrow> queued l = entry_frames e + queued (erase_first cid l)"
  by (induction l) (auto split: if_splits)

lemma whole_sub: "whole l \<Longrightarrow> whole (filter P l)" "whole l \<Longrightarrow> whole (erase_first cid l)"
  using set_erase_first [of cid l] by (auto simp: whole_def)

lemma acct_le_filter:
  "acct_le junk h s t \<Longrightarrow> tpool_of u = tpool_of t \<Longrightarrow> sendlist u = filter P (sendlist t) \<Longrightarrow> acct_le junk h s u"
proof -
  assume st: "acct_le junk h s t" and tp: "tpool_of u = tpool_of t" and l: "sendlist u = filter P (sendlist t)"
  have "answers junk h (proc_log (tpool_of s)) + queued (sendlist u)
      \<subseteq># answers junk h (proc_log (tpool_of s)) + queued (sendlist t)"
    unfolding l using queued_filter by (rule subset_mset.add_left_mono)
  also note st [unfolded acct_le_def]
  finally show "acct_le junk h s u" unfolding acct_le_def tp .
qed

lemma acct_step:
  assumes "queued (sendlist s) + out \<subseteq># answers junk h (proc_log (tpool_of s))" "acct_le junk h s t"
  shows "queued (sendlist t) + out \<subseteq># answers junk h (proc_log (tpool_of t))"
proof (rule mset_subset_eqI)
  fix x
  show "count (queued (sendlist t) + out) x \<le> count (answers junk h (proc_log (tpool_of t))) x"
    using mset_subset_eq_count [OF assms(1), of x] mset_subset_eq_count [OF assms(2) [unfolded acct_le_def], of x]
    by simp
qed

text \<open>The EPOLLIN handler on an event that delivers no data.\<close>

lemma handle_EPOLLIN_empty:
  assumes "sys_up s" "conns s (ev_u64 ev) = Some c" "client_fd (clt c) \<noteq> - 1"
  shows "handle_EPOLLIN_event junk False env (script_of [] e) ev s =
    Some (Inr (in_end e (ev_u64 ev) (client_fd (clt c)) [] s))"
  using assms by (cases e)
    (simp_all add: handle_EPOLLIN_event_def script_of_def up_simps in_finish_def drop_conn_def Let_def)

lemma engine_inv_drop:
  assumes "engine_inv junk h n X s"
  shows "engine_inv junk h n X (drop_conn cid fd s)"
  using assms by (auto simp: engine_inv_def drop_conn_def close_fd_def heap_inv_def whole_sub)

lemma table_ok_drop:
  assumes "table_ok s" "conns s cid = Some c"
  shows "table_ok (drop_conn cid (client_fd (clt c)) s)"
  using assms unfolding table_ok_def drop_conn_def close_fd_def by (auto split: if_splits)

lemma sys_inv_in_end:
  assumes "engine_inv junk h n {#} t" "table_ok t" "\<forall>j. leftover_ok t j" "conns t cid = Some c"
    and "\<not> has_frame rest"
  shows "sys_inv junk h n (in_end e cid (client_fd (clt c)) rest t)"
proof (cases e)
  case Ends_again
  have "table_ok (set_leftovers m t) = table_ok t" for m by (simp add: table_ok_def)
  then show ?thesis using Ends_again assms by (auto simp: sys_inv_def leftover_ok_def)
next
  case Ends_closed
  have "leftover_ok (drop_conn cid (client_fd (clt c)) t) j" for j
    using assms(3) by (simp add: leftover_ok_def drop_conn_def close_fd_def)
  then show ?thesis using Ends_closed assms engine_inv_drop table_ok_drop by (auto simp: sys_inv_def)
next
  case Ends_error
  then show ?thesis using assms by (simp add: sys_inv_def)
qed

lemma sent_in_end [simp]: "sent (in_end e cid fd rest t) = sent t"
  by (cases e) (simp_all add: drop_conn_def close_fd_def)

lemma acct_in_end:
  "acct_le junk h s t \<Longrightarrow> acct_le junk h s (in_end e cid fd rest t)"
proof (cases e)
  case Ends_closed
  assume "acct_le junk h s t"
  then show ?thesis unfolding Ends_closed
    by (rule acct_le_filter) (simp_all add: drop_conn_def close_fd_def)
qed (simp_all add: acct_le_def)

lemma receive_up:
  assumes inv: "sys_inv junk h n s" and cs: "chunks_ok cs"
    and lim: "limited NET_PACK_SIZE_LIMIT (left_bytes s (ev_u64 ev) @ concat cs)"
    and run: "handle_EPOLLIN_event junk False env (script_of cs e) ev s = Some r"
  shows "\<exists>t. r = Inr t \<and> sys_inv junk h n t \<and> acct_le junk h s t \<and> sent t = sent s"
proof (cases "conns s (ev_u64 ev)")
  case None
  have "sys_up s" using inv by (simp add: sys_inv_def engine_inv_def)
  then have "r = Inr s" using None run by (simp add: handle_EPOLLIN_event_def up_simps)
  then show ?thesis using inv by (simp add: acct_le_def)
next
  case (Some c)
  let ?cid = "ev_u64 ev" and ?fd = "client_fd (clt c)"
  have eng: "engine_inv junk h n {#} s" "table_ok s" "\<And>j. leftover_ok s j" "sys_up s"
    using inv by (auto simp: sys_inv_def engine_inv_def)
  have fd: "?fd \<noteq> - 1" using eng(2) Some by (force simp: table_ok_def)
  show ?thesis
  proof (cases "cs = []")
    case True
    then have "r = Inr (in_end e ?cid ?fd [] s)" using handle_EPOLLIN_empty [OF eng(4) Some fd] run by simp
    moreover have "acct_le junk h s s" by (simp add: acct_le_def)
    ultimately show ?thesis
      using sys_inv_in_end [OF eng(1,2) _ Some, of "[]" e] eng(3) acct_in_end by auto
  next
    case False
    let ?s0 = "set_leftovers ((leftovers s)(?cid := None)) s"
    let ?fr = "frames (left_bytes s ?cid @ concat cs)"
    from handle_EPOLLIN_up [OF eng(1) Some fd leftover_length [OF eng(3) lim] lim cs False refl, of env e] run
    obtain t where t: "in_post junk h n {#} ?cid (fst ?fr) ?s0 t" "r = Inr (in_end e ?cid ?fd (snd ?fr) t)"
      by auto
    have tp: "engine_inv junk h n {#} t" "conns t = conns s" "open_fds t = open_fds s"
      "leftovers t = (leftovers s)(?cid := None)" "accounts junk h ?s0 t" "sent t = sent s"
      using t(1) by (auto simp: in_post_def same_net_def)
    have "acct_le junk h s t" using accounts_le [OF tp(5)] by (simp add: acct_le_def)
    moreover have "table_ok t" using eng(2) tp(2,3) by (simp add: table_ok_def)
    moreover have "\<forall>j. leftover_ok t j" using eng(3) tp(4) by (simp add: leftover_ok_def)
    moreover have "conns t ?cid = Some c" using tp(2) Some by simp
    ultimately show ?thesis
      using t(2) tp(1,6) frames_rest by (auto intro: sys_inv_in_end acct_in_end)
  qed
qed

text \<open>The bytes of the records for one descriptor, in order, and what every record satisfies.\<close>

definition wire :: "transmission list \<Rightarrow> int \<Rightarrow> u8 list" where
  "wire out fd = concat (map tr_bytes (filter (\<lambda>x. tr_fd x = fd) out))"

definition faithful :: "transmission \<Rightarrow> bool" where
  "faithful x \<longleftrightarrow> take (length (tr_bytes x)) (snd_data (tr_entry x)) = tr_bytes x
     \<and> (\<not> tr_error x \<longrightarrow> tr_bytes x = snd_data (tr_entry x))"

lemma wire_simps [simp]: "wire [] fd = []" "wire (out @ out') fd = wire out fd @ wire out' fd"
  "wire [x] fd = (if tr_fd x = fd then tr_bytes x else [])"
  by (simp_all add: wire_def)

lemma transmit_up:
  assumes inv: "sys_inv junk h n s" and run: "handle_EPOLLOUT_event script ok ev s = Some r"
  shows "\<exists>t. r = Inr t \<and> sys_inv junk h n t \<and> tpool_of t = tpool_of s
    \<and> queued (sendlist s) = queued (sendlist t) + queued (map tr_entry (transmitted script ev s t))
    \<and> whole (map tr_entry (transmitted script ev s t))
    \<and> (\<forall>x \<in> set (transmitted script ev s t). faithful x)
    \<and> (\<forall>fd. sent t fd = sent s fd @ wire (transmitted script ev s t) fd)"
proof -
  have up: "sys_up s" "send_fits (sendlist s)" "engine_inv junk h n {#} s" "table_ok s" "\<forall>j. leftover_ok s j" "whole (sendlist s)"
    using inv by (auto simp: sys_inv_def engine_inv_def)
  have keep: "sys_inv junk h n (t\<lparr>interest := i\<rparr>)" if "sys_inv junk h n t" for t i
    using that by (auto simp: sys_inv_def engine_inv_def heap_inv_def table_ok_def leftover_ok_def)
  show ?thesis
  proof (cases "\<exists>c e. conns s (ev_u64 ev) = Some c \<and> client_fd (clt c) \<noteq> - 1
      \<and> find (\<lambda>e. ev_u64 ev = snd_conn_id e) (sendlist s) = Some e")
    case False
    then have no: "transmitted script ev s t = []" for t
      by (auto simp: transmitted_def Let_def split: option.splits)
    have "\<exists>i. r = Inr (s\<lparr>interest := i\<rparr>) \<or> r = Inr s"
      using run False by (auto simp: handle_EPOLLOUT_up [OF up(1,2)] epoll_mod_snd split: option.splits if_splits)
    then show ?thesis using inv keep [OF inv] no by (auto simp: whole_def)
  next
    case True
    then obtain c e where c: "conns s (ev_u64 ev) = Some c" "client_fd (clt c) \<noteq> - 1"
      and e: "find (\<lambda>e. ev_u64 ev = snd_conn_id e) (sendlist s) = Some e" by blast
    let ?fd = "client_fd (clt c)"
    obtain b k where b: "send_loop script (snd_data e) = Some (b, k)"
      using run c e by (auto simp: handle_EPOLLOUT_up [OF up(1,2)] split: option.splits)
    let ?u = "(set_sendlist (erase_first (ev_u64 ev) (sendlist s)) s)\<lparr>sent := (sent s)(?fd := sent s ?fd @ b)\<rparr>"
    have inv': "sys_inv junk h n ?u"
      using up(3-5) by (auto simp: sys_inv_def engine_inv_def heap_inv_def table_ok_def leftover_ok_def whole_sub)
    obtain i where r: "r = Inr (?u\<lparr>interest := i\<rparr>)"
      using run c e b by (auto simp: handle_EPOLLOUT_up [OF up(1,2)] epoll_mod_snd)
    have tr: "transmitted script ev s (?u\<lparr>interest := i\<rparr>)
        = [\<lparr>tr_fd = ?fd, tr_entry = e, tr_bytes = b, tr_error = (SErr \<in> set script)\<rparr>]"
      using c e by (simp add: transmitted_def)
    have "faithful \<lparr>tr_fd = ?fd, tr_entry = e, tr_bytes = b, tr_error = (SErr \<in> set script)\<rparr>"
      using send_loop_prefix [OF b] send_loop_no_error [OF _ b] by (auto simp: faithful_def)
    moreover have "whole [e]" using up(6) e by (auto simp: whole_def find_Some_iff)
    moreover have "queued (sendlist s) = queued (erase_first (ev_u64 ev) (sendlist s)) + queued [e]"
      using queued_erase [OF e] by (simp add: add.commute)
    ultimately show ?thesis using r tr keep [OF inv'] by auto
  qed
qed

lemma worker_up:
  assumes inv: "sys_inv junk h n s"
  shows "\<exists>t. worker_step junk i s = Inr t \<and> sys_inv junk h n t \<and> acct_le junk h s t \<and> sent t = sent s"
proof -
  have eng: "engine_inv junk h n {#} s" using inv by (simp add: sys_inv_def)
  from worker_step_up [OF eng, of i] obtain t where
    t: "worker_step junk i s = Inr t" "engine_step_post junk h n {#} s t" by blast
  then have "engine_inv junk h n {#} t" "same_net s t" "accounts junk h s t"
    by (auto simp: engine_step_post_def)
  then show ?thesis using t(1) inv accounts_le
    by (auto simp: sys_inv_def same_net_def table_ok_def leftover_ok_def)
qed

lemma sys_inv_sender: "sys_inv junk h n s \<Longrightarrow> sys_inv junk h n (set_sender p s)"
  by (simp add: sys_inv_def engine_inv_def heap_inv_def table_ok_def leftover_ok_def)

lemma sender_up:
  assumes inv: "sys_inv junk h n s"
  shows "\<exists>t. send_func_step ok s = Inr t \<and> sys_inv junk h n t \<and> acct_le junk h s t \<and> sent t = sent s"
proof -
  have up: "sys_up s" "engine_inv junk h n {#} s" "table_ok s" "\<forall>j. leftover_ok s j"
    using inv by (auto simp: sys_inv_def engine_inv_def)
  have gone: "sys_inv junk h n (set_conns ((conns s)(cid := None)) (set_sendlist (filter P (sendlist s)) s))"
    for cid P
    using up(2-4)
    by (auto simp: sys_inv_def engine_inv_def heap_inv_def table_ok_def leftover_ok_def whole_sub)
  have armed: "sys_inv junk h n (s\<lparr>interest := i\<rparr>)" for i
    using up(2-4) by (simp add: sys_inv_def engine_inv_def heap_inv_def table_ok_def leftover_ok_def)
  have acct: "acct_le junk h s s" "acct_le junk h s (set_sender p s)" "acct_le junk h s (s\<lparr>interest := i\<rparr>)"
    "acct_le junk h s (set_conns m (set_sendlist (filter P (sendlist s)) s))" for p i m P
    by (simp_all add: acct_le_def queued_filter)
  show ?thesis using inv gone armed acct sys_inv_sender
    by (auto simp: send_func_step_up [OF up(1)] Let_def split: list.splits option.splits)
qed

lemma sys_inv_accept:
  assumes inv: "sys_inv junk h n s" and fd: "fd \<notin> open_fds s" "0 \<le> fd"
    and cid: "conns s cid = None" "cid \<noteq> SVR_INVALID_CONNECT_ID"
  shows "sys_inv junk h n (set_conns ((conns s)(cid \<mapsto> accept_conn fd addr))
    (s\<lparr>open_fds := insert fd (open_fds s), nonblock := b, interest := i\<rparr>))"
    and "sys_inv junk h n (s\<lparr>open_fds := insert fd (open_fds s), nonblock := b, interest := i\<rparr>)"
proof -
  have t: "table_ok s" using inv by (simp add: sys_inv_def)
  then have fresh_fd: "client_fd (clt c) \<noteq> fd" if "conns s j = Some c" for j c
    using fd(1) that by (auto simp: table_ok_def)
  have "table_ok (set_conns ((conns s)(cid \<mapsto> accept_conn fd addr))
    (s\<lparr>open_fds := insert fd (open_fds s), nonblock := b, interest := i\<rparr>))"
    using t fd cid fresh_fd unfolding table_ok_def by (auto simp: accept_conn_def split: if_splits)
  then show "sys_inv junk h n (set_conns ((conns s)(cid \<mapsto> accept_conn fd addr))
    (s\<lparr>open_fds := insert fd (open_fds s), nonblock := b, interest := i\<rparr>))"
    using inv by (simp add: sys_inv_def engine_inv_def heap_inv_def leftover_ok_def)
  show "sys_inv junk h n (s\<lparr>open_fds := insert fd (open_fds s), nonblock := b, interest := i\<rparr>)"
    using inv unfolding sys_inv_def engine_inv_def heap_inv_def table_ok_def leftover_ok_def by auto
qed

text \<open>What accepting a connection does.\<close>

definition unblocked :: "int \<Rightarrow> int \<Rightarrow> int \<Rightarrow> sys \<Rightarrow> int set" where
  "unblocked getfl setfl fd s = (if getfl = - 1 \<or> setfl = - 1 then nonblock s else insert fd (nonblock s))"

lemma listen_turn_up:
  assumes "sys_up s"
  shows "listen_turn P clock rs getfl setfl ok (Accepted fd addr ntop) s =
    (let s1 = s\<lparr>open_fds := insert fd (open_fds s)\<rparr>; b = unblocked getfl setfl fd s in
     if \<not> ntop then Some (Inr (False, s1, rs))
     else case gen_unused P clock rs (conns s) of
       None \<Rightarrow> None
     | Some (cid, rs') \<Rightarrow>
         let ev = \<lparr>ev_events = ev_all, ev_u64 = cid\<rparr> in
         if ok \<and> interest s fd = None
         then Some (Inr (True, set_conns ((conns s)(cid \<mapsto> accept_conn fd addr))
                (s1\<lparr>nonblock := b, interest := (interest s)(fd \<mapsto> ev)\<rparr>), rs'))
         else Some (Inr (True, set_conns ((conns s)(cid := None)) (s1\<lparr>nonblock := b\<rparr>), rs')))"
proof -
  obtain t where t: "conntable s = Live t" "table_of s = t" "rwlock t = Free" "conns s = conn_map t"
    using assms by (auto simp: sys_up_def is_live_iff table_of_def conns_def)
  have rm: "with_table (\<lambda>t. conn_remove t cid) (u\<lparr>conntable := Live (t\<lparr>conn_map := m\<rparr>)\<rparr>)
      = Inr (0, u\<lparr>conntable := Live (t\<lparr>conn_map := m(cid := None)\<rparr>)\<rparr>)" for cid u m
    using t(3) by (simp add: with_table_def lock_simps)
  have upd: "unblocked getfl setfl fd s = b \<Longrightarrow>
      snd (set_socket_unblock getfl setfl fd (s\<lparr>open_fds := d\<rparr>)) = s\<lparr>open_fds := d, nonblock := b\<rparr>" for b d
    by (cases s) (auto simp: set_socket_unblock_def unblocked_def)
  have tk: "table_of (s\<lparr>open_fds := d, nonblock := b\<rparr>) = table_of s"
    "table_of (s\<lparr>open_fds := d, nonblock := b, interest := i\<rparr>) = table_of s" for d b i
    by (simp_all add: table_of_def)
  have swap: "s\<lparr>open_fds := d, nonblock := b, conntable := p, interest := i\<rparr>
      = s\<lparr>open_fds := d, nonblock := b, interest := i, conntable := p\<rparr>" for d b p i
    by (cases s) simp
  show ?thesis
    using t by (cases "gen_unused P clock rs (conns s)")
      (auto simp: listen_turn_def Let_def upd split_beta lock_simps epoll_add_def rm set_conns_def tk swap)
qed

lemma accept_up:
  assumes inv: "sys_inv junk h n s" and fd: "fd \<notin> open_fds s" "0 \<le> fd"
    and run: "listen_turn P clock rs getfl setfl ok (Accepted fd addr ntop) s = Some r"
  shows "\<exists>go t rs'. r = Inr (go, t, rs') \<and> sys_inv junk h n t \<and> tpool_of t = tpool_of s \<and> sendlist t = sendlist s \<and> sent t = sent s"
proof -
  have up: "sys_up s" using inv by (simp add: sys_inv_def engine_inv_def)
  have plain: "sys_inv junk h n (s\<lparr>open_fds := insert fd (open_fds s)\<rparr>)"
    using inv unfolding sys_inv_def engine_inv_def heap_inv_def table_ok_def leftover_ok_def by auto
  show ?thesis
  proof (cases "ntop")
    case False
    then show ?thesis using run plain by (auto simp: listen_turn_up [OF up] Let_def)
  next
    case True
    then obtain cid rs' where g: "gen_unused P clock rs (conns s) = Some (cid, rs')"
      using run by (auto simp: listen_turn_up [OF up] Let_def split: option.splits)
    note cid = gen_unused_Some [OF g]
    have "sys_inv junk h n (set_conns ((conns s)(cid := None)) (s\<lparr>open_fds := insert fd (open_fds s), nonblock := b\<rparr>))"
      for b
      using inv cid unfolding sys_inv_def engine_inv_def heap_inv_def table_ok_def leftover_ok_def by auto
    then show ?thesis
      using run True g sys_inv_accept(1) [OF inv fd, of cid] cid
      by (auto simp: listen_turn_up [OF up] Let_def split: if_splits)
  qed
qed

definition pool_threads :: "int \<Rightarrow> int \<Rightarrow> nat" where
  "pool_threads nprocs psize = nat (if psize \<le> 0 then nprocs * 2 + 1 else psize)"

lemma net_create_up:
  assumes "store_ok m" "live s0 = {}" "0 \<le> sock" "handler_ok junk h"
    and run: "net_create sock epfd nprocs m (Some h) psize s0 = Inr (True, s)"
  shows "sys_inv junk h (pool_threads nprocs psize) s" "sendlist s = []" "proc_log (tpool_of s) = []" "sent s = sent s0"
    "tpool_of s = threadpool_init (pool_threads nprocs psize) m" "ep_fd s = epfd"
proof -
  have s: "conns s = (\<lambda>_. None)" "leftovers s = (\<lambda>_. None)" "sendlist s = []" "sys_up s"
    "tpool_of s = threadpool_init (pool_threads nprocs psize) m" "processmsg (pool s) = Some h" "live s = {}" "ep_fd s = epfd" "sent s = sent s0"
    using run assms(2,3)
    by (auto simp: net_create_def Let_def open_fd_def sendhelper_start_def with_sender_def workpool_start_def
        create_send_helper_def pool_threads_def view_defs sys_up_def create_conn_table_def create_recv_helper_def
        create_send_queue_def split: if_splits)
  have "engine_inv junk h (pool_threads nprocs psize) {#} s"
    using s assms(4) tp_inv_init [OF assms(1)]
    by (simp add: engine_inv_def heap_inv_def pending_def blocks_def threadpool_init_def whole_def)
  then show "sys_inv junk h (pool_threads nprocs psize) s" using s
    by (simp add: sys_inv_def table_ok_def leftover_ok_def)
  show "sendlist s = []" "proc_log (tpool_of s) = []" "sent s = sent s0"
    "tpool_of s = threadpool_init (pool_threads nprocs psize) m" "ep_fd s = epfd"
    using s by (simp_all add: threadpool_init_def)
qed

text \<open>Responses are only moved: queued ones to the wire, and every byte on the wire has its record.\<close>

definition net_inv :: "u8 list \<Rightarrow> TASKHANDLER \<Rightarrow> nat \<Rightarrow> net \<Rightarrow> bool" where
  "net_inv junk h n x \<longleftrightarrow> sys_inv junk h n (fst x)
     \<and> queued (sendlist (fst x)) + queued (map tr_entry (snd x)) \<subseteq># answers junk h (proc_log (tpool_of (fst x)))
     \<and> whole (map tr_entry (snd x)) \<and> (\<forall>x \<in> set (snd x). faithful x) \<and> (\<forall>fd. sent (fst x) fd = wire (snd x) fd)"

lemma net_invD: "net_inv junk h n (s, out) \<Longrightarrow> sys_inv junk h n s"
  by (simp add: net_inv_def)

lemma net_inv_quiet:
  assumes "net_inv junk h n (s, out)" "sys_inv junk h n t" "acct_le junk h s t" "sent t = sent s"
  shows "net_inv junk h n (t, out)"
  using assms acct_step by (auto simp: net_inv_def)

lemma sys_step_inv:
  assumes "sys_step junk P x y" "net_inv junk h n x"
  shows "net_inv junk h n y"
  using assms
proof (induction rule: sys_step.induct)
  case (worker i s t out)
  then show ?case using worker_up [OF net_invD, of junk h n s out i] net_inv_quiet by auto
next
  case (sender s ok t out)
  then show ?case using sender_up [OF net_invD, of junk h n s out ok] net_inv_quiet by auto
next
  case (wake s out)
  then show ?case using sys_inv_sender by (simp add: net_inv_def)
next
  case (accept fd s clock rs getfl setfl ok addr ntop go t rs' out)
  then show ?case using accept_up [OF _ accept(1-3)] by (auto simp: net_inv_def)
next
  case (receive cs s ev env e t out)
  then show ?case using receive_up [OF net_invD receive(1-3)] net_inv_quiet by auto
next
  case (transmit script ok ev s t out)
  from transmit_up [OF net_invD [OF transmit(2)] transmit(1)] have
    "sys_inv junk h n t" "tpool_of t = tpool_of s" "whole (map tr_entry (transmitted script ev s t))"
    "queued (sendlist s) = queued (sendlist t) + queued (map tr_entry (transmitted script ev s t))"
    "\<forall>x \<in> set (transmitted script ev s t). faithful x" "\<forall>fd. sent t fd = sent s fd @ wire (transmitted script ev s t) fd"
    by auto
  then show ?case using transmit by (auto simp: net_inv_def ac_simps whole_def)
qed

lemma sys_reach_inv:
  assumes "sys_reach junk P h nprocs psize x" "handler_ok junk h"
  shows "net_inv junk h (pool_threads nprocs psize) x"
  using assms
proof (induction rule: sys_reach.induct)
  case (created m s0 sock epfd s)
  then show ?case using net_create_up [of m s0 sock junk h epfd nprocs psize s]
    by (simp add: net_inv_def answers_def whole_def)
next
  case (step x y)
  then show ?case using sys_step_inv by blast
qed

section \<open>Properties\<close>

lemma worker_responds:
  assumes inv: "engine_inv junk h n X s" and i: "i < n" and e: "pcs (tpool_of s) i = Run e"
    and r: "response junk h (wk_data (tp_data e)) = Some r"
  shows "\<exists>t. worker_step junk i s = Inr t \<and> sys_up t \<and> conns t = conns s
    \<and> sendlist t = push_list (wk_connid (tp_data e)) r (sendlist s)
    \<and> sender_pc t = (if sender_pc s = SBlocked then SLook else sender_pc s)"
proof -
  note * = inv [unfolded engine_inv_def]
  have ok: "both_callbacks e" "work_ok (tp_data e)" using busy_item_ok [OF inv i, of e] e by auto
  have "fresh s \<notin> live s" using * heap_inv_fresh by blast
  from work_proc_up [of s h junk "tp_data e", OF _ _ _ ok(2) _ this] * obtain u where
    u: "work_proc junk (tp_data e) s = Inr u" "sys_up u" "same_net s u" "tpool_of u = tpool_of s"
      "sendlist u = push_list (wk_connid (tp_data e)) r (sendlist s)"
      "sender_pc u = (if sender_pc s = SBlocked then SLook else sender_pc s)"
    by (auto simp: r)
  obtain tp' where st: "thread_func_step i (tpool_of s) = Some tp'"
    using e by (simp add: thread_func_step_def)
  have tp: "thread_pool (pool s) = Live (tpool_of s)" "thread_num (tpool_of s) = n"
    using * by (auto simp: sys_up_def is_live_iff tpool_of_def tp_inv_def)
  have "worker_step junk i s = Inr (set_tpool tp' u)"
    using u(1) st i e ok tp no_crash [OF inv st i] by (simp add: worker_step_def both_callbacks_def)
  then show ?thesis using u by (intro exI [of _ "set_tpool tp' u"]) (simp add: same_net_def)
qed

subsection \<open>A run\<close>

text \<open>
  A run of the server that the witnesses share: it is created, accepts a client on descriptor 9,
  receives a request, a worker answers it, and the answer is sent in two pieces.
\<close>

lemma demo_created:
  obtains s where "net_create 3 4 4 empty_store (Some echo) 2 (idle_sys None 0) = Inr (True, s)"
    "sys_reach echo_junk counter_prng echo 4 2 (s, [])" "conns s = (\<lambda>_. None)" "leftovers s = (\<lambda>_. None)"
    "interest s = (\<lambda>_. None)" "open_fds s = insert 4 (insert 3 {3, 4})" "tpool_of s = threadpool_init 2 empty_store" "sent s = (\<lambda>_. [])" "sendlist s = []"
proof -
  obtain s where s: "net_create 3 4 4 empty_store (Some echo) 2 (idle_sys None 0) = Inr (True, s)"
    "conns s = (\<lambda>_. None)" "leftovers s = (\<lambda>_. None)"
    "interest s = (\<lambda>_. None)" "open_fds s = insert 4 (insert 3 {3, 4})" "tpool_of s = threadpool_init 2 empty_store" "sent s = (\<lambda>_. [])" "sendlist s = []"
    by (simp add: net_create_def Let_def open_fd_def sendhelper_start_def with_sender_def workpool_start_def
        create_send_helper_def view_defs create_conn_table_def create_recv_helper_def create_send_queue_def) (simp add: idle_sys_def)
  then show thesis
    using that sys_reach.created [OF empty_store_ok _ _ _ s(1), of echo_junk counter_prng] by (simp add: idle_sys_def)
qed

lemma echo_response: "response echo_junk echo ping = Some ping"
  by (simp add: response_def echo_def ping_facts size_simps) (simp add: ping_def PACK_VERSION_def)

text \<open>One request arrives at a server with an empty task queue.\<close>

lemma one_request:
  assumes inv: "engine_inv junk h n {#} s" and conn: "conns s cid = Some c" "client_fd (clt c) \<noteq> - 1"
    and left: "leftovers s cid = None" and "backlog s \<le> 64"
  obtains t e where "handle_EPOLLIN_event junk False [[]] (script_of [ping] Ends_again) \<lparr>ev_events = EPOLLIN, ev_u64 = cid\<rparr> s = Some (Inr t)"
    "accepted (tpool_of t) = accepted (tpool_of s) @ [e]" "wk_connid (tp_data e) = cid" "wk_data (tp_data e) = ping"
    "started (tpool_of t) = started (tpool_of s)" "pcs (tpool_of t) = broadcast (pcs (tpool_of s))"
    "exit_sem (tpool_of t) = exit_sem (tpool_of s)" "sendlist t = sendlist s" "conns t = conns s" "sent t = sent s"
proof -
  have up: "sys_up s" using inv by (simp add: engine_inv_def)
  let ?s0 = "set_leftovers ((leftovers s)(cid := None)) s" and ?s1 = "snd (malloc_block (set_leftovers ((leftovers s)(cid := None)) s))"
  have hf: "has_frame ping" by (simp add: has_frame_def ping_facts SIZEOF_NET_PKG_def)
  have inv1: "engine_inv junk h n ({#} + {#fresh ?s0#}) ?s1" by (rule engine_inv_malloc) (use inv in simp)
  have "backlog ?s1 \<le> 64" using assms(5) by (simp add: malloc_block_def backlog_def)
  from push_room_up [OF inv1 this, of ping cid] obtain t where t:
    "workpool_push_work cid (ping, fresh ?s0) 12 ?s1 = Inr (0, t)" "same_net ?s1 t"
    "accepted (tpool_of t) = accepted (tpool_of ?s1) @ [work_param cid ping (fresh ?s0) (fresh ?s1)]"
    "started (tpool_of t) = started (tpool_of ?s1)" "pcs (tpool_of t) = broadcast (pcs (tpool_of ?s1))"
    "exit_sem (tpool_of t) = exit_sem (tpool_of ?s1)" "sendlist t = sendlist ?s1" "engine_inv junk h n {#} t"
    by (auto simp: ping_facts size_simps)
  have retry: "push_retry junk [[]] cid (ping, fresh ?s0) 12 ?s1 = Some (Inr ([], t))" using t(1) by simp
  have pp: "parse_pack ping = Inr (12, Some ping, [])" "parse_pack [] = Inr (0, None, [])"
    using parse_pack_complete [OF hf] parse_pack_short [of "[]"] by (simp_all add: ping_facts)
  have "parse_push junk [] cid [] t = Some (Inr ([], [], t))" using pp(2) by (subst parse_push.simps) simp
  then have push: "parse_push junk [[]] cid ping ?s0 = Some (Inr ([], [], t))"
    using pp(1) retry by (subst parse_push.simps) (simp add: malloc_block_def del: push_retry.simps)
  have take: "take_leftover False cid ping s = Inr (ping, ?s0)"
    using take_leftover_up [OF up, of cid ping] left by (simp add: left_bytes_def ping_facts size_simps)
  have recv: "recv_call (int NET_RECV_SIZE_LIMIT) [RData ping, RAgain] = (12, False, ping, [RAgain])"
    by (simp add: Let_def ping_facts size_simps csize_def)
  have "in_loop junk [[]] cid ping [RAgain] ?s0 = Some (Inr (- 1, True, [], t))"
    using push by (subst in_loop.simps) simp
  moreover have "in_finish False cid (client_fd (clt c)) (- 1) True [] t = Inr t"
    by (simp add: in_finish_def)
  ultimately have run: "handle_EPOLLIN_event junk False [[]] (script_of [ping] Ends_again) \<lparr>ev_events = EPOLLIN, ev_u64 = cid\<rparr> s = Some (Inr t)"
    using conn recv take up by (simp add: handle_EPOLLIN_event_def up_simps script_of_def del: recv_call.simps)
  have "accepted (tpool_of t) = accepted (tpool_of s) @ [work_param cid ping (fresh ?s0) (fresh ?s1)]"
    using t(3) by (simp add: malloc_block_def)
  from that [OF run this] show thesis using t(2,4-7)
    by (simp add: malloc_block_def work_param_def same_net_def)
qed

text \<open>A worker at the top of its loop takes the only request and answers it.\<close>

lemma worker_answers:
  assumes inv: "engine_inv junk h n {#} s" and i: "i < n" "pcs (tpool_of s) i = Top" "exit_sem (tpool_of s) = 0"
    and q: "accepted (tpool_of s) = started (tpool_of s) @ [e]" and r: "response junk h (wk_data (tp_data e)) = Some r"
  shows "\<exists>a b c. worker_step junk i s = Inr a \<and> worker_step junk i a = Inr b \<and> worker_step junk i b = Inr c
    \<and> conns c = conns s \<and> sendlist c = push_list (wk_connid (tp_data e)) r (sendlist s) \<and> sent c = sent s"
proof -
  from worker_step_up [OF inv, of i] obtain a where a: "worker_step junk i s = Inr a" "engine_step_post junk h n {#} s a" by blast
  have up: "sys_up s" "thread_num (tpool_of s) = n" using inv by (auto simp: engine_inv_def tp_inv_def)
  have live: "sys_up s \<Longrightarrow> thread_pool (pool s) = Live (tpool_of s)" for s
    by (auto simp: sys_up_def is_live_iff tpool_of_def)
  have a': "a = set_tpool (goto i Locking (tpool_of s)) s"
    using a(1) i up live [OF up(1)] by (simp add: worker_step_def thread_func_step_def goto_def)
  have inva: "engine_inv junk h n {#} a" using a(2) by (simp add: engine_step_post_def)
  then obtain qu where qu: "tp_queue (tpool_of a) = Some qu" "queue_sized SIZEOF_THREAD_PARAM qu"
    "started (tpool_of a) @ queue_contents qu = accepted (tpool_of a)"
    by (auto simp: engine_inv_def tp_inv_def)
  have "queue_contents qu = [e]" using qu(3) q by (simp add: a' goto_def)
  from pop_sized_Cons [OF qu(2) this] obtain qu' where
    pop: "easy_queue_pop qu True SIZEOF_THREAD_PARAM = Inr (0, Some e, SIZEOF_THREAD_PARAM, qu')" by blast
  from worker_step_up [OF inva, of i] obtain b where b: "worker_step junk i a = Inr b" "engine_step_post junk h n {#} a b" by blast
  have upa: "sys_up a" "thread_num (tpool_of a) = n" using inva by (auto simp: engine_inv_def tp_inv_def)
  have pca: "pcs (tpool_of a) i = Locking" by (simp add: a' goto_def)
  have pcb: "pcs (tpool_of b) i = Run e" and sb: "sendlist b = sendlist a"
    using b(1) i upa live [OF upa(1)] pca qu(1) pop by (auto simp: worker_step_def thread_func_step_def goto_def)
  have invb: "engine_inv junk h n {#} b" using b(2) by (simp add: engine_step_post_def)
  from worker_responds [OF invb i(1) pcb r] obtain c where c: "worker_step junk i b = Inr c" "conns c = conns b"
    "sendlist c = push_list (wk_connid (tp_data e)) r (sendlist b)" by blast
  from worker_step_up [OF invb, of i] c(1) have "same_net b c" by (auto simp: engine_step_post_def)
  then have "sent c = sent s" "conns b = conns s"
    using a(2) b(2) by (auto simp: engine_step_post_def same_net_def)
  then show ?thesis using a(1) b(1) c sb by (auto simp: a')
qed

lemma served:
  obtains s cid where "sys_reach echo_junk counter_prng echo 4 2 (s, [\<lparr>tr_fd = 9, tr_entry = \<lparr>snd_conn_id = cid, snd_data = ping\<rparr>,
      tr_bytes = ping, tr_error = False\<rparr>])" "sendlist s = []"
proof -
  let ?R = "sys_reach echo_junk counter_prng echo 4 2"
  obtain s0 where s0: "?R (s0, [])" "conns s0 = (\<lambda>_. None)" "leftovers s0 = (\<lambda>_. None)"
    "interest s0 = (\<lambda>_. None)" "open_fds s0 = {3, 4}" "tpool_of s0 = threadpool_init 2 empty_store" "sent s0 = (\<lambda>_. [])" "sendlist s0 = []"
    by (rule demo_created) auto
  have inv: "sys_inv echo_junk echo 2 s" if "?R (s, out)" for s out
    using sys_reach_inv [OF that echo_ok] by (simp add: net_inv_def pool_threads_def)
  have eng: "engine_inv echo_junk echo 2 {#} s" "sys_up s" "send_fits (sendlist s)" if "?R (s, out)" for s out
    using inv [OF that] by (auto simp: sys_inv_def engine_inv_def)
  obtain cid rs' where g: "gen_unused counter_prng [5] 3 (\<lambda>_. None) = Some (cid, rs')"
    using Gen_ConnID_not_invalid [OF counter_prng_range, of 5 3] by (cases "Gen_ConnID counter_prng 5 3") auto
  let ?ad = "[127, 0, 0, 1]"
  define s1 where "s1 = set_conns [cid \<mapsto> accept_conn 9 ?ad]
    (s0\<lparr>open_fds := {9, 3, 4}, nonblock := unblocked 0 0 9 s0, interest := [9 \<mapsto> \<lparr>ev_events = ev_all, ev_u64 = cid\<rparr>]\<rparr>)"
  have "listen_turn counter_prng [5] 3 0 0 True (Accepted 9 ?ad True) s0 = Some (Inr (True, s1, rs'))"
    using listen_turn_up [OF eng(2) [OF s0(1)], of counter_prng "[5]" 3 0 0 True 9 ?ad True] s0 g by (simp add: s1_def Let_def)
  then have r1: "?R (s1, [])" using s0 by (intro sys_reach.step [OF s0(1)] sys_step.accept) auto
  have c1: "conns s1 cid = Some (accept_conn 9 ?ad)" "leftovers s1 cid = None" "sendlist s1 = []"
    "tpool_of s1 = threadpool_init 2 empty_store" "sent s1 = (\<lambda>_. [])"
    using s0 by (simp_all add: s1_def)
  obtain s2 e where s2: "handle_EPOLLIN_event echo_junk False [[]] (script_of [ping] Ends_again) \<lparr>ev_events = EPOLLIN, ev_u64 = cid\<rparr> s1 = Some (Inr s2)"
    "accepted (tpool_of s2) = [e]" "wk_connid (tp_data e) = cid" "wk_data (tp_data e) = ping"
    "started (tpool_of s2) = []" "pcs (tpool_of s2) 0 = Top" "exit_sem (tpool_of s2) = 0" "sendlist s2 = []"
    "conns s2 = conns s1" "sent s2 = (\<lambda>_. [])"
  proof (rule one_request [OF eng(1) [OF r1] c1(1) _ c1(2)])
    show "client_fd (clt (accept_conn 9 ?ad)) \<noteq> - 1" by (simp add: accept_conn_def)
    show "backlog s1 \<le> 64" using c1(4) by (simp add: backlog_def threadpool_init_def)
  qed (use c1 in \<open>auto simp: threadpool_init_def broadcast_def\<close>)
  have "limited NET_PACK_SIZE_LIMIT ping"
    using limited_step [of ping NET_PACK_SIZE_LIMIT] by (simp add: has_frame_def ping_facts SIZEOF_NET_PKG_def limited_stop size_simps)
  moreover have "ping \<noteq> []" using ping_facts(2) by auto
  ultimately have r2: "?R (s2, [])" using s2(1) c1(2)
    by (intro sys_reach.step [OF r1] sys_step.receive [of "[ping]"]) (auto simp: chunks_ok_def left_bytes_def)
  from worker_answers [OF eng(1) [OF r2], of 0 e ping] s2 echo_response obtain a b s3 where
    w: "worker_step echo_junk 0 s2 = Inr a" "worker_step echo_junk 0 a = Inr b" "worker_step echo_junk 0 b = Inr s3"
    and s3: "conns s3 = conns s1" "sendlist s3 = [\<lparr>snd_conn_id = cid, snd_data = ping\<rparr>]" "sent s3 = (\<lambda>_. [])"
    by (auto simp: push_list_def coalesces_def)
  have "?R (a, [])" by (rule sys_reach.step [OF r2]) (rule sys_step.worker [OF w(1)])
  then have "?R (b, [])" by (rule sys_reach.step) (rule sys_step.worker [OF w(2)])
  then have r3: "?R (s3, [])" by (rule sys_reach.step) (rule sys_step.worker [OF w(3)])
  let ?script = "[SSent 5, SAgain, SSent 100]" and ?ev = "\<lparr>ev_events = EPOLLOUT, ev_u64 = cid\<rparr>"
  have fd: "client_fd (clt (accept_conn 9 ?ad)) = 9" by (simp add: accept_conn_def)
  have "send_loop ?script ping = Some (ping, True)"
    using ping_facts(2) by (intro send_loop_complete) auto
  then obtain i where tx: "handle_EPOLLOUT_event ?script True ?ev s3
      = Some (Inr ((set_sendlist [] s3)\<lparr>sent := (\<lambda>_. [])(9 := ping), interest := i\<rparr>))"
    using handle_EPOLLOUT_up [OF eng(2) [OF r3] eng(3) [OF r3], of ?script True ?ev] s3 c1(1) fd
    by (simp add: epoll_mod_snd del: send_loop.simps)
  let ?s4 = "(set_sendlist [] s3)\<lparr>sent := (\<lambda>_. [])(9 := ping), interest := i\<rparr>"
  have "transmitted ?script ?ev s3 ?s4 = [\<lparr>tr_fd = 9, tr_entry = \<lparr>snd_conn_id = cid, snd_data = ping\<rparr>, tr_bytes = ping, tr_error = False\<rparr>]"
    using s3 c1(1) fd by (simp add: transmitted_def Let_def)
  then have "?R (?s4, [\<lparr>tr_fd = 9, tr_entry = \<lparr>snd_conn_id = cid, snd_data = ping\<rparr>, tr_bytes = ping, tr_error = False\<rparr>])"
    using sys_reach.step [OF r3 sys_step.transmit [OF tx]] by simp
  then show thesis using that by simp
qed

text \<open>
  C1: a server whose handler keeps its contract and whose clients keep the packet size limit
  never faults, in any interleaving of its threads and whatever the sockets deliver: no failed
  assertion, no access outside a buffer, no null or dangling pointer, no double free and no
  self-deadlock is reachable in a worker's step, the send thread, the listener or the two
  event handlers.
\<close>
theorem server_never_faults:
  assumes "sys_reach junk P h nprocs psize (s, out)" "handler_ok junk h"
  shows "(\<forall>i. worker_step junk i s \<noteq> Inl f) \<and> (\<forall>ok. send_func_step ok s \<noteq> Inl f)
    \<and> (\<forall>clock rs getfl setfl ok fd addr ntop. 0 \<le> fd \<and> fd \<notin> open_fds s \<longrightarrow>
         listen_turn P clock rs getfl setfl ok (Accepted fd addr ntop) s \<noteq> Some (Inl f))
    \<and> (\<forall>cs e ev env. chunks_ok cs \<and> limited NET_PACK_SIZE_LIMIT (left_bytes s (ev_u64 ev) @ concat cs) \<longrightarrow>
         handle_EPOLLIN_event junk False env (script_of cs e) ev s \<noteq> Some (Inl f))
    \<and> (\<forall>script ok ev. handle_EPOLLOUT_event script ok ev s \<noteq> Some (Inl f))"
proof -
  have inv: "sys_inv junk h (pool_threads nprocs psize) s"
    using sys_reach_inv [OF assms] by (simp add: net_inv_def)
  show ?thesis
  proof (intro conjI allI impI)
    show "worker_step junk i s \<noteq> Inl f" for i using worker_up [OF inv, of i] by auto
    show "send_func_step ok s \<noteq> Inl f" for ok using sender_up [OF inv, of ok] by auto
    show "listen_turn P clock rs getfl setfl ok (Accepted fd addr ntop) s \<noteq> Some (Inl f)"
      if "0 \<le> fd \<and> fd \<notin> open_fds s" for clock rs getfl setfl ok fd addr ntop
      using accept_up [OF inv, of fd P clock rs getfl setfl ok addr ntop] that by fastforce
    show "handle_EPOLLIN_event junk False env (script_of cs e) ev s \<noteq> Some (Inl f)"
      if "chunks_ok cs \<and> limited NET_PACK_SIZE_LIMIT (left_bytes s (ev_u64 ev) @ concat cs)" for cs e ev env
      using receive_up [OF inv, of cs ev env e] that by fastforce
    show "handle_EPOLLOUT_event script ok ev s \<noteq> Some (Inl f)" for script ok ev
      using transmit_up [OF inv, of script ok ev] by fastforce
  qed
qed

theorem server_never_faults_witness:
  "\<exists>s x. sys_reach echo_junk counter_prng echo 4 2 (s, [x]) \<and> tr_bytes x = ping
     \<and> (\<forall>i. worker_step echo_junk i s \<noteq> Inl Null_deref) \<and> (\<forall>ok. send_func_step ok s \<noteq> Inl Assert_failed)"
proof -
  obtain s cid where s: "sys_reach echo_junk counter_prng echo 4 2 (s, [\<lparr>tr_fd = 9,
      tr_entry = \<lparr>snd_conn_id = cid, snd_data = ping\<rparr>, tr_bytes = ping, tr_error = False\<rparr>])" by (rule served)
  show ?thesis using server_never_faults [OF s echo_ok, of Null_deref] server_never_faults [OF s echo_ok, of Assert_failed] s
    by (metis transmission.select_convs(3))
qed

text \<open>
  C2: every response goes to the connection that asked, and at most once.  In every reachable
  state, the response frames in the send queue together with those of the entries transmitted,
  each with its connection, are contained, with multiplicity, in the responses to the requests
  the workers have run, and all entries consist of whole frames.  What \<open>send\<close> has taken on any
  descriptor is, byte for byte, the concatenation of what was transmitted on that descriptor,
  which was the one of the entry's connection at that time; each transmission is its
  entry's data, completely unless \<open>send\<close> failed, and then a part from its start.
\<close>
theorem server_answers_at_most_once:
  assumes "sys_reach junk P h nprocs psize (s, out)" "handler_ok junk h"
  shows "queued (sendlist s) + queued (map tr_entry out) \<subseteq># answers junk h (proc_log (tpool_of s))
    \<and> whole (sendlist s @ map tr_entry out)
    \<and> (\<forall>fd. sent s fd = concat (map tr_bytes (filter (\<lambda>x. tr_fd x = fd) out)))
    \<and> (\<forall>x \<in> set out. take (length (tr_bytes x)) (snd_data (tr_entry x)) = tr_bytes x
         \<and> (tr_error x \<or> tr_bytes x = snd_data (tr_entry x)))"
  using sys_reach_inv [OF assms]
  by (auto simp: net_inv_def sys_inv_def engine_inv_def whole_def wire_def faithful_def)

theorem server_answers_at_most_once_witness:
  "\<exists>s cid. sys_reach echo_junk counter_prng echo 4 2 (s, [\<lparr>tr_fd = 9, tr_entry = \<lparr>snd_conn_id = cid, snd_data = ping\<rparr>,
       tr_bytes = ping, tr_error = False\<rparr>])
     \<and> sent s 9 = ping \<and> sent s 10 = [] \<and> {#(cid, ping)#} \<subseteq># answers echo_junk echo (proc_log (tpool_of s))"
proof -
  obtain s cid where r: "sys_reach echo_junk counter_prng echo 4 2 (s, [\<lparr>tr_fd = 9, tr_entry = \<lparr>snd_conn_id = cid, snd_data = ping\<rparr>,
       tr_bytes = ping, tr_error = False\<rparr>])" and empty: "sendlist s = []" by (rule served)
  from server_answers_at_most_once [OF r echo_ok] show ?thesis
    using r empty by (intro exI [of _ s] exI [of _ cid]) (simp add: entry_frames_def ping_frames)
qed

text \<open>
  C6: memory and connections of a running server.  The heap blocks alive are exactly the packet
  and work blocks of the requests accepted and not yet completed, each once; at most 65 requests
  wait; every queued entry fits the send buffer; every connection has an open descriptor that
  no other connection has; and no complete packet sits in the receive cache.
\<close>
theorem server_resources:
  assumes "sys_reach junk P h nprocs psize (s, out)" "handler_ok junk h"
  shows "mset_set (live s) = blocks (pending (tpool_of s)) \<and> backlog s \<le> 65
    \<and> (\<forall>e \<in> set (sendlist s). length (snd_data e) < NET_SEND_BUFF_SIZE)
    \<and> (\<forall>a b ca cb. conns s a = Some ca \<longrightarrow> conns s b = Some cb \<longrightarrow>
         client_fd (clt ca) \<in> open_fds s \<and> (client_fd (clt ca) = client_fd (clt cb) \<longrightarrow> a = b))
    \<and> (\<forall>cid d. leftovers s cid = Some d \<longrightarrow> d \<noteq> [] \<and> fst (frames d) = [])"
proof -
  have inv: "sys_inv junk h (pool_threads nprocs psize) s"
    using sys_reach_inv [OF assms] by (simp add: net_inv_def)
  then have eng: "engine_inv junk h (pool_threads nprocs psize) {#} s" and tab: "table_ok s"
    and left: "\<And>cid. leftover_ok s cid" by (auto simp: sys_inv_def)
  have "backlog s \<le> 65" using backlog_contents [OF eng] by blast
  moreover have "mset_set (live s) = blocks (pending (tpool_of s))"
    "\<forall>e \<in> set (sendlist s). length (snd_data e) < NET_SEND_BUFF_SIZE"
    using eng by (auto simp: engine_inv_def heap_inv_def send_fits_def)
  moreover have "d \<noteq> [] \<and> fst (frames d) = []" if "leftovers s cid = Some d" for cid d
    using left [of cid] that by (auto simp: leftover_ok_def frames_stop)
  ultimately show ?thesis using tab unfolding table_ok_def by blast
qed

theorem server_resources_witness:
  "\<exists>s x. sys_reach echo_junk counter_prng echo 4 2 (s, [x]) \<and> tr_bytes x = ping
     \<and> mset_set (live s) = blocks (pending (tpool_of s)) \<and> backlog s \<le> 65"
proof -
  obtain s cid where s: "sys_reach echo_junk counter_prng echo 4 2 (s, [\<lparr>tr_fd = 9,
      tr_entry = \<lparr>snd_conn_id = cid, snd_data = ping\<rparr>, tr_bytes = ping, tr_error = False\<rparr>])" by (rule served)
  show ?thesis using server_resources [OF s echo_ok] s by (metis transmission.select_convs(3))
qed

text \<open>
  C18: accepting a connection.  When \<open>epoll_ctl\<close> succeeds the new descriptor is in the table
  under a fresh id, registered under this id for input and output, and \<open>conn_get_sockfd\<close> finds
  it; when it fails the entry is taken back, but the descriptor stays open for good.
\<close>
theorem listen_turn_accepts:
  assumes "sys_up s" "interest s fd = None" "gen_unused P clock rs (conns s) = Some (cid, rs')"
  shows "\<exists>t. listen_turn P clock rs getfl setfl ok (Accepted fd addr True) s = Some (Inr (True, t, rs'))
    \<and> fd \<in> open_fds t
    \<and> (if ok then conns t = (conns s)(cid \<mapsto> accept_conn fd addr)
            \<and> interest t fd = Some \<lparr>ev_events = ev_all, ev_u64 = cid\<rparr>
            \<and> with_table (\<lambda>t. conn_get_sockfd t cid) t = Inr (fd, t)
       else conns t = conns s \<and> interest t = interest s)"
proof -
  have "conns s cid = None" using gen_unused_Some [OF assms(3)] by simp
  then have "(conns s)(cid := None) = conns s" by auto
  then show ?thesis using assms
    by (auto simp: listen_turn_up Let_def up_simps accept_conn_def)
qed

theorem listen_turn_accepts_witness:
  "\<exists>cid t rs'. listen_turn counter_prng [5] 3 0 0 True (Accepted 9 [127, 0, 0, 1] True) (idle_sys None 1)
      = Some (Inr (True, t, rs')) \<and> interest t 9 = Some \<lparr>ev_events = ev_all, ev_u64 = cid\<rparr>"
proof -
  obtain cid rs' where "gen_unused counter_prng [5] 3 (\<lambda>_. None) = Some (cid, rs')"
    using Gen_ConnID_not_invalid [OF counter_prng_range, of 5 3]
    by (cases "Gen_ConnID counter_prng 5 3") auto
  then have "gen_unused counter_prng [5] 3 (conns (idle_sys None 1)) = Some (cid, rs')" by simp
  from listen_turn_accepts [OF _ _ this, of 9 0 0 True "[127, 0, 0, 1]"] show ?thesis by auto
qed

section \<open>The send thread's queue\<close>

text \<open>A server whose only worker is about to run a request of a connection that is already gone.\<close>

definition busy_sys :: sys where
  "busy_sys =
     (set_tpool ((threadpool_init 1 empty_store)
        \<lparr>pcs := (\<lambda>i. if i = 0 then Run (work_param 5 ping 0 1) else Exited),
         accepted := [work_param 5 ping 0 1], started := [work_param 5 ping 0 1]\<rparr>)
      (idle_sys (Some echo) 1))\<lparr>live := {0, 1}, fresh := 2\<rparr>"

lemma busy_sys_views [simp]:
  "sendlist busy_sys = []" "sender_pc busy_sys = SLook" "conns busy_sys = (\<lambda>_. None)"
  "pcs (tpool_of busy_sys) 0 = Run (work_param 5 ping 0 1)"
  by (simp_all add: busy_sys_def)

lemma busy_engine_inv: "engine_inv echo_junk echo 1 {#} busy_sys"
proof -
  let ?e = "work_param 5 ping 0 1"
  have "tp_inv 1 (tpool_of busy_sys)"
    by (simp add: init_sized [OF empty_store_ok] init_contents [OF empty_store_ok] busy_sys_def tp_inv_def
        threadpool_init_def both_callbacks_def work_param_def)
  moreover have "work_ok (tp_data ?e)"
    by (simp add: work_ok_def work_param_def ping_facts size_simps)
  moreover have "heap_inv {#} busy_sys"
    by (simp add: heap_inv_def busy_sys_def pending_def blocks_def threadpool_init_def work_param_def)
  ultimately show ?thesis using echo_ok
    by (simp add: engine_inv_def whole_def) (simp add: busy_sys_def threadpool_init_def)
qed

lemma busy_response: "\<exists>r. response echo_junk echo (wk_data (tp_data (work_param 5 ping 0 1))) = Some r"
  by (simp add: response_def echo_def work_param_def ping_facts size_simps)




text \<open>
  a wake-up can be lost.  \<open>send_func\<close> looks at the queue without holding the condition
  variable's mutex: when a worker queues a response and signals between that look and
  \<open>send_wait\<close>, the send thread blocks although a response is queued.
\<close>
theorem send_func_lost_wakeup:
  assumes "engine_inv junk h n X s" "i < n" "pcs (tpool_of s) i = Run e"
    and "response junk h (wk_data (tp_data e)) = Some r" "sendlist s = []" "sender_pc s = SLook"
  shows "\<exists>t u v. send_func_step ok s = Inr t \<and> worker_step junk i t = Inr u \<and> send_func_step ok u = Inr v
    \<and> sendlist v = [\<lparr>snd_conn_id = wk_connid (tp_data e), snd_data = r\<rparr>] \<and> sender_pc v = SBlocked"
proof -
  let ?t = "set_sender SWait s"
  have up: "sys_up s" using assms(1) by (simp add: engine_inv_def)
  have "engine_inv junk h n X ?t" using assms(1) by (simp add: engine_inv_def heap_inv_def)
  from worker_responds [OF this assms(2) _ assms(4)] assms(3,5) obtain u where
    u: "worker_step junk i ?t = Inr u" "sys_up u"
      "sendlist u = [\<lparr>snd_conn_id = wk_connid (tp_data e), snd_data = r\<rparr>]" "sender_pc u = SWait"
    by (auto simp: push_list_def coalesces_def)
  then show ?thesis using up assms(5,6)
    by (simp add: send_func_step_up)
qed

theorem send_func_lost_wakeup_witness:
  "\<exists>t u v. send_func_step True busy_sys = Inr t \<and> worker_step echo_junk 0 t = Inr u
     \<and> send_func_step True u = Inr v \<and> sendlist v \<noteq> [] \<and> sender_pc v = SBlocked"
proof -
  obtain r where "response echo_junk echo (wk_data (tp_data (work_param 5 ping 0 1))) = Some r"
    using busy_response by blast
  from send_func_lost_wakeup [OF busy_engine_inv _ _ this, of 0 True] show ?thesis by force
qed


text \<open>
  When \<open>epoll_ctl\<close> fails in the send thread, the connection is dropped from the table, but
  its descriptor stays open and registered and its leftover cached: the comment leaves both to
  the EPOLLIN handler, which returns at once because the table no longer has the connection.
\<close>
theorem send_func_mod_failure_leaks:
  assumes "sys_up s" "sendlist s = e # es" "sender_pc s = SLook" "snd_conn_id e \<noteq> SVR_INVALID_CONNECT_ID"
    and "conns s (snd_conn_id e) = Some c" "client_fd (clt c) \<noteq> - 1" "ev_u64 ev = snd_conn_id e"
  shows "\<exists>t. send_func_step False s = Inr t \<and> conns t (snd_conn_id e) = None
    \<and> leftovers t = leftovers s \<and> open_fds t = open_fds s \<and> interest t = interest s
    \<and> handle_EPOLLIN_event junk ndebug env script ev t = Some (Inr t)"
  using assms by (simp add: send_func_step_up handle_EPOLLIN_event_def up_simps Let_def)

theorem send_func_mod_failure_leaks_witness:
  "\<exists>t. send_func_step False (set_sendlist [\<lparr>snd_conn_id = 5, snd_data = ping\<rparr>] (client_sys None 1)) = Inr t
     \<and> conns t 5 = None \<and> 7 \<in> open_fds t \<and> handle_EPOLLIN_event [] False [] [RData [1]] client_ev t = Some (Inr t)"
  using send_func_mod_failure_leaks [of "set_sendlist [\<lparr>snd_conn_id = 5, snd_data = ping\<rparr>] (client_sys None 1)"
      "\<lparr>snd_conn_id = 5, snd_data = ping\<rparr>" "[]" a_conn client_ev "[]" False "[]" "[RData [1]]"]
  by (auto simp: SVR_INVALID_CONNECT_ID_def)


text \<open>
  \<open>net_create\<close> tests \<open>svr_sock\<close> again where it means \<open>ep_fd\<close>: a failed \<open>epoll_create\<close> is not
  noticed, and the caller gets a server whose every \<open>epoll_ctl\<close> and \<open>epoll_wait\<close> will fail.
\<close>
theorem net_create_misses_epoll_failure:
  assumes "0 \<le> sock"
  shows "\<exists>t. net_create sock (- 1) nprocs m proc psize s = Inr (True, t) \<and> ep_fd t = - 1"
  using assms
  by (simp add: net_create_def Let_def open_fd_def sendhelper_start_def with_sender_def workpool_start_def
      create_send_helper_def)

theorem net_create_misses_epoll_failure_witness:
  "\<exists>t. net_create 3 (- 1) 4 empty_store (Some echo) 2 (idle_sys None 0) = Inr (True, t) \<and> ep_fd t = - 1"
  by (rule net_create_misses_epoll_failure) simp

section \<open>Destroying the server\<close>

definition same_handles :: "sys \<Rightarrow> sys \<Rightarrow> bool" where
  "same_handles s t \<longleftrightarrow> conntable t = conntable s \<and> open_fds t = open_fds s \<and> svr_sock t = svr_sock s
     \<and> ep_fd t = ep_fd s \<and> lis_tid t = lis_tid s \<and> loop_tid t = loop_tid s"

lemma same_handles_refl [simp]: "same_handles s s"
  by (simp add: same_handles_def)

lemma same_handles_trans: "same_handles s t \<Longrightarrow> same_handles t u \<Longrightarrow> same_handles s u"
  by (simp add: same_handles_def)

lemma same_handles_tpool [simp]: "same_handles s (set_tpool tp t) \<longleftrightarrow> same_handles s t"
  by (simp add: same_handles_def set_tpool_def)

lemma free_block_handles: "free_block b s = Inr t \<Longrightarrow> same_handles s t"
  by (auto simp: free_block_def same_handles_def split: if_splits)

lemma send_signal_handles: "send_signal s = Inr t \<Longrightarrow> same_handles s t"
  by (auto simp: send_signal_def with_sender_def same_handles_def)

lemma with_queue_handles: "with_queue f s = Inr (a, t) \<Longrightarrow> same_handles s t"
  by (auto simp: with_queue_def same_handles_def)

lemma malloc_handles [simp]: "same_handles (s\<lparr>live := a, fresh := b\<rparr>) t = same_handles s t"
  by (simp add: same_handles_def)

lemma thread_completed_handles: "thread_completed w s = Inr t \<Longrightarrow> same_handles s t"
  by (auto simp: thread_completed_def dest!: free_block_handles intro: same_handles_trans)

lemma work_proc_handles:
  assumes "work_proc junk w s = Inr t"
  shows "same_handles s t"
proof (cases "processmsg (pool s)")
  case None
  then show ?thesis using assms by (auto simp: work_proc_def Let_def split: if_splits)
next
  case (Some h)
  then show ?thesis using assms
    by (auto simp: work_proc_def Let_def malloc_block_def split_beta split: if_splits
        dest!: with_queue_handles send_signal_handles free_block_handles intro: same_handles_trans)
qed

lemma pc_fault: "(case p of Crashed \<Rightarrow> Inl f | _ \<Rightarrow> Inr u) = Inr t \<Longrightarrow> t = u"
  by (cases p) auto

lemma worker_step_handles:
  assumes "worker_step junk i s = Inr t"
  shows "same_handles s t"
proof -
  obtain tp where tp: "thread_pool (pool s) = Live tp" using assms by (auto simp: worker_step_def)
  show ?thesis
  proof (cases "thread_num tp \<le> i \<or> thread_func_step i tp = None")
    case True
    then have "worker_step junk i s = Inr s" using tp by (auto simp: worker_step_def)
    then show ?thesis using assms by simp
  next
    case False
    then obtain tp' where st: "thread_func_step i tp = Some tp'" by auto
    let ?call = "case pcs tp i of
        Run e \<Rightarrow> if tp_proc e then work_proc junk (tp_data e) s else Inr s
      | Finishing e \<Rightarrow> if tp_after_proc e then thread_completed (tp_data e) s else Inr s
      | _ \<Rightarrow> Inr s"
    obtain u where u: "?call = Inr u" "t = set_tpool tp' u"
      using assms tp False st by (auto simp: worker_step_def dest: pc_fault)
    have "same_handles s u" using u(1)
      by (cases "pcs tp i") (auto split: if_splits dest: work_proc_handles thread_completed_handles)
    then show ?thesis using u(2) by simp
  qed
qed

lemma run_workers_handles: "run_workers junk is s = Inr t \<Longrightarrow> same_handles s t"
  by (induction "is" arbitrary: s) (auto dest!: worker_step_handles intro: same_handles_trans)

lemma complete_all_handles: "complete_all es s = Inr t \<Longrightarrow> same_handles s t"
  by (induction es arbitrary: s) (auto dest!: thread_completed_handles intro: same_handles_trans)

lemma workpool_stop_handles:
  assumes "workpool_stop junk fuel before after s = Some (Inr t)"
  shows "same_handles s t"
proof -
  have pre: "same_handles (set_tpool tp u) v \<longleftrightarrow> same_handles u v"
    "same_handles u (v\<lparr>pool := p\<rparr>) \<longleftrightarrow> same_handles u v" for tp u v p
    by (simp_all add: same_handles_def set_tpool_def)
  show ?thesis using assms
    by (auto simp: workpool_stop_def run_bind_Inr_iff pre split: option.splits
        dest!: run_workers_handles complete_all_handles) (blast intro: same_handles_trans)
qed

text \<open>
  C25: \<open>net_destroy\<close> frees what its threads still use.  When it returns, the connection table, the
  receive cache and the send helper are gone, but the event loop and the listener were never
  stopped, nor was the send thread: the next turn of each touches freed memory.  The listening
  socket is still open.
\<close>
theorem net_destroy_leaves_threads:
  assumes "net_destroy junk fuel before after s = Some (Inr (r, t))"
    and "is_live (conntable s)" "is_live (rhpr s)" "0 \<le> fd" "svr_sock s \<in> open_fds s" "svr_sock s \<noteq> ep_fd s"
  shows "send_func_step ok t = Inl Use_after_free
    \<and> handle_EPOLLIN_event junk ndebug env script ev t = Some (Inl Use_after_free)
    \<and> listen_turn P clock rs getfl setfl ok (Accepted fd addr True) t = Some (Inl Use_after_free)
    \<and> loop_tid t = loop_tid s \<and> lis_tid t = lis_tid s \<and> svr_sock t \<in> open_fds t"
proof -
  let ?s0 = "s\<lparr>rhpr := release_recv_helper (rhpr s)\<rparr>"
  from assms(1) obtain u p where u: "workpool_stop junk fuel before after ?s0 = Some (Inr u)"
    "release_send_helper (shpr u) = Inr p"
    "t = close_fd (ep_fd u) (u\<lparr>shpr := p, conntable := release_conn_table (conntable u)\<rparr>)"
    by (auto simp: net_destroy_def Let_def run_bind_Inr_iff)
  have p: "p = Dangling" using u(2) by (auto simp: release_send_helper_def)
  have same: "same_handles ?s0 u" by (rule workpool_stop_handles [OF u(1)])
  then have "conntable t = Dangling"
    using assms(2) u(3) by (auto simp: same_handles_def is_live_iff release_conn_table_def close_fd_def)
  moreover have "shpr t = Dangling" using u(3) p by (simp add: close_fd_def)
  moreover have "loop_tid t = loop_tid s" "lis_tid t = lis_tid s" "svr_sock t \<in> open_fds t"
    using same u(3) assms(5,6) by (auto simp: same_handles_def close_fd_def)
  ultimately show ?thesis
    by (simp add: send_func_step_def handle_EPOLLIN_event_def with_table_def listen_turn_def Let_def
        set_socket_unblock_def split: prod.splits)
qed

lemma net_destroy_returns:
  "case net_destroy [] 1 [] [0, 0] (idle_sys None 1) of Some (Inr (r, t)) \<Rightarrow> r = 0 | _ \<Rightarrow> False"
  by code_simp

theorem net_destroy_leaves_threads_witness:
  "\<exists>t. net_destroy [] 1 [] [0, 0] (idle_sys None 1) = Some (Inr (0, t))
     \<and> send_func_step True t = Inl Use_after_free \<and> svr_sock t \<in> open_fds t"
proof -
  obtain t where t: "net_destroy [] 1 [] [0, 0] (idle_sys None 1) = Some (Inr (0, t))"
    using net_destroy_returns by (auto split: option.splits sum.splits)
  have "is_live (conntable (idle_sys None 1))" "is_live (rhpr (idle_sys None 1))"
    "svr_sock (idle_sys None 1) \<in> open_fds (idle_sys None 1)" "svr_sock (idle_sys None 1) \<noteq> ep_fd (idle_sys None 1)"
    by (simp_all add: idle_sys_def)
  from net_destroy_leaves_threads [OF t this(1,2) _ this(3,4), of 9 True False "[]" "[]" client_ev
      counter_prng "[]" 0 0 0 "[]"] t show ?thesis by simp
qed


end
