(* ===== verification/Glist.thy ===== *)
theory Glist
  imports Gqueue
begin

text \<open>
  The linked list of \<open>third/list/Glist.h\<close> and \<open>third/list/Glist.c\<close>, at the level of its pointers.
  It has the layout of the task queue: a head node that holds no data, a tail pointer, a size.
  Items hold a pointer-sized value; \<open>freememory\<close> is recorded as the list of values passed to it.

  Inserting at the tail keeps the layout, and the list built that way is released without a
  leak.  Three other operations do not keep it: \<open>easy_list_insert_to_head\<close> on an empty list,
  \<open>easy_list_add\<close> behind the last item and \<open>easy_list_remove\<close> of the last item leave the tail
  pointer behind, and \<open>easy_list_prev\<close> assigns where it means to compare.
\<close>

section \<open>Data\<close>

definition MAGIC_NUM :: u64 where
  "MAGIC_NUM = 0x12344321"

record easy_list_t =
  l_head :: "addr option"
  l_tail :: "addr option"
  l_size :: int

type_synonym glist = "easy_list_t \<times> u64 store"

section \<open>Operations\<close>

definition easy_list_init :: "bool \<Rightarrow> bool \<Rightarrow> u64 store \<Rightarrow> (int \<times> glist) res" where
  "easy_list_init list_given func_given m =
     (if \<not> list_given then Inl Assert_failed
      else if \<not> func_given then Inl Assert_failed
      else let (header, m) = alloc \<lparr>node_data = MAGIC_NUM, node_len = 0, node_prev = None, node_next = None\<rparr> m
           in Inr (0, \<lparr>l_head = Some header, l_tail = Some header, l_size = 0\<rparr>, m))"

text \<open>\<open>free(p)\<close>: freeing a null pointer does nothing, freeing a freed one is an error.\<close>

definition free_ptr :: "addr option \<Rightarrow> 'd store \<Rightarrow> 'd store res" where
  "free_ptr p m =
     (case p of
        None \<Rightarrow> Inr m
      | Some a \<Rightarrow> (case cells m a of None \<Rightarrow> Inl Use_after_free | Some _ \<Rightarrow> Inr (free_cell a m)))"

fun uninit_loop :: "nat \<Rightarrow> glist \<Rightarrow> u64 list \<Rightarrow> (glist \<times> u64 list) res option" where
  "uninit_loop 0 lm out = None"
| "uninit_loop (Suc k) (l, m) out =
     run_bind (Some (load m (l_head l))) (\<lambda>h.
     if node_next h = None then Some (Inr ((l, m), out))
     else
       let item = l_tail l in
       run_bind (Some (load m item)) (\<lambda>n.
       run_bind (Some (set_next (node_prev n) None m)) (\<lambda>m.
       run_bind (Some (free_ptr item m)) (\<lambda>m.
       uninit_loop k (l\<lparr>l_tail := node_prev n, l_size := l_size l - 1\<rparr>, m) (out @ [node_data n])))))"

definition easy_list_uninit :: "nat \<Rightarrow> glist \<Rightarrow> (int \<times> u64 list \<times> u64 store) res option" where
  "easy_list_uninit fuel lm =
     run_bind (uninit_loop fuel lm []) (\<lambda>((l, m), out).
     if l_size l \<noteq> 0 then Some (Inl Assert_failed)
     else if l_head l \<noteq> l_tail l then Some (Inl Assert_failed)
     else run_bind (Some (load m (l_head l))) (\<lambda>h.
          if node_data h \<noteq> MAGIC_NUM then Some (Inl Assert_failed)
          else run_bind (Some (free_ptr (l_head l) m)) (\<lambda>m. Some (Inr (0, out, m)))))"

definition easy_list_head :: "glist \<Rightarrow> addr option res" where
  "easy_list_head lm = bind_res (load (snd lm) (l_head (fst lm))) (\<lambda>h. Inr (node_next h))"

definition easy_list_tail :: "glist \<Rightarrow> addr option" where
  "easy_list_tail lm = l_tail (fst lm)"

definition easy_list_insert_to_head :: "glist \<Rightarrow> u64 \<Rightarrow> (int \<times> glist) res" where
  "easy_list_insert_to_head lm d =
     (let (l, m) = lm in
      bind_res (load m (l_head l)) (\<lambda>h.
      let (p, m) = alloc \<lparr>node_data = d, node_len = 0, node_prev = l_head l, node_next = node_next h\<rparr> m in
      bind_res (if node_next h \<noteq> None then set_prev (node_next h) (Some p) m else Inr m) (\<lambda>m.
      bind_res (set_next (l_head l) (Some p) m) (\<lambda>m.
      Inr (0, l\<lparr>l_size := l_size l + 1\<rparr>, m)))))"

definition easy_list_insert_to_tail :: "glist \<Rightarrow> u64 \<Rightarrow> (int \<times> glist) res" where
  "easy_list_insert_to_tail lm d =
     (let (l, m) = lm;
          (p, m) = alloc \<lparr>node_data = d, node_len = 0, node_prev = l_tail l, node_next = None\<rparr> m
      in bind_res (set_next (l_tail l) (Some p) m) (\<lambda>m.
         Inr (0, l\<lparr>l_tail := Some p, l_size := l_size l + 1\<rparr>, m)))"

definition add_to_front :: "addr option \<Rightarrow> u64 \<Rightarrow> u64 store \<Rightarrow> (int \<times> u64 store) res" where
  "add_to_front item d m =
     bind_res (load m item) (\<lambda>n.
     let (p, m) = alloc \<lparr>node_data = d, node_len = 0, node_prev = node_prev n, node_next = item\<rparr> m in
     bind_res (set_next (node_prev n) (Some p) m) (\<lambda>m.
     bind_res (set_prev item (Some p) m) (\<lambda>m. Inr (0, m))))"

definition add_to_behind :: "addr option \<Rightarrow> u64 \<Rightarrow> u64 store \<Rightarrow> (int \<times> u64 store) res" where
  "add_to_behind item d m =
     bind_res (load m item) (\<lambda>n.
     let (p, m) = alloc \<lparr>node_data = d, node_len = 0, node_prev = item, node_next = node_next n\<rparr> m in
     bind_res (if node_next n \<noteq> None then set_prev (node_next n) (Some p) m else Inr m) (\<lambda>m.
     bind_res (set_next item (Some p) m) (\<lambda>m. Inr (0, m))))"

definition easy_list_add :: "glist \<Rightarrow> addr option \<Rightarrow> int \<Rightarrow> u64 \<Rightarrow> (int \<times> glist) res" where
  "easy_list_add lm item pos d =
     (let (l, m) = lm in
      bind_res (if pos = 0 then add_to_behind item d m else add_to_front item d m) (\<lambda>(ret, m).
      Inr (ret, if ret = 0 then l\<lparr>l_size := l_size l + 1\<rparr> else l, m)))"

text \<open>The second result is the value handed to \<open>freememory\<close>.\<close>

definition easy_list_remove :: "glist \<Rightarrow> addr option \<Rightarrow> (int \<times> u64 \<times> glist) res" where
  "easy_list_remove lm item =
     (let (l, m) = lm in
      bind_res (load m item) (\<lambda>n.
      bind_res (set_next (node_prev n) (node_next n) m) (\<lambda>m.
      bind_res (if node_next n \<noteq> None then set_prev (node_next n) (node_prev n) m else Inr m) (\<lambda>m.
      bind_res (free_ptr item m) (\<lambda>m.
      Inr (0, node_data n, l\<lparr>l_size := l_size l - 1\<rparr>, m))))))"

definition easy_list_setData :: "addr option \<Rightarrow> u64 \<Rightarrow> u64 store \<Rightarrow> (int \<times> u64 \<times> u64 store) res" where
  "easy_list_setData item d m =
     bind_res (load m item) (\<lambda>n.
     bind_res (modify item (\<lambda>n. n\<lparr>node_data := d\<rparr>) m) (\<lambda>m. Inr (0, node_data n, m)))"

definition easy_list_getData :: "addr option \<Rightarrow> bool \<Rightarrow> u64 store \<Rightarrow> (int \<times> u64) res" where
  "easy_list_getData item out_given m =
     (if \<not> out_given then Inl Assert_failed else bind_res (load m item) (\<lambda>n. Inr (0, node_data n)))"

definition easy_list_next :: "addr option \<Rightarrow> u64 store \<Rightarrow> addr option res" where
  "easy_list_next item m = bind_res (load m item) (\<lambda>n. Inr (node_next n))"

text \<open>
  \<open>if (item->prev->prev = NULL)\<close> clears the \<open>prev\<close> link of the previous node and never takes
  the branch.
\<close>

definition easy_list_prev :: "addr option \<Rightarrow> u64 store \<Rightarrow> (addr option \<times> u64 store) res" where
  "easy_list_prev item m =
     bind_res (load m item) (\<lambda>n.
     bind_res (set_prev (node_prev n) None m) (\<lambda>m.
     bind_res (load m item) (\<lambda>n. Inr (node_prev n, m))))"

definition easy_list_size :: "glist \<Rightarrow> int" where
  "easy_list_size lm = l_size (fst lm)"

section \<open>The list as a queue\<close>

text \<open>
  The same store read as a task queue: inserting at the tail is \<open>easy_queue_push\<close> of an empty
  block length, and the release loop is \<open>clear_loop\<close>.
\<close>

definition as_queue :: "glist \<Rightarrow> u64 gq" where
  "as_queue lm = (\<lparr>q_size = l_size (fst lm), queue_head = l_head (fst lm), queue_tail = l_tail (fst lm)\<rparr>, snd lm)"

definition list_at :: "glist \<Rightarrow> addr \<Rightarrow> addr list \<Rightarrow> bool" where
  "list_at lm a as \<longleftrightarrow> queue_at (as_queue lm) a as
     \<and> (\<exists>n. cells (snd lm) a = Some n \<and> node_data n = MAGIC_NUM)"

definition list_contents :: "glist \<Rightarrow> u64 list" where
  "list_contents lm = queue_contents (as_queue lm)"

lemma list_at_tail:
  assumes "list_at (l, m) a as"
  obtains t nt where "l_tail l = Some t" "cells m t = Some nt" "t \<noteq> brk m" "a \<noteq> brk m"
proof -
  let ?t = "last (a # as)"
  have q: "queue_at (as_queue (l, m)) a as" using assms by (simp add: list_at_def)
  then have "?t \<in> set (a # as)" "a \<in> set (a # as)" "brk m \<notin> set (a # as)"
    using queue_at_fresh [OF q] last_in_set [of "a # as"] by (simp_all add: as_queue_def)
  then have "?t \<noteq> brk m" "a \<noteq> brk m" by metis+
  moreover obtain nt where "cells m ?t = Some nt"
    using q \<open>?t \<in> set (a # as)\<close> seg_dom by (fastforce simp: queue_at_def as_queue_def)
  moreover have "l_tail l = Some ?t" using q by (simp add: queue_at_def as_queue_def)
  ultimately show thesis using that by blast
qed

lemma insert_to_tail_at:
  assumes "list_at lm a as"
  shows "\<exists>lm'. easy_list_insert_to_tail lm d = Inr (0, lm') \<and> list_at lm' a (as @ [brk (snd lm)])
    \<and> list_contents lm' = list_contents lm @ [d]
    \<and> dom (cells (snd lm')) = insert (brk (snd lm)) (dom (cells (snd lm)))
    \<and> brk (snd lm') = Suc (brk (snd lm))"
proof -
  obtain l m where lm: "lm = (l, m)" by (cases lm)
  from assms obtain t nt where t: "l_tail l = Some t" "cells m t = Some nt" "t \<noteq> brk m" "a \<noteq> brk m"
    unfolding lm by (rule list_at_tail)
  let ?new = "\<lparr>node_data = d, node_len = 0, node_prev = Some t, node_next = None\<rparr>"
  let ?m' = "m\<lparr>brk := Suc (brk m), cells := (cells m)(brk m \<mapsto> ?new, t \<mapsto> nt\<lparr>node_next := Some (brk m)\<rparr>)\<rparr>"
  let ?lm' = "(l\<lparr>l_tail := Some (brk m), l_size := l_size l + 1\<rparr>, ?m')"
  have ins: "easy_list_insert_to_tail lm d = Inr (0, ?lm')"
    using t by (simp add: easy_list_insert_to_tail_def lm alloc_def)
  have "(cells m)(brk m \<mapsto> ?new, t \<mapsto> y, brk m \<mapsto> ?new) = (cells m)(brk m \<mapsto> ?new, t \<mapsto> y)" for y
    using t(3) by (auto simp: fun_eq_iff)
  then have "easy_queue_push (as_queue lm) d 0 = Inr (0, as_queue ?lm')"
    using t by (simp add: easy_queue_push_def as_queue_def lm alloc_def)
  with push_queue_at [of "as_queue lm" a as d 0] assms have at:
    "queue_at (as_queue ?lm') a (as @ [brk m])" "queue_contents (as_queue ?lm') = queue_contents (as_queue lm) @ [d]"
    "dom (cells ?m') = insert (brk m) (dom (cells m))"
    by (auto simp: list_at_def as_queue_def lm)
  moreover have "\<exists>n. cells ?m' a = Some n \<and> node_data n = MAGIC_NUM"
    using assms t by (auto simp: list_at_def lm)
  ultimately show ?thesis using ins
    by (intro exI [of _ ?lm']) (simp add: list_at_def list_contents_def lm)
qed

section \<open>Releasing the list\<close>

lemma uninit_loop_enough:
  "list_at (l, m) a ps \<Longrightarrow> length ps < k \<Longrightarrow>
   \<exists>l' m'. uninit_loop k (l, m) out = Some (Inr ((l', m'), out @ rev (list_contents (l, m))))
     \<and> list_at (l', m') a [] \<and> dom (cells m') = dom (cells m) - set ps"
proof (induction ps arbitrary: l m k out rule: rev_induct)
  case Nil
  then obtain j where "k = Suc j" by (cases k) auto
  with Nil show ?case
    by (auto simp: list_at_def queue_at_def as_queue_def list_contents_def queue_contents_def)
next
  case (snoc p ps)
  then obtain j where k: "k = Suc j" "length ps < j" by (cases k) auto
  let ?q = "\<lparr>q_size = l_size l, queue_head = l_head l, queue_tail = l_tail l\<rparr>"
  have at: "queue_at (?q, m) a (ps @ [p])" using snoc.prems(1) by (simp add: list_at_def as_queue_def)
  then obtain n where n: "cells m p = Some n" by (auto simp: queue_at_def dest!: seg_dom)
  let ?l1 = "l\<lparr>l_tail := node_prev n, l_size := l_size l - 1\<rparr>"
  from take_last_off [OF at n] obtain m1 where m1: "l_tail l = Some p"
    "set_next (node_prev n) None m = Inr m1" "queue_at (as_queue (?l1, free_cell p m1)) a ps"
    "list_contents (l, m) = list_contents (?l1, free_cell p m1) @ [node_data n]"
    "dom (cells (free_cell p m1)) = dom (cells m) - {p}" "cells m1 p = Some n"
    "data_at (cells (free_cell p m1)) a = data_at (cells m) a"
    by (auto simp: as_queue_def list_contents_def)
  obtain h where h: "cells m a = Some h" "node_data h = MAGIC_NUM" "l_head l = Some a" "node_next h \<noteq> None"
    using snoc.prems(1) by (auto simp: list_at_def queue_at_def as_queue_def split: if_splits)
  obtain h' where "cells (free_cell p m1) a = Some h'"
    using m1(3) by (auto simp: queue_at_def as_queue_def)
  then have at1: "list_at (?l1, free_cell p m1) a ps"
    using m1(3,7) h(1,2) by (auto simp: list_at_def data_at_def)
  obtain y where "node_next h = Some y" using h(4) by auto
  then have go: "uninit_loop k (l, m) out = uninit_loop j (?l1, free_cell p m1) (out @ [node_data n])"
    using h(1,3) m1(1,2,6) n k by (simp add: Let_def free_ptr_def)
  from snoc.IH [OF at1 k(2), of "out @ [node_data n]"] m1(4,5) show ?case unfolding go by auto
qed

section \<open>Properties\<close>

text \<open>Inserting a sequence of values at the tail.\<close>

primrec insert_all :: "u64 list \<Rightarrow> glist \<Rightarrow> glist res" where
  "insert_all [] lm = Inr lm"
| "insert_all (d # ds) lm = bind_res (easy_list_insert_to_tail lm d) (\<lambda>(_, lm). insert_all ds lm)"

lemma insert_all_at:
  "list_at lm a as \<Longrightarrow> \<exists>lm' bs. insert_all ds lm = Inr lm' \<and> list_at lm' a bs
     \<and> list_contents lm' = list_contents lm @ ds \<and> length bs = length as + length ds
     \<and> set as \<subseteq> set bs \<and> (\<forall>b \<in> set bs. b \<in> set as \<or> brk (snd lm) \<le> b) \<and> dom (cells (snd lm')) = dom (cells (snd lm)) \<union> set bs"
proof (induction ds arbitrary: lm as)
  case Nil
  then show ?case by (auto simp: list_at_def queue_at_def as_queue_def dest: seg_dom)
next
  case (Cons d ds)
  from insert_to_tail_at [OF Cons.prems, of d] obtain lm1 where lm1:
    "easy_list_insert_to_tail lm d = Inr (0, lm1)" "list_at lm1 a (as @ [brk (snd lm)])"
    "list_contents lm1 = list_contents lm @ [d]" "dom (cells (snd lm1)) = insert (brk (snd lm)) (dom (cells (snd lm)))"
    "brk (snd lm1) = Suc (brk (snd lm))"
    by blast
  from Cons.IH [OF lm1(2)] obtain lm' bs where
    "insert_all ds lm1 = Inr lm'" "list_at lm' a bs" "list_contents lm' = list_contents lm1 @ ds"
    "length bs = length (as @ [brk (snd lm)]) + length ds" "set (as @ [brk (snd lm)]) \<subseteq> set bs"
    "dom (cells (snd lm')) = dom (cells (snd lm1)) \<union> set bs"
    "\<forall>b \<in> set bs. b \<in> set (as @ [brk (snd lm)]) \<or> brk (snd lm1) \<le> b" by blast
  then show ?case using lm1 by (intro exI [of _ lm'] exI [of _ bs]) auto
qed

text \<open>
  C19: a list built by \<open>easy_list_init\<close> and \<open>easy_list_insert_to_tail\<close> holds the values in order
  and counts them, and \<open>easy_list_uninit\<close> passes each to \<open>freememory\<close> once, last first, passes its
  own assertions and gives every node back.
\<close>
theorem Glist_tail_lifecycle:
  assumes "store_ok m"
  shows "\<exists>lm lm' m'. easy_list_init True True m = Inr (0, lm) \<and> insert_all ds lm = Inr lm'
    \<and> list_contents lm' = ds \<and> easy_list_size lm' = int (length ds)
    \<and> easy_list_uninit (length ds + 1) lm' = Some (Inr (0, rev ds, m')) \<and> dom (cells m') = dom (cells m)"
proof -
  let ?a = "brk m"
  let ?l0 = "\<lparr>l_head = Some ?a, l_tail = Some ?a, l_size = 0\<rparr>"
  let ?m0 = "snd (alloc \<lparr>node_data = MAGIC_NUM, node_len = 0, node_prev = None, node_next = None\<rparr> m)"
  have init: "easy_list_init True True m = Inr (0, (?l0, ?m0))"
    by (simp add: easy_list_init_def alloc_def)
  have at0: "list_at (?l0, ?m0) ?a []" and c0: "list_contents (?l0, ?m0) = []"
    and d0: "dom (cells ?m0) = insert ?a (dom (cells m))" "brk ?m0 = Suc ?a"
    using assms
    by (auto simp: alloc_def list_at_def queue_at_def as_queue_def store_ok_def
        list_contents_def queue_contents_def)
  from insert_all_at [OF at0, of ds] obtain l1 m1 bs where ins: "insert_all ds (?l0, ?m0) = Inr (l1, m1)"
    and at1: "list_at (l1, m1) ?a bs" and c1: "list_contents (l1, m1) = ds" and len: "length bs = length ds"
    and d1: "dom (cells m1) = insert ?a (dom (cells m)) \<union> set bs"
    and new: "\<forall>b \<in> set bs. Suc ?a \<le> b"
    using c0 d0 by auto
  have "length bs < length ds + 1" using len by simp
  from uninit_loop_enough [OF at1 this, of "[]"] obtain l2 m2 where
    un: "uninit_loop (length ds + 1) (l1, m1) [] = Some (Inr ((l2, m2), rev ds))"
    and at2: "list_at (l2, m2) ?a []" and d2: "dom (cells m2) = dom (cells m1) - set bs"
    using c1 by auto
  from at2 obtain h where h: "l_head l2 = Some ?a" "l_tail l2 = Some ?a" "l_size l2 = 0"
    "cells m2 ?a = Some h" "node_data h = MAGIC_NUM"
    by (auto simp: list_at_def queue_at_def as_queue_def)
  have "set bs \<inter> dom (cells m) = {}" "?a \<notin> set bs" "?a \<notin> dom (cells m)"
    using new assms by (fastforce simp: store_ok_def dest: Suc_leD)+
  then have "dom (cells (free_cell ?a m2)) = dom (cells m)"
    using d1 d2 by (auto simp: free_cell_def)
  moreover have "easy_list_uninit (length ds + 1) (l1, m1) = Some (Inr (0, rev ds, free_cell ?a m2))"
    using un h by (simp add: easy_list_uninit_def free_ptr_def del: uninit_loop.simps)
  moreover have "easy_list_size (l1, m1) = int (length ds)"
    using at1 len by (simp add: list_at_def queue_at_def as_queue_def easy_list_size_def)
  ultimately show ?thesis using init ins c1 by blast
qed

theorem Glist_tail_lifecycle_witness:
  "\<exists>lm lm' m'. easy_list_init True True empty_store = Inr (0, lm) \<and> insert_all [7, 8] lm = Inr lm'
     \<and> list_contents lm' = [7, 8] \<and> easy_list_uninit 3 lm' = Some (Inr (0, [8, 7], m')) \<and> dom (cells m') = {}"
proof -
  have "length [7, 8 :: u64] + 1 = 3" "rev [7, 8 :: u64] = [8, 7]" "dom (cells empty_store) = {}"
    by (simp_all add: empty_store_def)
  then show ?thesis using Glist_tail_lifecycle [OF empty_store_ok, of "[7, 8]"]
    by (metis (no_types, lifting))
qed

text \<open>
  Three ways to break a list.  Inserting at the head of an empty list leaves the tail at the
  head node, so that releasing the list dereferences a null pointer; removing the last item
  leaves the tail at the freed node, so that the next insertion at the tail writes to it; and
  \<open>easy_list_prev\<close>, which assigns where it means to compare, cuts the list's backward links and
  hands out the head node it means to hide, whose value is the magic number.
\<close>
theorem Glist_breaks_its_tail:
  assumes "easy_list_init True True empty_store = Inr (0, lm)"
  shows "(\<exists>lm1. easy_list_insert_to_head lm d = Inr (0, lm1) \<and> easy_list_uninit 2 lm1 = Some (Inl Null_deref))
    \<and> (\<exists>lm1 lm2. easy_list_insert_to_tail lm d = Inr (0, lm1)
        \<and> easy_list_remove lm1 (easy_list_tail lm1) = Inr (0, d, lm2)
        \<and> easy_list_insert_to_tail lm2 e = Inl Use_after_free)
    \<and> (\<exists>lm1 p m. easy_list_insert_to_tail lm d = Inr (0, lm1)
        \<and> easy_list_prev (easy_list_tail lm1) (snd lm1) = Inr (p, m)
        \<and> easy_list_getData p True m = Inr (0, MAGIC_NUM))"
proof -
  have lm: "lm = (\<lparr>l_head = Some 0, l_tail = Some 0, l_size = 0\<rparr>,
      \<lparr>cells = [0 \<mapsto> \<lparr>node_data = MAGIC_NUM, node_len = 0, node_prev = None, node_next = None\<rparr>], brk = 1\<rparr>)"
    using assms by (simp add: easy_list_init_def alloc_def empty_store_def)
  show ?thesis
    unfolding lm
    by (intro conjI)
      (simp_all add: easy_list_insert_to_head_def easy_list_insert_to_tail_def easy_list_uninit_def
        easy_list_remove_def easy_list_tail_def easy_list_prev_def easy_list_getData_def alloc_def free_ptr_def
        free_cell_def Let_def numeral_2_eq_2 load_def set_next_def set_prev_def modify_def)
qed

theorem Glist_breaks_its_tail_witness:
  "\<exists>lm lm1. easy_list_init True True empty_store = Inr (0, lm) \<and> easy_list_insert_to_head lm 5 = Inr (0, lm1)
     \<and> easy_list_uninit 2 lm1 = Some (Inl Null_deref)"
proof -
  obtain lm where lm: "easy_list_init True True empty_store = Inr (0, lm)"
    by (simp add: easy_list_init_def alloc_def)
  from conjunct1 [OF Glist_breaks_its_tail [OF lm, of 5]] lm show ?thesis by blast
qed

end
