(* ===== verification/UvBase.thy ===== *)
theory UvBase
  imports Prelude
begin

text \<open>
  Shared vocabulary of the libuv parts (\<open>third/libuv\<close>): the error numbers of Linux, as
  \<open>include/uv-errno.h\<close> negates them, and system calls.

  What a system call answers is read from a list of outcomes, one per call made, in order.  A
  function that runs out of outcomes is still in its last call and has the value \<open>None\<close>.
\<close>

section \<open>Error numbers\<close>

definition EINTR :: int where "EINTR = 4"
definition EAGAIN :: int where "EAGAIN = 11"
definition ENOMEM :: int where "ENOMEM = 12"
definition EBUSY :: int where "EBUSY = 16"
definition EEXIST :: int where "EEXIST = 17"
definition EINVAL :: int where "EINVAL = 22"
definition ENOSPC :: int where "ENOSPC = 28"
definition ENOSYS :: int where "ENOSYS = 38"
definition ENOTSUP :: int where "ENOTSUP = 95"
definition EAFNOSUPPORT :: int where "EAFNOSUPPORT = 97"
definition ENOBUFS :: int where "ENOBUFS = 105"
definition ETIMEDOUT :: int where "ETIMEDOUT = 110"
definition EINPROGRESS :: int where "EINPROGRESS = 115"
definition ECANCELED :: int where "ECANCELED = 125"
definition EBADF :: int where "EBADF = 9"
definition ENOENT :: int where "ENOENT = 2"
definition ERANGE :: int where "ERANGE = 34"
definition UV_EOF :: int where "UV_EOF = - 4095"

named_theorems errno_simps \<open>the values of the error numbers\<close>

lemmas errno_values [errno_simps] =
  EINTR_def EAGAIN_def ENOMEM_def EBUSY_def EEXIST_def EINVAL_def ENOSPC_def ENOSYS_def ENOTSUP_def
  EAFNOSUPPORT_def ENOBUFS_def ETIMEDOUT_def EINPROGRESS_def ECANCELED_def EBADF_def ENOENT_def
  ERANGE_def UV_EOF_def

end
