(* ===== verification/UvInet.thy ===== *)
theory UvInet
  imports UvBase
begin

text \<open>
  Network addresses as text: \<open>third/libuv/src/inet.c\<close>.  A C string is the list of its
  characters before the terminating NUL.  A result is the return code together with what was
  stored through \<open>dst\<close> (\<open>None\<close>: nothing).
\<close>

section \<open>Printing\<close>

definition UV__INET_ADDRSTRLEN :: nat where "UV__INET_ADDRSTRLEN = 16"
definition UV__INET6_ADDRSTRLEN :: nat where "UV__INET6_ADDRSTRLEN = 46"

definition AF_INET :: int where "AF_INET = 2"
definition AF_INET6 :: int where "AF_INET6 = 10"

definition digits_l :: string where "digits_l = ''0123456789abcdef''"
definition digits_u :: string where "digits_u = ''0123456789ABCDEF''"

text \<open>The conversions \<open>%u\<close> and \<open>%x\<close> of \<open>printf\<close>.\<close>

fun digits :: "nat \<Rightarrow> nat \<Rightarrow> string" where
  "digits b n = (if b \<le> 1 \<or> n < b then [digits_l ! n] else digits b (n div b) @ [digits_l ! (n mod b)])"

declare digits.simps [simp del]

definition fmt4 :: "u8 list \<Rightarrow> string" where
  "fmt4 src = digits 10 (unat (src ! 0)) @ ''.'' @ digits 10 (unat (src ! 1)) @ ''.''
     @ digits 10 (unat (src ! 2)) @ ''.'' @ digits 10 (unat (src ! 3))"

text \<open>\<open>snprintf\<close> stores at most \<open>sizeof(tmp) - 1\<close> characters and returns the untruncated length.\<close>

definition inet_ntop4 :: "u8 list \<Rightarrow> nat \<Rightarrow> int \<times> string option" where
  "inet_ntop4 src sz =
     (let l = length (fmt4 src);
          tmp = take (UV__INET_ADDRSTRLEN - 1) (fmt4 src)
      in if l \<le> 0 \<or> sz \<le> l then (- ENOSPC, None)
         else (0, Some (take (sz - 1) tmp)))"

text \<open>The longest run of zero words: \<open>base\<close> (\<open>None\<close> for \<open>-1\<close>) and \<open>len\<close>.\<close>

type_synonym run = "nat option \<times> nat"

definition better :: "run \<Rightarrow> run \<Rightarrow> run" where
  "better cur best = (if fst best = None \<or> snd best < snd cur then cur else best)"

fun scan_runs :: "nat \<Rightarrow> nat list \<Rightarrow> run \<Rightarrow> run \<Rightarrow> run \<times> run" where
  "scan_runs i [] cur best = (cur, best)"
| "scan_runs i (w # ws) cur best =
     (if w = 0 then
        (if fst cur = None then scan_runs (i + 1) ws (Some i, 1) best
         else scan_runs (i + 1) ws (fst cur, snd cur + 1) best)
      else if fst cur \<noteq> None then scan_runs (i + 1) ws (None, snd cur) (better cur best)
      else scan_runs (i + 1) ws cur best)"

definition best_run :: "nat list \<Rightarrow> run" where
  "best_run ws =
     (let (cur, best) = scan_runs 0 ws (None, 0) (None, 0);
          best = (if fst cur \<noteq> None then better cur best else best)
      in if fst best \<noteq> None \<and> snd best < 2 then (None, snd best) else best)"

definition words6 :: "u8 list \<Rightarrow> nat list" where
  "words6 src = map (\<lambda>i. unat (src ! (2 * i)) * 256 + unat (src ! (2 * i + 1))) [0..<8]"

definition encapsulated :: "run \<Rightarrow> nat list \<Rightarrow> bool" where
  "encapsulated best ws \<longleftrightarrow> fst best = Some 0 \<and>
     (snd best = 6 \<or> (snd best = 7 \<and> ws ! 7 \<noteq> 1) \<or> (snd best = 5 \<and> ws ! 5 = 65535))"

definition in_run :: "run \<Rightarrow> nat \<Rightarrow> bool" where
  "in_run best i = (case fst best of None \<Rightarrow> False | Some b \<Rightarrow> b \<le> i \<and> i < b + snd best)"

text \<open>The formatting loop from word \<open>i\<close> on, behind the characters \<open>tp\<close> already in \<open>tmp\<close>.\<close>

function fmt6_loop :: "u8 list \<Rightarrow> nat list \<Rightarrow> run \<Rightarrow> nat \<Rightarrow> string \<Rightarrow> int \<times> string" where
  "fmt6_loop src ws best i tp =
     (if 8 \<le> i then (0, tp)
      else if in_run best i then fmt6_loop src ws best (i + 1) (if fst best = Some i then tp @ '':'' else tp)
      else
        let tp = (if i \<noteq> 0 then tp @ '':'' else tp) in
        if i = 6 \<and> encapsulated best ws then
          (case inet_ntop4 (drop 12 src) (UV__INET6_ADDRSTRLEN - length tp) of
             (err, None) \<Rightarrow> (err, tp)
           | (err, Some s) \<Rightarrow> if err \<noteq> 0 then (err, tp) else (0, tp @ s))
        else fmt6_loop src ws best (i + 1) (tp @ digits 16 (ws ! i)))"
  by pat_completeness auto
termination by (relation "measure (\<lambda>(src, ws, best, i, tp). 8 - i)") auto

declare fmt6_loop.simps [simp del]

definition inet_ntop6 :: "u8 list \<Rightarrow> nat \<Rightarrow> int \<times> string option" where
  "inet_ntop6 src sz =
     (let ws = words6 src; best = best_run ws in
      case fmt6_loop src ws best 0 [] of
        (err, tp) \<Rightarrow>
          if err \<noteq> 0 then (err, None)
          else
            let tp = (case fst best of
                        Some b \<Rightarrow> if b + snd best = 8 then tp @ '':'' else tp
                      | None \<Rightarrow> tp)
            in if sz < length tp + 1 then (- ENOSPC, None) else (0, Some tp))"

definition uv_inet_ntop :: "int \<Rightarrow> u8 list \<Rightarrow> nat \<Rightarrow> int \<times> string option" where
  "uv_inet_ntop af src sz =
     (if af = AF_INET then inet_ntop4 src sz
      else if af = AF_INET6 then inet_ntop6 src sz
      else (- EAFNOSUPPORT, None))"

section \<open>Parsing\<close>

text \<open>\<open>strchr\<close> in a digit table: the index of the character.\<close>

fun index_of :: "string \<Rightarrow> char \<Rightarrow> nat option" where
  "index_of [] c = None"
| "index_of (d # ds) c = (if c = d then Some 0 else map_option Suc (index_of ds c))"

text \<open>
  The loop of \<open>inet_pton4\<close>: \<open>tmp\<close> are the finished octets and \<open>cur\<close> is \<open>*tp\<close>.
\<close>

fun pton4_loop :: "string \<Rightarrow> bool \<Rightarrow> nat \<Rightarrow> u8 list \<Rightarrow> u8 \<Rightarrow> int \<times> u8 list option" where
  "pton4_loop [] saw_digit octets tmp cur = (if octets < 4 then (- EINVAL, None) else (0, Some (tmp @ [cur])))"
| "pton4_loop (ch # src) saw_digit octets tmp cur =
     (case index_of (take 10 digits_l) ch of
        Some d \<Rightarrow>
          let nw = unat cur * 10 + d in
          if saw_digit \<and> cur = 0 then (- EINVAL, None)
          else if 255 < nw then (- EINVAL, None)
          else if \<not> saw_digit then
            if 4 < octets + 1 then (- EINVAL, None)
            else pton4_loop src True (octets + 1) tmp (word_of_nat nw)
          else pton4_loop src True octets tmp (word_of_nat nw)
      | None \<Rightarrow>
          if ch = CHR ''.'' \<and> saw_digit then
            if octets = 4 then (- EINVAL, None)
            else pton4_loop src False octets (tmp @ [cur]) 0
          else (- EINVAL, None))"

definition inet_pton4 :: "string \<Rightarrow> int \<times> u8 list option" where
  "inet_pton4 src = pton4_loop src False 0 [] 0"

text \<open>
  The loop of \<open>inet_pton6\<close>.  \<open>tmp\<close> are the bytes stored so far (\<open>tp\<close> points behind them),
  \<open>colonp\<close> is the position of \<open>::\<close>, \<open>curtok\<close> the start of the current token.
\<close>

definition hexval :: "char \<Rightarrow> nat option" where
  "hexval ch = (case index_of digits_l ch of Some d \<Rightarrow> Some d | None \<Rightarrow> index_of digits_u ch)"

definition put16 :: "u32 \<Rightarrow> u8 list \<Rightarrow> u8 list" where
  "put16 val tmp = tmp @ [ucast (drop_bit 8 val), ucast val]"

fun pton6_loop ::
    "string \<Rightarrow> u8 list \<Rightarrow> nat option \<Rightarrow> string \<Rightarrow> nat \<Rightarrow> u32 \<Rightarrow> (u8 list \<times> nat option \<times> nat \<times> u32) option" where
  "pton6_loop [] tmp colonp curtok seen val = Some (tmp, colonp, seen, val)"
| "pton6_loop (ch # src) tmp colonp curtok seen val =
     (case hexval ch of
        Some d \<Rightarrow>
          if 4 < seen + 1 then None
          else pton6_loop src tmp colonp curtok (seen + 1) (or (push_bit 4 val) (word_of_nat d))
      | None \<Rightarrow>
          if ch = CHR '':'' then
            if seen = 0 then
              if colonp \<noteq> None then None
              else pton6_loop src tmp (Some (length tmp)) src seen val
            else if src = [] then None
            else if 16 < length tmp + 2 then None
            else pton6_loop src (put16 val tmp) colonp src 0 0
          else if ch = CHR ''.'' \<and> length tmp + 4 \<le> 16 then
            (case inet_pton4 curtok of
               (err, Some b) \<Rightarrow> if err = 0 then Some (tmp @ b, colonp, 0, val) else None
             | _ \<Rightarrow> None)
          else None)"

text \<open>The shift loop behind \<open>::\<close>, in the array \<open>tmp\<close> of 16 bytes.\<close>

definition shift_step :: "nat \<Rightarrow> nat \<Rightarrow> nat \<Rightarrow> u8 list \<Rightarrow> u8 list" where
  "shift_step c n i tmp = (tmp[16 - i := tmp ! (c + (n - i))])[c + (n - i) := 0]"

definition pton6_finish :: "u8 list \<times> nat option \<times> nat \<times> u32 \<Rightarrow> int \<times> u8 list option" where
  "pton6_finish r =
     (case r of (tmp, colonp, seen, val) \<Rightarrow>
        if seen \<noteq> 0 \<and> 16 < length tmp + 2 then (- EINVAL, None)
        else
          let tmp = (if seen \<noteq> 0 then put16 val tmp else tmp) in
          (case colonp of
             None \<Rightarrow> if length tmp \<noteq> 16 then (- EINVAL, None) else (0, Some tmp)
           | Some c \<Rightarrow>
               if length tmp = 16 then (- EINVAL, None)
               else
                 let n = length tmp - c in
                 (0, Some (fold (shift_step c n) [1..<n + 1] (tmp @ replicate (16 - length tmp) 0)))))"

definition inet_pton6 :: "string \<Rightarrow> int \<times> u8 list option" where
  "inet_pton6 src =
     (case (if take 1 src = '':'' then (if take 1 (drop 1 src) \<noteq> '':'' then None else Some (drop 1 src))
            else Some src) of
        None \<Rightarrow> (- EINVAL, None)
      | Some src \<Rightarrow> (case pton6_loop src [] None src 0 0 of
                       None \<Rightarrow> (- EINVAL, None)
                     | Some r \<Rightarrow> pton6_finish r))"

text \<open>\<open>uv_inet_pton\<close>; \<open>None\<close> for a null pointer.\<close>

definition uv_inet_pton :: "int \<Rightarrow> string option \<Rightarrow> bool \<Rightarrow> int \<times> u8 list option" where
  "uv_inet_pton af src dst =
     (case src of
        None \<Rightarrow> (- EINVAL, None)
      | Some src \<Rightarrow>
          if \<not> dst then (- EINVAL, None)
          else if af = AF_INET then inet_pton4 src
          else if af = AF_INET6 then
            (if CHR ''%'' \<in> set src then
               let len = length (takeWhile (\<lambda>c. c \<noteq> CHR ''%'') src) in
               if UV__INET6_ADDRSTRLEN - 1 < len then (- EINVAL, None)
               else inet_pton6 (take len src)
             else inet_pton6 src)
          else (- EAFNOSUPPORT, None))"

section \<open>Digits\<close>

lemma digits_small: "n < 16 \<Longrightarrow> b = 10 \<or> b = 16 \<Longrightarrow> n < b \<Longrightarrow> digits b n = [digits_l ! n]"
  by (subst digits.simps) auto

lemma digits_step: "2 \<le> b \<Longrightarrow> b \<le> n \<Longrightarrow> digits b n = digits b (n div b) @ [digits_l ! (n mod b)]"
  by (subst digits.simps) auto

lemma less_16_cases: "(d::nat) < 16 \<Longrightarrow> d \<in> {0,1,2,3,4,5,6,7,8,9,10,11,12,13,14,15}"
  by simp presburger

lemma dec_digit: "d < 10 \<Longrightarrow> index_of (take 10 digits_l) (digits_l ! d) = Some d"
  using less_16_cases [of d] by (auto simp: digits_l_def)

lemma hex_digit: "d < 16 \<Longrightarrow> hexval (digits_l ! d) = Some d"
  using less_16_cases [of d] by (auto simp: digits_l_def hexval_def)

lemma dec_digit_inv: "index_of (take 10 digits_l) c = Some d \<Longrightarrow> d < 10 \<and> c = digits_l ! d"
  by (auto simp: digits_l_def split: if_splits)

lemma not_digit [simp]:
  "index_of (take 10 digits_l) CHR ''.'' = None" "hexval CHR '':'' = None" "hexval CHR ''.'' = None"
  by (simp_all add: digits_l_def digits_u_def hexval_def)

lemma digits10: "n < 256 \<Longrightarrow> digits 10 n =
    (if n < 10 then [digits_l ! n]
     else if n < 100 then [digits_l ! (n div 10), digits_l ! (n mod 10)]
     else [digits_l ! (n div 100), digits_l ! (n div 10 mod 10), digits_l ! (n mod 10)])"
proof -
  assume n: "n < 256"
  have s: "digits 10 k = [digits_l ! k]" if "k < 10" for k using that digits_small [of k 10] by simp
  have t: "digits 10 k = [digits_l ! (k div 10), digits_l ! (k mod 10)]" if "10 \<le> k" "k < 100" for k
    using that digits_step [of 10 k] s [of "k div 10"] by simp
  have "digits 10 n = [digits_l ! (n div 10 div 10), digits_l ! (n div 10 mod 10), digits_l ! (n mod 10)]" if "100 \<le> n"
    using that n digits_step [of 10 n] t [of "n div 10"] by simp
  then show ?thesis using s [of n] t [of n] by (simp add: div_mult2_eq [symmetric])
qed

lemma digits16_length: "n < 65536 \<Longrightarrow> length (digits 16 n) \<le> 4"
proof -
  assume n: "n < 65536"
  have s: "length (digits 16 k) \<le> 1" if "k < 16" for k using that digits_small [of k 16] by simp
  have t: "length (digits 16 k) \<le> 2" if "k < 256" for k
    using that digits_step [of 16 k] s [of "k div 16"] s [of k] by (cases "k < 16") auto
  have u: "length (digits 16 k) \<le> 3" if "k < 4096" for k
    using that digits_step [of 16 k] t [of "k div 16"] s [of k] by (cases "k < 16") auto
  show ?thesis using n digits_step [of 16 n] u [of "n div 16"] s [of n] by (cases "n < 16") auto
qed

lemma digits_nonempty [simp]: "digits b n \<noteq> []"
  by (subst digits.simps) simp

section \<open>IPv4 addresses\<close>

lemma pton4_digit:
  assumes "k < 10" "m * 10 + k < 256" "saw \<longrightarrow> 0 < m" "saw \<or> oct < 4"
  shows "pton4_loop (digits_l ! k # r) saw oct tmp (word_of_nat m) =
    pton4_loop r True (if saw then oct else oct + 1) tmp (word_of_nat (m * 10 + k))"
proof -
  have "m < 256" using assms by simp
  then have u: "unat (word_of_nat m :: u8) = m" by (simp add: unat_u8_of_nat)
  then have z: "(word_of_nat m :: u8) = 0 \<longleftrightarrow> m = 0" by (simp only: unat_eq_zero [symmetric] u)
  have nw: "\<not> 255 < m * 10 + k" using assms(2) by simp
  have "\<not> (saw \<and> (word_of_nat m :: u8) = 0)" using assms(3) by (simp only: z) blast
  then show ?thesis
    using assms(4) nw by (cases saw) (simp_all only: pton4_loop.simps dec_digit [OF assms(1)] option.case u
        Let_def if_True if_False not_True_eq_False not_False_eq_True simp_thms, simp)
qed

lemma pton4_digits:
  assumes "n < 256" "oct < 4"
  shows "pton4_loop (digits 10 n @ rest) False oct tmp 0 = pton4_loop rest True (oct + 1) tmp (word_of_nat n)"
proof -
  have first: "pton4_loop (digits_l ! k # r) False oct tmp 0 = pton4_loop r True (oct + 1) tmp (word_of_nat k)"
    if "k < 10" for k r
    using pton4_digit [of k 0 False oct r tmp] that assms(2) by (simp del: pton4_loop.simps)
  have more: "pton4_loop (digits_l ! k # r) True (oct + 1) tmp (word_of_nat m)
      = pton4_loop r True (oct + 1) tmp (word_of_nat (m * 10 + k))"
    if "k < 10" "m * 10 + k < 256" "0 < m" for k m r
    using pton4_digit [of k m True "oct + 1" r tmp] that by (simp del: pton4_loop.simps)
  consider "n < 10" | "10 \<le> n" "n < 100" | "100 \<le> n" by linarith
  then show ?thesis
  proof cases
    case 1
    then show ?thesis using first [of n rest] assms by (simp add: digits10)
  next
    case 2
    define b where "b = n div 10"
    have n: "n = b * 10 + n mod 10" by (simp add: b_def)
    have bounds: "b < 10" "0 < b" "n mod 10 < 10" using 2 by (auto simp: b_def)
    have "digits 10 n = [digits_l ! b, digits_l ! (n mod 10)]" using 2 assms(1) by (simp add: digits10 b_def)
    then show ?thesis
      using first [OF bounds(1), of "digits_l ! (n mod 10) # rest"] more [OF bounds(3) _ bounds(2), of rest] assms n
      by (simp only: append_Cons append_Nil)
  next
    case 3
    define b where "b = n div 10"
    define a where "a = b div 10"
    have n: "n = b * 10 + n mod 10" "b = a * 10 + b mod 10" by (simp_all add: a_def b_def)
    have "a = n div 100" by (simp add: a_def b_def div_mult2_eq [symmetric])
    then have bounds: "a < 10" "0 < a" "b < 256" "0 < b" "n mod 10 < 10" "b mod 10 < 10"
      using 3 assms(1) by (auto simp: b_def)
    have "digits 10 n = [digits_l ! a, digits_l ! (b mod 10), digits_l ! (n mod 10)]"
      using 3 assms(1) by (simp add: digits10 a_def b_def div_mult2_eq [symmetric])
    then show ?thesis
      using first [OF bounds(1), of "digits_l ! (b mod 10) # digits_l ! (n mod 10) # rest"]
        more [OF bounds(6) _ bounds(2), of "digits_l ! (n mod 10) # rest"] more [OF bounds(5) _ bounds(4), of rest]
        assms n bounds
      by (simp only: append_Cons append_Nil)
  qed
qed

definition dotted :: "u8 list \<Rightarrow> string" where
  "dotted tmp = concat (map (\<lambda>b. digits 10 (unat b) @ ''.'') tmp)"

lemma fmt4_dotted: "fmt4 [a, b, c, d] = dotted [a, b, c] @ digits 10 (unat d)"
  by (simp add: fmt4_def dotted_def)

lemma inet_pton4_fmt4: "inet_pton4 (fmt4 [a, b, c, d]) = (0, Some [a, b, c, d])"
proof -
  have n: "unat x < 256" "word_of_nat (unat x) = x" for x :: u8 by simp_all
  show ?thesis
    using pton4_digits [OF n(1), of "Suc (Suc (Suc 0))" d "[]"]
    by (simp add: inet_pton4_def fmt4_def pton4_digits)
qed
lemma pton4_sound:
  assumes "pton4_loop src saw oct tmp cur = (err, Some a)"
    and "oct = length tmp + of_bool saw" "saw \<or> cur = 0" "oct \<le> 4" "saw \<or> oct < 4"
  shows "err = 0 \<and> length a = 4
    \<and> dotted tmp @ (if saw then digits 10 (unat cur) else []) @ src = dotted (take 3 a) @ digits 10 (unat (a ! 3))"
  using assms
proof (induction src saw oct tmp cur rule: pton4_loop.induct)
  case (1 saw oct tmp cur)
  then have "saw" "length tmp = 3" "a = tmp @ [cur]" "err = 0" by (auto split: if_splits)
  then show ?case by (simp add: nth_append)
next
  case (2 ch src saw oct tmp cur)
  show ?case
  proof (cases "index_of (take 10 digits_l) ch")
    case None
    with "2.prems" have c: "ch = CHR ''.''" "saw" "oct \<noteq> 4"
      "pton4_loop src False oct (tmp @ [cur]) 0 = (err, Some a)" by (auto split: if_splits)
    from "2.IH"(1) [OF None _ c(3,4)] c "2.prems" show ?thesis by (simp add: dotted_def)
  next
    case (Some d)
    let ?nw = "unat cur * 10 + d"
    from dec_digit_inv [OF Some] have d: "d < 10" "ch = digits_l ! d" by auto
    from Some "2.prems"(1) have nw: "?nw \<le> 255" "\<not> (saw \<and> cur = 0)" by (auto simp: Let_def split: if_splits)
    then have w: "unat (word_of_nat ?nw :: u8) = ?nw" by (simp only: unat_u8_of_nat) simp
    show ?thesis
    proof (cases saw)
      case True
      with Some nw "2.prems"(1) have r: "pton4_loop src True oct tmp (word_of_nat ?nw) = (err, Some a)" by simp
      have "0 < unat cur" using nw True by (simp add: unat_gt_0)
      then have "digits 10 ?nw = digits 10 (unat cur) @ [ch]" using d digits_step [of 10 ?nw] by simp
      then show ?thesis using "2.IH"(3) [OF Some refl _ _ _ r] True nw "2.prems" w by simp
    next
      case False
      with Some nw "2.prems" have r: "pton4_loop src True (oct + 1) tmp (word_of_nat ?nw) = (err, Some a)"
        by (auto split: if_splits)
      have "digits 10 ?nw = [ch]" using False d "2.prems"(3) digits_small [of d 10] by simp
      then show ?thesis using "2.IH"(2) [OF Some refl _ _ _ _ r] False nw "2.prems" w by simp
    qed
  qed
qed

lemma length_4: "length a = 4 \<Longrightarrow> a = [a ! 0, a ! 1, a ! 2, a ! 3]"
  by (rule nth_equalityI) (auto simp: less_Suc_eq numeral_eq_Suc)

lemma fmt4_length: "length (fmt4 src) \<le> 15"
proof -
  have "length (digits 10 (unat (b :: u8))) \<le> 3" for b using digits10 [of "unat b"] by simp
  from this [of "src ! 0"] this [of "src ! 1"] this [of "src ! 2"] this [of "src ! 3"]
  show ?thesis by (simp add: fmt4_def)
qed

lemma inet_ntop4_ok: "16 \<le> sz \<Longrightarrow> inet_ntop4 a sz = (0, Some (fmt4 a))"
proof -
  assume "16 \<le> sz"
  moreover have "0 < length (fmt4 a)" by (simp add: fmt4_def)
  ultimately show ?thesis using fmt4_length [of a]
    by (simp add: inet_ntop4_def UV__INET_ADDRSTRLEN_def Let_def)
qed

text \<open>
  A text is accepted exactly when it is what \<open>inet_ntop4\<close> prints for the address: the parser
  takes no leading zeros, no missing or extra octets and no octet above 255.
\<close>

lemma inet4_exact: "inet_pton4 s = (0, Some a) \<longleftrightarrow> length a = 4 \<and> inet_ntop4 a 16 = (0, Some s)"
proof
  assume "inet_pton4 s = (0, Some a)"
  then have p: "length a = 4" "s = dotted (take 3 a) @ digits 10 (unat (a ! 3))"
    using pton4_sound [of s False 0 "[]" 0 0 a] by (auto simp: inet_pton4_def dotted_def)
  obtain w x y z where "a = [w, x, y, z]" using length_4 [OF p(1)] by blast
  then have "fmt4 a = s" using p(2) by (simp add: fmt4_dotted)
  then show "length a = 4 \<and> inet_ntop4 a 16 = (0, Some s)" using p(1) by (simp add: inet_ntop4_ok)
next
  assume "length a = 4 \<and> inet_ntop4 a 16 = (0, Some s)"
  then show "inet_pton4 s = (0, Some a)"
    using inet_pton4_fmt4 [of "a ! 0" "a ! 1" "a ! 2" "a ! 3"] length_4 [of a] by (simp add: inet_ntop4_ok)
qed

section \<open>IPv6 addresses\<close>

text \<open>The words as the two bytes each, and as hexadecimal groups between colons.\<close>

definition word_bytes :: "nat \<Rightarrow> u8 list" where
  "word_bytes w = [word_of_nat (w div 256), word_of_nat w]"

definition bytes6 :: "nat list \<Rightarrow> u8 list" where
  "bytes6 ws = concat (map word_bytes ws)"

definition hextail :: "nat list \<Rightarrow> string" where
  "hextail ws = concat (map (\<lambda>w. CHR '':'' # digits 16 w) ws)"

definition hexes :: "nat list \<Rightarrow> string" where
  "hexes ws = drop 1 (hextail ws)"

lemma hexes_simps [simp]:
  "hextail [] = ''''" "hextail (w # ws) = '':'' @ digits 16 w @ hextail ws" "hextail (u @ v) = hextail u @ hextail v"
  "hexes [] = ''''" "hexes (w # ws) = digits 16 w @ hextail ws"
  by (simp_all add: hextail_def hexes_def)

lemma hextail_cons: "ws \<noteq> [] \<Longrightarrow> hextail ws = '':'' @ hexes ws"
  by (cases ws) auto

lemma bytes6_simps [simp]:
  "bytes6 [] = []" "bytes6 (w # ws) = word_bytes w @ bytes6 ws" "bytes6 (u @ v) = bytes6 u @ bytes6 v"
  "length (bytes6 ws) = 2 * length ws" "length (word_bytes w) = 2"
  by (auto simp: bytes6_def word_bytes_def length_concat sum_list_triv comp_def)

lemma bytes6_zeros [simp]: "bytes6 (replicate n 0) = replicate (2 * n) 0"
  by (induction n) (auto simp: word_bytes_def)

lemma word_bytes_of: "word_bytes (unat (a :: u8) * 256 + unat b) = [a, b]"
proof -
  have "(unat a * 256 + unat b) div 256 = unat a" by (simp add: div_add1_eq)
  moreover have "(word_of_nat (unat a * 256 + unat b) :: u8) = b"
    by (rule word_unat_eq_iff [THEN iffD2]) (simp add: unat_u8_of_nat del: of_nat_add of_nat_mult)
  ultimately show ?thesis by (simp add: word_bytes_def)
qed

lemma bytes6_words6: "length src = 16 \<Longrightarrow> bytes6 (words6 src) = src"
proof -
  assume len: "length src = 16"
  have "bytes6 (words6 src) = concat (map (\<lambda>i. [src ! (2 * i), src ! (2 * i + 1)]) [0..<8])"
    by (simp add: bytes6_def words6_def word_bytes_of comp_def)
  also have "\<dots> = map ((!) src) [0..<16]" by (simp add: upt_rec numeral_eq_Suc)
  also have "\<dots> = src" using len map_nth [of src] by simp
  finally show ?thesis .
qed

lemma words6_bounds: "length (words6 src) = 8" "w \<in> set (words6 src) \<Longrightarrow> w < 65536"
proof -
  show "length (words6 src) = 8" by (simp add: words6_def)
  assume "w \<in> set (words6 src)"
  then obtain i where w: "w = unat (src ! (2 * i)) * 256 + unat (src ! (2 * i + 1))" by (auto simp: words6_def)
  have "unat (src ! (2 * i)) < 256" "unat (src ! (2 * i + 1)) < 256" by simp_all
  then show "w < 65536" unfolding w by linarith
qed

subsection \<open>What is printed\<close>

definition run_ok :: "nat list \<Rightarrow> nat \<Rightarrow> run \<Rightarrow> bool" where
  "run_ok ws i r \<longleftrightarrow> (case fst r of None \<Rightarrow> True
     | Some b \<Rightarrow> b + snd r \<le> i \<and> (\<forall>j. b \<le> j \<longrightarrow> j < b + snd r \<longrightarrow> ws ! j = 0))"

lemma scan_runs_ok:
  assumes "scan_runs i (drop i ws) cur best = (cur', best')" "i \<le> length ws"
    "run_ok ws i cur" "fst cur = None \<or> the (fst cur) + snd cur = i" "run_ok ws i best"
  shows "run_ok ws (length ws) cur' \<and> run_ok ws (length ws) best'"
  using assms
proof (induction "length ws - i" arbitrary: i cur best)
  case 0
  then show ?case by simp
next
  case (Suc k)
  then have i: "i < length ws" "drop i ws = ws ! i # drop (i + 1) ws" by (auto simp: Cons_nth_drop_Suc)
  note IH = Suc.hyps(1) [of "i + 1"]
  have k: "k = length ws - (i + 1)" "i + 1 \<le> length ws" using Suc.hyps(2) i by auto
  have mono: "run_ok ws (i + 1) r" if "run_ok ws i r" for r using that by (auto simp: run_ok_def split: option.splits)
  show ?case
  proof (cases "ws ! i = 0")
    case True
    define nc where "nc = (if fst cur = None then (Some i, 1) else (fst cur, snd cur + 1))"
    have "scan_runs (i + 1) (drop (i + 1) ws) nc best = (cur', best')"
      using Suc.prems(1) True unfolding i(2) nc_def by (cases "fst cur") simp_all
    moreover have "run_ok ws (i + 1) nc" "fst nc = None \<or> the (fst nc) + snd nc = i + 1"
      using Suc.prems(3,4) True by (auto simp: nc_def run_ok_def less_Suc_eq)
    ultimately show ?thesis using IH [OF k(1) _ k(2)] mono [OF Suc.prems(5)] by blast
  next
    case False
    define nb where "nb = (if fst cur = None then best else better cur best)"
    define nc where "nc = (if fst cur = None then cur else (None, snd cur))"
    have "scan_runs (i + 1) (drop (i + 1) ws) nc nb = (cur', best')"
      using Suc.prems(1) False unfolding i(2) nc_def nb_def by (cases "fst cur") simp_all
    moreover have "fst nc = None" "run_ok ws (i + 1) nc" by (auto simp: nc_def run_ok_def)
    moreover have "run_ok ws (i + 1) nb"
      using mono [OF Suc.prems(3)] mono [OF Suc.prems(5)] by (auto simp: nb_def better_def)
    ultimately show ?thesis using IH [OF k(1) _ k(2)] by blast
  qed
qed

lemma best_run_ok:
  assumes "best_run ws = (Some b, n)"
  shows "2 \<le> n" "b + n \<le> length ws" "ws = take b ws @ replicate n 0 @ drop (b + n) ws"
proof -
  obtain cur best where s: "scan_runs 0 ws (None, 0) (None, 0) = (cur, best)"
    by (cases "scan_runs 0 ws (None, 0) (None, 0)")
  have ok: "run_ok ws (length ws) cur" "run_ok ws (length ws) best"
    using scan_runs_ok [of 0 ws "(None, 0)" "(None, 0)" cur best] s by (auto simp: run_ok_def)
  have r: "2 \<le> n \<and> run_ok ws (length ws) (Some b, n)"
    using assms ok by (auto simp: best_run_def s better_def split: if_splits)
  then show "2 \<le> n" and le: "b + n \<le> length ws" by (auto simp: run_ok_def)
  have "take n (drop b ws) = replicate n 0"
    using r by (intro nth_equalityI) (auto simp: run_ok_def)
  then show "ws = take b ws @ replicate n 0 @ drop (b + n) ws"
    by (metis append_take_drop_id drop_drop add.commute)
qed

lemma fmt6_plain:
  assumes "i \<le> 8" "\<And>j. i \<le> j \<Longrightarrow> \<not> in_run best j" "\<not> (i \<le> 6 \<and> encapsulated best ws)" "length ws = 8" "0 < i"
  shows "fmt6_loop src ws best i tp = (0, tp @ hextail (drop i ws))"
  using assms
proof (induction "8 - i" arbitrary: i tp)
  case 0
  then show ?case by (subst fmt6_loop.simps) simp
next
  case (Suc k)
  have "fmt6_loop src ws best i tp = fmt6_loop src ws best (i + 1) (tp @ '':'' @ digits 16 (ws ! i))"
    using Suc.hyps(2) Suc.prems by (subst fmt6_loop.simps) auto
  also have "\<dots> = (0, (tp @ '':'' @ digits 16 (ws ! i)) @ hextail (drop (i + 1) ws))"
    using Suc.hyps Suc.prems by (intro Suc.hyps(1)) auto
  also have "drop i ws = ws ! i # drop (i + 1) ws"
    using Suc.hyps(2) Suc.prems(4) by (simp add: Cons_nth_drop_Suc)
  then have "(tp @ '':'' @ digits 16 (ws ! i)) @ hextail (drop (i + 1) ws) = tp @ hextail (drop i ws)" by simp
  finally show ?case .
qed

lemma fmt6_before:
  assumes "fst best = Some b" "i \<le> b" "b < 8" "length ws = 8" "0 < b"
  shows "fmt6_loop src ws best 0 [] = fmt6_loop src ws best i (hexes (take i ws))"
  using assms(2)
proof (induction i)
  case (Suc i)
  have "fmt6_loop src ws best i (hexes (take i ws))
      = fmt6_loop src ws best (i + 1) (hexes (take i ws) @ (if i = 0 then [] else '':'') @ digits 16 (ws ! i))"
    using Suc.prems assms by (subst fmt6_loop.simps) (auto simp: in_run_def encapsulated_def)
  moreover have "take (Suc i) ws = take i ws @ [ws ! i]"
    using Suc.prems assms by (simp add: take_Suc_conv_app_nth)
  then have "hexes (take (Suc i) ws) = hexes (take i ws) @ (if i = 0 then [] else '':'') @ digits 16 (ws ! i)"
    using assms by (cases ws) (auto simp: take_Cons' split: if_splits)
  ultimately show ?case using Suc by simp
qed simp

lemma fmt6_inside:
  assumes "best = (Some b, n)" "b < i" "i \<le> b + n" "b + n \<le> 8"
  shows "fmt6_loop src ws best i tp = fmt6_loop src ws best (b + n) tp"
  using assms(2,3)
proof (induction "b + n - i" arbitrary: i)
  case (Suc k)
  have "fmt6_loop src ws best i tp = fmt6_loop src ws best (i + 1) tp"
    using Suc.hyps(2) Suc.prems assms by (subst fmt6_loop.simps) (auto simp: in_run_def)
  also have "\<dots> = fmt6_loop src ws best (b + n) tp"
    using Suc.hyps Suc.prems by (intro Suc.hyps(1)) auto
  finally show ?case .
qed auto

lemma fmt6_run:
  assumes "best = (Some b, n)" "b + n \<le> 8" "0 < n"
  shows "fmt6_loop src ws best b tp = fmt6_loop src ws best (b + n) (tp @ '':'')"
proof -
  have "fmt6_loop src ws best b tp = fmt6_loop src ws best (b + 1) (tp @ '':'')"
    using assms by (subst fmt6_loop.simps) (auto simp: in_run_def)
  then show ?thesis using fmt6_inside [OF assms(1), of "b + 1"] assms by simp
qed

lemma hextail_length: "(\<And>w. w \<in> set ws \<Longrightarrow> w < 65536) \<Longrightarrow> length (hextail ws) \<le> 5 * length ws"
proof (induction ws)
  case (Cons w ws)
  then show ?case using digits16_length [of w] by fastforce
qed simp

lemma hexes_length: "(\<And>w. w \<in> set ws \<Longrightarrow> w < 65536) \<Longrightarrow> length (hexes ws) \<le> 5 * length ws - 1"
  using hextail_length [of ws] by (simp add: hexes_def)

text \<open>
  The text of an address: its eight groups; or the groups around the longest run of zero
  groups; or the encapsulated IPv4 form.
\<close>

lemma inet_ntop6_text:
  fixes src :: "u8 list"
  defines "ws \<equiv> words6 src"
  assumes "length src = 16"
  shows "\<exists>s. inet_ntop6 src 46 = (0, Some s) \<and>
    (s = hexes ws
     \<or> (\<exists>a b n. ws = a @ replicate n 0 @ b \<and> 2 \<le> n \<and> s = hexes a @ ''::'' @ hexes b)
     \<or> (\<exists>a. ws = replicate (6 - length a) 0 @ a @ drop 6 ws \<and> a \<in> {[], [65535]} \<and>
           s = ''::'' @ concat (map (\<lambda>w. digits 16 w @ '':'') a) @ fmt4 (drop 12 src)))"
proof -
  have len: "length ws = 8" and bound: "\<And>w. w \<in> set ws \<Longrightarrow> w < 65536" using words6_bounds by (auto simp: ws_def)
  obtain r n where best: "best_run ws = (r, n)" by (cases "best_run ws")
  show ?thesis
  proof (cases r)
    case None
    have "fmt6_loop src ws (None, n) 0 [] = fmt6_loop src ws (None, n) 1 (digits 16 (ws ! 0))"
      by (subst fmt6_loop.simps) (simp add: in_run_def)
    also have "\<dots> = (0, digits 16 (ws ! 0) @ hextail (drop 1 ws))"
      using len by (intro fmt6_plain) (auto simp: in_run_def encapsulated_def)
    also have "digits 16 (ws ! 0) @ hextail (drop 1 ws) = hexes ws" using len by (cases ws) auto
    finally have "fmt6_loop src ws (None, n) 0 [] = (0, hexes ws)" .
    moreover have "length (hexes ws) \<le> 39" using hexes_length [OF bound] len by fastforce
    ultimately show ?thesis using best None by (simp add: inet_ntop6_def ws_def [symmetric])
  next
    case (Some b)
    with best have best: "best_run ws = (Some b, n)" by simp
    note ok = best_run_ok [OF best]
    let ?a = "take b ws" and ?b = "drop (b + n) ws"
    have bn: "b + n \<le> 8" "0 < n" using ok(1,2) len by auto
    have start: "fmt6_loop src ws (Some b, n) 0 [] = fmt6_loop src ws (Some b, n) (b + n) (hexes ?a @ '':'')"
      using fmt6_before [of "(Some b, n)" b b ws src] fmt6_run [OF refl bn, of src ws "hexes ?a"] len bn
      by (cases "b = 0") auto
    show ?thesis
    proof (cases "b + n \<le> 6 \<and> encapsulated (Some b, n) ws")
      case True
      then have b: "b = 0" and n: "n = 6 \<or> (n = 5 \<and> ws ! 5 = 65535)" by (auto simp: encapsulated_def)
      define a where "a = (if n = 6 then [] else [65535 :: nat])"
      have at6: "fmt6_loop src ws (Some b, n) 6 tp = (0, tp @ '':'' @ fmt4 (drop 12 src))" if "length tp \<le> 7" for tp
        using that n b True by (subst fmt6_loop.simps) (auto simp: in_run_def inet_ntop4_ok UV__INET6_ADDRSTRLEN_def)
      have at5: "fmt6_loop src ws (Some b, n) 5 tp = fmt6_loop src ws (Some b, n) 6 (tp @ '':'' @ digits 16 (ws ! 5))"
        if "n = 5" for tp
        using that b by (subst fmt6_loop.simps) (simp add: in_run_def)
      have "length (digits 16 (65535 :: nat)) \<le> 4" by (rule digits16_length) simp
      then have "fmt6_loop src ws (Some b, n) 0 [] =
          (0, ''::'' @ concat (map (\<lambda>w. digits 16 w @ '':'') a) @ fmt4 (drop 12 src))"
        using n b start at6 [of "'':''"] at5 [of "'':''"] at6 [of "''::'' @ digits 16 65535"]
        by (auto simp: a_def)
      moreover have "length (''::'' @ concat (map (\<lambda>w. digits 16 w @ '':'') a) @ fmt4 (drop 12 src)) \<le> 45"
        using fmt4_length [of "drop 12 src"] \<open>length (digits 16 (65535 :: nat)) \<le> 4\<close> by (simp add: a_def)
      moreover have "ws = replicate (6 - length a) 0 @ a @ drop 6 ws"
      proof (cases "n = 6")
        case True
        then show ?thesis using ok(3) b by (simp add: a_def)
      next
        case False
        then have "drop 5 ws = 65535 # drop 6 ws" using n len by (simp add: Cons_nth_drop_Suc [symmetric])
        then show ?thesis using ok(3) b n False by (simp add: a_def)
      qed
      moreover have "a \<in> {[], [65535]}" by (simp add: a_def)
      ultimately show ?thesis using best b n by (auto simp: inet_ntop6_def ws_def [symmetric])
    next
      case False
      have plain: "fmt6_loop src ws (Some b, n) (b + n) tp = (0, tp @ hextail ?b)" for tp
      proof (cases "b + n \<le> 6")
        case True
        then show ?thesis using False bn len by (intro fmt6_plain) (auto simp: in_run_def)
      next
        case False
        then show ?thesis using bn len by (intro fmt6_plain) (auto simp: in_run_def)
      qed
      let ?s = "hexes ?a @ ''::'' @ hexes ?b"
      have "(case fmt6_loop src ws (Some b, n) 0 [] of (err, tp) \<Rightarrow> (err, if b + n = 8 then tp @ '':'' else tp)) = (0, ?s)"
        unfolding start plain using len bn by (cases "b + n = 8") (auto simp: hextail_cons)
      moreover have "length ?s \<le> 45"
      proof -
        have "length (hexes ?a) \<le> 5 * length ?a - 1" "length (hexes ?b) \<le> 5 * length ?b - 1"
          by (rule hexes_length, meson bound in_set_takeD in_set_dropD)+
        then show ?thesis using bn len ok(1) by simp
      qed
      ultimately have "inet_ntop6 src 46 = (0, Some ?s)"
        using best by (auto simp: inet_ntop6_def ws_def [symmetric] split: prod.splits if_splits)
      then show ?thesis using ok by blast
    qed
  qed
qed

subsection \<open>What is parsed\<close>

lemma shift_digit: "d < 16 \<Longrightarrow> or (push_bit 4 (word_of_nat m)) (word_of_nat d) = (word_of_nat (m * 16 + d) :: u32)"
proof -
  assume d: "d < 16"
  have "take_bit 4 d = d" using d by (simp add: take_bit_nat_eq_self)
  then have "\<not> bit d n" if "4 \<le> n" for n using that by (metis bit_take_bit_iff leD)
  then have "or (push_bit 4 (word_of_nat m)) (word_of_nat d) = push_bit 4 (word_of_nat m :: u32) + word_of_nat d"
    by (intro disjunctive_add [symmetric]) (auto simp: bit_simps)
  then show ?thesis by (simp add: push_bit_eq_mult mult.commute)
qed

lemma pton6_digit:
  "d < 16 \<Longrightarrow> seen < 4 \<Longrightarrow> pton6_loop (digits_l ! d # r) tmp cp tok seen (word_of_nat m)
     = pton6_loop r tmp cp tok (seen + 1) (word_of_nat (m * 16 + d))"
  by (simp add: hex_digit shift_digit del: of_nat_add of_nat_mult)

lemma pton6_hex:
  "w < 65536 \<Longrightarrow> pton6_loop (digits 16 w @ r) tmp cp tok 0 0
     = pton6_loop r tmp cp tok (length (digits 16 w)) (word_of_nat w)"
proof (induction w arbitrary: r rule: less_induct)
  case (less w)
  show ?case
  proof (cases "w < 16")
    case True
    then show ?thesis using pton6_digit [of w 0 r tmp cp tok 0] digits_small [of w 16]
      by (simp del: pton6_loop.simps)
  next
    case False
    then have d: "digits 16 w = digits 16 (w div 16) @ [digits_l ! (w mod 16)]" using digits_step [of 16 w] by simp
    have "length (digits 16 (w div 16)) < 4" using digits16_length [OF less.prems] d by simp
    then have "pton6_loop (digits_l ! (w mod 16) # r) tmp cp tok (length (digits 16 (w div 16))) (word_of_nat (w div 16))
        = pton6_loop r tmp cp tok (length (digits 16 (w div 16)) + 1) (word_of_nat w)"
      using pton6_digit [of "w mod 16" "length (digits 16 (w div 16))" r tmp cp tok "w div 16"] by simp
    then show ?thesis using False less by (simp add: d del: pton6_loop.simps)
  qed
qed

lemma put16_bytes: "w < 65536 \<Longrightarrow> put16 (word_of_nat w) tmp = tmp @ word_bytes w"
proof -
  assume w: "w < 65536"
  then have u: "unat (word_of_nat w :: u32) = w" by (simp add: unat_of_nat)
  have "ucast (word_of_nat w :: u32) = (word_of_nat w :: u8)"
    by (rule word_unat_eq_iff [THEN iffD2]) (simp add: unsigned_ucast_eq u take_bit_eq_mod unat_u8_of_nat)
  moreover have "ucast (drop_bit 8 (word_of_nat w :: u32)) = (word_of_nat (w div 256) :: u8)"
    by (rule word_unat_eq_iff [THEN iffD2])
      (simp add: unsigned_ucast_eq unsigned_drop_bit_eq u take_bit_eq_mod drop_bit_eq_div unat_u8_of_nat unat_div)
  ultimately show ?thesis by (simp add: put16_def word_bytes_def)
qed

lemma pton6_colon:
  "r \<noteq> [] \<Longrightarrow> w < 65536 \<Longrightarrow> 0 < seen \<Longrightarrow> length tmp + 2 \<le> 16 \<Longrightarrow>
   pton6_loop (CHR '':'' # r) tmp cp tok seen (word_of_nat w) = pton6_loop r (tmp @ word_bytes w) cp r 0 0"
  by (simp add: put16_bytes)

lemma pton6_groups:
  assumes "ws \<noteq> []" "\<And>w. w \<in> set ws \<Longrightarrow> w < 65536" "length tmp + 2 * length ws \<le> 16" "r \<noteq> []"
  shows "pton6_loop (hexes ws @ '':'' @ r) tmp cp tok 0 0 = pton6_loop r (tmp @ bytes6 ws) cp r 0 0"
  using assms
proof (induction ws arbitrary: tmp tok)
  case (Cons w ws)
  then have w: "w < 65536" "0 < length (digits 16 w)" by simp_all
  show ?case
  proof (cases "ws = []")
    case True
    then show ?thesis using Cons.prems w by (simp add: pton6_hex pton6_colon del: pton6_loop.simps)
  next
    case False
    then have "pton6_loop (hexes (w # ws) @ '':'' @ r) tmp cp tok 0 0
        = pton6_loop (CHR '':'' # hexes ws @ '':'' @ r) tmp cp tok (length (digits 16 w)) (word_of_nat w)"
      using w by (simp add: pton6_hex hextail_cons del: pton6_loop.simps)
    also have "\<dots> = pton6_loop (hexes ws @ '':'' @ r) (tmp @ word_bytes w) cp (hexes ws @ '':'' @ r) 0 0"
      using Cons.prems w by (intro pton6_colon) auto
    also have "\<dots> = pton6_loop r ((tmp @ word_bytes w) @ bytes6 ws) cp r 0 0"
      using Cons.prems False by (intro Cons.IH) auto
    finally show ?thesis by simp
  qed
qed simp

definition stored :: "u8 list \<times> nat option \<times> nat \<times> u32 \<Rightarrow> u8 list \<Rightarrow> nat option \<Rightarrow> bool" where
  "stored r bs cp \<longleftrightarrow> (case r of (tmp, colonp, seen, val) \<Rightarrow>
     colonp = cp \<and> (if seen = 0 then tmp = bs else put16 val tmp = bs))"

lemma pton6_end:
  assumes "ws \<noteq> []" "\<And>w. w \<in> set ws \<Longrightarrow> w < 65536" "length tmp + 2 * length ws \<le> 16"
  shows "\<exists>res. pton6_loop (hexes ws) tmp cp tok 0 0 = Some res \<and> stored res (tmp @ bytes6 ws) cp"
proof -
  obtain us w where ws: "ws = us @ [w]" using assms(1) by (cases ws rule: rev_cases) auto
  have w: "w < 65536" using assms(2) ws by simp
  have "pton6_loop (hexes ws) tmp cp tok 0 0 = Some (tmp @ bytes6 us, cp, length (digits 16 w), word_of_nat w)"
  proof (cases "us = []")
    case True
    then show ?thesis using pton6_hex [OF w, of "[]" tmp cp tok] ws by simp
  next
    case False
    have "hexes ws = hexes us @ '':'' @ digits 16 w" using False ws by (cases us) auto
    then show ?thesis
      using pton6_groups [OF False, of tmp "digits 16 w" cp tok] assms ws pton6_hex [OF w, of "[]"] by simp
  qed
  then show ?thesis using w ws by (auto simp: stored_def put16_bytes)
qed

lemma shift_loop:
  assumes "c + n = length tmp" "length tmp < 16" "k \<le> n"
  shows "fold (shift_step c n) [1..<k + 1] (tmp @ replicate (16 - length tmp) 0)
    = take (length tmp - k) tmp @ replicate (16 - length tmp) 0 @ drop (length tmp - k) tmp"
  using assms(3)
proof (induction k)
  case (Suc k)
  let ?l = "length tmp"
  let ?x = "tmp ! (?l - Suc k)"
  define A where "A = take (?l - Suc k) tmp"
  define B where "B = drop (?l - k) tmp"
  have lk: "?l - k = Suc (?l - Suc k)" "?l - Suc k < ?l" using Suc.prems assms by auto
  have t: "take (?l - k) tmp = A @ [?x]" using lk by (simp add: A_def take_Suc_conv_app_nth)
  have d: "drop (?l - Suc k) tmp = ?x # B" using lk by (simp add: B_def Cons_nth_drop_Suc)
  have A: "length A = ?l - Suc k" by (simp add: A_def)
  have z: "replicate (16 - ?l) 0 = replicate (15 - ?l) (0 :: u8) @ [0]" "replicate (16 - ?l) 0 = (0 :: u8) # replicate (15 - ?l) 0"
  proof -
    have "16 - ?l = Suc (15 - ?l)" using assms(2) by simp
    then show "replicate (16 - ?l) 0 = replicate (15 - ?l) (0 :: u8) @ [0]"
      "replicate (16 - ?l) 0 = (0 :: u8) # replicate (15 - ?l) 0"
      by (simp_all only: replicate_append_same replicate_Suc)
  qed
  have "fold (shift_step c n) [1..<Suc k + 1] (tmp @ replicate (16 - ?l) 0)
      = shift_step c n (Suc k) ((A @ [?x]) @ (replicate (15 - ?l) 0 @ [0]) @ B)"
    using Suc assms by (simp add: t z(1) B_def)
  also have "\<dots> = A @ (0 # replicate (15 - ?l) 0) @ ?x # B"
  proof -
    have i: "16 - Suc k = length (A @ [?x] @ replicate (15 - ?l) 0)" "c + (n - Suc k) = length A"
      using A Suc.prems assms by auto
    show ?thesis unfolding shift_step_def i by (simp add: list_update_append nth_append)
  qed
  also have "\<dots> = take (?l - Suc k) tmp @ replicate (16 - ?l) 0 @ drop (?l - Suc k) tmp"
    unfolding z(2) d A_def ..
  finally show ?case .
qed simp

lemma pton6_finish_stored:
  assumes "stored r bs cp" "length bs \<le> 16" "case cp of None \<Rightarrow> length bs = 16 | Some c \<Rightarrow> c \<le> length bs \<and> length bs < 16"
  shows "pton6_finish r = (0, Some (case cp of None \<Rightarrow> bs
     | Some c \<Rightarrow> take c bs @ replicate (16 - length bs) 0 @ drop c bs))"
proof -
  obtain tmp seen val where r: "r = (tmp, cp, seen, val)" "(if seen = 0 then tmp else put16 val tmp) = bs"
    using assms(1) by (cases r) (auto simp: stored_def split: if_splits)
  have "seen = 0 \<or> length tmp + 2 \<le> 16" using r assms(2) by (auto simp: put16_def split: if_splits)
  then have f: "pton6_finish r = (case cp of
      None \<Rightarrow> if length bs \<noteq> 16 then (- EINVAL, None) else (0, Some bs)
    | Some c \<Rightarrow> if length bs = 16 then (- EINVAL, None)
        else (0, Some (fold (shift_step c (length bs - c)) [1..<length bs - c + 1] (bs @ replicate (16 - length bs) 0))))"
    using r unfolding pton6_finish_def Let_def by (cases cp) (auto split: if_splits)
  show ?thesis
  proof (cases cp)
    case None
    then show ?thesis using f assms by simp
  next
    case (Some c)
    then show ?thesis using f assms shift_loop [of c "length bs - c" bs "length bs - c"] by simp
  qed
qed

lemma pton6_digits10:
  assumes "n < 256"
  shows "\<exists>k v. 0 < k \<and> pton6_loop (digits 10 n @ r) tmp cp tok 0 0 = pton6_loop r tmp cp tok k v"
proof -
  have ds: "set (digits 10 n) \<subseteq> (!) digits_l ` {..<16}" "length (digits 10 n) \<le> 3"
    using assms by (auto simp: digits10)
  have step: "\<exists>v'. pton6_loop (ds @ r) tmp cp tok k v = pton6_loop r tmp cp tok (k + length ds) v'"
    if "set ds \<subseteq> (!) digits_l ` {..<16}" "k + length ds \<le> 4" for ds k v
    using that
  proof (induction ds arbitrary: k v)
    case (Cons c ds)
    then obtain d where d: "d < 16" "c = digits_l ! d" by auto
    then have "pton6_loop ((c # ds) @ r) tmp cp tok k v
        = pton6_loop (ds @ r) tmp cp tok (k + 1) (or (push_bit 4 v) (word_of_nat d))"
      using Cons.prems by (simp add: hex_digit)
    then show ?case
      using Cons.IH [of "k + 1" "or (push_bit 4 v) (word_of_nat d)"] Cons.prems by simp
  qed auto
  have "0 + length (digits 10 n) \<le> 4" using ds(2) by simp
  from step [OF ds(1) this, of 0] obtain v where
    "pton6_loop (digits 10 n @ r) tmp cp tok 0 0 = pton6_loop r tmp cp tok (length (digits 10 n)) v" by auto
  then show ?thesis by (intro exI [of _ "length (digits 10 n)"] exI [of _ v]) (simp del: pton6_loop.simps)
qed

lemma pton6_ipv4:
  assumes "length d = 4" "length tmp \<le> 12"
  shows "\<exists>v. pton6_loop (fmt4 d) tmp cp (fmt4 d) 0 0 = Some (tmp @ d, cp, 0, v)"
proof -
  obtain a b e f where d: "d = [a, b, e, f]" using length_4 [OF assms(1)] by blast
  obtain r where r: "fmt4 d = digits 10 (unat a) @ CHR ''.'' # r" by (simp add: d fmt4_def)
  obtain k v where "0 < k" "pton6_loop (fmt4 d) tmp cp (fmt4 d) 0 0 = pton6_loop (CHR ''.'' # r) tmp cp (fmt4 d) k v"
    using pton6_digits10 [of "unat a" "CHR ''.'' # r" tmp cp "fmt4 d"] r by auto
  then show ?thesis using assms(2) inet_pton4_fmt4 [of a b e f] by (simp add: d)
qed

lemma first_not_colon [simp]: "take 1 (digits 16 w @ r) = '':'' \<longleftrightarrow> False"
proof -
  have "hd (digits 16 w) \<in> set digits_l"
  proof (induction w rule: less_induct)
    case (less w)
    show ?case
    proof (cases "w < 16")
      case True
      then show ?thesis using digits_small [of w 16] less_16_cases [of w] by (auto simp: digits_l_def)
    next
      case False
      then show ?thesis using digits_step [of 16 w] less.IH [of "w div 16"] by simp
    qed
  qed
  then have "hd (digits 16 w) \<noteq> CHR '':''" by (auto simp: digits_l_def)
  then show ?thesis by (cases "digits 16 w") auto
qed

lemma inet_pton6_run:
  assumes "\<And>w. w \<in> set (a @ b) \<Longrightarrow> w < 65536" "length a + length b \<le> 6"
  shows "inet_pton6 (hexes a @ ''::'' @ hexes b)
    = (0, Some (bytes6 a @ replicate (16 - 2 * (length a + length b)) 0 @ bytes6 b))"
proof -
  let ?src = "hexes a @ ''::'' @ hexes b"
  let ?c = "length (bytes6 a)"
  have fin: "\<exists>r. pton6_loop (hexes b) (bytes6 a) (Some ?c) (hexes b) 0 0 = Some r \<and> stored r (bytes6 a @ bytes6 b) (Some ?c)"
  proof (cases "b = []")
    case True
    then show ?thesis by (simp add: stored_def)
  next
    case False
    then show ?thesis using pton6_end [OF False, of "bytes6 a" "Some ?c" "hexes b"] assms by simp
  qed
  have start: "pton6_loop (CHR '':'' # hexes b) (bytes6 a) None tok 0 0
      = pton6_loop (hexes b) (bytes6 a) (Some ?c) (hexes b) 0 0" for tok
    by simp
  obtain r where r: "stored r (bytes6 a @ bytes6 b) (Some ?c)" and
    loop: "inet_pton6 ?src = pton6_finish r"
  proof (cases "a = []")
    case True
    then show ?thesis using that fin start [of "CHR '':'' # hexes b"] by (auto simp: inet_pton6_def)
  next
    case False
    then have "pton6_loop ?src [] None ?src 0 0 = pton6_loop (CHR '':'' # hexes b) (bytes6 a) None (CHR '':'' # hexes b) 0 0"
      using pton6_groups [OF False, of "[]" "CHR '':'' # hexes b" None ?src] assms by simp
    moreover obtain w ws where "a = w # ws" using False by (cases a) auto
    then have "take 1 ?src \<noteq> '':''" using first_not_colon [of w "hextail ws @ ''::'' @ hexes b"] by simp
    ultimately show ?thesis using that fin start by (auto simp: inet_pton6_def)
  qed
  have "length (bytes6 a @ bytes6 b) < 16" using assms(2) by simp
  then show ?thesis using pton6_finish_stored [OF r] loop by (simp del: length_0_conv add: add_mult_distrib2)
qed

lemma inet_pton6_full:
  assumes "\<And>w. w \<in> set ws \<Longrightarrow> w < 65536" "length ws = 8"
  shows "inet_pton6 (hexes ws) = (0, Some (bytes6 ws))"
proof -
  obtain w ws' where w: "ws = w # ws'" using assms(2) by (cases ws) auto
  obtain r where "pton6_loop (hexes ws) [] None (hexes ws) 0 0 = Some r" "stored r (bytes6 ws) None"
    using pton6_end [of ws "[]" None "hexes ws"] assms w by auto
  moreover have "take 1 (hexes ws) \<noteq> '':''" using first_not_colon [of w "hextail ws'"] w by simp
  ultimately show ?thesis using pton6_finish_stored [of r "bytes6 ws" None] assms(2) by (simp add: inet_pton6_def)
qed

lemma inet_pton6_ipv4:
  assumes "a \<in> {[], [65535]}" "length d = 4"
  shows "inet_pton6 (''::'' @ concat (map (\<lambda>w. digits 16 w @ '':'') a) @ fmt4 d)
    = (0, Some (replicate (12 - 2 * length a) 0 @ bytes6 a @ d))"
proof -
  have ne: "fmt4 d \<noteq> []" by (simp add: fmt4_def)
  let ?t = "concat (map (\<lambda>w. digits 16 w @ '':'') a) @ fmt4 d"
  have "\<exists>v. pton6_loop ?t [] (Some 0) ?t 0 0 = Some (bytes6 a @ d, Some 0, 0, v)"
  proof (cases "a = []")
    case True
    then show ?thesis using pton6_ipv4 [OF assms(2), of "[]" "Some 0"] by simp
  next
    case False
    then have "a = [65535]" using assms(1) by simp
    moreover have "pton6_loop (hexes [65535] @ '':'' @ fmt4 d) [] (Some 0) ?t 0 0
        = pton6_loop (fmt4 d) ([] @ bytes6 [65535]) (Some 0) (fmt4 d) 0 0"
      using ne by (intro pton6_groups) auto
    ultimately show ?thesis using pton6_ipv4 [OF assms(2), of "bytes6 [65535]" "Some 0"] by simp
  qed
  then obtain v where "pton6_loop ?t [] (Some 0) ?t 0 0 = Some (bytes6 a @ d, Some 0, 0, v)" by blast
  moreover have "length (bytes6 a @ d) < 16" "length (bytes6 a @ d) = 4 + 2 * length a" using assms by auto
  ultimately show ?thesis
    using pton6_finish_stored [of "(bytes6 a @ d, Some 0, 0, v)" "bytes6 a @ d" "Some 0"]
    by (simp add: inet_pton6_def stored_def)
qed

lemma inet6_roundtrip:
  assumes "length src = 16"
  shows "\<exists>s. inet_ntop6 src 46 = (0, Some s) \<and> inet_pton6 s = (0, Some src)"
proof -
  let ?ws = "words6 src"
  note len = words6_bounds(1) [of src] and bound = words6_bounds(2) [of _ src]
  note src = bytes6_words6 [OF assms]
  from inet_ntop6_text [OF assms] obtain s where s: "inet_ntop6 src 46 = (0, Some s)" and
    "s = hexes ?ws
     \<or> (\<exists>a b n. ?ws = a @ replicate n 0 @ b \<and> 2 \<le> n \<and> s = hexes a @ ''::'' @ hexes b)
     \<or> (\<exists>a. ?ws = replicate (6 - length a) 0 @ a @ drop 6 ?ws \<and> a \<in> {[], [65535]} \<and>
           s = ''::'' @ concat (map (\<lambda>w. digits 16 w @ '':'') a) @ fmt4 (drop 12 src))" by blast
  then consider (full) "s = hexes ?ws"
    | (run) a b n where "?ws = a @ replicate n 0 @ b" "2 \<le> n" "s = hexes a @ ''::'' @ hexes b"
    | (ipv4) a where "?ws = replicate (6 - length a) 0 @ a @ drop 6 ?ws" "a \<in> {[], [65535]}"
        "s = ''::'' @ concat (map (\<lambda>w. digits 16 w @ '':'') a) @ fmt4 (drop 12 src)" by blast
  then have "inet_pton6 s = (0, Some src)"
  proof cases
    case full
    then show ?thesis using inet_pton6_full [OF bound len] src by simp
  next
    case run
    have l: "length a + length b = 8 - n" "n \<le> 8" using len run(1) by (auto dest!: arg_cong [where f = length])
    have "\<And>w. w \<in> set (a @ b) \<Longrightarrow> w < 65536" by (rule bound) (auto simp: run(1))
    then have "inet_pton6 s = (0, Some (bytes6 a @ replicate (16 - 2 * (8 - n)) 0 @ bytes6 b))"
      using inet_pton6_run [of a b] l run by simp
    moreover have "16 - 2 * (8 - n) = 2 * n" using l by simp
    ultimately show ?thesis using src unfolding run(1) by simp
  next
    case ipv4
    have l: "length a \<le> 1" "6 - length a + length a = 6" using ipv4(2) by auto
    have "src = bytes6 (replicate (6 - length a) 0 @ a @ drop 6 ?ws)" using src ipv4(1) by simp
    then have e: "src = replicate (12 - 2 * length a) 0 @ bytes6 a @ bytes6 (drop 6 ?ws)"
      by (simp add: diff_mult_distrib2)
    have "length (replicate (12 - 2 * length a) (0 :: u8) @ bytes6 a) = 12" using l by simp
    then have "drop 12 src = bytes6 (drop 6 ?ws)"
      by (subst e) (metis append.assoc take_drop_append_exact(2))
    then show ?thesis using inet_pton6_ipv4 [OF ipv4(2), of "drop 12 src"] assms ipv4(3) e len by simp
  qed
  then show ?thesis using s by blast
qed

section \<open>The public functions\<close>

lemma digits_set: "2 \<le> b \<Longrightarrow> b \<le> 16 \<Longrightarrow> set (digits b n) \<subseteq> set digits_l"
proof (induction n rule: less_induct)
  case (less n)
  have m: "digits_l ! k \<in> set digits_l" if "k < 16" for k using that by (intro nth_mem) (simp add: digits_l_def)
  show ?case
  proof (cases "n < b")
    case True
    then show ?thesis using m [of n] less.prems by (subst digits.simps) simp
  next
    case False
    have "n mod b < 16" using less.prems by (simp add: order_less_le_trans [of _ b])
    then show ?thesis using False m [of "n mod b"] less.prems less.IH [of "n div b"] digits_step [of b n] by simp
  qed
qed

lemma no_percent:
  assumes "length src = 16" "inet_ntop6 src 46 = (0, Some s)"
  shows "CHR ''%'' \<notin> set s"
proof -
  have d: "CHR ''%'' \<notin> set (digits b n)" if "b = 10 \<or> b = 16" for b n
  proof -
    have "set (digits b n) \<subseteq> set digits_l" using that by (intro digits_set) auto
    then show ?thesis by (auto simp: digits_l_def)
  qed
  then have "CHR ''%'' \<notin> set (hexes ws)" for ws
    by (cases ws) (auto simp: hextail_def)
  moreover have "CHR ''%'' \<notin> set (fmt4 x)" for x using d by (simp add: fmt4_def)
  ultimately show ?thesis using inet_ntop6_text [OF assms(1)] assms(2) d by auto
qed

text \<open>
  C28: Printing an address and parsing the text gives the address back, for every IPv4 and every
  IPv6 address (with its longest run of zero groups shortened to \<open>::\<close>, or an encapsulated
  IPv4 part), and printing never fails on buffers of the documented sizes.  IPv4 texts are
  moreover canonical: \<open>uv_inet_pton\<close> accepts a text exactly when it is what \<open>uv_inet_ntop\<close>
  prints for the parsed address.
\<close>
theorem uv_inet_roundtrip:
  assumes "af = AF_INET \<and> length a = 4 \<or> af = AF_INET6 \<and> length a = 16"
  shows "(\<exists>s. uv_inet_ntop af a UV__INET6_ADDRSTRLEN = (0, Some s) \<and> uv_inet_pton af (Some s) True = (0, Some a))
    \<and> (\<forall>s b. uv_inet_pton AF_INET (Some s) True = (0, Some b)
          \<longleftrightarrow> length b = 4 \<and> uv_inet_ntop AF_INET b UV__INET_ADDRSTRLEN = (0, Some s))"
proof
  show "\<forall>s b. uv_inet_pton AF_INET (Some s) True = (0, Some b)
          \<longleftrightarrow> length b = 4 \<and> uv_inet_ntop AF_INET b UV__INET_ADDRSTRLEN = (0, Some s)"
    by (simp add: uv_inet_pton_def uv_inet_ntop_def inet4_exact UV__INET_ADDRSTRLEN_def)
  show "\<exists>s. uv_inet_ntop af a UV__INET6_ADDRSTRLEN = (0, Some s) \<and> uv_inet_pton af (Some s) True = (0, Some a)"
    using assms
  proof
    assume 4: "af = AF_INET \<and> length a = 4"
    then have "inet_ntop4 a 46 = (0, Some (fmt4 a))" "inet_pton4 (fmt4 a) = (0, Some a)"
      using inet4_exact [of "fmt4 a" a] by (simp_all add: inet_ntop4_ok)
    then show ?thesis using 4 by (simp add: uv_inet_ntop_def uv_inet_pton_def UV__INET6_ADDRSTRLEN_def)
  next
    assume 6: "af = AF_INET6 \<and> length a = 16"
    with inet6_roundtrip [of a] obtain s where s: "inet_ntop6 a 46 = (0, Some s)" "inet_pton6 s = (0, Some a)" by blast
    with no_percent [of a s] 6 show ?thesis
      by (auto simp: uv_inet_ntop_def uv_inet_pton_def UV__INET6_ADDRSTRLEN_def AF_INET_def AF_INET6_def)
  qed
qed

lemma uv_inet_roundtrip_witness:
  "\<exists>s. uv_inet_ntop AF_INET6 (replicate 15 0 @ [1]) UV__INET6_ADDRSTRLEN = (0, Some s)
     \<and> uv_inet_pton AF_INET6 (Some s) True = (0, Some (replicate 15 0 @ [1]))"
  using uv_inet_roundtrip [of AF_INET6 "replicate 15 0 @ [1]"] by simp

end
