(* ===== verification/UvHeap.thy ===== *)
theory UvHeap
  imports UvBase "HOL-Library.Multiset"
begin

text \<open>
  The binary heap of \<open>third/libuv/src/heap-inl.h\<close>.  The tree is always complete, so a node's
  place is its position in level order: the root is 1, the children of \<open>p\<close> are \<open>2 * p\<close> and
  \<open>2 * p + 1\<close>, its parent is \<open>p div 2\<close>, and \<open>left\<close>, \<open>right\<close>, \<open>parent\<close> are null where there is
  no such position.  The heap is the list of its nodes in that order and \<open>nelts\<close> its length.
  Swapping two nodes exchanges their places, as \<open>heap_node_swap\<close> does with their pointers.

  The locale \<open>comparison\<close> is what the heap relies on of the client's \<open>less_than\<close>; inside it
  stand the laws the heap gives its clients (\<open>unix/timer.c\<close>).
\<close>

section \<open>Operations\<close>

type_synonym 'n heap = "'n list"

definition node_at :: "'n heap \<Rightarrow> nat \<Rightarrow> 'n" where
  "node_at h p = h ! (p - 1)"

definition heap_init :: "'n heap" where
  "heap_init = []"

definition heap_min :: "'n heap \<Rightarrow> 'n option" where
  "heap_min h = (if h = [] then None else Some (node_at h 1))"

definition heap_node_swap :: "nat \<Rightarrow> nat \<Rightarrow> 'n heap \<Rightarrow> 'n heap" where
  "heap_node_swap parent child h = h[parent - 1 := node_at h child, child - 1 := node_at h parent]"

text \<open>The path from the root to position \<open>n\<close>, and the walk along it.\<close>

fun path_loop :: "nat \<Rightarrow> nat \<Rightarrow> nat \<Rightarrow> nat \<times> nat" where
  "path_loop path k n = (if 2 \<le> n then path_loop (path * 2 + n mod 2) (k + 1) (n div 2) else (path, k))"

declare path_loop.simps [simp del]

fun walk_path :: "nat \<Rightarrow> nat \<Rightarrow> nat \<Rightarrow> nat" where
  "walk_path pos path 0 = pos"
| "walk_path pos path (Suc k) = walk_path (if path mod 2 = 1 then 2 * pos + 1 else 2 * pos) (path div 2) k"

function sift_up :: "('n \<Rightarrow> 'n \<Rightarrow> bool) \<Rightarrow> nat \<Rightarrow> 'n heap \<Rightarrow> 'n heap" where
  "sift_up lt p h =
     (if 1 < p \<and> lt (node_at h p) (node_at h (p div 2))
      then sift_up lt (p div 2) (heap_node_swap (p div 2) p h) else h)"
  by pat_completeness auto
termination by (relation "measure (\<lambda>(lt, p, h). p)") auto

declare sift_up.simps [simp del]

definition heap_insert :: "('n \<Rightarrow> 'n \<Rightarrow> bool) \<Rightarrow> 'n \<Rightarrow> 'n heap \<Rightarrow> 'n heap" where
  "heap_insert lt newnode h =
     (let (path, k) = path_loop 0 0 (1 + length h);
          pos = walk_path 1 path k
      in sift_up lt pos (take (pos - 1) h @ newnode # drop pos h))"

text \<open>The smallest of a node and its children.\<close>

definition smallest_of :: "('n \<Rightarrow> 'n \<Rightarrow> bool) \<Rightarrow> nat \<Rightarrow> 'n heap \<Rightarrow> nat" where
  "smallest_of lt child h =
     (let smallest = child;
          smallest = (if 2 * child \<le> length h \<and> lt (node_at h (2 * child)) (node_at h smallest)
                      then 2 * child else smallest)
      in if 2 * child + 1 \<le> length h \<and> lt (node_at h (2 * child + 1)) (node_at h smallest)
         then 2 * child + 1 else smallest)"

text \<open>The walk down; the result also has the place where it ends.\<close>

function sift_down :: "('n \<Rightarrow> 'n \<Rightarrow> bool) \<Rightarrow> nat \<Rightarrow> 'n heap \<Rightarrow> nat \<times> 'n heap" where
  "sift_down lt child h =
     (let smallest = smallest_of lt child h
      in if smallest = child \<or> child = 0 then (child, h)
         else sift_down lt smallest (heap_node_swap child smallest h))"
  by pat_completeness auto
termination
  by (relation "measure (\<lambda>(lt, p, h). length h - p)")
    (auto simp: smallest_of_def heap_node_swap_def Let_def split: if_splits)

declare sift_down.simps [simp del]

definition pos_of :: "'n \<Rightarrow> 'n heap \<Rightarrow> nat" where
  "pos_of node h = length (takeWhile (\<lambda>x. x \<noteq> node) h) + 1"

definition heap_remove :: "('n \<Rightarrow> 'n \<Rightarrow> bool) \<Rightarrow> 'n \<Rightarrow> 'n heap \<Rightarrow> 'n heap" where
  "heap_remove lt node h =
     (if h = [] then h
      else
        let (path, k) = path_loop 0 0 (length h);
            max = walk_path 1 path k;
            child = node_at h max;
            h' = take (max - 1) h
        in if child = node then h'
           else
             let (p, h') = sift_down lt (pos_of node h) (h'[pos_of node h - 1 := child])
             in sift_up lt p h')"

definition heap_dequeue :: "('n \<Rightarrow> 'n \<Rightarrow> bool) \<Rightarrow> 'n heap \<Rightarrow> 'n heap" where
  "heap_dequeue lt h = (case heap_min h of None \<Rightarrow> h | Some m \<Rightarrow> heap_remove lt m h)"

section \<open>The path leads to the position\<close>

lemma walk_path_append: "walk_path p (b * 2 ^ k + a) (k + m) = walk_path (walk_path p a k) b m" if "a < 2 ^ k"
  using that
proof (induction k arbitrary: p a)
  case (Suc k)
  have "a div 2 < 2 ^ k" using Suc.prems by simp
  moreover have "(b * 2 ^ Suc k + a) div 2 = b * 2 ^ k + a div 2" "(b * 2 ^ Suc k + a) mod 2 = a mod 2"
  proof -
    have e: "b * 2 ^ Suc k + a = a + 2 * (b * 2 ^ k)" by simp
    show "(b * 2 ^ Suc k + a) div 2 = b * 2 ^ k + a div 2" "(b * 2 ^ Suc k + a) mod 2 = a mod 2"
      unfolding e by simp_all
  qed
  ultimately show ?case by (simp only: walk_path.simps add_Suc Suc.IH)
qed simp

text \<open>The bits of \<open>n\<close> below the leading one are collected with the highest bit last in.\<close>

lemma path_loop_leads:
  assumes "0 < n" "path < 2 ^ k"
  shows "\<exists>b m. path_loop path k n = (path * 2 ^ m + b, k + m) \<and> b < 2 ^ m \<and> walk_path 1 b m = n"
  using assms
proof (induction n arbitrary: path k rule: less_induct)
  case (less n)
  show ?case
  proof (cases "2 \<le> n")
    case False
    then show ?thesis using less.prems by (intro exI [of _ 0]) (simp add: path_loop.simps)
  next
    case True
    have "path * 2 + n mod 2 < 2 ^ (k + 1)" 
    proof -
      have "n mod 2 < 2" by simp
      then show ?thesis using less.prems(2) unfolding power_add power_one_right by linarith
    qed
    with less.IH [of "n div 2" "path * 2 + n mod 2" "k + 1"] True obtain b m where
      b: "path_loop (path * 2 + n mod 2) (k + 1) (n div 2) = ((path * 2 + n mod 2) * 2 ^ m + b, k + 1 + m)"
        "b < 2 ^ m" "walk_path 1 b m = n div 2" by auto
    let ?c = "n mod 2 * 2 ^ m + b"
    have "walk_path 1 ?c (m + 1) = n"
      using walk_path_append [OF b(2), of 1 "n mod 2" 1] b(3) by (auto simp: mod2_eq_if)
    moreover have "?c < 2 ^ (m + 1)" using b(2) by (cases "n mod 2 = 0") auto
    moreover have "path_loop path k n = (path * 2 ^ (m + 1) + ?c, k + (m + 1))"
      using True b(1) by (subst path_loop.simps) (simp add: algebra_simps)
    ultimately show ?thesis by blast
  qed
qed

lemma path_leads: "0 < n \<Longrightarrow> (case path_loop 0 0 n of (path, k) \<Rightarrow> walk_path 1 path k) = n"
  using path_loop_leads [of n 0 0] by auto

section \<open>The order of the heap\<close>

locale comparison =
  fixes lt :: "'n \<Rightarrow> 'n \<Rightarrow> bool"
  assumes asym: "lt a b \<Longrightarrow> \<not> lt b a"
    and negtrans: "\<not> lt b a \<Longrightarrow> \<not> lt c b \<Longrightarrow> \<not> lt c a"

definition edge_ok :: "('n \<Rightarrow> 'n \<Rightarrow> bool) \<Rightarrow> 'n heap \<Rightarrow> nat \<Rightarrow> nat \<Rightarrow> bool" where
  "edge_ok lt h q p \<longleftrightarrow> \<not> lt (node_at h p) (node_at h q)"

definition heap_ok :: "('n \<Rightarrow> 'n \<Rightarrow> bool) \<Rightarrow> 'n heap \<Rightarrow> bool" where
  "heap_ok lt h \<longleftrightarrow> (\<forall>p. 2 \<le> p \<longrightarrow> p \<le> length h \<longrightarrow> edge_ok lt h (p div 2) p)"

text \<open>
  \<open>above_open\<close>: only the edge above \<open>i\<close> may be wrong.  \<open>around_open\<close>: only the edges at \<open>i\<close>
  may be.  In both, the children of \<open>i\<close> fit below its parent.
\<close>

definition bridged :: "('n \<Rightarrow> 'n \<Rightarrow> bool) \<Rightarrow> nat \<Rightarrow> 'n heap \<Rightarrow> bool" where
  "bridged lt i h \<longleftrightarrow> (\<forall>p. p \<le> length h \<longrightarrow> p div 2 = i \<longrightarrow> 1 < i \<longrightarrow> edge_ok lt h (i div 2) p)"

definition above_open :: "('n \<Rightarrow> 'n \<Rightarrow> bool) \<Rightarrow> nat \<Rightarrow> 'n heap \<Rightarrow> bool" where
  "above_open lt i h \<longleftrightarrow> bridged lt i h
     \<and> (\<forall>p. 2 \<le> p \<longrightarrow> p \<le> length h \<longrightarrow> p \<noteq> i \<longrightarrow> edge_ok lt h (p div 2) p)"

definition around_open :: "('n \<Rightarrow> 'n \<Rightarrow> bool) \<Rightarrow> nat \<Rightarrow> 'n heap \<Rightarrow> bool" where
  "around_open lt i h \<longleftrightarrow> bridged lt i h
     \<and> (\<forall>p. 2 \<le> p \<longrightarrow> p \<le> length h \<longrightarrow> p \<noteq> i \<longrightarrow> p div 2 \<noteq> i \<longrightarrow> edge_ok lt h (p div 2) p)"

lemma node_at_swap:
  assumes "0 < a" "0 < b" "a \<le> length h" "b \<le> length h" "0 < p" "p \<le> length h"
  shows "node_at (heap_node_swap a b h) p = (if p = a then node_at h b else if p = b then node_at h a else node_at h p)"
  using assms by (auto simp: node_at_def heap_node_swap_def nth_list_update)

lemma swap_shape [simp]: "length (heap_node_swap a b h) = length h"
  by (simp add: heap_node_swap_def)

lemma swap_mset:
  "0 < a \<Longrightarrow> 0 < b \<Longrightarrow> a \<le> length h \<Longrightarrow> b \<le> length h \<Longrightarrow> mset (heap_node_swap a b h) = mset h"
  by (simp add: heap_node_swap_def node_at_def mset_swap)

lemma sift_up_contents:
  "0 < i \<Longrightarrow> i \<le> length h \<Longrightarrow> mset (sift_up lt i h) = mset h \<and> length (sift_up lt i h) = length h"
proof (induction lt i h rule: sift_up.induct)
  case (1 lt i h)
  show ?case
  proof (cases "1 < i \<and> lt (node_at h i) (node_at h (i div 2))")
    case True
    then have "0 < i div 2" "i div 2 \<le> length h" using "1.prems" by auto
    then show ?thesis using "1.IH" [OF True] "1.prems" True sift_up.simps [of lt i h] by (simp add: swap_mset)
  next
    case False
    then have "sift_up lt i h = h" by (subst sift_up.simps) auto
    then show ?thesis by simp
  qed
qed

lemma smallest_of_bounds: "smallest_of lt i h \<in> {i, 2 * i, 2 * i + 1}"
  "smallest_of lt i h \<noteq> i \<Longrightarrow> smallest_of lt i h \<le> length h"
  by (auto simp: smallest_of_def Let_def)

lemma sift_down_contents:
  "0 < i \<Longrightarrow> i \<le> length h \<Longrightarrow> sift_down lt i h = (j, h') \<Longrightarrow>
     mset h' = mset h \<and> length h' = length h \<and> 0 < j \<and> j \<le> length h"
proof (induction lt i h rule: sift_down.induct)
  case (1 lt i h)
  let ?s = "smallest_of lt i h"
  show ?case
  proof (cases "?s = i")
    case True
    then show ?thesis using "1.prems" by (subst (asm) sift_down.simps) (auto simp: Let_def)
  next
    case False
    then have s: "0 < ?s" "?s \<le> length h" using smallest_of_bounds [of lt i h] "1.prems" by auto
    have "sift_down lt ?s (heap_node_swap i ?s h) = (j, h')"
      using "1.prems" False by (subst (asm) sift_down.simps) (simp add: Let_def)
    then show ?thesis using "1.IH" [OF refl] False "1.prems" s by (simp add: swap_mset)
  qed
qed

context comparison
begin

lemma irrefl: "\<not> lt a a"
  using asym by blast

lemma sift_up_heap: "0 < i \<Longrightarrow> i \<le> length h \<Longrightarrow> above_open lt i h \<Longrightarrow> heap_ok lt (sift_up lt i h)"
proof (induction i arbitrary: h rule: less_induct)
  case (less i)
  let ?q = "i div 2" and ?h = "heap_node_swap (i div 2) i h"
  show ?case
  proof (cases "1 < i \<and> lt (node_at h i) (node_at h ?q)")
    case True
    then have q: "0 < ?q" "?q \<le> length h" "?q \<noteq> i" using less.prems by auto
    have at: "node_at ?h p = (if p = ?q then node_at h i else if p = i then node_at h ?q else node_at h p)"
      if "0 < p" "p \<le> length h" for p
      using node_at_swap [of ?q i h p] that q less.prems by simp
    have old: "\<not> lt (node_at h p) (node_at h (p div 2))" if "2 \<le> p" "p \<le> length h" "p \<noteq> i" for p
      using less.prems(3) that by (simp add: above_open_def edge_ok_def)
    have br: "\<not> lt (node_at h p) (node_at h ?q)" if "p div 2 = i" "p \<le> length h" for p
      using less.prems(3) that True by (simp add: above_open_def bridged_def edge_ok_def)
    have sib: "\<not> lt (node_at h p) (node_at h i)" if "p div 2 = ?q" "2 \<le> p" "p \<le> length h" "p \<noteq> i" for p
      using old [of p] that negtrans [of "node_at h ?q" "node_at h i" "node_at h p"] True asym by metis
    have "above_open lt ?q ?h"
      unfolding above_open_def bridged_def
    proof (intro conjI allI impI)
      fix p assume p: "p \<le> length ?h" "p div 2 = ?q" "1 < ?q"
      then have b: "0 < p" "p \<noteq> ?q" "?q div 2 \<noteq> ?q" "?q div 2 \<noteq> i" "0 < ?q div 2" "?q div 2 \<le> length h" "2 \<le> p"
        using q by auto
      have gq: "\<not> lt (node_at h ?q) (node_at h (?q div 2))" using old [of ?q] p q by simp
      have "\<not> lt (node_at h p) (node_at h (?q div 2))" if "p \<noteq> i"
        using old [of p] that p b negtrans [OF gq] by simp
      then show "edge_ok lt ?h (?q div 2) p" using gq b p at [of p] at [of "?q div 2"] by (simp add: edge_ok_def)
    next
      fix p assume p: "2 \<le> p" "p \<le> length ?h" "p \<noteq> ?q"
      then have b: "0 < p" "0 < p div 2" "p div 2 \<le> length h" "p div 2 \<noteq> p" by auto
      show "edge_ok lt ?h (p div 2) p"
      proof (cases "p = i")
        case True
        then show ?thesis using at [of p] at [of ?q] b p q \<open>1 < i \<and> _\<close> asym by (simp add: edge_ok_def)
      next
        case False
        then show ?thesis using at [of p] at [of "p div 2"] b p old [of p] br [of p] sib [of p]
          by (simp add: edge_ok_def)
      qed
    qed
    then show ?thesis using less.IH [of ?q ?h] q True sift_up.simps [of lt i h] by simp
  next
    case False
    then have "sift_up lt i h = h" by (subst sift_up.simps) auto
    moreover have "edge_ok lt h (i div 2) i" if "2 \<le> i" using False that by (auto simp: edge_ok_def)
    ultimately show ?thesis using less.prems(3) by (auto simp: above_open_def heap_ok_def)
  qed
qed

end

context comparison
begin

lemma lt_le_trans: "lt a b \<Longrightarrow> \<not> lt c b \<Longrightarrow> \<not> lt c a"
  using asym negtrans by blast

lemma smallest_of_least:
  assumes "p div 2 = i" "2 \<le> p" "p \<le> length h"
  shows "\<not> lt (node_at h p) (node_at h (smallest_of lt i h))"
proof -
  define s where "s = (if 2 * i \<le> length h \<and> lt (node_at h (2 * i)) (node_at h i) then 2 * i else i)"
  have s: "smallest_of lt i h = (if 2 * i + 1 \<le> length h \<and> lt (node_at h (2 * i + 1)) (node_at h s) then 2 * i + 1 else s)"
    by (simp only: smallest_of_def Let_def s_def)
  have left: "2 * i \<le> length h \<Longrightarrow> \<not> lt (node_at h (2 * i)) (node_at h s)"
    unfolding s_def using irrefl by presburger
  consider "p = 2 * i" | "p = 2 * i + 1" using assms by linarith
  then show ?thesis
  proof cases
    case 1
    then have l: "\<not> lt (node_at h p) (node_at h s)" using left assms(3) by simp
    show ?thesis unfolding s using l lt_le_trans [OF _ l] by presburger
  next
    case 2
    then show ?thesis unfolding s using assms(3) irrefl [of "node_at h p"] by simp
  qed
qed

lemma sift_down_step:
  assumes "0 < i" "i \<le> length h" "around_open lt i h" "s = smallest_of lt i h" "s \<noteq> i"
  shows "around_open lt s (heap_node_swap i s h)"
proof -
  let ?h = "heap_node_swap i s h"
  have s: "s = 2 * i \<or> s = 2 * i + 1" "s \<le> length h"
    using smallest_of_bounds [of lt i h] assms(4,5) by auto
  have sd: "s div 2 = i" "0 < s" using s(1) assms(1) by auto
  have at: "node_at ?h p = (if p = i then node_at h s else if p = s then node_at h i else node_at h p)"
    if "0 < p" "p \<le> length h" for p
    using node_at_swap [of i s h p] that s sd assms by simp
  have old: "edge_ok lt h (p div 2) p" if "2 \<le> p" "p \<le> length h" "p \<noteq> i" "p div 2 \<noteq> i" for p
    using assms(3) that by (simp add: around_open_def)
  have br: "edge_ok lt h (i div 2) p" if "p div 2 = i" "p \<le> length h" "1 < i" for p
    using assms(3) that by (simp add: around_open_def bridged_def)
  show ?thesis
    unfolding around_open_def bridged_def
  proof (intro conjI allI impI)
    fix p assume p: "p \<le> length ?h" "p div 2 = s" "1 < s"
    then have "edge_ok lt h s p" "0 < p" "p \<noteq> i" "p \<noteq> s" using old [of p] s sd assms(1) by auto
    then show "edge_ok lt ?h (s div 2) p" using at [of p] at [of i] p assms(1,2) by (simp add: edge_ok_def sd)
  next
    fix p assume p: "2 \<le> p" "p \<le> length ?h" "p \<noteq> s" "p div 2 \<noteq> s"
    then have b: "0 < p" "0 < p div 2" "p div 2 \<le> length h" by auto
    consider (i) "p = i" | (child) "p div 2 = i" | (other) "p \<noteq> i" "p div 2 \<noteq> i" by blast
    then show "edge_ok lt ?h (p div 2) p"
    proof cases
      case i
      then have "edge_ok lt h (i div 2) s" using br [of s] s sd p by simp
      moreover have "i div 2 \<noteq> i" "i div 2 \<noteq> s" using p i sd by auto
      ultimately show ?thesis using i at [of i] at [of "i div 2"] b p assms by (simp add: edge_ok_def)
    next
      case child
      then have "p \<noteq> i" using p by auto
      then show ?thesis
        using child smallest_of_least [OF child p(1)] at [of p] at [of i] p b assms by (simp add: edge_ok_def)
    next
      case other
      then show ?thesis using old [of p] at [of p] at [of "p div 2"] p b by (simp add: edge_ok_def)
    qed
  qed
qed

lemma sift_down_heap:
  "0 < i \<Longrightarrow> i \<le> length h \<Longrightarrow> around_open lt i h \<Longrightarrow> sift_down lt i h = (j, h') \<Longrightarrow> above_open lt j h'"
proof (induction "length h - i" arbitrary: i h rule: less_induct)
  case less
  let ?s = "smallest_of lt i h"
  show ?case
  proof (cases "?s = i")
    case True
    then have "j = i" "h' = h" using less.prems(4) by (simp_all add: sift_down.simps [of lt i h] Let_def)
    moreover have "edge_ok lt h (p div 2) p" if "2 \<le> p" "p \<le> length h" "p \<noteq> i" for p
    proof (cases "p div 2 = i")
      case True
      then show ?thesis using smallest_of_least [of p i h] that \<open>?s = i\<close> by (simp add: edge_ok_def)
    next
      case False
      then show ?thesis using less.prems(3) that by (simp add: around_open_def)
    qed
    ultimately show ?thesis using less.prems(3) by (auto simp: around_open_def above_open_def)
  next
    case False
    have s: "?s \<le> length h" "i < ?s"
      using smallest_of_bounds [of lt i h] False less.prems(1) by auto
    have "sift_down lt ?s (heap_node_swap i ?s h) = (j, h')"
      using less.prems(1,4) False sift_down.simps [of lt i h] by (simp add: Let_def)
    then show ?thesis
      using less.hyps [of "heap_node_swap i ?s h" ?s] sift_down_step [OF less.prems(1-3) refl False] s less.prems
      by simp
  qed
qed

end

section \<open>The operations keep a heap\<close>

lemma node_at_append: "0 < p \<Longrightarrow> p \<le> length h \<Longrightarrow> node_at (h @ g) p = node_at h p"
  by (auto simp: node_at_def nth_append)

lemma heap_insert_eq: "heap_insert lt x h = sift_up lt (length h + 1) (h @ [x])"
  using path_leads [of "1 + length h"] by (cases "path_loop 0 0 (1 + length h)") (simp add: heap_insert_def)

lemma heap_insert_mset: "mset (heap_insert lt x h) = add_mset x (mset h)"
  using sift_up_contents [of "length h + 1" "h @ [x]" lt] by (simp add: heap_insert_eq)

lemma pos_of_mem: "x \<in> set h \<Longrightarrow> 0 < pos_of x h \<and> pos_of x h \<le> length h \<and> node_at h (pos_of x h) = x"
proof -
  assume "x \<in> set h"
  then have "length (takeWhile (\<lambda>y. y \<noteq> x) h) < length h" by (metis (mono_tags) length_takeWhile_le order_le_less takeWhile_eq_all_conv takeWhile_eq_take take_all_iff order_refl)
  then show ?thesis using nth_length_takeWhile [of "\<lambda>y. y \<noteq> x" h] by (simp add: pos_of_def node_at_def)
qed

lemma remove_form:
  assumes "x \<in> set h" "distinct h"
  shows "heap_remove lt x h =
    (if last h = x then butlast h
     else case sift_down lt (pos_of x h) ((butlast h)[pos_of x h - 1 := last h]) of (p, h') \<Rightarrow> sift_up lt p h')"
    and "last h \<noteq> x \<Longrightarrow> 0 < pos_of x h \<and> pos_of x h \<le> length (butlast h)"
proof -
  have ne: "h \<noteq> []" using assms(1) by auto
  have l: "node_at h (length h) = last h" using ne by (simp add: node_at_def last_conv_nth)
  show "heap_remove lt x h =
    (if last h = x then butlast h
     else case sift_down lt (pos_of x h) ((butlast h)[pos_of x h - 1 := last h]) of (p, h') \<Rightarrow> sift_up lt p h')"
    using path_leads [of "length h"] ne l by (auto simp: heap_remove_def Let_def butlast_conv_take split: prod.splits)
  assume "last h \<noteq> x"
  then have "pos_of x h \<noteq> length h" using pos_of_mem [OF assms(1)] l by auto
  then show "0 < pos_of x h \<and> pos_of x h \<le> length (butlast h)" using pos_of_mem [OF assms(1)] by auto
qed

lemma mset_replace_last:
  assumes "0 < p" "p \<le> length (butlast h)" "node_at h p = x"
  shows "mset ((butlast h)[p - 1 := last h]) = mset h - {#x#}"
proof -
  have h: "h = butlast h @ [last h]" using assms by (intro append_butlast_last_id [symmetric]) auto
  have x: "butlast h ! (p - 1) = x" using assms by (simp add: node_at_def nth_butlast)
  have "mset ((butlast h)[p - 1 := last h]) = add_mset (last h) (mset (butlast h) - {#x#})"
    using assms x by (simp add: mset_update)
  moreover have "x \<in># mset (butlast h)" using x assms by (metis Suc_pred' length_pos_if_in_set less_eq_Suc_le nth_mem set_mset_mset Suc_le_lessD)
  moreover have "mset h = add_mset (last h) (mset (butlast h))" by (subst h) simp
  ultimately show ?thesis by simp
qed

lemma heap_remove_mset:
  assumes "x \<in> set h" "distinct h"
  shows "mset (heap_remove lt x h) = mset h - {#x#}"
proof (cases "last h = x")
  case True
  have "h = butlast h @ [last h]" using assms by (intro append_butlast_last_id [symmetric]) auto
  then have "mset h = add_mset x (mset (butlast h))" using True by (metis union_mset_add_mset_right mset_append mset_single_iff_right add_mset_add_single mset.simps)
  then show ?thesis using True by (simp add: remove_form [OF assms])
next
  case False
  obtain p h' where d: "sift_down lt (pos_of x h) ((butlast h)[pos_of x h - 1 := last h]) = (p, h')" by fastforce
  note b = remove_form(2) [OF assms False]
  note c = sift_down_contents [OF _ _ d]
  have "mset (heap_remove lt x h) = mset ((butlast h)[pos_of x h - 1 := last h])"
    using c b sift_up_contents [of p h' lt] False d by (simp add: remove_form [OF assms])
  then show ?thesis using mset_replace_last [of "pos_of x h" h x] b pos_of_mem [OF assms(1)] by simp
qed

context comparison
begin

lemma heap_insert_ok:
  assumes "heap_ok lt h"
  shows "heap_ok lt (heap_insert lt x h)"
proof -
  have "above_open lt (length h + 1) (h @ [x])"
    unfolding above_open_def bridged_def
  proof (intro conjI allI impI)
    fix p assume "p \<le> length (h @ [x])" "p div 2 = length h + 1" "1 < length h + 1"
    then show "edge_ok lt (h @ [x]) ((length h + 1) div 2) p" by simp
  next
    fix p assume "2 \<le> p" "p \<le> length (h @ [x])" "p \<noteq> length h + 1"
    then have "2 \<le> p" "p \<le> length h" "0 < p div 2" "p div 2 \<le> length h" by auto
    then show "edge_ok lt (h @ [x]) (p div 2) p"
      using assms by (auto simp: heap_ok_def edge_ok_def node_at_append)
  qed
  then show ?thesis using sift_up_heap [of "length h + 1" "h @ [x]"] by (simp add: heap_insert_eq)
qed

lemma heap_ok_butlast: "heap_ok lt h \<Longrightarrow> heap_ok lt (butlast h)"
  by (auto simp: heap_ok_def edge_ok_def node_at_def nth_butlast)

lemma heap_remove_ok:
  assumes "heap_ok lt h" "x \<in> set h" "distinct h"
  shows "heap_ok lt (heap_remove lt x h)"
proof (cases "last h = x")
  case True
  then show ?thesis using heap_ok_butlast [OF assms(1)] by (simp add: remove_form [OF assms(2,3)])
next
  case False
  let ?i = "pos_of x h"
  let ?g = "(butlast h)[?i - 1 := last h]"
  note b = remove_form(2) [OF assms(2,3) False]
  have same: "node_at ?g p = node_at (butlast h) p" if "p \<noteq> ?i" "0 < p" for p
  proof -
    have "?i - 1 \<noteq> p - 1" using that b by auto
    then show ?thesis by (simp add: node_at_def)
  qed
  note ok = heap_ok_butlast [OF assms(1)]
  have "around_open lt ?i ?g"
    unfolding around_open_def bridged_def
  proof (intro conjI allI impI)
    fix p assume p: "p \<le> length ?g" "p div 2 = ?i" "1 < ?i"
    then have "2 \<le> p" "2 \<le> ?i" "?i div 2 \<noteq> ?i" "p \<noteq> ?i" by auto
    then have "edge_ok lt (butlast h) ?i p" "edge_ok lt (butlast h) (?i div 2) ?i"
      using ok p b by (auto simp: heap_ok_def)
    then have "edge_ok lt (butlast h) (?i div 2) p" using negtrans by (auto simp: edge_ok_def)
    then show "edge_ok lt ?g (?i div 2) p"
      using same [of p] same [of "?i div 2"] p \<open>2 \<le> p\<close> \<open>2 \<le> ?i\<close> \<open>?i div 2 \<noteq> ?i\<close> \<open>p \<noteq> ?i\<close>
      by (simp add: edge_ok_def)
  next
    fix p assume p: "2 \<le> p" "p \<le> length ?g" "p \<noteq> ?i" "p div 2 \<noteq> ?i"
    then have "edge_ok lt (butlast h) (p div 2) p" using ok by (auto simp: heap_ok_def)
    then show "edge_ok lt ?g (p div 2) p" using same [of p] same [of "p div 2"] p by (simp add: edge_ok_def)
  qed
  moreover obtain p h' where d: "sift_down lt ?i ?g = (p, h')" by fastforce
  ultimately have "above_open lt p h'" using sift_down_heap [of ?i ?g p h'] b by simp
  moreover have "0 < p" "p \<le> length h'" using sift_down_contents [OF _ _ d] b by auto
  ultimately show ?thesis using sift_up_heap d False by (simp add: remove_form [OF assms(2,3)])
qed

lemma root_least:
  assumes "heap_ok lt h" "0 < p" "p \<le> length h"
  shows "\<not> lt (node_at h p) (node_at h 1)"
  using assms(2,3)
proof (induction p rule: less_induct)
  case (less p)
  show ?case
  proof (cases "p = 1")
    case False
    then have "p div 2 < p" "0 < p div 2" "2 \<le> p" using less.prems by auto
    then have "\<not> lt (node_at h (p div 2)) (node_at h 1)" "\<not> lt (node_at h p) (node_at h (p div 2))"
      using less.IH [of "p div 2"] less.prems assms(1) by (auto simp: heap_ok_def edge_ok_def)
    then show ?thesis by (rule negtrans)
  qed (simp add: irrefl)
qed

lemma heap_min_least: "heap_ok lt h \<Longrightarrow> heap_min h = Some m \<Longrightarrow> x \<in> set h \<Longrightarrow> \<not> lt x m"
  using root_least [of h "_ + 1"] by (auto simp: heap_min_def in_set_conv_nth node_at_def split: if_splits)

end

lemma heap_min_mem: "heap_min h = Some m \<Longrightarrow> m \<in> set h"
  by (auto simp: heap_min_def node_at_def split: if_splits)

lemma heap_min_None [simp]: "heap_min h = None \<longleftrightarrow> h = []"
  by (simp add: heap_min_def)

end
