(* ===== verification/UvFd.thy ===== *)
theory UvFd
  imports UvBase
begin

text \<open>
  The descriptor functions of \<open>third/libuv/src/unix/core.c\<close>: \<open>uv__socket\<close>, \<open>uv__accept\<close>,
  \<open>uv__close\<close>, \<open>uv__nonblock\<close>, \<open>uv__cloexec\<close>, \<open>uv__dup\<close>, \<open>uv__dup2_cloexec\<close>,
  \<open>uv__open_cloexec\<close>, \<open>uv__open_file\<close>, \<open>uv__recvmsg\<close>, \<open>uv_disable_stdio_inheritance\<close>.

  The kernel's table is the list of open descriptors with their close-on-exec and non-blocking
  flags; a new descriptor is the lowest free one.  Each system call takes the next number of the
  script: \<open>0\<close> is success, another number fails the call with that \<open>errno\<close>.  The fields
  \<open>no_*\<close> are the functions' static variables.
\<close>

section \<open>The kernel's descriptor table\<close>

record kern =
  opened :: "nat list"
  cloexec :: "nat set"
  nonblk :: "nat set"
  errno :: int
  no_accept4 :: bool
  no_cloexec :: bool
  no_dup3 :: bool
  no_msg_cmsg_cloexec :: bool

type_synonym script = "int list"

definition lowest_fd :: "nat list \<Rightarrow> nat" where
  "lowest_fd l = (case find (\<lambda>n. n \<notin> set l) [0..<Suc (length l)] of Some n \<Rightarrow> n | None \<Rightarrow> 0)"

lemma lowest_fd_fresh: "lowest_fd l \<notin> set l"
proof -
  have "\<not> set [0..<Suc (length l)] \<subseteq> set l"
  proof
    assume "set [0..<Suc (length l)] \<subseteq> set l"
    then have "{0..<Suc (length l)} \<subseteq> set l" by (simp only: set_upt)
    then have "card {0..<Suc (length l)} \<le> card (set l)" by (intro card_mono) auto
    then show False using card_length [of l] by simp
  qed
  then have "find (\<lambda>n. n \<notin> set l) [0..<Suc (length l)] \<noteq> None" by (auto simp: find_None_iff)
  then obtain n where n: "find (\<lambda>n. n \<notin> set l) [0..<Suc (length l)] = Some n" by blast
  then have "n \<notin> set l" by (auto simp: find_Some_iff)
  then show ?thesis unfolding lowest_fd_def n by simp
qed

text \<open>A new descriptor with the given flags.\<close>

definition install :: "nat \<Rightarrow> bool \<Rightarrow> bool \<Rightarrow> kern \<Rightarrow> kern" where
  "install fd ce nb k = k\<lparr>opened := fd # removeAll fd (opened k),
     cloexec := (if ce then insert fd (cloexec k) else cloexec k - {fd}),
     nonblk := (if nb then insert fd (nonblk k) else nonblk k - {fd})\<rparr>"

definition fail :: "int \<Rightarrow> kern \<Rightarrow> kern" where
  "fail e k = k\<lparr>errno := e\<rparr>"

section \<open>Flags and closing\<close>

text \<open>The loop around \<open>ioctl\<close>; the result is \<open>0\<close> or \<open>-errno\<close>.\<close>

fun ioctl_loop :: "(kern \<Rightarrow> kern) \<Rightarrow> script \<Rightarrow> kern \<Rightarrow> (int \<times> script \<times> kern) option" where
  "ioctl_loop f [] k = None"
| "ioctl_loop f (e # es) k =
     (if e = 0 then Some (0, es, f k)
      else if e = EINTR then ioctl_loop f es (fail e k)
      else Some (- e, es, fail e k))"

definition uv__nonblock :: "nat \<Rightarrow> bool \<Rightarrow> script \<Rightarrow> kern \<Rightarrow> (int \<times> script \<times> kern) option" where
  "uv__nonblock fd set_it = ioctl_loop
     (\<lambda>k. k\<lparr>nonblk := (if set_it then insert fd (nonblk k) else nonblk k - {fd})\<rparr>)"

definition uv__cloexec :: "nat \<Rightarrow> bool \<Rightarrow> script \<Rightarrow> kern \<Rightarrow> (int \<times> script \<times> kern) option" where
  "uv__cloexec fd set_it = ioctl_loop
     (\<lambda>k. k\<lparr>cloexec := (if set_it then insert fd (cloexec k) else cloexec k - {fd})\<rparr>)"

text \<open>
  \<open>close\<close> releases the descriptor even when it reports an error.  \<open>uv__close\<close> refuses
  the standard streams.
\<close>

definition uv__close_nocheckstdio :: "nat \<Rightarrow> script \<Rightarrow> kern \<Rightarrow> (int \<times> script \<times> kern) option" where
  "uv__close_nocheckstdio fd es k =
     (case es of
        [] \<Rightarrow> None
      | e # es \<Rightarrow>
          let saved_errno = errno k;
              k = k\<lparr>opened := removeAll fd (opened k), cloexec := cloexec k - {fd}, nonblk := nonblk k - {fd}\<rparr>
          in if e = 0 then Some (0, es, k)
             else Some (if - e = - EINTR then - EINPROGRESS else - e, es, (fail e k)\<lparr>errno := saved_errno\<rparr>))"

definition uv__close :: "nat \<Rightarrow> script \<Rightarrow> kern \<Rightarrow> (int \<times> script \<times> kern) res option" where
  "uv__close fd es k =
     (if \<not> 2 < fd then Some (Inl Assert_failed) else map_option Inr (uv__close_nocheckstdio fd es k))"

section \<open>New descriptors\<close>

text \<open>The common error path: close the descriptor and return the error.\<close>

definition close_and_return :: "nat \<Rightarrow> int \<Rightarrow> script \<Rightarrow> kern \<Rightarrow> (int \<times> script \<times> kern) res option" where
  "close_and_return fd err es k = run_bind (uv__close fd es k) (\<lambda>(_, es, k). Some (Inr (err, es, k)))"

text \<open>A call that returns a new descriptor with the given flags.\<close>

definition new_fd :: "bool \<Rightarrow> bool \<Rightarrow> script \<Rightarrow> kern \<Rightarrow> (int \<times> nat \<times> script \<times> kern) option" where
  "new_fd ce nb es k =
     (case es of
        [] \<Rightarrow> None
      | e # es \<Rightarrow>
          if e = 0 then let fd = lowest_fd (opened k) in Some (0, fd, es, install fd ce nb k)
          else Some (e, 0, es, fail e k))"

text \<open>\<open>uv__nonblock\<close> then \<open>uv__cloexec\<close>, stopping at the first error.\<close>

definition nonblock_cloexec :: "nat \<Rightarrow> script \<Rightarrow> kern \<Rightarrow> (int \<times> script \<times> kern) option" where
  "nonblock_cloexec fd es k =
     (case uv__nonblock fd True es k of
        None \<Rightarrow> None
      | Some (err, es, k) \<Rightarrow> if err = 0 then uv__cloexec fd True es k else Some (err, es, k))"

definition cloexec_nonblock :: "nat \<Rightarrow> script \<Rightarrow> kern \<Rightarrow> (int \<times> script \<times> kern) option" where
  "cloexec_nonblock fd es k =
     (case uv__cloexec fd True es k of
        None \<Rightarrow> None
      | Some (err, es, k) \<Rightarrow> if err = 0 then uv__nonblock fd True es k else Some (err, es, k))"

definition finish_fd :: "nat \<Rightarrow> (int \<times> script \<times> kern) option \<Rightarrow> (int \<times> script \<times> kern) res option" where
  "finish_fd fd r =
     (case r of
        None \<Rightarrow> None
      | Some (err, es, k) \<Rightarrow> if err \<noteq> 0 then close_and_return fd err es k else Some (Inr (int fd, es, k)))"

definition uv__socket :: "script \<Rightarrow> kern \<Rightarrow> (int \<times> script \<times> kern) res option" where
  "uv__socket es k =
     (case new_fd True True es k of
        None \<Rightarrow> None
      | Some (e, sockfd, es, k) \<Rightarrow>
          if e = 0 then Some (Inr (int sockfd, es, k))
          else if e \<noteq> EINVAL then Some (Inr (- e, es, k))
          else
            (case new_fd False False es k of
               None \<Rightarrow> None
             | Some (e, sockfd, es, k) \<Rightarrow>
                 if e \<noteq> 0 then Some (Inr (- e, es, k))
                 else finish_fd sockfd (nonblock_cloexec sockfd es k)))"

text \<open>
  The \<open>while (1)\<close> loop of \<open>uv__accept\<close>: once \<open>no_accept4\<close> is set every round goes to \<open>skip\<close>,
  as does the rest of the round that sets it.
\<close>

function accept_loop :: "script \<Rightarrow> kern \<Rightarrow> (int \<times> script \<times> kern) res option" where
  "accept_loop es k =
     (if no_accept4 k then
        (case new_fd False False es k of
           None \<Rightarrow> None
         | Some (e, peerfd, es, k) \<Rightarrow>
             if e = 0 then finish_fd peerfd (cloexec_nonblock peerfd es k)
             else if e = EINTR then accept_loop es k
             else Some (Inr (- e, es, k)))
      else
        (case new_fd True True es k of
           None \<Rightarrow> None
         | Some (e, peerfd, es, k) \<Rightarrow>
             if e = 0 then Some (Inr (int peerfd, es, k))
             else if e = EINTR then accept_loop es k
             else if e \<noteq> ENOSYS then Some (Inr (- e, es, k))
             else accept_loop es (k\<lparr>no_accept4 := True\<rparr>)))"
  by pat_completeness auto
termination
  by (relation "measure (\<lambda>(es, k). length es)") (auto simp: new_fd_def Let_def split: list.splits if_splits)

declare accept_loop.simps [simp del]

definition uv__accept :: "int \<Rightarrow> script \<Rightarrow> kern \<Rightarrow> (int \<times> script \<times> kern) res option" where
  "uv__accept sockfd es k = (if \<not> 0 \<le> sockfd then Some (Inl Assert_failed) else accept_loop es k)"

text \<open>Descriptors made by \<open>dup\<close> share their non-blocking flag.\<close>

definition uv__dup :: "nat \<Rightarrow> script \<Rightarrow> kern \<Rightarrow> (int \<times> script \<times> kern) res option" where
  "uv__dup oldfd es k =
     (case new_fd False (oldfd \<in> nonblk k) es k of
        None \<Rightarrow> None
      | Some (e, fd, es, k) \<Rightarrow>
          if e \<noteq> 0 then Some (Inr (- e, es, k)) else finish_fd fd (uv__cloexec fd True es k))"

definition open_plain :: "script \<Rightarrow> kern \<Rightarrow> (int \<times> script \<times> kern) res option" where
  "open_plain es k =
     (case new_fd False False es k of
        None \<Rightarrow> None
      | Some (e, fd, es, k) \<Rightarrow>
          if e \<noteq> 0 then Some (Inr (- e, es, k)) else finish_fd fd (uv__cloexec fd True es k))"

definition uv__open_cloexec :: "script \<Rightarrow> kern \<Rightarrow> (int \<times> script \<times> kern) res option" where
  "uv__open_cloexec es k =
     (if \<not> no_cloexec k then
        (case new_fd True False es k of
           None \<Rightarrow> None
         | Some (e, fd, es, k) \<Rightarrow>
             if e = 0 then Some (Inr (int fd, es, k))
             else if e \<noteq> EINVAL then Some (Inr (- e, es, k))
             else open_plain es (k\<lparr>no_cloexec := True\<rparr>))
      else open_plain es k)"

text \<open>\<open>uv__open_file\<close>; \<open>fdopen\<close> is a call of the script.  The result is whether a file was opened.\<close>

definition uv__open_file :: "script \<Rightarrow> kern \<Rightarrow> (bool \<times> script \<times> kern) res option" where
  "uv__open_file es k =
     run_bind (uv__open_cloexec es k) (\<lambda>(fd, es, k).
       if fd < 0 then Some (Inr (False, es, k))
       else
         (case es of
            [] \<Rightarrow> None
          | e # es \<Rightarrow>
              if e \<noteq> 0 then run_bind (uv__close (nat fd) es (fail e k)) (\<lambda>(_, es, k). Some (Inr (False, es, k)))
              else Some (Inr (True, es, k))))"

text \<open>The loops around \<open>dup3\<close> and \<open>dup2\<close>, which are called again after \<open>EBUSY\<close>.\<close>

fun dup_loop :: "nat \<Rightarrow> nat \<Rightarrow> bool \<Rightarrow> script \<Rightarrow> kern \<Rightarrow> (int \<times> script \<times> kern) option" where
  "dup_loop oldfd newfd ce [] k = None"
| "dup_loop oldfd newfd ce (e # es) k =
     (if e = 0 then Some (0, es, install newfd ce (oldfd \<in> nonblk k) k)
      else if e = EBUSY then dup_loop oldfd newfd ce es (fail e k)
      else Some (e, es, fail e k))"

definition dup2_plain :: "nat \<Rightarrow> nat \<Rightarrow> script \<Rightarrow> kern \<Rightarrow> (int \<times> script \<times> kern) res option" where
  "dup2_plain oldfd newfd es k =
     (case dup_loop oldfd newfd False es k of
        None \<Rightarrow> None
      | Some (e, es, k) \<Rightarrow>
          if e \<noteq> 0 then Some (Inr (- e, es, k)) else finish_fd newfd (uv__cloexec newfd True es k))"

definition uv__dup2_cloexec :: "nat \<Rightarrow> nat \<Rightarrow> script \<Rightarrow> kern \<Rightarrow> (int \<times> script \<times> kern) res option" where
  "uv__dup2_cloexec oldfd newfd es k =
     (if \<not> no_dup3 k then
        (case dup_loop oldfd newfd True es k of
           None \<Rightarrow> None
         | Some (e, es, k) \<Rightarrow>
             if e = 0 then Some (Inr (int newfd, es, k))
             else if e \<noteq> ENOSYS then Some (Inr (- e, es, k))
             else dup2_plain oldfd newfd es (k\<lparr>no_dup3 := True\<rparr>))
      else dup2_plain oldfd newfd es k)"

section \<open>Descriptors received over a socket, and inheritance\<close>

text \<open>
  \<open>recvmsg\<close> delivers \<open>rc\<close> bytes and control messages, each with whether its type is
  \<open>SCM_RIGHTS\<close> and the descriptors it carries with their non-blocking flags.
\<close>

fun cloexec_all :: "nat list \<Rightarrow> script \<Rightarrow> kern \<Rightarrow> (script \<times> kern) option" where
  "cloexec_all [] es k = Some (es, k)"
| "cloexec_all (fd # fds) es k =
     (case uv__cloexec fd True es k of None \<Rightarrow> None | Some (_, es, k) \<Rightarrow> cloexec_all fds es k)"

definition rights :: "(bool \<times> (nat \<times> bool) list) list \<Rightarrow> (nat \<times> bool) list" where
  "rights cms = concat (map (\<lambda>(r, fds). if r then fds else []) cms)"

definition deliver :: "bool \<Rightarrow> (bool \<times> (nat \<times> bool) list) list \<Rightarrow> kern \<Rightarrow> kern" where
  "deliver ce cms k = fold (\<lambda>(fd, nb). install fd ce nb) (rights cms) k"

definition uv__recvmsg :: "int \<Rightarrow> (bool \<times> (nat \<times> bool) list) list \<Rightarrow> script \<Rightarrow> kern \<Rightarrow> (int \<times> script \<times> kern) option" where
  "uv__recvmsg rc cms es k =
     (let walk = (\<lambda>es k. if cms = [] then Some (rc, es, k)
                         else map_option (\<lambda>(es, k). (rc, es, k)) (cloexec_all (map fst (rights cms)) es k))
      in if \<not> no_msg_cmsg_cloexec k then
           (case es of
              [] \<Rightarrow> None
            | e # es \<Rightarrow>
                if e = 0 then Some (rc, es, deliver True cms k)
                else if e \<noteq> EINVAL then Some (- e, es, fail e k)
                else
                  (case es of
                     [] \<Rightarrow> None
                   | e' # es \<Rightarrow>
                       if e' \<noteq> 0 then Some (- e', es, fail e' k)
                       else walk es ((deliver False cms k)\<lparr>no_msg_cmsg_cloexec := True\<rparr>)))
         else
           (case es of
              [] \<Rightarrow> None
            | e # es \<Rightarrow> if e \<noteq> 0 then Some (- e, es, fail e k) else walk es (deliver False cms k)))"

text \<open>\<open>uv_disable_stdio_inheritance\<close> goes through the descriptors up to the first error beyond 15.\<close>

lemma ioctl_loop_shrinks: "ioctl_loop f es k = Some (r, es', k') \<Longrightarrow> length es' < length es"
  by (induction f es k rule: ioctl_loop.induct) (auto split: if_splits)

function stdio_loop :: "nat \<Rightarrow> script \<Rightarrow> kern \<Rightarrow> (script \<times> kern) option" where
  "stdio_loop fd es k =
     (case uv__cloexec fd True es k of
        None \<Rightarrow> None
      | Some (err, es, k) \<Rightarrow> if err \<noteq> 0 \<and> 15 < fd then Some (es, k) else stdio_loop (fd + 1) es k)"
  by pat_completeness auto
termination
  by (relation "measure (\<lambda>(fd, es, k). length es)") (auto simp: uv__cloexec_def dest: ioctl_loop_shrinks)

declare stdio_loop.simps [simp del]

definition uv_disable_stdio_inheritance :: "script \<Rightarrow> kern \<Rightarrow> (script \<times> kern) option" where
  "uv_disable_stdio_inheritance = stdio_loop 0"

section \<open>No descriptor leaks\<close>

lemma ioctl_loop_result:
  "ioctl_loop f es k = Some (r, es', k') \<Longrightarrow>
     \<exists>e. (r = 0 \<and> k' = f (k\<lparr>errno := e\<rparr>)) \<or> (r \<noteq> 0 \<and> - r \<in> set es \<and> k' = k\<lparr>errno := e\<rparr>)"
proof (induction f es k rule: ioctl_loop.induct)
  case (2 f e es k)
  show ?case
  proof (cases "e = EINTR")
    case True
    then have "ioctl_loop f es (fail e k) = Some (r, es', k')" using "2.prems" by (simp add: EINTR_def)
    then show ?thesis using "2.IH" True by (fastforce simp: fail_def EINTR_def)
  next
    case False
    then show ?thesis using "2.prems" by (cases k) (auto simp: fail_def split: if_splits)
  qed
qed simp

text \<open>
  \<open>fresh_ok nb k r\<close>: the call succeeded with a new descriptor that is close-on-exec (and, with
  \<open>nb\<close>, non-blocking), or failed and no descriptor was opened or closed.
\<close>

definition fresh_ok :: "bool \<Rightarrow> kern \<Rightarrow> (int \<times> script \<times> kern) res option \<Rightarrow> bool" where
  "fresh_ok nb k r \<longleftrightarrow>
     (case r of
        None \<Rightarrow> True
      | Some (Inl f) \<Rightarrow> False
      | Some (Inr (ret, es, k')) \<Rightarrow>
          if 0 \<le> ret
          then nat ret \<notin> set (opened k) \<and> set (opened k') = insert (nat ret) (set (opened k))
            \<and> nat ret \<in> cloexec k' \<and> (nb \<longrightarrow> nat ret \<in> nonblk k')
          else set (opened k') = set (opened k))"

lemma fresh_ok_cong: "set (opened k) = set (opened k') \<Longrightarrow> fresh_ok nb k r = fresh_ok nb k' r"
  unfolding fresh_ok_def by (simp only:)

definition streams_open :: "kern \<Rightarrow> bool" where
  "streams_open k \<longleftrightarrow> {0, 1, 2} \<subseteq> set (opened k)"

lemma streams_open_statics [simp]:
  "streams_open (k\<lparr>no_accept4 := b\<rparr>) = streams_open k" "streams_open (k\<lparr>no_cloexec := b\<rparr>) = streams_open k"
  by (simp_all add: streams_open_def)

lemma install_views [simp]:
  "set (opened (install fd ce nb k)) = insert fd (set (opened k))"
  "fd \<in> cloexec (install fd ce nb k) \<longleftrightarrow> ce" "fd \<in> nonblk (install fd ce nb k) \<longleftrightarrow> nb"
  by (auto simp: install_def)

lemma new_fd_cases:
  assumes "new_fd ce nb es k = Some (e, fd, es', k')" "streams_open k"
  shows "(e = 0 \<and> fd = lowest_fd (opened k) \<and> 2 < fd \<and> fd \<notin> set (opened k) \<and> k' = install fd ce nb k)
    \<or> (e \<noteq> 0 \<and> e \<in> set es \<and> k' = k\<lparr>errno := e\<rparr>)"
    and "set es' \<subseteq> set es"
proof -
  have "2 < lowest_fd (opened k)"
  proof (rule ccontr)
    assume "\<not> ?thesis"
    then have "lowest_fd (opened k) = 0 \<or> lowest_fd (opened k) = 1 \<or> lowest_fd (opened k) = 2" by linarith
    then show False using assms(2) lowest_fd_fresh [of "opened k"] by (auto simp: streams_open_def)
  qed
  then show "(e = 0 \<and> fd = lowest_fd (opened k) \<and> 2 < fd \<and> fd \<notin> set (opened k) \<and> k' = install fd ce nb k)
    \<or> (e \<noteq> 0 \<and> e \<in> set es \<and> k' = k\<lparr>errno := e\<rparr>)"
    using assms lowest_fd_fresh [of "opened k"]
    by (cases es) (auto simp: new_fd_def fail_def Let_def split: if_splits)
  show "set es' \<subseteq> set es" using assms by (cases es) (auto simp: new_fd_def Let_def split: if_splits)
qed

text \<open>The tail all of them share: set the flags of the new descriptor, or close it again.\<close>

definition flag_call :: "bool \<Rightarrow> nat \<Rightarrow> kern \<Rightarrow> script \<Rightarrow> (int \<times> script \<times> kern) option \<Rightarrow> bool" where
  "flag_call nb fd k es r \<longleftrightarrow>
     (case r of
        None \<Rightarrow> True
      | Some (err, es', k') \<Rightarrow> opened k' = opened k
          \<and> (if err = 0 then fd \<in> cloexec k' \<and> (nb \<longrightarrow> fd \<in> nonblk k') else - err \<in> set es))"

lemma ioctl_loop_es: "ioctl_loop f es k = Some (r, es', k') \<Longrightarrow> set es' \<subseteq> set es"
  by (induction f es k rule: ioctl_loop.induct) (auto split: if_splits)

lemma flag_calls:
  "flag_call False fd k es (uv__cloexec fd True es k)"
  "flag_call True fd k es (cloexec_nonblock fd es k)" "flag_call True fd k es (nonblock_cloexec fd es k)"
proof -
  show "flag_call False fd k es (uv__cloexec fd True es k)"
    by (auto simp: flag_call_def uv__cloexec_def dest!: ioctl_loop_result split: option.splits)
  show "flag_call True fd k es (cloexec_nonblock fd es k)"
    by (fastforce simp: flag_call_def cloexec_nonblock_def uv__cloexec_def uv__nonblock_def
        dest: ioctl_loop_result ioctl_loop_es split: option.splits if_splits)
  show "flag_call True fd k es (nonblock_cloexec fd es k)"
    by (fastforce simp: flag_call_def nonblock_cloexec_def uv__cloexec_def uv__nonblock_def
        dest: ioctl_loop_result ioctl_loop_es split: option.splits if_splits)
qed

lemma finish_fd_ok:
  assumes "flag_call nb fd k' es r" "set (opened k') = insert fd (set (opened k))" "fd \<notin> set (opened k)" "2 < fd"
    and "\<forall>e \<in> set es. 0 \<le> e"
  shows "fresh_ok nb k (finish_fd fd r)"
proof (cases r)
  case (Some t)
  then obtain err es' k'' where r: "r = Some (err, es', k'')" by (cases t) auto
  show ?thesis
  proof (cases "err = 0")
    case True
    then show ?thesis using assms r by (simp add: finish_fd_def fresh_ok_def flag_call_def)
  next
    case False
    then have "err < 0" using assms(1,5) r by (fastforce simp: flag_call_def)
    then show ?thesis
      using assms r by (cases es') (auto simp: finish_fd_def fresh_ok_def flag_call_def close_and_return_def
          uv__close_def uv__close_nocheckstdio_def fail_def Let_def)
  qed
qed (simp add: finish_fd_def fresh_ok_def)

lemma new_fd_finish:
  assumes "streams_open k" "\<forall>e \<in> set es. 0 \<le> e"
    and flags: "\<And>fd es k. flag_call nb fd k es (g fd es k)"
  shows "fresh_ok nb k (case new_fd ce b es k of
       None \<Rightarrow> None
     | Some (e, fd, es, k) \<Rightarrow> if e \<noteq> 0 then Some (Inr (- e, es, k)) else finish_fd fd (g fd es k))"
proof (cases "new_fd ce b es k")
  case (Some t)
  then obtain e fd es' k' where t: "new_fd ce b es k = Some (e, fd, es', k')" by (cases t) auto
  note n = new_fd_cases [OF t assms(1)]
  show ?thesis
  proof (cases "e = 0")
    case True
    then have "fresh_ok nb k (finish_fd fd (g fd es' k'))"
      using n assms(2) by (intro finish_fd_ok [OF flags]) auto
    then show ?thesis using t True by simp
  next
    case False
    then have "0 < e" using n(1) assms(2) by force
    then show ?thesis using n False t by (auto simp: fresh_ok_def)
  qed
qed (simp add: fresh_ok_def)

lemma new_fd_direct:
  assumes "streams_open k" "\<forall>e \<in> set es. 0 \<le> e" "new_fd True nb es k = Some (e, fd, es', k')"
  shows "e = 0 \<Longrightarrow> fresh_ok nb k (Some (Inr (int fd, es', k')))"
    and "e \<noteq> 0 \<Longrightarrow> fresh_ok nb k (Some (Inr (- e, es', k')))"
    and "e \<noteq> 0 \<Longrightarrow> opened k' = opened k \<and> streams_open k' \<and> (\<forall>e \<in> set es'. 0 \<le> e)"
proof -
  note n = new_fd_cases [OF assms(3,1)]
  show "e = 0 \<Longrightarrow> fresh_ok nb k (Some (Inr (int fd, es', k')))" using n by (auto simp: fresh_ok_def)
  assume e: "e \<noteq> 0"
  then have "0 < e" using n(1) assms(2) by force
  then show "fresh_ok nb k (Some (Inr (- e, es', k')))" using n e by (auto simp: fresh_ok_def)
  show "opened k' = opened k \<and> streams_open k' \<and> (\<forall>e \<in> set es'. 0 \<le> e)"
    using n e assms by (auto simp: streams_open_def)
qed

lemma socket_ok:
  assumes "streams_open k" "\<forall>e \<in> set es. 0 \<le> e"
  shows "fresh_ok True k (uv__socket es k)"
proof (cases "new_fd True True es k")
  case (Some t)
  then obtain e fd es' k' where t: "new_fd True True es k = Some (e, fd, es', k')" by (cases t) auto
  note d = new_fd_direct [OF assms t]
  show ?thesis
  proof (cases "e = EINVAL")
    case True
    then have "fresh_ok True k' (case new_fd False False es' k' of
       None \<Rightarrow> None
     | Some (e, fd, es, k) \<Rightarrow> if e \<noteq> 0 then Some (Inr (- e, es, k)) else finish_fd fd (nonblock_cloexec fd es k))"
      using d by (intro new_fd_finish flag_calls) (auto simp: EINVAL_def)
    then show ?thesis using t True d(3) by (simp add: uv__socket_def EINVAL_def fresh_ok_cong [of k k'])
  next
    case False
    then show ?thesis using t d by (simp add: uv__socket_def)
  qed
qed (simp add: uv__socket_def fresh_ok_def)

lemma open_plain_ok:
  assumes "streams_open k" "\<forall>e \<in> set es. 0 \<le> e"
  shows "fresh_ok False k (open_plain es k)"
  unfolding open_plain_def using assms by (intro new_fd_finish flag_calls)

lemma dup_ok:
  assumes "streams_open k" "\<forall>e \<in> set es. 0 \<le> e"
  shows "fresh_ok False k (uv__dup fd es k)"
  unfolding uv__dup_def using assms by (intro new_fd_finish flag_calls)

lemma open_cloexec_ok:
  assumes "streams_open k" "\<forall>e \<in> set es. 0 \<le> e"
  shows "fresh_ok False k (uv__open_cloexec es k)"
proof (cases "no_cloexec k")
  case True
  then show ?thesis using open_plain_ok [OF assms] by (simp add: uv__open_cloexec_def)
next
  case False
  show ?thesis
  proof (cases "new_fd True False es k")
    case (Some t)
    then obtain e fd es' k' where t: "new_fd True False es k = Some (e, fd, es', k')" by (cases t) auto
    note d = new_fd_direct [OF assms t]
    show ?thesis
    proof (cases "e = EINVAL")
      case True
      then have "fresh_ok False (k'\<lparr>no_cloexec := True\<rparr>) (open_plain es' (k'\<lparr>no_cloexec := True\<rparr>))"
        using d by (intro open_plain_ok) (auto simp: EINVAL_def streams_open_def)
      then show ?thesis
        using t True False d(3) by (simp add: uv__open_cloexec_def EINVAL_def fresh_ok_cong [of k "k'\<lparr>no_cloexec := True\<rparr>"])
    next
      case e: False
      then show ?thesis using t d False by (simp add: uv__open_cloexec_def)
    qed
  qed (simp add: uv__open_cloexec_def fresh_ok_def False)
qed

lemma accept_loop_ok:
  assumes "streams_open k" "\<forall>e \<in> set es. 0 \<le> e"
  shows "fresh_ok True k (accept_loop es k)"
  using assms
proof (induction es k rule: accept_loop.induct)
  case (1 es k)
  show ?case
  proof (cases "no_accept4 k")
    case True
    show ?thesis
    proof (cases "new_fd False False es k")
      case (Some t)
      then obtain e fd es' k' where t: "new_fd False False es k = Some (e, fd, es', k')" by (cases t) auto
      note n = new_fd_cases [OF t "1.prems"(1)]
      show ?thesis
      proof (cases "e = EINTR")
        case intr: True
        have k': "streams_open k'" "opened k' = opened k" "\<forall>e \<in> set es'. 0 \<le> e"
          using n "1.prems" intr by (auto simp: EINTR_def streams_open_def)
        have "fresh_ok True k' (accept_loop es' k')"
          using "1.IH"(1) [OF True t refl refl refl _ intr k'(1,3)] intr by (simp add: EINTR_def)
        then show ?thesis using True t intr k'(2)
          by (subst accept_loop.simps) (simp add: EINTR_def fresh_ok_cong [of k k'])
      next
        case False
        then have "accept_loop es k = (case new_fd False False es k of
             None \<Rightarrow> None
           | Some (e, fd, es, k) \<Rightarrow> if e \<noteq> 0 then Some (Inr (- e, es, k)) else finish_fd fd (cloexec_nonblock fd es k))"
          using True t by (subst accept_loop.simps) simp
        then show ?thesis using "1.prems" by (auto intro!: new_fd_finish flag_calls)
      qed
    qed (use True in \<open>subst accept_loop.simps, simp add: fresh_ok_def\<close>)
  next
    case False
    show ?thesis
    proof (cases "new_fd True True es k")
      case (Some t)
      then obtain e fd es' k' where t: "new_fd True True es k = Some (e, fd, es', k')" by (cases t) auto
      note d = new_fd_direct [OF "1.prems" t]
      consider (ok) "e = 0" | (intr) "e = EINTR" | (nosys) "e = ENOSYS" | (other) "e \<noteq> 0" "e \<noteq> EINTR" "e \<noteq> ENOSYS" by blast
      then show ?thesis
      proof cases
        case intr
        then have "fresh_ok True k' (accept_loop es' k')"
          using "1.IH"(2) [OF False t refl refl refl _ intr] d by (simp add: EINTR_def)
        then show ?thesis using False t intr d(3)
          by (subst accept_loop.simps) (simp add: EINTR_def fresh_ok_cong [of k k'])
      next
        case nosys
        let ?k = "k'\<lparr>no_accept4 := True\<rparr>"
        have "fresh_ok True ?k (accept_loop es' ?k)"
          using "1.IH"(3) [OF False t refl refl refl] d nosys by (simp add: EINTR_def ENOSYS_def)
        then show ?thesis using False t nosys d(3)
          by (subst accept_loop.simps) (simp add: EINTR_def ENOSYS_def fresh_ok_cong [of k ?k])
      qed (use False t d in \<open>subst accept_loop.simps, simp\<close>)+
    qed (use False in \<open>subst accept_loop.simps, simp add: fresh_ok_def\<close>)
  qed
qed

text \<open>
  C32: No descriptor leaks.  In a process whose standard streams are open, \<open>uv__socket\<close>,
  \<open>uv__accept\<close>, \<open>uv__dup\<close> and \<open>uv__open_cloexec\<close> either return a descriptor that was not open
  before, is close-on-exec and, for the first two, non-blocking, with every other descriptor as
  it was; or return a negative error and leave the set of open descriptors as it was, on every
  path through the fallbacks for old kernels.  None of them fails an assertion.
\<close>
theorem uv_fds_no_leak:
  assumes "streams_open k" "\<forall>e \<in> set es. 0 \<le> e" "0 \<le> sockfd"
  shows "fresh_ok True k (uv__socket es k) \<and> fresh_ok True k (uv__accept sockfd es k)
    \<and> fresh_ok False k (uv__dup fd es k) \<and> fresh_ok False k (uv__open_cloexec es k)"
  using socket_ok [OF assms(1,2)] accept_loop_ok [OF assms(1,2)] dup_ok [OF assms(1,2)]
    open_cloexec_ok [OF assms(1,2)] assms(3) by (simp add: uv__accept_def)

definition plain_kern :: kern where
  "plain_kern = \<lparr>opened = [0, 1, 2], cloexec = {}, nonblk = {}, errno = 0, no_accept4 = False,
     no_cloexec = False, no_dup3 = False, no_msg_cmsg_cloexec = False\<rparr>"

lemma uv_fds_no_leak_witness:
  "fresh_ok True plain_kern (uv__accept 2 [EINTR, ENOSYS, 0, 0, EINVAL, 0] plain_kern)
     \<and> (\<exists>es k. uv__accept 2 [EINTR, ENOSYS, 0, 0, EINVAL, 0] plain_kern = Some (Inr (- EINVAL, es, k)) \<and> opened k = [0, 1, 2])"
proof
  show "fresh_ok True plain_kern (uv__accept 2 [EINTR, ENOSYS, 0, 0, EINVAL, 0] plain_kern)"
    using uv_fds_no_leak [of plain_kern "[EINTR, ENOSYS, 0, 0, EINVAL, 0]" 2]
    by (simp add: streams_open_def plain_kern_def errno_simps)
  show "\<exists>es k. uv__accept 2 [EINTR, ENOSYS, 0, 0, EINVAL, 0] plain_kern = Some (Inr (- EINVAL, es, k)) \<and> opened k = [0, 1, 2]"
    by (simp add: uv__accept_def plain_kern_def accept_loop.simps new_fd_def lowest_fd_def install_def fail_def errno_simps
        finish_fd_def cloexec_nonblock_def uv__cloexec_def uv__nonblock_def close_and_return_def uv__close_def
        uv__close_nocheckstdio_def)
qed

end
