(* ===== verification/UvHandle.thy ===== *)
theory UvHandle
  imports UvHeap UvFd
begin

text \<open>
  The event loop's state and the handle macros of \<open>third/libuv/src/uv-common.h\<close>, with
  \<open>uv_ref\<close>, \<open>uv_unref\<close> and \<open>uv_walk\<close> of \<open>uv-common.c\<close>.

  Handles and I/O watchers are C structs named by their addresses; \<open>handles\<close> and \<open>ios\<close> are the
  memory they live in.  An intrusive queue of the loop is the list of the elements linked into
  it; removing an element takes it out of the queue it is in.  The unions of the source are
  records with the fields of every type.  A user's callback is a number, and what it does is the
  environment's function \<open>usr\<close>; \<open>calls\<close> records the callbacks made, so that a callback can
  behave differently on each call.
\<close>

section \<open>Data\<close>

type_synonym hid = nat
type_synonym wid = nat
type_synonym cb = nat

datatype htype =
    UV_UNKNOWN_HANDLE | UV_ASYNC | UV_CHECK | UV_FS_EVENT | UV_FS_POLL | UV_HANDLE | UV_IDLE
  | UV_NAMED_PIPE | UV_POLL | UV_PREPARE | UV_PROCESS | UV_STREAM | UV_TCP | UV_TIMER | UV_TTY
  | UV_UDP | UV_SIGNAL | UV_FILE

text \<open>The three kinds of loop watchers.\<close>

datatype wkind = Prepare | Check | Idle

record uv_handle_t =
  htype :: htype
  flags :: u32
  close_cb :: "cb option"
  timer_cb :: "cb option"
  timeout :: u64
  repeat :: u64
  start_id :: u64
  watcher_cb :: "cb option"
  async_cb :: "cb option"
  pending :: int
  poll_io :: wid
  poll_cb :: "cb option"

text \<open>
  The callback of an I/O watcher: \<open>uv__poll_io\<close> with the handle that holds the watcher,
  \<open>uv__async_io\<close>, or a function of another file.
\<close>

datatype io_handler = Poll_io hid | Async_io | Other_io nat

text \<open>\<open>io_stale\<close> marks a watcher whose own queue links dangle after \<open>uv__io_close\<close>.\<close>

record uv__io_t =
  io_handler :: "io_handler option"
  io_fd :: int
  io_events :: u32
  io_pevents :: u32
  io_stale :: bool

datatype call =
    Timer_cb hid
  | Watcher_cb wkind hid
  | Async_cb hid
  | Close_cb hid
  | Poll_cb hid int u32
  | Walk_cb hid
  | Io_cb wid u32

text \<open>What \<open>epoll_wait\<close> returns: events, nothing within the timeout, or an error.\<close>

datatype poll_result = Events "(int \<times> u32) list" | Timed_out | Poll_errno int

text \<open>
  The loop.  \<open>watchers\<close> has \<open>nwatchers\<close> elements and is empty while the pointer is null;
  \<open>inflight\<close> is the list of events and its length stored behind its end during
  \<open>uv__io_poll\<close>.  \<open>run_queue\<close> and \<open>pending_run\<close> are the queues on the stack of
  \<open>uv__run_*\<close> and \<open>uv__run_pending\<close>.  The last group of fields is the world outside: the
  kernel's descriptors and the script of its answers (\<open>0\<close> or an \<open>errno\<close>), the set of
  descriptors \<open>epoll\<close> watches, whether the next allocations succeed (all do after the end
  of the list), the readings of the clock in nanoseconds, the results of
  \<open>epoll_wait\<close>, the sizes of the reads from the wake-up descriptor, and the callbacks made.
\<close>

record uv_loop_t =
  handles :: "hid \<Rightarrow> uv_handle_t"
  ios :: "wid \<Rightarrow> uv__io_t"
  active_handles :: u32
  handle_queue :: "hid list"
  active_reqs :: "nat list"
  stop_flag :: bool
  block_sigprof :: bool
  backend_fd :: int
  pending_queue :: "wid list"
  watcher_queue :: "wid list"
  watchers :: "wid option list"
  nfds :: nat
  inflight :: "(int \<times> u32) list option"
  closing_handles :: "hid list"
  watcher_handles :: "wkind \<Rightarrow> hid list"
  async_handles :: "hid list"
  run_queue :: "hid list"
  pending_run :: "wid list"
  timer_heap :: "hid heap"
  timer_counter :: u64
  time :: u64
  async_watcher :: wid
  async_wfd :: int
  signal_io_watcher :: wid
  emfile_fd :: int
  inotify_fd :: int
  inotify_read_watcher :: wid
  wq :: "nat list"
  no_epoll_wait :: bool
  no_epoll_pwait :: bool
  no_eventfd2 :: bool
  no_eventfd :: bool
  no_pipe2 :: bool
  os :: kern
  sys :: script
  interest :: "int \<Rightarrow> u32 option"
  allocs :: "bool list"
  clock :: "nat list"
  polls :: "poll_result list"
  reads :: "int list"
  calls :: "call list"

text \<open>
  The environment: the user's callbacks, the callbacks of I/O watchers, and the closing of
  handle types that other files of the library implement.
\<close>

record uv_env =
  usr :: "cb \<Rightarrow> call \<Rightarrow> uv_loop_t \<Rightarrow> uv_loop_t res"
  io_cb :: "nat \<Rightarrow> wid \<Rightarrow> u32 \<Rightarrow> uv_loop_t \<Rightarrow> uv_loop_t res"
  type_close :: "hid \<Rightarrow> uv_loop_t \<Rightarrow> uv_loop_t res"
  type_destroy :: "hid \<Rightarrow> uv_loop_t \<Rightarrow> uv_loop_t res"

definition call_usr :: "uv_env \<Rightarrow> cb option \<Rightarrow> call \<Rightarrow> uv_loop_t \<Rightarrow> uv_loop_t res" where
  "call_usr E c k L = (case c of None \<Rightarrow> Inl Null_deref | Some c \<Rightarrow> usr E c k (L\<lparr>calls := calls L @ [k]\<rparr>))"

definition upd_handle :: "hid \<Rightarrow> (uv_handle_t \<Rightarrow> uv_handle_t) \<Rightarrow> uv_loop_t \<Rightarrow> uv_loop_t" where
  "upd_handle h f L = L\<lparr>handles := (handles L)(h := f (handles L h))\<rparr>"

definition upd_io :: "wid \<Rightarrow> (uv__io_t \<Rightarrow> uv__io_t) \<Rightarrow> uv_loop_t \<Rightarrow> uv_loop_t" where
  "upd_io w f L = L\<lparr>ios := (ios L)(w := f (ios L w))\<rparr>"

text \<open>The descriptor functions, on the loop's kernel and script.\<close>

definition on_kernel :: "(script \<Rightarrow> kern \<Rightarrow> (int \<times> script \<times> kern) option) \<Rightarrow> uv_loop_t \<Rightarrow> (int \<times> uv_loop_t) res option" where
  "on_kernel f L = map_option (\<lambda>(r, es, k). Inr (r, L\<lparr>sys := es, os := k\<rparr>)) (f (sys L) (os L))"

definition on_kernel_res :: "(script \<Rightarrow> kern \<Rightarrow> (int \<times> script \<times> kern) res option) \<Rightarrow> uv_loop_t \<Rightarrow> (int \<times> uv_loop_t) res option" where
  "on_kernel_res f L = run_bind (f (sys L) (os L)) (\<lambda>(r, es, k). Some (Inr (r, L\<lparr>sys := es, os := k\<rparr>)))"

section \<open>Flags\<close>

definition UV_CLOSING :: u32 where "UV_CLOSING = 0x01"
definition UV_CLOSED :: u32 where "UV_CLOSED = 0x02"
definition UV__HANDLE_INTERNAL :: u32 where "UV__HANDLE_INTERNAL = 0x8000"
definition UV__HANDLE_ACTIVE :: u32 where "UV__HANDLE_ACTIVE = 0x4000"
definition UV__HANDLE_REF :: u32 where "UV__HANDLE_REF = 0x2000"
definition UV__HANDLE_CLOSING :: u32 where "UV__HANDLE_CLOSING = 0"

definition has_flag :: "u32 \<Rightarrow> uv_handle_t \<Rightarrow> bool" where
  "has_flag m h \<longleftrightarrow> and (flags h) m \<noteq> 0"

definition set_flag :: "u32 \<Rightarrow> uv_handle_t \<Rightarrow> uv_handle_t" where
  "set_flag m h = h\<lparr>flags := or (flags h) m\<rparr>"

definition clear_flag :: "u32 \<Rightarrow> uv_handle_t \<Rightarrow> uv_handle_t" where
  "clear_flag m h = h\<lparr>flags := and (flags h) (not m)\<rparr>"

definition uv__is_active :: "hid \<Rightarrow> uv_loop_t \<Rightarrow> bool" where
  "uv__is_active h L \<longleftrightarrow> has_flag UV__HANDLE_ACTIVE (handles L h)"

definition uv__is_closing :: "hid \<Rightarrow> uv_loop_t \<Rightarrow> bool" where
  "uv__is_closing h L \<longleftrightarrow> has_flag (or UV_CLOSING UV_CLOSED) (handles L h)"

definition uv__has_ref :: "hid \<Rightarrow> uv_loop_t \<Rightarrow> bool" where
  "uv__has_ref h L \<longleftrightarrow> has_flag UV__HANDLE_REF (handles L h)"

definition uv__has_active_handles :: "uv_loop_t \<Rightarrow> bool" where
  "uv__has_active_handles L \<longleftrightarrow> 0 < active_handles L"

definition uv__has_active_reqs :: "uv_loop_t \<Rightarrow> bool" where
  "uv__has_active_reqs L \<longleftrightarrow> active_reqs L \<noteq> []"

definition uv__active_handle_add :: "uv_loop_t \<Rightarrow> uv_loop_t" where
  "uv__active_handle_add L = L\<lparr>active_handles := active_handles L + 1\<rparr>"

definition uv__active_handle_rm :: "uv_loop_t \<Rightarrow> uv_loop_t" where
  "uv__active_handle_rm L = L\<lparr>active_handles := active_handles L - 1\<rparr>"

text \<open>On Unix \<open>UV__HANDLE_CLOSING\<close> is 0, so the assertions of the macros cannot fail.\<close>

definition uv__handle_start :: "hid \<Rightarrow> uv_loop_t \<Rightarrow> uv_loop_t res" where
  "uv__handle_start h L =
     (if has_flag UV__HANDLE_CLOSING (handles L h) then Inl Assert_failed
      else if has_flag UV__HANDLE_ACTIVE (handles L h) then Inr L
      else
        let L = upd_handle h (set_flag UV__HANDLE_ACTIVE) L
        in Inr (if has_flag UV__HANDLE_REF (handles L h) then uv__active_handle_add L else L))"

definition uv__handle_stop :: "hid \<Rightarrow> uv_loop_t \<Rightarrow> uv_loop_t res" where
  "uv__handle_stop h L =
     (if has_flag UV__HANDLE_CLOSING (handles L h) then Inl Assert_failed
      else if \<not> has_flag UV__HANDLE_ACTIVE (handles L h) then Inr L
      else
        let L = upd_handle h (clear_flag UV__HANDLE_ACTIVE) L
        in Inr (if has_flag UV__HANDLE_REF (handles L h) then uv__active_handle_rm L else L))"

definition uv__handle_ref :: "hid \<Rightarrow> uv_loop_t \<Rightarrow> uv_loop_t" where
  "uv__handle_ref h L =
     (if has_flag UV__HANDLE_REF (handles L h) then L
      else
        let L = upd_handle h (set_flag UV__HANDLE_REF) L
        in if has_flag UV__HANDLE_CLOSING (handles L h) then L
           else if has_flag UV__HANDLE_ACTIVE (handles L h) then uv__active_handle_add L else L)"

definition uv__handle_unref :: "hid \<Rightarrow> uv_loop_t \<Rightarrow> uv_loop_t" where
  "uv__handle_unref h L =
     (if \<not> has_flag UV__HANDLE_REF (handles L h) then L
      else
        let L = upd_handle h (clear_flag UV__HANDLE_REF) L
        in if has_flag UV__HANDLE_CLOSING (handles L h) then L
           else if has_flag UV__HANDLE_ACTIVE (handles L h) then uv__active_handle_rm L else L)"

definition uv__handle_init :: "hid \<Rightarrow> htype \<Rightarrow> uv_loop_t \<Rightarrow> uv_loop_t" where
  "uv__handle_init h ty L =
     (upd_handle h (\<lambda>x. x\<lparr>htype := ty, flags := UV__HANDLE_REF\<rparr>) L)\<lparr>handle_queue := handle_queue L @ [h]\<rparr>"

definition uv_ref :: "hid \<Rightarrow> uv_loop_t \<Rightarrow> uv_loop_t" where
  "uv_ref h L = uv__handle_ref h L"

definition uv_unref :: "hid \<Rightarrow> uv_loop_t \<Rightarrow> uv_loop_t" where
  "uv_unref h L = uv__handle_unref h L"

definition uv_has_ref :: "hid \<Rightarrow> uv_loop_t \<Rightarrow> bool" where
  "uv_has_ref h L = uv__has_ref h L"

definition uv__req_register :: "nat \<Rightarrow> uv_loop_t \<Rightarrow> uv_loop_t" where
  "uv__req_register r L = L\<lparr>active_reqs := active_reqs L @ [r]\<rparr>"

definition uv__req_unregister :: "nat \<Rightarrow> uv_loop_t \<Rightarrow> uv_loop_t res" where
  "uv__req_unregister r L =
     (if \<not> uv__has_active_reqs L then Inl Assert_failed else Inr (L\<lparr>active_reqs := remove1 r (active_reqs L)\<rparr>))"

text \<open>
  \<open>uv_walk\<close> moves the handle queue to a queue of its own (\<open>q\<close>) and calls back for each handle
  that is not internal, after putting it back into the loop's queue.
\<close>

fun walk_loop :: "uv_env \<Rightarrow> cb \<Rightarrow> hid list \<Rightarrow> uv_loop_t \<Rightarrow> uv_loop_t res" where
  "walk_loop E walk_cb [] L = Inr L"
| "walk_loop E walk_cb (h # q) L =
     (let L = L\<lparr>handle_queue := handle_queue L @ [h]\<rparr> in
      if has_flag UV__HANDLE_INTERNAL (handles L h) then walk_loop E walk_cb q L
      else bind_res (call_usr E (Some walk_cb) (Walk_cb h) L) (walk_loop E walk_cb q))"

definition uv_walk :: "uv_env \<Rightarrow> cb \<Rightarrow> uv_loop_t \<Rightarrow> uv_loop_t res" where
  "uv_walk E walk_cb L = walk_loop E walk_cb (handle_queue L) (L\<lparr>handle_queue := []\<rparr>)"

section \<open>Flags as single bits\<close>

named_theorems uv_simps \<open>reading the loop's fields after an update\<close>

definition flag :: "nat \<Rightarrow> u32" where
  "flag n = push_bit n 1"

lemma flag_bits:
  "UV_CLOSING = flag 0" "UV_CLOSED = flag 1" "UV__HANDLE_INTERNAL = flag 15"
  "UV__HANDLE_ACTIVE = flag 14" "UV__HANDLE_REF = flag 13"
  by (simp_all add: UV_CLOSING_def UV_CLOSED_def UV__HANDLE_INTERNAL_def UV__HANDLE_ACTIVE_def UV__HANDLE_REF_def
      flag_def push_bit_eq_mult)

lemma has_flag_bit: "has_flag (flag n) h \<longleftrightarrow> bit (flags h) n"
  by (simp add: has_flag_def flag_def and_exp_eq_0_iff_not_bit push_bit_eq_mult)

lemma flag_updates [simp]:
  "n < 32 \<Longrightarrow> bit (flags (set_flag (flag n) h)) m \<longleftrightarrow> m = n \<or> bit (flags h) m"
  "n < 32 \<Longrightarrow> bit (flags (clear_flag (flag n) h)) m \<longleftrightarrow> m \<noteq> n \<and> bit (flags h) m"
  by (auto simp: set_flag_def clear_flag_def flag_def bit_simps dest: bit_imp_le_length)

lemma has_flag_set [uv_simps]:
  "has_flag UV__HANDLE_ACTIVE (set_flag UV__HANDLE_ACTIVE h)" "has_flag UV__HANDLE_REF (set_flag UV__HANDLE_REF h)"
  "has_flag UV__HANDLE_REF (set_flag UV__HANDLE_ACTIVE h) = has_flag UV__HANDLE_REF h"
  "has_flag UV__HANDLE_ACTIVE (set_flag UV__HANDLE_REF h) = has_flag UV__HANDLE_ACTIVE h"
  "\<not> has_flag UV__HANDLE_ACTIVE (clear_flag UV__HANDLE_ACTIVE h)" "\<not> has_flag UV__HANDLE_REF (clear_flag UV__HANDLE_REF h)"
  "has_flag UV__HANDLE_REF (clear_flag UV__HANDLE_ACTIVE h) = has_flag UV__HANDLE_REF h"
  "has_flag UV__HANDLE_ACTIVE (clear_flag UV__HANDLE_REF h) = has_flag UV__HANDLE_ACTIVE h"
  "has_flag UV__HANDLE_ACTIVE (set_flag UV_CLOSING h) = has_flag UV__HANDLE_ACTIVE h"
  "has_flag UV__HANDLE_REF (set_flag UV_CLOSING h) = has_flag UV__HANDLE_REF h"
  "has_flag UV__HANDLE_ACTIVE (set_flag UV_CLOSED h) = has_flag UV__HANDLE_ACTIVE h"
  "has_flag UV__HANDLE_REF (set_flag UV_CLOSED h) = has_flag UV__HANDLE_REF h"
  by (simp_all add: flag_bits has_flag_bit)

lemma flag_fields [simp]:
  "htype (set_flag m h) = htype h" "timer_cb (set_flag m h) = timer_cb h" "timeout (set_flag m h) = timeout h"
  "repeat (set_flag m h) = repeat h" "start_id (set_flag m h) = start_id h" "watcher_cb (set_flag m h) = watcher_cb h"
  "async_cb (set_flag m h) = async_cb h" "pending (set_flag m h) = pending h" "close_cb (set_flag m h) = close_cb h"
  "htype (clear_flag m h) = htype h" "timer_cb (clear_flag m h) = timer_cb h" "timeout (clear_flag m h) = timeout h"
  "repeat (clear_flag m h) = repeat h" "start_id (clear_flag m h) = start_id h" "watcher_cb (clear_flag m h) = watcher_cb h"
  "async_cb (clear_flag m h) = async_cb h" "pending (clear_flag m h) = pending h" "close_cb (clear_flag m h) = close_cb h"
  by (simp_all add: set_flag_def clear_flag_def)

lemma no_closing_flag [uv_simps]: "\<not> has_flag UV__HANDLE_CLOSING h"
  by (simp add: has_flag_def UV__HANDLE_CLOSING_def)

lemma upd_handle_at [uv_simps]:
  "handles (upd_handle h f L) x = (if x = h then f (handles L h) else handles L x)"
  by (simp add: upd_handle_def)

lemma upd_handle_fields [uv_simps]:
  "ios (upd_handle h f L) = ios L" "active_handles (upd_handle h f L) = active_handles L"
  "handle_queue (upd_handle h f L) = handle_queue L" "active_reqs (upd_handle h f L) = active_reqs L"
  "stop_flag (upd_handle h f L) = stop_flag L" "pending_queue (upd_handle h f L) = pending_queue L"
  "watcher_queue (upd_handle h f L) = watcher_queue L" "watchers (upd_handle h f L) = watchers L"
  "nfds (upd_handle h f L) = nfds L" "closing_handles (upd_handle h f L) = closing_handles L"
  "watcher_handles (upd_handle h f L) = watcher_handles L" "async_handles (upd_handle h f L) = async_handles L"
  "run_queue (upd_handle h f L) = run_queue L" "timer_heap (upd_handle h f L) = timer_heap L"
  "timer_counter (upd_handle h f L) = timer_counter L" "time (upd_handle h f L) = time L"
  "clock (upd_handle h f L) = clock L" "calls (upd_handle h f L) = calls L"
  "inflight (upd_handle h f L) = inflight L" "pending_run (upd_handle h f L) = pending_run L"
  "allocs (upd_handle h f L) = allocs L" "sys (upd_handle h f L) = sys L" "os (upd_handle h f L) = os L"
  "interest (upd_handle h f L) = interest L" "backend_fd (upd_handle h f L) = backend_fd L"
  by (simp_all add: upd_handle_def)

section \<open>The count of active handles\<close>

text \<open>
  \<open>active_handles\<close> is the number of handles in the loop's queue that are active and referenced.
\<close>

definition counts :: "uv_handle_t \<Rightarrow> bool" where
  "counts h \<longleftrightarrow> has_flag UV__HANDLE_ACTIVE h \<and> has_flag UV__HANDLE_REF h"

definition counted :: "uv_loop_t \<Rightarrow> hid set" where
  "counted L = {h \<in> set (handle_queue L). counts (handles L h)}"

definition count_ok :: "uv_loop_t \<Rightarrow> bool" where
  "count_ok L \<longleftrightarrow> distinct (handle_queue L) \<and> active_handles L = of_nat (card (counted L))"

lemma finite_counted [simp]: "finite (counted L)"
  by (simp add: counted_def)

text \<open>An update of one linked handle, with the change of the counter that fits it.\<close>

lemma count_ok_update:
  assumes "count_ok L" "h \<in> set (handle_queue L)" "handles L' = (handles L)(h := x)" "handle_queue L' = handle_queue L"
    and "active_handles L' = active_handles L + of_bool (counts x) - of_bool (counts (handles L h))"
  shows "count_ok L'"
proof -
  have c: "counted L' = (if counts x then insert h (counted L) else counted L - {h})"
    using assms(2-4) by (auto simp: counted_def)
  show ?thesis
  proof (cases "counts (handles L h)")
    case True
    then have m: "h \<in> counted L" using assms(2) by (simp add: counted_def)
    show ?thesis
    proof (cases "counts x")
      case True
      then show ?thesis using assms m \<open>counts (handles L h)\<close> c by (simp add: count_ok_def insert_absorb)
    next
      case False
      have "card (counted L) = Suc (card (counted L - {h}))" using m by (intro card.remove) simp_all
      then show ?thesis using assms True False c by (simp add: count_ok_def)
    qed
  next
    case False
    then have "h \<notin> counted L" by (simp add: counted_def)
    then show ?thesis using assms False c by (cases "counts x") (simp_all add: count_ok_def)
  qed
qed

lemma handle_start_count: "count_ok L \<Longrightarrow> h \<in> set (handle_queue L) \<Longrightarrow> uv__handle_start h L = Inr L' \<Longrightarrow> count_ok L'"
  by (cases "has_flag UV__HANDLE_ACTIVE (handles L h)")
    (auto simp: uv__handle_start_def uv_simps upd_handle_def uv__active_handle_add_def counts_def Let_def
      intro: count_ok_update [where h = h and x = "set_flag UV__HANDLE_ACTIVE (handles L h)"])

lemma handle_stop_count: "count_ok L \<Longrightarrow> h \<in> set (handle_queue L) \<Longrightarrow> uv__handle_stop h L = Inr L' \<Longrightarrow> count_ok L'"
  by (cases "has_flag UV__HANDLE_ACTIVE (handles L h)")
    (auto simp: uv__handle_stop_def uv_simps upd_handle_def uv__active_handle_rm_def counts_def Let_def
      intro: count_ok_update [where h = h and x = "clear_flag UV__HANDLE_ACTIVE (handles L h)"])

lemma handle_ref_count: "count_ok L \<Longrightarrow> h \<in> set (handle_queue L) \<Longrightarrow> count_ok (uv__handle_ref h L)"
  by (cases "has_flag UV__HANDLE_REF (handles L h)")
    (auto simp: uv__handle_ref_def uv_simps upd_handle_def uv__active_handle_add_def counts_def Let_def
      intro: count_ok_update [where h = h and x = "set_flag UV__HANDLE_REF (handles L h)"])

lemma handle_unref_count: "count_ok L \<Longrightarrow> h \<in> set (handle_queue L) \<Longrightarrow> count_ok (uv__handle_unref h L)"
  by (cases "has_flag UV__HANDLE_REF (handles L h)")
    (auto simp: uv__handle_unref_def uv_simps upd_handle_def uv__active_handle_rm_def counts_def Let_def
      intro: count_ok_update [where h = h and x = "clear_flag UV__HANDLE_REF (handles L h)"])

lemma handle_init_count: "count_ok L \<Longrightarrow> h \<notin> set (handle_queue L) \<Longrightarrow> count_ok (uv__handle_init h ty L)"
proof -
  assume L: "count_ok L" "h \<notin> set (handle_queue L)"
  have "\<not> counts (x\<lparr>htype := ty, flags := UV__HANDLE_REF\<rparr>)" for x
    by (simp add: counts_def has_flag_def UV__HANDLE_ACTIVE_def UV__HANDLE_REF_def)
  then have "counted (uv__handle_init h ty L) = counted L"
    using L by (auto simp: counted_def uv__handle_init_def upd_handle_def)
  then show ?thesis using L by (simp add: count_ok_def uv__handle_init_def upd_handle_def)
qed

lemma handle_start_total: "\<exists>L'. uv__handle_start h L = Inr L'" and handle_stop_total: "\<exists>L'. uv__handle_stop h L = Inr L'"
  by (auto simp: uv__handle_start_def uv__handle_stop_def uv_simps Let_def)

section \<open>An empty loop\<close>

definition plain_handle :: uv_handle_t where
  "plain_handle = \<lparr>htype = UV_UNKNOWN_HANDLE, flags = 0, close_cb = None, timer_cb = None, timeout = 0, repeat = 0,
     start_id = 0, watcher_cb = None, async_cb = None, pending = 0, poll_io = 0, poll_cb = None\<rparr>"

definition plain_io :: uv__io_t where
  "plain_io = \<lparr>io_handler = None, io_fd = - 1, io_events = 0, io_pevents = 0, io_stale = False\<rparr>"

definition plain_kernel :: kern where
  "plain_kernel = \<lparr>opened = [3, 2, 1, 0], cloexec = {3}, nonblk = {}, errno = 0, no_accept4 = False, no_cloexec = False,
     no_dup3 = False, no_msg_cmsg_cloexec = False\<rparr>"

definition empty_loop :: uv_loop_t where
  "empty_loop = \<lparr>handles = (\<lambda>_. plain_handle), ios = (\<lambda>_. plain_io),
     active_handles = 0, handle_queue = [], active_reqs = [], stop_flag = False, block_sigprof = False,
     backend_fd = 3, pending_queue = [],
     watcher_queue = [], watchers = [], nfds = 0, inflight = None, closing_handles = [],
     watcher_handles = (\<lambda>_. []), async_handles = [], run_queue = [], pending_run = [], timer_heap = heap_init,
     timer_counter = 0, time = 0, async_watcher = 0, async_wfd = - 1, signal_io_watcher = 1, emfile_fd = - 1,
     inotify_fd = - 1, inotify_read_watcher = 2, wq = [], no_epoll_wait = False, no_epoll_pwait = False,
     no_eventfd2 = False, no_eventfd = False, no_pipe2 = False, os = plain_kernel, sys = [], interest = (\<lambda>_. None), allocs = [],
     clock = [], polls = [], reads = [], calls = []\<rparr>"

definition quiet_env :: uv_env where
  "quiet_env = \<lparr>usr = (\<lambda>_ _ L. Inr L), io_cb = (\<lambda>_ _ _ L. Inr L), type_close = (\<lambda>_ L. Inr L), type_destroy = (\<lambda>_ L. Inr L)\<rparr>"

end
