(* ===== verification/UvTimer.thy ===== *)
theory UvTimer
  imports UvHandle
begin

text \<open>
  Timers: \<open>third/libuv/src/unix/timer.c\<close>, on the heap of \<open>heap-inl.h\<close>.

  \<open>uv__run_timers\<close> goes on as long as its callbacks start timers that are due at once, so it
  runs on fuel; \<open>run_timers_enough\<close> shows that one round more than there are timers is enough
  when callbacks leave the timers alone.
\<close>

section \<open>Operations\<close>

definition timer_less_than :: "(hid \<Rightarrow> uv_handle_t) \<Rightarrow> hid \<Rightarrow> hid \<Rightarrow> bool" where
  "timer_less_than hs ha hb =
     (let a = hs ha; b = hs hb in
      if timeout a < timeout b then True
      else if timeout b < timeout a then False
      else if start_id a < start_id b then True
      else if start_id b < start_id a then False
      else False)"

definition uv_timer_init :: "hid \<Rightarrow> uv_loop_t \<Rightarrow> int \<times> uv_loop_t" where
  "uv_timer_init h L = (0, upd_handle h (\<lambda>x. x\<lparr>timer_cb := None, repeat := 0\<rparr>) (uv__handle_init h UV_TIMER L))"

definition uv_timer_stop :: "hid \<Rightarrow> uv_loop_t \<Rightarrow> (int \<times> uv_loop_t) res" where
  "uv_timer_stop h L =
     (if \<not> uv__is_active h L then Inr (0, L)
      else
        let L = L\<lparr>timer_heap := heap_remove (timer_less_than (handles L)) h (timer_heap L)\<rparr>
        in bind_res (uv__handle_stop h L) (\<lambda>L. Inr (0, L)))"

definition uv_timer_start :: "hid \<Rightarrow> cb option \<Rightarrow> u64 \<Rightarrow> u64 \<Rightarrow> uv_loop_t \<Rightarrow> (int \<times> uv_loop_t) res" where
  "uv_timer_start h c tmo rep L =
     (if c = None then Inr (- EINVAL, L)
      else
        bind_res (if uv__is_active h L then uv_timer_stop h L else Inr (0, L)) (\<lambda>(_, L).
        let clamped_timeout = time L + tmo;
            clamped_timeout = (if clamped_timeout < tmo then - 1 else clamped_timeout);
            L = upd_handle h (\<lambda>x. x\<lparr>timer_cb := c, timeout := clamped_timeout, repeat := rep,
                                     start_id := timer_counter L\<rparr>) L;
            L = L\<lparr>timer_counter := timer_counter L + 1\<rparr>;
            L = L\<lparr>timer_heap := heap_insert (timer_less_than (handles L)) h (timer_heap L)\<rparr>
        in bind_res (uv__handle_start h L) (\<lambda>L. Inr (0, L))))"

definition uv_timer_again :: "hid \<Rightarrow> uv_loop_t \<Rightarrow> (int \<times> uv_loop_t) res" where
  "uv_timer_again h L =
     (if timer_cb (handles L h) = None then Inr (- EINVAL, L)
      else if repeat (handles L h) \<noteq> 0 then
        bind_res (uv_timer_stop h L) (\<lambda>(_, L).
        bind_res (uv_timer_start h (timer_cb (handles L h)) (repeat (handles L h)) (repeat (handles L h)) L) (\<lambda>(_, L).
        Inr (0, L)))
      else Inr (0, L))"

definition uv_timer_set_repeat :: "hid \<Rightarrow> u64 \<Rightarrow> uv_loop_t \<Rightarrow> uv_loop_t" where
  "uv_timer_set_repeat h rep L = upd_handle h (\<lambda>x. x\<lparr>repeat := rep\<rparr>) L"

definition uv_timer_get_repeat :: "hid \<Rightarrow> uv_loop_t \<Rightarrow> u64" where
  "uv_timer_get_repeat h L = repeat (handles L h)"

definition uv__next_timeout :: "uv_loop_t \<Rightarrow> int" where
  "uv__next_timeout L =
     (case heap_min (timer_heap L) of
        None \<Rightarrow> - 1
      | Some h \<Rightarrow>
          if timeout (handles L h) \<le> time L then 0
          else
            let diff = timeout (handles L h) - time L;
                diff = (if 2147483647 < diff then 2147483647 else diff)
            in cint (uint diff))"

fun uv__run_timers :: "nat \<Rightarrow> uv_env \<Rightarrow> uv_loop_t \<Rightarrow> uv_loop_t res option" where
  "uv__run_timers 0 E L = None"
| "uv__run_timers (Suc k) E L =
     (case heap_min (timer_heap L) of
        None \<Rightarrow> Some (Inr L)
      | Some h \<Rightarrow>
          if time L < timeout (handles L h) then Some (Inr L)
          else
            run_bind (Some (uv_timer_stop h L)) (\<lambda>(_, L).
            run_bind (Some (uv_timer_again h L)) (\<lambda>(_, L).
            run_bind (Some (call_usr E (timer_cb (handles L h)) (Timer_cb h) L)) (uv__run_timers k E))))"

definition uv__timer_close :: "hid \<Rightarrow> uv_loop_t \<Rightarrow> uv_loop_t res" where
  "uv__timer_close h L = bind_res (uv_timer_stop h L) (\<lambda>(_, L). Inr L)"

section \<open>The timers' order\<close>

lemma timer_less_than_iff:
  "timer_less_than hs a b \<longleftrightarrow> timeout (hs a) < timeout (hs b)
     \<or> (timeout (hs a) = timeout (hs b) \<and> start_id (hs a) < start_id (hs b))"
  by (auto simp: timer_less_than_def Let_def)

interpretation timers: comparison "timer_less_than hs" for hs
  by unfold_locales (auto simp: timer_less_than_iff)

lemma timer_order_cong:
  "(\<And>h. h \<in> set q \<Longrightarrow> timeout (hs' h) = timeout (hs h) \<and> start_id (hs' h) = start_id (hs h)) \<Longrightarrow>
   heap_ok (timer_less_than hs') q = heap_ok (timer_less_than hs) q"
proof -
  assume same: "\<And>h. h \<in> set q \<Longrightarrow> timeout (hs' h) = timeout (hs h) \<and> start_id (hs' h) = start_id (hs h)"
  have "node_at q p \<in> set q" if "0 < p" "p \<le> length q" for p using that by (auto simp: node_at_def)
  then have "edge_ok (timer_less_than hs') q (p div 2) p = edge_ok (timer_less_than hs) q (p div 2) p"
    if "2 \<le> p" "p \<le> length q" for p
    using that same by (simp add: edge_ok_def timer_less_than_iff)
  then show ?thesis by (simp add: heap_ok_def)
qed

section \<open>The invariant of the timers\<close>

text \<open>
  The heap is ordered and holds each active timer once; \<open>timers_ok\<close> also says that the handles
  of the heap are linked into the loop and have a callback.
\<close>

definition timers_ok :: "uv_loop_t \<Rightarrow> bool" where
  "timers_ok L \<longleftrightarrow> heap_ok (timer_less_than (handles L)) (timer_heap L) \<and> distinct (timer_heap L)
     \<and> (\<forall>h \<in> set (timer_heap L). htype (handles L h) = UV_TIMER \<and> h \<in> set (handle_queue L)
          \<and> timer_cb (handles L h) \<noteq> None)
     \<and> (\<forall>h \<in> set (handle_queue L). htype (handles L h) = UV_TIMER \<longrightarrow>
          (uv__is_active h L \<longleftrightarrow> h \<in> set (timer_heap L)))"

definition is_timer :: "hid \<Rightarrow> uv_loop_t \<Rightarrow> bool" where
  "is_timer h L \<longleftrightarrow> h \<in> set (handle_queue L) \<and> htype (handles L h) = UV_TIMER"

lemma set_heap_remove: "x \<in> set h \<Longrightarrow> distinct h \<Longrightarrow>
    set (heap_remove lt x h) = set h - {x} \<and> distinct (heap_remove lt x h)"
proof -
  assume x: "x \<in> set h" "distinct h"
  have m: "mset (heap_remove lt x h) = mset (remove1 x h)" by (simp add: heap_remove_mset [OF x])
  have "set (heap_remove lt x h) = set (remove1 x h)" by (rule mset_eq_setD [OF m])
  moreover have "distinct (heap_remove lt x h)" using mset_eq_imp_distinct_iff [OF m] x(2) by simp
  ultimately show ?thesis using x(2) by simp
qed

lemma set_heap_insert: "x \<notin> set h \<Longrightarrow> distinct h \<Longrightarrow>
    set (heap_insert lt x h) = insert x (set h) \<and> distinct (heap_insert lt x h)"
proof -
  assume x: "x \<notin> set h" "distinct h"
  note m = heap_insert_mset [of lt x h]
  have "set (heap_insert lt x h) = insert x (set h)" by (metis m set_mset_add_mset_insert set_mset_mset)
  moreover have "distinct (x # h)" using x by simp
  then have "distinct (heap_insert lt x h)" using m by (metis mset.simps(2) mset_eq_imp_distinct_iff)
  ultimately show ?thesis by simp
qed

text \<open>Stopping an active timer takes exactly it out of the heap.\<close>

definition stopped :: "hid \<Rightarrow> uv_loop_t \<Rightarrow> uv_loop_t" where
  "stopped h L = (if uv__is_active h L then
     let L = L\<lparr>timer_heap := heap_remove (timer_less_than (handles L)) h (timer_heap L)\<rparr>;
         L = upd_handle h (clear_flag UV__HANDLE_ACTIVE) L
     in if has_flag UV__HANDLE_REF (handles L h) then uv__active_handle_rm L else L
   else L)"

lemma timer_stop_eq: "uv_timer_stop h L = Inr (0, stopped h L)"
  by (simp add: uv_timer_stop_def stopped_def uv__handle_stop_def uv_simps uv__is_active_def Let_def upd_handle_def)

lemma stopped_views:
  "handle_queue (stopped h L) = handle_queue L" "time (stopped h L) = time L" "clock (stopped h L) = clock L"
  "timer_counter (stopped h L) = timer_counter L" "calls (stopped h L) = calls L"
  "htype (handles (stopped h L) x) = htype (handles L x)" "timeout (handles (stopped h L) x) = timeout (handles L x)"
  "start_id (handles (stopped h L) x) = start_id (handles L x)" "repeat (handles (stopped h L) x) = repeat (handles L x)"
  "timer_cb (handles (stopped h L) x) = timer_cb (handles L x)"
  "uv__is_active x (stopped h L) \<longleftrightarrow> x \<noteq> h \<and> uv__is_active x L"
  "closing_handles (stopped h L) = closing_handles L" "watcher_handles (stopped h L) = watcher_handles L"
  "watchers (stopped h L) = watchers L" "nfds (stopped h L) = nfds L" "watcher_queue (stopped h L) = watcher_queue L"
  "ios (stopped h L) = ios L" "stop_flag (stopped h L) = stop_flag L" "active_reqs (stopped h L) = active_reqs L"
  by (auto simp: stopped_def Let_def upd_handle_def uv__active_handle_rm_def uv__is_active_def uv_simps)

lemma stopped_heap:
  assumes "timers_ok L" "is_timer h L"
  shows "set (timer_heap (stopped h L)) = set (timer_heap L) - {h}" "timers_ok (stopped h L)"
proof -
  have a: "uv__is_active h L \<longleftrightarrow> h \<in> set (timer_heap L)" "distinct (timer_heap L)"
    using assms by (auto simp: timers_ok_def is_timer_def)
  have heap: "timer_heap (stopped h L) = (if uv__is_active h L
      then heap_remove (timer_less_than (handles L)) h (timer_heap L) else timer_heap L)"
    by (simp add: stopped_def Let_def uv__active_handle_rm_def uv_simps)
  then show s: "set (timer_heap (stopped h L)) = set (timer_heap L) - {h}"
    using a set_heap_remove [of h "timer_heap L"] by (cases "uv__is_active h L") simp_all
  have "heap_ok (timer_less_than (handles L)) (timer_heap (stopped h L))"
    using assms(1) a timers.heap_remove_ok unfolding heap by (auto simp: timers_ok_def)
  then have "heap_ok (timer_less_than (handles (stopped h L))) (timer_heap (stopped h L))"
    using timer_order_cong [of "timer_heap (stopped h L)" "handles (stopped h L)" "handles L"] by (simp add: stopped_views)
  moreover have "distinct (timer_heap (stopped h L))" using a set_heap_remove [of h "timer_heap L"] unfolding heap by auto
  ultimately show "timers_ok (stopped h L)"
    using assms unfolding timers_ok_def s is_timer_def by (auto simp: stopped_views)
qed

lemma stopped_count: "count_ok L \<Longrightarrow> h \<in> set (handle_queue L) \<Longrightarrow> count_ok (stopped h L)"
proof -
  assume L: "count_ok L" "h \<in> set (handle_queue L)"
  have "count_ok (L\<lparr>timer_heap := q\<rparr>)" for q using L by (simp add: count_ok_def counted_def)
  then have "count_ok L'" if "uv__handle_stop h (L\<lparr>timer_heap := q\<rparr>) = Inr L'" for q L'
    by (rule handle_stop_count [OF _ _ that]) (use L \<open>count_ok (L\<lparr>timer_heap := q\<rparr>)\<close> in simp_all)
  then show ?thesis using L timer_stop_eq [of h L]
    by (cases "uv__is_active h L") (auto simp: uv_timer_stop_def Let_def stopped_def)
qed

section \<open>Starting a timer\<close>

definition clamp :: "u64 \<Rightarrow> u64 \<Rightarrow> u64" where
  "clamp now tmo = (if now + tmo < tmo then - 1 else now + tmo)"

definition arm :: "hid \<Rightarrow> cb option \<Rightarrow> u64 \<Rightarrow> u64 \<Rightarrow> uv_loop_t \<Rightarrow> uv_loop_t" where
  "arm h c tmo rep L =
     (let L = upd_handle h (\<lambda>x. x\<lparr>timer_cb := c, timeout := clamp (time L) tmo, repeat := rep, start_id := timer_counter L\<rparr>) L;
          L = L\<lparr>timer_counter := timer_counter L + 1\<rparr>
      in L\<lparr>timer_heap := heap_insert (timer_less_than (handles L)) h (timer_heap L)\<rparr>)"

text \<open>The fields a timer operation on \<open>h\<close> does not touch.\<close>

definition same_but :: "hid \<Rightarrow> uv_loop_t \<Rightarrow> uv_loop_t \<Rightarrow> bool" where
  "same_but h L L' \<longleftrightarrow> handle_queue L' = handle_queue L \<and> time L' = time L \<and> calls L' = calls L
     \<and> (\<forall>x. htype (handles L' x) = htype (handles L x))
     \<and> (\<forall>x. x \<noteq> h \<longrightarrow> handles L' x = handles L x)"

lemma same_but_refl [simp]: "same_but h L L"
  by (simp add: same_but_def)

lemma same_but_trans: "same_but h L M \<Longrightarrow> same_but h M N \<Longrightarrow> same_but h L N"
  by (simp add: same_but_def)

lemma stopped_same: "same_but h L (stopped h L)"
  by (auto simp: same_but_def stopped_views)
    (simp_all add: stopped_def Let_def uv__active_handle_rm_def uv_simps)

lemma timer_start_eq:
  assumes "timers_ok L" "is_timer h L" "c \<noteq> None"
  shows "\<exists>L'. uv_timer_start h c tmo rep L = Inr (0, L') \<and> same_but h L L' \<and> timers_ok L'
    \<and> set (timer_heap L') = insert h (set (timer_heap L)) \<and> timeout (handles L' h) = clamp (time L) tmo
    \<and> repeat (handles L' h) = rep \<and> timer_cb (handles L' h) = c \<and> start_id (handles L' h) = timer_counter L
    \<and> timer_counter L' = timer_counter L + 1 \<and> (count_ok L \<longrightarrow> count_ok L')"
proof -
  let ?S = "stopped h L"
  let ?A = "arm h c tmo rep ?S"
  have S: "timers_ok ?S" "set (timer_heap ?S) = set (timer_heap L) - {h}" using stopped_heap [OF assms(1,2)] by auto
  then have fresh: "h \<notin> set (timer_heap ?S)" "distinct (timer_heap ?S)" by (auto simp: timers_ok_def)
  have "(if uv__is_active h L then uv_timer_stop h L else Inr (0, L)) = Inr (0, ?S)"
    by (simp add: timer_stop_eq) (simp add: stopped_def)
  then have start: "uv_timer_start h c tmo rep L = bind_res (uv__handle_start h ?A) (\<lambda>L. Inr (0, L))"
    using assms(3) by (auto simp: uv_timer_start_def arm_def clamp_def Let_def)
  obtain L' where L': "uv__handle_start h ?A = Inr L'" using handle_start_total by blast
  have na: "\<not> has_flag UV__HANDLE_ACTIVE (handles ?A h)"
    using stopped_views(11) [of h h L] by (simp add: arm_def uv_simps uv__is_active_def has_flag_def Let_def)
  have act: "handles L' = (handles ?A)(h := set_flag UV__HANDLE_ACTIVE (handles ?A h))"
    "timer_heap L' = timer_heap ?A" "handle_queue L' = handle_queue ?A" "time L' = time ?A" "calls L' = calls ?A"
    "timer_counter L' = timer_counter ?A"
    using L' na by (auto simp: uv__handle_start_def uv_simps Let_def upd_handle_def uv__active_handle_add_def split: if_splits)
  have A: "handles ?A = (handles ?S)(h := (handles ?S h)\<lparr>timer_cb := c, timeout := clamp (time L) tmo, repeat := rep,
             start_id := timer_counter L\<rparr>)"
    "handle_queue ?A = handle_queue L" "time ?A = time L" "calls ?A = calls L" "timer_counter ?A = timer_counter L + 1"
    "timer_heap ?A = heap_insert (timer_less_than (handles ?A)) h (timer_heap ?S)"
    by (simp_all add: arm_def Let_def upd_handle_def stopped_views)
  have heap: "set (timer_heap L') = insert h (set (timer_heap L))" "distinct (timer_heap L')"
    unfolding act A(6) using set_heap_insert [OF fresh] S(2) by auto
  have "heap_ok (timer_less_than (handles ?A)) (timer_heap ?S) = heap_ok (timer_less_than (handles ?S)) (timer_heap ?S)"
    using fresh by (intro timer_order_cong) (auto simp: A(1))
  then have "heap_ok (timer_less_than (handles ?A)) (timer_heap ?A)"
    unfolding A(6) using S(1) by (intro timers.heap_insert_ok) (simp add: timers_ok_def)
  then have ord: "heap_ok (timer_less_than (handles L')) (timer_heap L')"
    using timer_order_cong [of "timer_heap L'" "handles L'" "handles ?A"] by (auto simp: act)
  have actives: "uv__is_active x L' \<longleftrightarrow> x = h \<or> uv__is_active x L" for x
    using stopped_views(11) [of x h L] by (auto simp: uv__is_active_def act(1) A(1) uv_simps)
  have types: "htype (handles L' x) = htype (handles L x)" for x by (simp add: act(1) A(1) stopped_views)
  have cbs: "timer_cb (handles L' x) = (if x = h then c else timer_cb (handles L x))" for x
    by (simp add: act(1) A(1) stopped_views)
  have "timers_ok L'"
    using assms ord heap unfolding timers_ok_def is_timer_def actives types cbs heap(1) act(3) A(2) by auto
  moreover have "same_but h L L'"
    using stopped_same [of h L] act A by (auto simp: same_but_def)
  moreover have "count_ok L'" if "count_ok L"
  proof -
    have "count_ok ?S" using stopped_count [OF that] assms(2) by (simp add: is_timer_def)
    moreover have "counts (handles ?A x) = counts (handles ?S x)" for x by (simp add: A(1) counts_def has_flag_def)
    then have "counted ?A = counted ?S" by (simp add: counted_def A(2) stopped_views)
    moreover have "active_handles ?A = active_handles ?S" by (simp add: arm_def Let_def upd_handle_def)
    ultimately have "count_ok ?A" by (simp add: count_ok_def A(2) stopped_views)
    then show ?thesis using handle_start_count L' assms(2) A(2) by (auto simp: is_timer_def)
  qed
  ultimately show ?thesis using start L' heap act A by (intro exI [of _ L']) auto
qed

section \<open>Running the timers that are due\<close>

definition due :: "uv_loop_t \<Rightarrow> hid set" where
  "due L = {h \<in> set (timer_heap L). timeout (handles L h) \<le> time L}"

lemma clamp_later: "now < - 1 \<Longrightarrow> tmo \<noteq> 0 \<Longrightarrow> now < clamp now tmo"
proof -
  assume a: "now < - 1" "tmo \<noteq> 0"
  show ?thesis
  proof (cases "now + tmo < tmo")
    case False
    then have "tmo \<le> now + tmo" by simp
    then have "now \<le> now + tmo" using word_le_plus_either no_plus_overflow_uint_size by (metis add.commute no_olen_add)
    moreover have "now \<noteq> now + tmo" using a(2) by simp
    ultimately have "now < now + tmo" by (rule le_neq_trans)
    then show ?thesis using False by (simp add: clamp_def)
  qed (use a in \<open>simp add: clamp_def\<close>)
qed

text \<open>Stopping a due timer and starting it again if it repeats.\<close>

lemma fire_step:
  assumes "timers_ok L" "h \<in> due L" "time L < - 1"
  shows "\<exists>M. bind_res (uv_timer_stop h L) (\<lambda>(_, L). uv_timer_again h L) = Inr (0, M) \<and> same_but h L M \<and> timers_ok M
    \<and> set (timer_heap M) = (if repeat (handles L h) = 0 then set (timer_heap L) - {h} else set (timer_heap L))
    \<and> due M = due L - {h} \<and> timer_cb (handles M h) = timer_cb (handles L h) \<and> timer_cb (handles L h) \<noteq> None
    \<and> (repeat (handles L h) \<noteq> 0 \<longrightarrow> timeout (handles M h) = clamp (time L) (repeat (handles L h)))
    \<and> (count_ok L \<longrightarrow> count_ok M)"
proof -
  let ?S = "stopped h L"
  have h: "is_timer h L" "timer_cb (handles L h) \<noteq> None" "h \<in> set (timer_heap L)"
    using assms by (auto simp: timers_ok_def is_timer_def due_def)
  have hS: "is_timer h ?S" using h by (simp add: is_timer_def stopped_views)
  note S = stopped_heap [OF assms(1) h(1)]
  have cnt: "count_ok L \<Longrightarrow> count_ok ?S" using stopped_count h(1) by (simp add: is_timer_def)
  have stop: "bind_res (uv_timer_stop h L) (\<lambda>(_, L). uv_timer_again h L) = uv_timer_again h ?S"
    by (simp add: timer_stop_eq)
  show ?thesis
  proof (cases "repeat (handles L h) = 0")
    case True
    then have "uv_timer_again h ?S = Inr (0, ?S)" using h by (auto simp: uv_timer_again_def stopped_views)
    then show ?thesis
      using True S stop h cnt stopped_same by (intro exI [of _ ?S]) (auto simp: due_def stopped_views)
  next
    case False
    have SS: "stopped h ?S = ?S" using stopped_views(11) [of h h L] by (simp add: stopped_def [of h ?S])
    obtain M where M: "uv_timer_start h (timer_cb (handles L h)) (repeat (handles L h)) (repeat (handles L h)) ?S = Inr (0, M)"
      "same_but h ?S M" "timers_ok M" "set (timer_heap M) = insert h (set (timer_heap ?S))"
      "timeout (handles M h) = clamp (time ?S) (repeat (handles L h))" "timer_cb (handles M h) = timer_cb (handles L h)"
      "count_ok ?S \<longrightarrow> count_ok M"
      using timer_start_eq [OF S(2) hS h(2), of "repeat (handles L h)" "repeat (handles L h)"] by blast
    have "uv_timer_again h ?S = Inr (0, M)"
      using False h M(1) timer_stop_eq [of h ?S] by (auto simp: uv_timer_again_def stopped_views SS)
    moreover have sb: "same_but h L M" using same_but_trans [OF stopped_same M(2)] .
    moreover have "set (timer_heap M) = set (timer_heap L)" using M(4) S(1) h(3) by auto
    moreover have "timeout (handles M x) \<le> time L \<longleftrightarrow> x \<noteq> h \<and> timeout (handles L x) \<le> time L" for x
      using M(5) clamp_later [OF assms(3) False] sb by (cases "x = h") (auto simp: same_but_def stopped_views)
    moreover from this have "due M = due L - {h}"
      using M(5) clamp_later [OF assms(3) False] sb \<open>set (timer_heap M) = set (timer_heap L)\<close>
      by (auto simp: due_def same_but_def stopped_views)

    ultimately show ?thesis using M False stop h cnt by (intro exI [of _ M]) (auto simp: stopped_views)
  qed
qed

text \<open>Callbacks that leave the timers alone.\<close>

definition timer_quiet :: "uv_env \<Rightarrow> bool" where
  "timer_quiet E \<longleftrightarrow> (\<forall>c k L. \<exists>L'. usr E c k L = Inr L' \<and> handles L' = handles L \<and> timer_heap L' = timer_heap L
     \<and> handle_queue L' = handle_queue L \<and> active_handles L' = active_handles L \<and> time L' = time L \<and> calls L' = calls L)"

definition fired :: "uv_loop_t \<Rightarrow> hid list \<Rightarrow> uv_loop_t \<Rightarrow> bool" where
  "fired L fs L' \<longleftrightarrow> calls L' = calls L @ map Timer_cb fs \<and> distinct fs \<and> set fs = due L
     \<and> sorted_wrt (\<lambda>a b. \<not> timer_less_than (handles L) b a) fs
     \<and> timers_ok L' \<and> due L' = {} \<and> time L' = time L \<and> handle_queue L' = handle_queue L
     \<and> set (timer_heap L') = {h \<in> set (timer_heap L). h \<in> due L \<longrightarrow> repeat (handles L h) \<noteq> 0}
     \<and> (\<forall>h \<in> due L. repeat (handles L h) \<noteq> 0 \<longrightarrow> timeout (handles L' h) = clamp (time L) (repeat (handles L h)))
     \<and> (\<forall>h. h \<notin> due L \<longrightarrow> handles L' h = handles L h) \<and> (count_ok L \<longrightarrow> count_ok L')"

lemma due_empty_min: "timers_ok L \<Longrightarrow> heap_min (timer_heap L) = Some m \<Longrightarrow> time L < timeout (handles L m) \<Longrightarrow> due L = {}"
proof -
  assume L: "timers_ok L" "heap_min (timer_heap L) = Some m" "time L < timeout (handles L m)"
  have "timeout (handles L m) \<le> timeout (handles L h)" if "h \<in> set (timer_heap L)" for h
    using timers.heap_min_least [OF _ L(2) that, of "handles L"] L(1) by (auto simp: timers_ok_def timer_less_than_iff)
  then show ?thesis using L(3) by (fastforce simp: due_def)
qed

text \<open>One timer fired: \<open>N\<close> is the state after its callback.\<close>

definition fired_one :: "uv_loop_t \<Rightarrow> hid \<Rightarrow> uv_loop_t \<Rightarrow> bool" where
  "fired_one L m N \<longleftrightarrow> timers_ok N \<and> due N = due L - {m} \<and> time N = time L \<and> handle_queue N = handle_queue L
     \<and> calls N = calls L @ [Timer_cb m] \<and> (\<forall>x. x \<noteq> m \<longrightarrow> handles N x = handles L x)
     \<and> set (timer_heap N) = (if repeat (handles L m) = 0 then set (timer_heap L) - {m} else set (timer_heap L))
     \<and> (repeat (handles L m) \<noteq> 0 \<longrightarrow> timeout (handles N m) = clamp (time L) (repeat (handles L m)))
     \<and> (count_ok L \<longrightarrow> count_ok N)"

lemma fire_one:
  assumes "timers_ok L" "timer_quiet E" "time L < - 1" "heap_min (timer_heap L) = Some m" "m \<in> due L"
  shows "\<exists>N. uv__run_timers (Suc k) E L = uv__run_timers k E N \<and> fired_one L m N"
proof -
  from fire_step [OF assms(1,5,3)] obtain M where
    M: "bind_res (uv_timer_stop m L) (\<lambda>(_, L). uv_timer_again m L) = Inr (0, M)" "same_but m L M" "timers_ok M"
      "set (timer_heap M) = (if repeat (handles L m) = 0 then set (timer_heap L) - {m} else set (timer_heap L))"
      "due M = due L - {m}" "timer_cb (handles M m) = timer_cb (handles L m)" "timer_cb (handles L m) \<noteq> None"
      "repeat (handles L m) \<noteq> 0 \<longrightarrow> timeout (handles M m) = clamp (time L) (repeat (handles L m))"
      "count_ok L \<longrightarrow> count_ok M" by blast
  obtain c where c: "timer_cb (handles L m) = Some c" using M(7) by blast
  define M0 where "M0 = M\<lparr>calls := calls M @ [Timer_cb m]\<rparr>"
  from assms(2) obtain N where N: "usr E c (Timer_cb m) M0 = Inr N" "handles N = handles M0" "timer_heap N = timer_heap M0"
    "handle_queue N = handle_queue M0" "active_handles N = active_handles M0" "time N = time M0" "calls N = calls M0"
    unfolding timer_quiet_def by blast
  then have N': "handles N = handles M" "timer_heap N = timer_heap M" "handle_queue N = handle_queue M"
    "active_handles N = active_handles M" "time N = time M" "calls N = calls M @ [Timer_cb m]" by (simp_all add: M0_def)
  have "\<not> time L < timeout (handles L m)" using assms(5) by (simp add: due_def linorder_not_less)
  then have "uv__run_timers (Suc k) E L = uv__run_timers k E N"
    using assms(4) M(1,6) c N(1) timer_stop_eq [of m L] by (simp add: call_usr_def M0_def)
  moreover have "timers_ok N" using M(3) by (simp add: timers_ok_def uv__is_active_def N')
  moreover have "due N = due L - {m}" using M(5) by (simp add: due_def N')
  moreover have "count_ok L \<longrightarrow> count_ok N" using M(9) by (simp add: count_ok_def counted_def N')
  ultimately show ?thesis using M(2,4,8) unfolding fired_one_def same_but_def by (intro exI [of _ N]) (simp add: N')
qed

lemma fired_cons:
  assumes "timers_ok L" "heap_min (timer_heap L) = Some m" "m \<in> due L" "fired_one L m N" "fired N fs L'"
  shows "fired L (m # fs) L'"
proof -
  have same: "handles N x = handles L x" if "x \<noteq> m" for x using assms(4) that by (simp add: fired_one_def)
  have set: "set fs = due L - {m}" "due N = due L - {m}" using assms(4,5) by (simp_all add: fired_def fired_one_def)
  have least: "\<not> timer_less_than (handles L) b m" if "b \<in> due L" for b
    using timers.heap_min_least [OF _ assms(2), of "handles L" b] assms(1) that by (simp add: timers_ok_def due_def)
  have eq: "timer_less_than (handles N) b a = timer_less_than (handles L) b a" if "a \<in> set fs" "b \<in> set fs" for a b
    using that set same by (auto simp: timer_less_than_iff)
  have "sorted_wrt (\<lambda>a b. \<not> timer_less_than (handles N) b a) fs" using assms(5) by (simp add: fired_def)
  then have "sorted_wrt (\<lambda>a b. \<not> timer_less_than (handles L) b a) fs"
    by (rule sorted_wrt_mono_rel [rotated]) (simp add: eq)
  then have "sorted_wrt (\<lambda>a b. \<not> timer_less_than (handles L) b a) (m # fs)" using least set by auto
  moreover have "calls L' = calls L @ map Timer_cb (m # fs)" "distinct (m # fs)" "set (m # fs) = due L"
    "due L' = {}" "timers_ok L'" "time L' = time L" "handle_queue L' = handle_queue L" "count_ok L \<longrightarrow> count_ok L'"
    using assms(3-5) set by (auto simp: fired_def fired_one_def)
  moreover have "handles L' h = handles L h" if "h \<notin> due L" for h
    using that assms(3,5) same [of h] set by (auto simp: fired_def)
  moreover have "set (timer_heap L') = {h \<in> set (timer_heap L). h \<in> due L \<longrightarrow> repeat (handles L h) \<noteq> 0}"
  proof -
    have "set (timer_heap L') = {h \<in> set (timer_heap N). h \<in> due L - {m} \<longrightarrow> repeat (handles L h) \<noteq> 0}"
      using assms(5) set same by (auto simp: fired_def)
    moreover have "set (timer_heap N) = (if repeat (handles L m) = 0 then set (timer_heap L) - {m} else set (timer_heap L))"
      using assms(4) by (simp add: fired_one_def)
    ultimately show ?thesis using assms(3) by (auto split: if_splits)
  qed
  moreover have "timeout (handles L' h) = clamp (time L) (repeat (handles L h))"
    if "h \<in> due L" "repeat (handles L h) \<noteq> 0" for h
  proof (cases "h = m")
    case True
    then have "handles L' h = handles N h" using assms(5) set by (simp add: fired_def)
    then show ?thesis using True assms(4) that by (simp add: fired_one_def)
  next
    case False
    then have "h \<in> due N" "repeat (handles N h) \<noteq> 0" "handles N h = handles L h" using that set same by auto
    then show ?thesis using assms(4,5) by (simp add: fired_def fired_one_def)
  qed
  ultimately show ?thesis unfolding fired_def by blast
qed

lemma run_timers_enough:
  assumes "timers_ok L" "timer_quiet E" "time L < - 1" "card (due L) < k"
  shows "\<exists>L' fs. uv__run_timers k E L = Some (Inr L') \<and> fired L fs L'"
  using assms(1,3,4)
proof (induction k arbitrary: L)
  case (Suc k)
  show ?case
  proof (cases "due L = {}")
    case True
    then have "uv__run_timers (Suc k) E L = Some (Inr L)"
      using heap_min_mem [of "timer_heap L"] by (cases "heap_min (timer_heap L)") (auto simp: due_def linorder_not_le heap_min_def)
    then show ?thesis using True Suc.prems(1) by (intro exI [of _ L] exI [of _ "[]"]) (simp add: fired_def)
  next
    case False
    then obtain m where m: "heap_min (timer_heap L) = Some m" by (cases "heap_min (timer_heap L)") (auto simp: due_def)
    have md: "m \<in> due L"
      using due_empty_min [OF Suc.prems(1) m] False heap_min_mem [OF m]
      by (cases "time L < timeout (handles L m)") (auto simp: due_def linorder_not_less)
    from fire_one [OF Suc.prems(1) assms(2) Suc.prems(2) m md] obtain N where
      N: "uv__run_timers (Suc k) E L = uv__run_timers k E N" "fired_one L m N" by blast
    have "finite (due L)" by (simp add: due_def)
    then have "card (due L) = Suc (card (due L - {m}))" using md by (rule card.remove)
    then have "card (due N) < k" "timers_ok N" "time N < - 1" using Suc.prems N(2) by (simp_all add: fired_one_def)
    then show ?thesis using Suc.IH N fired_cons [OF Suc.prems(1) m md N(2)] by metis
  qed
qed simp

text \<open>
  C29: Running the timers.  With callbacks that leave the timers alone, \<open>uv__run_timers\<close> ends
  within one round more than there are due timers.  It calls back exactly the timers that are
  due, each once, in the order of their timeouts and, among equal timeouts, of their start; a
  timer that repeats is started again at the loop's time plus its period (clamped to the largest
  time), every other fired timer is stopped, no timer is due any more, the timers that were not
  due are untouched, and the heap and the count of active handles stay correct.
\<close>
theorem uv_run_timers_fires_due:
  assumes "timers_ok L" "timer_quiet E" "time L < - 1" "card (due L) < k"
  shows "\<exists>L' fs. uv__run_timers k E L = Some (Inr L')
    \<and> calls L' = calls L @ map Timer_cb fs \<and> distinct fs \<and> set fs = due L
    \<and> sorted_wrt (\<lambda>a b. \<not> timer_less_than (handles L) b a) fs
    \<and> set (timer_heap L') = {h \<in> set (timer_heap L). h \<in> due L \<longrightarrow> repeat (handles L h) \<noteq> 0}
    \<and> (\<forall>h \<in> due L. repeat (handles L h) \<noteq> 0 \<longrightarrow> timeout (handles L' h) = clamp (time L) (repeat (handles L h)))
    \<and> (\<forall>h. h \<notin> due L \<longrightarrow> handles L' h = handles L h)
    \<and> due L' = {} \<and> timers_ok L' \<and> (count_ok L \<longrightarrow> count_ok L')"
  using run_timers_enough [OF assms] unfolding fired_def by blast

text \<open>An example: two timers, the second of which repeats; both are due.\<close>

definition two_timers :: uv_loop_t where
  "two_timers =
     (let L = snd (uv_timer_init 4 (snd (uv_timer_init 2 empty_loop))) in
      case uv_timer_start 4 (Some 7) 5 0 L of
        Inl _ \<Rightarrow> L
      | Inr (_, L) \<Rightarrow> (case uv_timer_start 2 (Some 8) 3 10 L of Inl _ \<Rightarrow> L | Inr (_, L) \<Rightarrow> L\<lparr>time := 6\<rparr>))"

lemma timer_init_ok:
  assumes "timers_ok L" "h \<notin> set (handle_queue L)"
  shows "timers_ok (snd (uv_timer_init h L))" "is_timer h (snd (uv_timer_init h L))"
proof -
  let ?M = "snd (uv_timer_init h L)"
  have hs: "handles ?M x = (if x = h then (handles L h)\<lparr>htype := UV_TIMER, flags := UV__HANDLE_REF, timer_cb := None, repeat := 0\<rparr>
      else handles L x)" for x
    by (simp add: uv_timer_init_def uv__handle_init_def uv_simps upd_handle_def)
  have q: "handle_queue ?M = handle_queue L @ [h]" "timer_heap ?M = timer_heap L"
    by (simp_all add: uv_timer_init_def uv__handle_init_def uv_simps upd_handle_def)
  have nh: "h \<notin> set (timer_heap L)" using assms by (auto simp: timers_ok_def)
  have "heap_ok (timer_less_than (handles ?M)) (timer_heap L)"
    using assms nh timer_order_cong [of "timer_heap L" "handles ?M" "handles L"] by (auto simp: timers_ok_def hs)
  moreover have "\<not> uv__is_active h ?M"
    by (simp add: uv__is_active_def hs has_flag_def UV__HANDLE_ACTIVE_def UV__HANDLE_REF_def)
  moreover have "uv__is_active x ?M = uv__is_active x L" if "x \<noteq> h" for x using that by (simp add: uv__is_active_def hs)
  ultimately show "timers_ok ?M" using assms nh unfolding timers_ok_def q by (auto simp: hs)
  show "is_timer h ?M" by (simp add: is_timer_def q hs)
qed

lemma two_timers_ok: "timers_ok two_timers" "due two_timers = {4, 2}" "card (due two_timers) = 2"
  "repeat (handles two_timers 4) = 0" "repeat (handles two_timers 2) = 10" "time two_timers = 6" "calls two_timers = []"
  "timeout (handles two_timers 4) = 5" "timeout (handles two_timers 2) = 3"
proof -
  let ?A = "snd (uv_timer_init 2 empty_loop)" and ?B = "snd (uv_timer_init 4 (snd (uv_timer_init 2 empty_loop)))"
  have E: "timers_ok empty_loop" by (simp add: timers_ok_def empty_loop_def heap_ok_def heap_init_def)
  have A: "timers_ok ?A" "is_timer 2 ?A" using timer_init_ok [OF E, of 2] by (simp_all add: empty_loop_def)
  have B: "timers_ok ?B" "is_timer 4 ?B" "is_timer 2 ?B" "time ?B = 0" "timer_heap ?B = []" "calls ?B = []" "timer_counter ?B = 0"
    using timer_init_ok [OF A(1), of 4] A(2)
    by (simp_all add: uv_timer_init_def uv__handle_init_def uv_simps upd_handle_def empty_loop_def is_timer_def heap_init_def)
  obtain C where C: "uv_timer_start 4 (Some 7) 5 0 ?B = Inr (0, C)" "same_but 4 ?B C" "timers_ok C"
      "set (timer_heap C) = {4}" "timeout (handles C 4) = clamp 0 5" "repeat (handles C 4) = 0"
    using timer_start_eq [OF B(1,2), of "Some 7" 5 0] B by auto
  then have C2: "is_timer 2 C" "time C = 0" "calls C = []" using B by (auto simp: is_timer_def same_but_def)
  obtain D where D: "uv_timer_start 2 (Some 8) 3 10 C = Inr (0, D)" "same_but 2 C D" "timers_ok D"
      "set (timer_heap D) = {2, 4}" "timeout (handles D 2) = clamp 0 3" "repeat (handles D 2) = 10"
    using timer_start_eq [OF C(3) C2(1), of "Some 8" 3 10] C C2 by auto
  have T: "two_timers = D\<lparr>time := 6\<rparr>" using C(1) D(1) by (simp add: two_timers_def)
  show "timers_ok two_timers" using D(3) by (simp add: T timers_ok_def uv__is_active_def)
  show due: "due two_timers = {4, 2}"
    using D C by (auto simp: T due_def same_but_def clamp_def)
  show "card (due two_timers) = 2" by (simp add: due)
  show "repeat (handles two_timers 4) = 0" "repeat (handles two_timers 2) = 10" "time two_timers = 6" "calls two_timers = []"
    "timeout (handles two_timers 4) = 5" "timeout (handles two_timers 2) = 3"
    using C C2 D by (simp_all add: T same_but_def clamp_def)
qed

lemma uv_run_timers_fires_due_witness:
  "\<exists>L'. uv__run_timers 3 quiet_env two_timers = Some (Inr L')
     \<and> calls L' = [Timer_cb 2, Timer_cb 4] \<and> timeout (handles L' 2) = 16"
proof -
  have q: "timer_quiet quiet_env" by (simp add: timer_quiet_def quiet_env_def)
  have "time two_timers < - 1" "card (due two_timers) < 3" by (simp_all add: two_timers_ok)
  from uv_run_timers_fires_due [OF two_timers_ok(1) q this] obtain L' fs where
    L': "uv__run_timers 3 quiet_env two_timers = Some (Inr L')" "calls L' = calls two_timers @ map Timer_cb fs"
      "distinct fs" "set fs = due two_timers" "sorted_wrt (\<lambda>a b. \<not> timer_less_than (handles two_timers) b a) fs"
      "\<forall>h \<in> due two_timers. repeat (handles two_timers h) \<noteq> 0 \<longrightarrow>
         timeout (handles L' h) = clamp (time two_timers) (repeat (handles two_timers h))" by blast
  have fs: "set fs = {4, 2}" using L'(4) by (simp add: two_timers_ok)
  then have "length fs = 2" using L'(3) distinct_card [of fs] by simp
  then obtain a b where ab: "fs = [a, b]" by (auto simp: numeral_2_eq_2 length_Suc_conv)
  then have "a = 2" "b = 4"
    using fs L'(5) by (auto simp: doubleton_eq_iff timer_less_than_iff two_timers_ok)
  then show ?thesis using L' ab by (simp add: two_timers_ok clamp_def)
qed

end
