(* ===== verification/UvWatcher.thy ===== *)
theory UvWatcher
  imports UvTimer
begin

text \<open>
  Prepare, check and idle watchers: the functions \<open>third/libuv/src/unix/loop-watcher.c\<close>
  defines by one macro, with the kind as an argument.

  The watchers to run are moved to a queue on the stack (\<open>run_queue\<close>); each is put back into the
  loop's queue before its callback, which may stop any watcher.  The loop runs on fuel;
  \<open>run_watchers_enough\<close> shows that one round more than the queue is long is enough.
\<close>

section \<open>Operations\<close>

definition watcher_type :: "wkind \<Rightarrow> htype" where
  "watcher_type k = (case k of Prepare \<Rightarrow> UV_PREPARE | Check \<Rightarrow> UV_CHECK | Idle \<Rightarrow> UV_IDLE)"

definition set_watchers :: "wkind \<Rightarrow> (hid list \<Rightarrow> hid list) \<Rightarrow> uv_loop_t \<Rightarrow> uv_loop_t" where
  "set_watchers k f L = L\<lparr>watcher_handles := (watcher_handles L)(k := f (watcher_handles L k))\<rparr>"

definition uv_watcher_init :: "wkind \<Rightarrow> hid \<Rightarrow> uv_loop_t \<Rightarrow> int \<times> uv_loop_t" where
  "uv_watcher_init k h L =
     (0, upd_handle h (\<lambda>x. x\<lparr>watcher_cb := None\<rparr>) (uv__handle_init h (watcher_type k) L))"

definition uv_watcher_start :: "wkind \<Rightarrow> hid \<Rightarrow> cb option \<Rightarrow> uv_loop_t \<Rightarrow> (int \<times> uv_loop_t) res" where
  "uv_watcher_start k h c L =
     (if uv__is_active h L then Inr (0, L)
      else if c = None then Inr (- EINVAL, L)
      else
        let L = set_watchers k ((#) h) L;
            L = upd_handle h (\<lambda>x. x\<lparr>watcher_cb := c\<rparr>) L
        in bind_res (uv__handle_start h L) (\<lambda>L. Inr (0, L)))"

text \<open>An active watcher is in the loop's queue or in the one being run.\<close>

definition uv_watcher_stop :: "wkind \<Rightarrow> hid \<Rightarrow> uv_loop_t \<Rightarrow> (int \<times> uv_loop_t) res" where
  "uv_watcher_stop k h L =
     (if \<not> uv__is_active h L then Inr (0, L)
      else
        let L = (set_watchers k (removeAll h) L)\<lparr>run_queue := removeAll h (run_queue L)\<rparr>
        in bind_res (uv__handle_stop h L) (\<lambda>L. Inr (0, L)))"

fun run_watchers :: "nat \<Rightarrow> uv_env \<Rightarrow> wkind \<Rightarrow> uv_loop_t \<Rightarrow> uv_loop_t res option" where
  "run_watchers 0 E k L = None"
| "run_watchers (Suc n) E k L =
     (case run_queue L of
        [] \<Rightarrow> Some (Inr L)
      | h # q \<Rightarrow>
          let L = set_watchers k (\<lambda>l. l @ [h]) (L\<lparr>run_queue := q\<rparr>)
          in run_bind (Some (call_usr E (watcher_cb (handles L h)) (Watcher_cb k h) L)) (run_watchers n E k))"

definition uv__run_watcher :: "nat \<Rightarrow> uv_env \<Rightarrow> wkind \<Rightarrow> uv_loop_t \<Rightarrow> uv_loop_t res option" where
  "uv__run_watcher n E k L = run_watchers n E k (set_watchers k (\<lambda>_. []) (L\<lparr>run_queue := watcher_handles L k\<rparr>))"

definition uv__watcher_close :: "wkind \<Rightarrow> hid \<Rightarrow> uv_loop_t \<Rightarrow> uv_loop_t res" where
  "uv__watcher_close k h L = bind_res (uv_watcher_stop k h L) (\<lambda>(_, L). Inr L)"

section \<open>Running a queue of watchers\<close>

lemma set_watchers_fields [uv_simps]:
  "handles (set_watchers k f L) = handles L" "handle_queue (set_watchers k f L) = handle_queue L"
  "active_handles (set_watchers k f L) = active_handles L" "calls (set_watchers k f L) = calls L"
  "run_queue (set_watchers k f L) = run_queue L" "timer_heap (set_watchers k f L) = timer_heap L"
  "watcher_handles (set_watchers k f L) k' = (if k' = k then f (watcher_handles L k) else watcher_handles L k')"
  by (simp_all add: set_watchers_def)

text \<open>
  Callbacks that may do anything but add to the queue being run: starting a watcher puts it into
  the loop's queue, stopping one only takes it out.
\<close>

definition watcher_tame :: "uv_env \<Rightarrow> bool" where
  "watcher_tame E \<longleftrightarrow> (\<forall>c k h L. \<exists>L'. usr E c (Watcher_cb k h) L = Inr L'
     \<and> length (run_queue L') \<le> length (run_queue L)
     \<and> (\<forall>x \<in> set (run_queue L'). x \<in> set (run_queue L) \<and> watcher_cb (handles L' x) \<noteq> None))"

lemma run_watchers_enough:
  assumes "watcher_tame E" "length (run_queue L) < n" "\<forall>h \<in> set (run_queue L). watcher_cb (handles L h) \<noteq> None"
  shows "\<exists>L'. run_watchers n E k L = Some (Inr L') \<and> run_queue L' = []"
  using assms(2,3)
proof (induction n arbitrary: L)
  case (Suc n)
  show ?case
  proof (cases "run_queue L")
    case (Cons h q)
    define M where "M = set_watchers k (\<lambda>l. l @ [h]) (L\<lparr>run_queue := q\<rparr>)"
    obtain c where c: "watcher_cb (handles M h) = Some c" using Suc.prems(2) Cons by (auto simp: M_def uv_simps)
    from assms(1) obtain N where N: "usr E c (Watcher_cb k h) (M\<lparr>calls := calls M @ [Watcher_cb k h]\<rparr>) = Inr N"
      "length (run_queue N) \<le> length q" "\<forall>x \<in> set (run_queue N). watcher_cb (handles N x) \<noteq> None"
      unfolding watcher_tame_def by (fastforce simp: M_def uv_simps)
    have "run_watchers (Suc n) E k L = run_watchers n E k N" using Cons c N(1) by (simp add: call_usr_def flip: M_def)
    then show ?thesis using Suc.IH [of N] Suc.prems(1) N(2,3) Cons by simp
  qed simp
qed simp

text \<open>Callbacks that leave the watchers alone: every watcher is called back once, in order.\<close>

definition watcher_quiet :: "uv_env \<Rightarrow> bool" where
  "watcher_quiet E \<longleftrightarrow> (\<forall>c k h L. \<exists>L'. usr E c (Watcher_cb k h) L = Inr L' \<and> run_queue L' = run_queue L
     \<and> watcher_handles L' = watcher_handles L \<and> handles L' = handles L \<and> calls L' = calls L
     \<and> handle_queue L' = handle_queue L \<and> active_handles L' = active_handles L)"

lemma run_watchers_calls:
  assumes "watcher_quiet E" "length (run_queue L) < n" "\<forall>h \<in> set (run_queue L). watcher_cb (handles L h) \<noteq> None"
  shows "\<exists>L'. run_watchers n E k L = Some (Inr L') \<and> calls L' = calls L @ map (Watcher_cb k) (run_queue L)
    \<and> watcher_handles L' = (watcher_handles L)(k := watcher_handles L k @ run_queue L) \<and> handles L' = handles L
    \<and> run_queue L' = [] \<and> handle_queue L' = handle_queue L \<and> active_handles L' = active_handles L"
  using assms(2,3)
proof (induction n arbitrary: L)
  case (Suc n)
  show ?case
  proof (cases "run_queue L")
    case Nil
    then show ?thesis by simp
  next
    case (Cons h q)
    define M where "M = set_watchers k (\<lambda>l. l @ [h]) (L\<lparr>run_queue := q\<rparr>)"
    obtain c where c: "watcher_cb (handles M h) = Some c" using Suc.prems(2) Cons by (auto simp: M_def uv_simps)
    from assms(1) obtain N where N: "usr E c (Watcher_cb k h) (M\<lparr>calls := calls M @ [Watcher_cb k h]\<rparr>) = Inr N"
      "run_queue N = q" "watcher_handles N = watcher_handles M" "handles N = handles L"
      "calls N = calls L @ [Watcher_cb k h]" "handle_queue N = handle_queue L" "active_handles N = active_handles L"
      unfolding watcher_quiet_def by (fastforce simp: M_def uv_simps)
    have eq: "run_watchers (Suc n) E k L = run_watchers n E k N" using Cons c N(1) by (simp add: call_usr_def flip: M_def)
    obtain L' where L': "run_watchers n E k N = Some (Inr L')" "calls L' = calls N @ map (Watcher_cb k) q"
      "watcher_handles L' = (watcher_handles N)(k := watcher_handles N k @ q)" "handles L' = handles L" "run_queue L' = []"
      "handle_queue L' = handle_queue L" "active_handles L' = active_handles L"
    proof -
      have "length (run_queue N) < n" "\<forall>h \<in> set (run_queue N). watcher_cb (handles N h) \<noteq> None"
        using Suc.prems N(2,4) Cons by auto
      from Suc.IH [OF this] show ?thesis using that N(2,4,6,7) by metis
    qed
    have "watcher_handles L' = (watcher_handles L)(k := watcher_handles L k @ run_queue L)"
      using L'(3) N(3) Cons by (auto simp: M_def set_watchers_def)
    moreover have "calls L' = calls L @ map (Watcher_cb k) (run_queue L)" using L'(2) N(5) Cons by simp
    ultimately show ?thesis using L'(1,4-7) unfolding eq by blast
  qed
qed simp

lemma run_watcher_calls:
  assumes "watcher_quiet E" "length (watcher_handles L k) < n" "\<forall>h \<in> set (watcher_handles L k). watcher_cb (handles L h) \<noteq> None"
  shows "\<exists>L'. uv__run_watcher n E k L = Some (Inr L') \<and> calls L' = calls L @ map (Watcher_cb k) (watcher_handles L k)
    \<and> watcher_handles L' = watcher_handles L \<and> handles L' = handles L
    \<and> handle_queue L' = handle_queue L \<and> active_handles L' = active_handles L"
proof -
  define M where "M = set_watchers k (\<lambda>_. []) (L\<lparr>run_queue := watcher_handles L k\<rparr>)"
  have q: "run_queue M = watcher_handles L k" "handles M = handles L" "calls M = calls L" "handle_queue M = handle_queue L"
    "active_handles M = active_handles L" "(watcher_handles M)(k := watcher_handles M k @ run_queue M) = watcher_handles L"
    by (auto simp: M_def set_watchers_def)
  show ?thesis
    using run_watchers_calls [OF assms(1), of M n k] assms(2,3) q unfolding uv__run_watcher_def M_def [symmetric] by metis
qed

section \<open>Watchers and the count of active handles\<close>

lemma count_ok_cong:
  "handles L' = handles L \<Longrightarrow> handle_queue L' = handle_queue L \<Longrightarrow> active_handles L' = active_handles L \<Longrightarrow>
     count_ok L' = count_ok L"
  by (simp add: count_ok_def counted_def)

lemma count_ok_upd:
  "(counts (f (handles L h)) = counts (handles L h)) \<Longrightarrow> count_ok (upd_handle h f L) = count_ok L"
proof -
  assume "counts (f (handles L h)) = counts (handles L h)"
  then have "counted (upd_handle h f L) = counted L" by (auto simp: counted_def uv_simps)
  then show ?thesis by (simp add: count_ok_def uv_simps)
qed

lemma watcher_start_count:
  assumes "count_ok L" "h \<in> set (handle_queue L)" "uv_watcher_start k h c L = Inr (r, L')"
  shows "count_ok L'"
proof -
  let ?M = "upd_handle h (\<lambda>x. x\<lparr>watcher_cb := c\<rparr>) (set_watchers k ((#) h) L)"
  have "count_ok (set_watchers k ((#) h) L)" using assms(1) count_ok_cong [of "set_watchers k ((#) h) L" L] by (simp add: uv_simps)
  then have "count_ok ?M" by (subst count_ok_upd) (simp_all add: counts_def has_flag_def)
  then show ?thesis using assms handle_start_count [of ?M h] by (auto simp: uv_watcher_start_def uv_simps Let_def split: if_splits)
qed

lemma watcher_stop_count:
  assumes "count_ok L" "h \<in> set (handle_queue L)" "uv_watcher_stop k h L = Inr (r, L')"
  shows "count_ok L'"
proof -
  let ?M = "(set_watchers k (removeAll h) L)\<lparr>run_queue := removeAll h (run_queue L)\<rparr>"
  have "count_ok ?M" using assms(1) count_ok_cong [of ?M L] by (simp add: uv_simps)
  then show ?thesis using assms handle_stop_count [of ?M h] by (auto simp: uv_watcher_stop_def uv_simps Let_def split: if_splits)
qed

end
