(* ===== verification/UvIo.thy ===== *)
theory UvIo
  imports UvWatcher
begin

text \<open>
  I/O watchers: \<open>next_power_of_two\<close>, \<open>maybe_resize\<close> and the \<open>uv__io_*\<close> functions of
  \<open>third/libuv/src/unix/core.c\<close>, and the functions of \<open>linux-core.c\<close> that tell \<open>epoll\<close> about
  them: \<open>uv__platform_invalidate_fd\<close>, \<open>uv__io_check_fd\<close> and the first loop of \<open>uv__io_poll\<close>.

  \<open>io_ok\<close> is what these functions keep: each slot of \<open>watchers\<close> belongs to the watcher of that
  descriptor, \<open>nfds\<close> counts the taken slots, exactly the watchers that want events are
  registered, and what a watcher remembers of its registration is what \<open>epoll\<close> has.
\<close>

section \<open>The table of watchers\<close>

definition POLLIN :: u32 where "POLLIN = 1"
definition POLLOUT :: u32 where "POLLOUT = 4"
definition POLLERR :: u32 where "POLLERR = 8"
definition POLLHUP :: u32 where "POLLHUP = 16"
definition UV__POLLRDHUP :: u32 where "UV__POLLRDHUP = 0x2000"

definition poll_mask :: u32 where
  "poll_mask = or (or POLLIN POLLOUT) UV__POLLRDHUP"

definition next_power_of_two :: "u32 \<Rightarrow> u32" where
  "next_power_of_two v =
     (let v = v - 1;
          v = or v (drop_bit 1 v);
          v = or v (drop_bit 2 v);
          v = or v (drop_bit 4 v);
          v = or v (drop_bit 8 v);
          v = or v (drop_bit 16 v)
      in v + 1)"

definition next_alloc :: "uv_loop_t \<Rightarrow> bool \<times> uv_loop_t" where
  "next_alloc L = (case allocs L of [] \<Rightarrow> (True, L) | b # bs \<Rightarrow> (b, L\<lparr>allocs := bs\<rparr>))"

text \<open>
  The events in flight, kept behind the end of the table, stay where they are.  When the new
  length wraps the size passed to \<open>realloc\<close> is zero and the loop writes behind the block.
\<close>

definition maybe_resize :: "u32 \<Rightarrow> uv_loop_t \<Rightarrow> uv_loop_t res" where
  "maybe_resize len L =
     (if unat len \<le> length (watchers L) then Inr L
      else
        let nwatchers = next_power_of_two (len + 2) - 2;
            (ok, L) = next_alloc L
        in if \<not> ok then Inl Aborted
           else if nwatchers + 2 < nwatchers then Inl Out_of_bounds
           else Inr (L\<lparr>watchers := watchers L @ replicate (unat nwatchers - length (watchers L)) None\<rparr>))"

section \<open>Watchers\<close>

definition uv__io_init :: "wid \<Rightarrow> io_handler option \<Rightarrow> int \<Rightarrow> uv_loop_t \<Rightarrow> uv_loop_t res" where
  "uv__io_init w c fd L =
     (if c = None then Inl Assert_failed
      else if \<not> - 1 \<le> fd then Inl Assert_failed
      else Inr (upd_io w (\<lambda>_. \<lparr>io_handler = c, io_fd = fd, io_events = 0, io_pevents = 0, io_stale = False\<rparr>) L))"

definition queue_watcher :: "wid \<Rightarrow> uv_loop_t \<Rightarrow> uv_loop_t" where
  "queue_watcher w L = (if w \<in> set (watcher_queue L) then L else L\<lparr>watcher_queue := watcher_queue L @ [w]\<rparr>)"

definition uv__io_start :: "wid \<Rightarrow> u32 \<Rightarrow> uv_loop_t \<Rightarrow> uv_loop_t res" where
  "uv__io_start w events L =
     (if and events (not poll_mask) \<noteq> 0 then Inl Assert_failed
      else if events = 0 then Inl Assert_failed
      else if io_fd (ios L w) < 0 then Inl Assert_failed
      else if \<not> io_fd (ios L w) < 2147483647 then Inl Assert_failed
      else
        let L = upd_io w (\<lambda>i. i\<lparr>io_pevents := or (io_pevents i) events\<rparr>) L;
            fd = nat (io_fd (ios L w))
        in bind_res (maybe_resize (word_of_nat (fd + 1)) L) (\<lambda>L.
             if io_events (ios L w) = io_pevents (ios L w) then
               Inr (if io_events (ios L w) = 0 then L\<lparr>watcher_queue := removeAll w (watcher_queue L)\<rparr> else L)
             else
               let L = queue_watcher w L
               in Inr (if watchers L ! fd = None
                       then L\<lparr>watchers := (watchers L)[fd := Some w], nfds := nfds L + 1\<rparr> else L)))"

definition uv__io_stop :: "wid \<Rightarrow> u32 \<Rightarrow> uv_loop_t \<Rightarrow> uv_loop_t res" where
  "uv__io_stop w events L =
     (if and events (not poll_mask) \<noteq> 0 then Inl Assert_failed
      else if events = 0 then Inl Assert_failed
      else if io_fd (ios L w) = - 1 then Inr L
      else if \<not> 0 \<le> io_fd (ios L w) then Inl Assert_failed
      else
        let fd = nat (io_fd (ios L w)) in
        if length (watchers L) \<le> fd then Inr L
        else
          let L = upd_io w (\<lambda>i. i\<lparr>io_pevents := and (io_pevents i) (not events)\<rparr>) L in
          if io_pevents (ios L w) = 0 then
            let L = L\<lparr>watcher_queue := removeAll w (watcher_queue L)\<rparr> in
            if watchers L ! fd = None then Inr L
            else if watchers L ! fd \<noteq> Some w then Inl Assert_failed
            else if \<not> 0 < nfds L then Inl Assert_failed
            else Inr (upd_io w (\<lambda>i. i\<lparr>io_events := 0\<rparr>)
                       (L\<lparr>watchers := (watchers L)[fd := None], nfds := nfds L - 1\<rparr>))
          else Inr (queue_watcher w L))"

section \<open>Talking to epoll\<close>

definition uv__platform_invalidate_fd :: "int \<Rightarrow> uv_loop_t \<Rightarrow> uv_loop_t res" where
  "uv__platform_invalidate_fd fd L =
     (if watchers L = [] then Inl Assert_failed
      else
        let L = L\<lparr>inflight := map_option (map (\<lambda>(d, ev). if d = fd then (- 1, ev) else (d, ev))) (inflight L)\<rparr>
        in Inr (if 0 \<le> backend_fd L then L\<lparr>interest := (interest L)(fd := None)\<rparr> else L))"

text \<open>
  \<open>QUEUE_REMOVE\<close> without \<open>QUEUE_INIT\<close>: the links of a watcher that was pending dangle, and
  removing it once more would follow them.
\<close>

definition uv__io_close :: "wid \<Rightarrow> uv_loop_t \<Rightarrow> uv_loop_t res" where
  "uv__io_close w L =
     bind_res (uv__io_stop w poll_mask L) (\<lambda>L.
       if io_stale (ios L w) then Inl Use_after_free
       else
         let queued = w \<in> set (pending_queue L) \<union> set (pending_run L);
             L = L\<lparr>pending_queue := removeAll w (pending_queue L), pending_run := removeAll w (pending_run L)\<rparr>;
             L = upd_io w (\<lambda>i. i\<lparr>io_stale := queued\<rparr>) L
         in uv__platform_invalidate_fd (io_fd (ios L w)) L)"

definition uv__io_feed :: "wid \<Rightarrow> uv_loop_t \<Rightarrow> uv_loop_t" where
  "uv__io_feed w L =
     (if w \<in> set (pending_queue L) \<union> set (pending_run L) \<or> io_stale (ios L w) then L
      else L\<lparr>pending_queue := pending_queue L @ [w]\<rparr>)"

definition uv__io_active :: "wid \<Rightarrow> u32 \<Rightarrow> uv_loop_t \<Rightarrow> bool res" where
  "uv__io_active w events L =
     (if and events (not poll_mask) \<noteq> 0 then Inl Assert_failed
      else if events = 0 then Inl Assert_failed
      else Inr (and (io_pevents (ios L w)) events \<noteq> 0))"

text \<open>\<open>uv__io_check_fd\<close> registers the descriptor and takes it out again.\<close>

definition uv__io_check_fd :: "int \<Rightarrow> uv_loop_t \<Rightarrow> (int \<times> uv_loop_t) res option" where
  "uv__io_check_fd fd L =
     (case sys L of
        [] \<Rightarrow> None
      | e # es \<Rightarrow>
          let L = (if e = 0 then L\<lparr>sys := es, interest := (interest L)(fd := Some POLLIN)\<rparr> else L\<lparr>sys := es\<rparr>);
              rc = (if e \<noteq> 0 \<and> e \<noteq> EEXIST then - e else 0)
          in if rc \<noteq> 0 then Some (Inr (rc, L))
             else
               (case sys L of
                  [] \<Rightarrow> None
                | e # es \<Rightarrow>
                    if e \<noteq> 0 then Some (Inl Aborted)
                    else Some (Inr (rc, L\<lparr>sys := es, interest := (interest L)(fd := None)\<rparr>))))"

text \<open>The first loop of \<open>uv__io_poll\<close>: one watcher of the queue, then the queue.\<close>

definition watch :: "wid \<Rightarrow> uv_loop_t \<Rightarrow> uv_loop_t" where
  "watch w L = L\<lparr>interest := (interest L)(io_fd (ios L w) := Some (io_pevents (ios L w)))\<rparr>"

definition epoll_register :: "wid \<Rightarrow> uv_loop_t \<Rightarrow> uv_loop_t res option" where
  "epoll_register w L =
     (let add = io_events (ios L w) = 0 in
      case sys L of
        [] \<Rightarrow> None
      | e # es \<Rightarrow>
          if e = 0 then Some (Inr (watch w (L\<lparr>sys := es\<rparr>)))
          else if e \<noteq> EEXIST then Some (Inl Aborted)
          else if \<not> add then Some (Inl Assert_failed)
          else
            (case es of
               [] \<Rightarrow> None
             | e # es \<Rightarrow> if e \<noteq> 0 then Some (Inl Aborted) else Some (Inr (watch w (L\<lparr>sys := es\<rparr>)))))"

fun register_loop :: "wid list \<Rightarrow> uv_loop_t \<Rightarrow> uv_loop_t res option" where
  "register_loop [] L = Some (Inr L)"
| "register_loop (w # q) L =
     (let L = L\<lparr>watcher_queue := q\<rparr> in
      if io_pevents (ios L w) = 0 then Some (Inl Assert_failed)
      else if io_fd (ios L w) < 0 then Some (Inl Assert_failed)
      else if \<not> io_fd (ios L w) < int (length (watchers L)) then Some (Inl Assert_failed)
      else
        run_bind (epoll_register w L) (\<lambda>L.
        register_loop q (upd_io w (\<lambda>i. i\<lparr>io_events := io_pevents i\<rparr>) L)))"

section \<open>The size of the table\<close>

text \<open>After the shift by \<open>s\<close>, bit \<open>n\<close> is set when one of the next \<open>2 * s\<close> bits of the number is.\<close>

definition smeared :: "nat \<Rightarrow> u32 \<Rightarrow> u32 \<Rightarrow> bool" where
  "smeared s w v \<longleftrightarrow> (\<forall>n. bit v n \<longleftrightarrow> (\<exists>m. n \<le> m \<and> m < n + s \<and> bit w m))"

lemma smeared_step: "smeared s w v \<Longrightarrow> smeared (2 * s) w (or v (drop_bit s v))"
proof -
  assume v: "smeared s w v"
  have "bit v n \<or> bit v (s + n) \<longleftrightarrow> (\<exists>m. n \<le> m \<and> m < n + 2 * s \<and> bit w m)" for n
  proof
    assume "\<exists>m. n \<le> m \<and> m < n + 2 * s \<and> bit w m"
    then obtain m where m: "n \<le> m" "m < n + 2 * s" "bit w m" by blast
    show "bit v n \<or> bit v (s + n)"
    proof (cases "m < n + s")
      case True
      then show ?thesis using v m by (auto simp: smeared_def)
    next
      case False
      then have "s + n \<le> m \<and> m < s + n + s" using m by simp
      then show ?thesis using v m(3) unfolding smeared_def by blast
    qed
  next
    assume "bit v n \<or> bit v (s + n)"
    then obtain m where "n \<le> m" "m < n + s \<or> m < s + n + s" "bit w m"
      using v unfolding smeared_def by (metis add_leD2 le_trans)
    then show "\<exists>m. n \<le> m \<and> m < n + 2 * s \<and> bit w m" by (intro exI [of _ m]) auto
  qed
  then show ?thesis by (simp add: smeared_def bit_or_iff bit_drop_bit_eq)
qed

lemma next_power_of_two_smeared: "\<exists>v. next_power_of_two x = v + 1 \<and> (\<forall>n. bit v n \<longleftrightarrow> (\<exists>m. n \<le> m \<and> bit (x - 1) m))"
proof -
  let ?w = "x - 1"
  let ?a = "or ?w (drop_bit 1 ?w)" let ?b = "or ?a (drop_bit 2 ?a)" let ?c = "or ?b (drop_bit 4 ?b)"
  let ?d = "or ?c (drop_bit 8 ?c)" let ?e = "or ?d (drop_bit 16 ?d)"
  have "smeared 1 ?w ?w" by (auto simp: smeared_def less_Suc_eq_le intro: antisym dest: le_antisym)
  then have "smeared 2 ?w ?a" using smeared_step [of 1 ?w ?w] by (simp only: mult_1_right arith_simps)
  then have "smeared 4 ?w ?b" using smeared_step [of 2 ?w ?a] by (simp only: mult_1_right arith_simps)
  then have "smeared 8 ?w ?c" using smeared_step [of 4 ?w ?b] by (simp only: mult_1_right arith_simps)
  then have "smeared 16 ?w ?d" using smeared_step [of 8 ?w ?c] by (simp only: mult_1_right arith_simps)
  then have "smeared 32 ?w ?e" using smeared_step [of 16 ?w ?d] by (simp only: mult_1_right arith_simps)
  moreover have "m < n + 32" if "bit ?w m" for m n using bit_imp_le_length [OF that] by simp
  ultimately have "bit ?e n \<longleftrightarrow> (\<exists>m. n \<le> m \<and> bit ?w m)" for n unfolding smeared_def by blast
  then show ?thesis unfolding next_power_of_two_def Let_def by blast
qed

text \<open>The result is the least power of two that is not below the argument.\<close>

lemma next_power_of_two_least:
  assumes "0 < x" "unat x \<le> 2 ^ 31"
  shows "\<exists>k \<le> 31. unat (next_power_of_two x) = 2 ^ k \<and> unat x \<le> 2 ^ k \<and> 2 ^ k < 2 * unat x"
proof -
  obtain v where v: "next_power_of_two x = v + 1" "\<And>n. bit v n \<longleftrightarrow> (\<exists>m. n \<le> m \<and> bit (x - 1) m)"
    using next_power_of_two_smeared by blast
  have w: "unat (x - 1) = unat x - 1" using assms(1) by (simp add: unat_minus_one word_gt_0)
  have px: "0 < unat x" using assms(1) by (simp add: word_gt_0 unat_gt_0)
  show ?thesis
  proof (cases "x = 1")
    case True
    then have "v = 0" using v(2) by (intro bit_word_eqI) simp
    then show ?thesis using True v(1) by (intro exI [of _ 0]) simp
  next
    case False
    then have ne: "x - 1 \<noteq> 0" by simp
    define k where "k = Suc (Max {m. bit (x - 1) m})"
    have fin: "finite {m. bit (x - 1) m}"
      by (rule finite_subset [of _ "{..<32}"]) (auto dest: bit_imp_le_length)
    moreover have "\<exists>m. bit (x - 1) m"
    proof (rule ccontr)
      assume "\<nexists>m. bit (x - 1) m"
      then have "x - 1 = 0" by (intro bit_word_eqI) simp
      then show False using ne by simp
    qed
    ultimately have top: "bit (x - 1) (k - 1)" "\<And>m. bit (x - 1) m \<Longrightarrow> m < k"
      using Max_in [of "{m. bit (x - 1) m}"] by (auto simp: k_def less_Suc_eq_le)
    have k: "k \<le> 32" "0 < k" using bit_imp_le_length [OF top(1)] by (auto simp: k_def)
    have "v = mask k"
      using v(2) top by (intro bit_word_eqI) (force simp: bit_mask_iff dest: le_less_trans intro: exI [of _ "k - 1"])
    moreover have below: "unat (x - 1) < 2 ^ k"
    proof -
      have "take_bit k (x - 1) = x - 1" using top(2) by (intro bit_word_eqI) (auto simp: bit_take_bit_iff)
      then have "take_bit k (unat (x - 1)) = unat (x - 1)" by (metis unsigned_take_bit_eq)
      then show ?thesis by (metis take_bit_nat_less_exp)
    qed
    moreover have above: "2 ^ (k - 1) \<le> unat (x - 1)"
    proof -
      have "bit (unat (x - 1)) (k - 1)" using top(1) by (simp add: bit_unsigned_iff)
      then have "odd (unat (x - 1) div 2 ^ (k - 1))" by (simp add: bit_iff_odd)
      then have "unat (x - 1) div 2 ^ (k - 1) \<noteq> 0" by (metis dvd_0_right)
      then show ?thesis by (simp add: div_eq_0_iff not_less)
    qed
    have k31: "k \<le> 31"
    proof (rule ccontr)
      assume "\<not> k \<le> 31"
      then have "k - 1 = 31" using k by simp
      then show False using above w assms(2) px by simp
    qed
    moreover have "unat (v + 1) = 2 ^ k"
    proof -
      have "v + 1 = 2 ^ k" using \<open>v = mask k\<close> by (simp add: mask_eq_exp_minus_1)
      then have "v + 1 = word_of_nat (2 ^ k)" by simp
      moreover have "(2 :: nat) ^ k < 2 ^ LENGTH(32)" using k31 by (intro power_strict_increasing) auto
      ultimately show ?thesis using unat_of_nat [of "2 ^ k", where 'a = 32] by (metis mod_less)
    qed
    ultimately show ?thesis using v(1) w px k(2) above by (intro exI [of _ k]) (cases k; simp; linarith)
  qed
qed

lemma next_alloc_ok: "fst (next_alloc L) \<Longrightarrow> \<exists>bs. next_alloc L = (True, L\<lparr>allocs := bs\<rparr>)"
proof -
  assume ok: "fst (next_alloc L)"
  have same: "L\<lparr>allocs := allocs L\<rparr> = L" by simp
  show ?thesis
  proof (cases "allocs L")
    case Nil
    then have "next_alloc L = (True, L)" by (simp add: next_alloc_def)
    then show ?thesis using same by metis
  next
    case (Cons b bs)
    then show ?thesis using ok by (intro exI [of _ bs]) (simp add: next_alloc_def)
  qed
qed

lemma maybe_resize_ok:
  assumes "fst (next_alloc L)" "0 < unat len" "unat len \<le> 2147483646"
  shows "\<exists>n bs. maybe_resize len L = Inr (L\<lparr>watchers := watchers L @ replicate n None, allocs := bs\<rparr>)
    \<and> unat len \<le> length (watchers L) + n"
proof (cases "unat len \<le> length (watchers L)")
  case True
  then show ?thesis by (intro exI [of _ 0] exI [of _ "allocs L"]) (simp add: maybe_resize_def)
next
  case False
  let ?p = "next_power_of_two (len + 2)"
  have two: "unat (2 :: u32) = 2" by simp
  have l2: "unat (len + 2) = unat len + 2" using assms(3) by (simp only: unat_word_ariths two) simp
  then have "unat (0 :: u32) < unat (len + 2)" "unat (len + 2) \<le> 2 ^ 31" using assms by simp_all
  then have "0 < len + 2" "unat (len + 2) \<le> 2 ^ 31" by (simp_all only: word_less_nat_alt)
  then obtain k where k: "k \<le> 31" "unat ?p = 2 ^ k" "unat (len + 2) \<le> 2 ^ k" using next_power_of_two_least by blast
  have "2 \<le> ?p" using k(2,3) l2 by (simp only: word_le_nat_alt two)
  then have p2: "unat (?p - 2) = 2 ^ k - 2" using k(2) two by (simp only: unat_sub)
  have nw: "\<not> ?p - 2 + 2 < ?p - 2"
    using p2 k(2) by (simp only: diff_add_cancel word_less_nat_alt)
  obtain bs where bs: "next_alloc L = (True, L\<lparr>allocs := bs\<rparr>)" using next_alloc_ok [OF assms(1)] by blast
  have "maybe_resize len L = Inr (L\<lparr>watchers := watchers L @ replicate (unat (?p - 2) - length (watchers L)) None, allocs := bs\<rparr>)"
    using False bs nw by (simp add: maybe_resize_def Let_def)
  then show ?thesis using p2 k(3) l2 False by (intro exI) (rule conjI, assumption, linarith)
qed

section \<open>The invariant of the watchers\<close>

definition slot :: "uv_loop_t \<Rightarrow> int \<Rightarrow> wid option" where
  "slot L fd = (if 0 \<le> fd \<and> fd < int (length (watchers L)) then watchers L ! nat fd else None)"

definition registered :: "wid \<Rightarrow> uv_loop_t \<Rightarrow> bool" where
  "registered w L \<longleftrightarrow> slot L (io_fd (ios L w)) = Some w"

definition taken :: "wid option list \<Rightarrow> nat" where
  "taken ws = length (filter (\<lambda>x. x \<noteq> None) ws)"

definition watcher_ok :: "wid \<Rightarrow> uv_loop_t \<Rightarrow> bool" where
  "watcher_ok w L \<longleftrightarrow> and (io_pevents (ios L w)) (not poll_mask) = 0
     \<and> (io_pevents (ios L w) \<noteq> 0 \<longleftrightarrow> registered w L)
     \<and> (io_events (ios L w) \<noteq> 0 \<longrightarrow> registered w L \<and> interest L (io_fd (ios L w)) = Some (io_events (ios L w)))
     \<and> (w \<in> set (watcher_queue L) \<longrightarrow> registered w L)
     \<and> (registered w L \<longrightarrow> w \<in> set (watcher_queue L) \<or> io_events (ios L w) = io_pevents (ios L w))"

definition io_ok :: "uv_loop_t \<Rightarrow> bool" where
  "io_ok L \<longleftrightarrow> nfds L = taken (watchers L) \<and> (\<forall>fd w. slot L fd = Some w \<longrightarrow> io_fd (ios L w) = fd)
     \<and> distinct (watcher_queue L) \<and> (\<forall>w. watcher_ok w L)"

lemma io_okD:
  assumes "io_ok L"
  shows "nfds L = taken (watchers L)" "slot L fd = Some w \<Longrightarrow> io_fd (ios L w) = fd" "distinct (watcher_queue L)" "watcher_ok w L"
  using assms by (simp_all add: io_ok_def)

lemma taken_update:
  "i < length ws \<Longrightarrow> taken (ws[i := x]) + of_bool (ws ! i \<noteq> None) = taken ws + of_bool (x \<noteq> None)"
proof (induction ws arbitrary: i)
  case (Cons a ws)
  then show ?case by (cases i) (auto simp: taken_def)
qed simp

lemma taken_append [simp]: "taken (ws @ replicate n None) = taken ws"
  by (simp add: taken_def)

lemma slot_append [simp]: "slot (L\<lparr>watchers := watchers L @ replicate n None, allocs := bs\<rparr>) = slot L"
  by (rule ext) (auto simp: slot_def nth_append)

lemma slot_update:
  "i < length (watchers L) \<Longrightarrow> watchers L' = (watchers L)[i := x] \<Longrightarrow> slot L' d = (if d = int i then x else slot L d)"
  by (auto simp: slot_def nth_list_update)

lemma slot_cong: "watchers L' = watchers L \<Longrightarrow> slot L' = slot L"
  by (rule ext) (simp add: slot_def)

lemma upd_io_at [uv_simps]: "ios (upd_io w f L) x = (if x = w then f (ios L w) else ios L x)"
  by (simp add: upd_io_def)

lemma upd_io_fields [uv_simps]:
  "handles (upd_io w f L) = handles L" "watchers (upd_io w f L) = watchers L" "nfds (upd_io w f L) = nfds L"
  "watcher_queue (upd_io w f L) = watcher_queue L" "interest (upd_io w f L) = interest L" "allocs (upd_io w f L) = allocs L"
  "pending_queue (upd_io w f L) = pending_queue L" "pending_run (upd_io w f L) = pending_run L"
  "handle_queue (upd_io w f L) = handle_queue L" "active_handles (upd_io w f L) = active_handles L"
  "sys (upd_io w f L) = sys L" "inflight (upd_io w f L) = inflight L" "backend_fd (upd_io w f L) = backend_fd L"
  "calls (upd_io w f L) = calls L"
  by (simp_all add: upd_io_def)

lemma slot_upd_io [uv_simps]: "slot (upd_io w f L) = slot L"
  by (rule slot_cong) (simp add: upd_io_def)

text \<open>\<open>io_upd w L L'\<close>: only the watcher \<open>w\<close>, its slot, the queue and the size of the table changed.\<close>

definition io_upd :: "wid \<Rightarrow> uv_loop_t \<Rightarrow> uv_loop_t \<Rightarrow> bool" where
  "io_upd w L L' \<longleftrightarrow> (\<forall>x. x \<noteq> w \<longrightarrow> ios L' x = ios L x) \<and> io_fd (ios L' w) = io_fd (ios L w)
     \<and> (\<forall>d. d \<noteq> io_fd (ios L w) \<longrightarrow> slot L' d = slot L d) \<and> (\<forall>x. x \<noteq> w \<longrightarrow> registered x L' = registered x L)
     \<and> handles L' = handles L \<and> handle_queue L' = handle_queue L \<and> active_handles L' = active_handles L
     \<and> calls L' = calls L \<and> pending_queue L' = pending_queue L \<and> pending_run L' = pending_run L"

lemma or_zero_word: "or (a :: u32) b = 0 \<longleftrightarrow> a = 0 \<and> b = 0"
  by (auto simp: or_eq_0_iff)

section \<open>Every operation keeps the invariant\<close>

text \<open>
  A new table, queue and counters for one watcher: the slots keep their owners, and the watcher
  is registered exactly when it wants events.
\<close>

lemma io_ok_set:
  assumes L: "io_ok L" and free: "slot L (io_fd (ios L w)) = None \<or> slot L (io_fd (ios L w)) = Some w"
    and ios: "\<And>x. x \<noteq> w \<Longrightarrow> ios L' x = ios L x" "io_fd (ios L' w) = io_fd (ios L w)"
    and slots: "\<And>d. slot L' d = (if d = io_fd (ios L w) then (if io_pevents (ios L' w) = 0 then None else Some w) else slot L d)"
    and count: "nfds L' = taken (watchers L')" and int: "interest L' = interest L"
    and q: "distinct (watcher_queue L')" "set (watcher_queue L') - {w} = set (watcher_queue L) - {w}"
      "w \<in> set (watcher_queue L') \<Longrightarrow> io_pevents (ios L' w) \<noteq> 0"
    and mask: "and (io_pevents (ios L' w)) (not poll_mask) = 0"
    and ev: "io_events (ios L' w) = (if io_pevents (ios L' w) = 0 then 0 else io_events (ios L w))"
      "w \<in> set (watcher_queue L') \<or> io_pevents (ios L' w) = io_events (ios L' w)"
    and rest: "handles L' = handles L" "handle_queue L' = handle_queue L" "active_handles L' = active_handles L"
      "calls L' = calls L" "pending_queue L' = pending_queue L" "pending_run L' = pending_run L"
  shows "io_ok L' \<and> io_upd w L L'"
proof -
  have reg: "registered x L' = registered x L" if "x \<noteq> w" for x
    unfolding registered_def ios(1) [OF that] slots using that free by auto
  have regw: "registered w L' \<longleftrightarrow> io_pevents (ios L' w) \<noteq> 0" using slots ios(2) by (simp add: registered_def)
  have w: "io_events (ios L w) \<noteq> 0 \<longrightarrow> interest L (io_fd (ios L w)) = Some (io_events (ios L w))"
    using io_okD(4) [OF L, of w] by (simp add: watcher_ok_def)
  have "watcher_ok x L'" for x
  proof (cases "x = w")
    case True
    then show ?thesis using regw q(3) ev w ios(2) int mask
      by (cases "io_pevents (ios L' w) = 0") (auto simp: watcher_ok_def)
  next
    case False
    have "x \<in> set (watcher_queue L') \<longleftrightarrow> x \<in> set (watcher_queue L)" using q(2) False by blast
    then show ?thesis using io_okD(4) [OF L, of x] reg [OF False] ios(1) [OF False] int by (simp add: watcher_ok_def)
  qed
  moreover have "io_fd (ios L' x) = fd" if "slot L' fd = Some x" for fd x
    using that slots [of fd] io_okD(2) [OF L] ios by (cases "x = w") (auto split: if_splits)
  ultimately have "io_ok L'" using count q(1) by (simp add: io_ok_def)
  then show ?thesis using ios slots reg rest by (simp add: io_upd_def)
qed

lemma queue_watcher_view:
  "set (watcher_queue (queue_watcher w L)) = insert w (set (watcher_queue L))"
  "distinct (watcher_queue L) \<Longrightarrow> distinct (watcher_queue (queue_watcher w L))"
  "ios (queue_watcher w L) = ios L" "watchers (queue_watcher w L) = watchers L" "nfds (queue_watcher w L) = nfds L"
  "interest (queue_watcher w L) = interest L" "handles (queue_watcher w L) = handles L"
  "handle_queue (queue_watcher w L) = handle_queue L" "active_handles (queue_watcher w L) = active_handles L"
  "calls (queue_watcher w L) = calls L" "pending_queue (queue_watcher w L) = pending_queue L"
  "pending_run (queue_watcher w L) = pending_run L"
  by (auto simp: queue_watcher_def)

definition events_ok :: "u32 \<Rightarrow> bool" where
  "events_ok ev \<longleftrightarrow> ev \<noteq> 0 \<and> and ev (not poll_mask) = 0"

lemma io_start_ok:
  assumes L: "io_ok L" and w: "0 \<le> io_fd (ios L w)" "io_fd (ios L w) < 2147483646" and ev: "events_ok ev"
    and free: "slot L (io_fd (ios L w)) = None \<or> slot L (io_fd (ios L w)) = Some w" and mem: "fst (next_alloc L)"
  shows "\<exists>L'. uv__io_start w ev L = Inr L' \<and> io_ok L' \<and> io_upd w L L'
    \<and> registered w L' \<and> io_pevents (ios L' w) = or (io_pevents (ios L w)) ev"
proof -
  let ?fd = "nat (io_fd (ios L w))" and ?p = "or (io_pevents (ios L w)) ev"
  define M where "M = upd_io w (\<lambda>i. i\<lparr>io_pevents := or (io_pevents i) ev\<rparr>) L"
  have fdM: "io_fd (ios M w) = io_fd (ios L w)" by (simp add: M_def uv_simps)
  have conds: "and ev (not poll_mask) = 0" "(ev = 0) = False" "(io_fd (ios L w) < 0) = False"
    "(io_fd (ios L w) < 2147483647) = True" using w ev by (auto simp: events_ok_def)
  have pm: "and ?p (not poll_mask) = 0" using io_okD(4) [OF L, of w] ev by (simp add: watcher_ok_def events_ok_def bit.conj_disj_distrib2)
  have p0: "?p \<noteq> 0" using ev by (simp add: events_ok_def or_eq_0_iff)
  have "unat (word_of_nat (?fd + 1) :: u32) = ?fd + 1"
    using w unat_of_nat [of "?fd + 1", where 'a = 32] by (simp add: nat_less_iff)
  moreover have "fst (next_alloc M)" using mem by (simp add: next_alloc_def M_def uv_simps split: list.splits)
  ultimately obtain n bs where R: "maybe_resize (word_of_nat (?fd + 1)) M = Inr (M\<lparr>watchers := watchers M @ replicate n None, allocs := bs\<rparr>)"
      "?fd + 1 \<le> length (watchers M) + n"
    using maybe_resize_ok [of M "word_of_nat (?fd + 1)"] w by (auto simp: nat_le_iff)
  define N where "N = M\<lparr>watchers := watchers M @ replicate n None, allocs := bs\<rparr>"
  have len: "?fd < length (watchers N)" using R(2) by (simp add: N_def)
  have sN: "slot N = slot L" unfolding N_def slot_append by (simp add: M_def slot_upd_io)
  have iN: "ios N x = (if x = w then (ios L w)\<lparr>io_pevents := ?p\<rparr> else ios L x)" for x
    by (simp add: N_def M_def uv_simps)
  have tN: "nfds N = taken (watchers N)" using L by (simp add: N_def M_def uv_simps io_ok_def)
  have fN: "watcher_queue N = watcher_queue L" "interest N = interest L" "handles N = handles L" "handle_queue N = handle_queue L"
    "active_handles N = active_handles L" "calls N = calls L" "pending_queue N = pending_queue L" "pending_run N = pending_run L"
    by (simp_all add: N_def M_def uv_simps)
  have step: "uv__io_start w ev L =
     (if io_events (ios N w) = io_pevents (ios N w) then
        Inr (if io_events (ios N w) = 0 then N\<lparr>watcher_queue := removeAll w (watcher_queue N)\<rparr> else N)
      else
        let L = queue_watcher w N
        in Inr (if watchers L ! ?fd = None then L\<lparr>watchers := (watchers L)[?fd := Some w], nfds := nfds L + 1\<rparr> else L))"
    by (simp only: uv__io_start_def Let_def M_def [symmetric] fdM conds R(1) [folded N_def] bind_res.simps if_False if_True
        not_True_eq_False simp_thms)
  have at: "watchers N ! ?fd = slot L (io_fd (ios L w))"
  proof -
    have "slot N (io_fd (ios L w)) = watchers N ! ?fd" using len w by (simp add: slot_def nat_less_iff)
    then show ?thesis by (simp add: sN)
  qed
  have qd: "distinct (watcher_queue L)" using L by (simp add: io_ok_def)
  show ?thesis
  proof (cases "io_events (ios N w) = io_pevents (ios N w)")
    case True
    then have e: "io_events (ios L w) = ?p" using iN by simp
    then have reg: "slot L (io_fd (ios L w)) = Some w" "io_pevents (ios L w) \<noteq> 0"
      using io_okD(4) [OF L, of w] p0 unfolding watcher_ok_def registered_def by metis+
    have "io_ok N \<and> io_upd w L N"
    proof (rule io_ok_set [OF L free])
      show "slot N d = (if d = io_fd (ios L w) then if io_pevents (ios N w) = 0 then None else Some w else slot L d)" for d
        using sN iN p0 reg(1) by simp
    qed (use iN fN tN e p0 qd pm in \<open>auto\<close>)
    then show ?thesis using step True iN p0 reg(1) sN e by (auto simp: registered_def)
  next
    case False
    define K where "K = (if watchers N ! ?fd = None
        then (queue_watcher w N)\<lparr>watchers := (watchers N)[?fd := Some w], nfds := nfds N + 1\<rparr> else queue_watcher w N)"
    have sK: "slot K d = (if d = io_fd (ios L w) then Some w else slot L d)" for d
      using free at sN w slot_update [OF len, of K "Some w"] slot_cong [of K N]
      by (auto simp: K_def queue_watcher_view)
    have iK: "ios K x = ios N x" for x by (simp add: K_def queue_watcher_view)
    have tK: "nfds K = taken (watchers K)"
      using tN taken_update [OF len, of "Some w"] by (cases "watchers N ! ?fd") (simp_all add: K_def queue_watcher_view)
    have qK: "set (watcher_queue K) = insert w (set (watcher_queue L))" "distinct (watcher_queue K)"
      using qd fN by (simp_all add: K_def queue_watcher_view)
    have fK: "interest K = interest L" "handles K = handles L" "handle_queue K = handle_queue L" "active_handles K = active_handles L"
      "calls K = calls L" "pending_queue K = pending_queue L" "pending_run K = pending_run L"
      using fN by (simp_all add: K_def queue_watcher_view)
    have "io_ok K \<and> io_upd w L K"
      by (rule io_ok_set [OF L free]) (use iK iN sK tK qK fK p0 pm in \<open>auto\<close>)
    moreover have "uv__io_start w ev L = Inr K" using step False by (simp add: K_def queue_watcher_view Let_def)
    ultimately show ?thesis using sK iK iN by (auto simp: registered_def)
  qed
qed

lemma io_stop_ok:
  assumes L: "io_ok L" and ev: "events_ok ev" and w: "- 1 \<le> io_fd (ios L w)"
    and free: "slot L (io_fd (ios L w)) = None \<or> slot L (io_fd (ios L w)) = Some w"
  shows "\<exists>L'. uv__io_stop w ev L = Inr L' \<and> io_ok L' \<and> io_upd w L L'
    \<and> io_pevents (ios L' w) = and (io_pevents (ios L w)) (not ev)
    \<and> (registered w L' \<longleftrightarrow> and (io_pevents (ios L w)) (not ev) \<noteq> 0) \<and> watchers L' = [] = (watchers L = [])"
proof -
  let ?fd = "nat (io_fd (ios L w))" and ?p = "and (io_pevents (ios L w)) (not ev)"
  note ww = io_okD(4) [OF L, of w, unfolded watcher_ok_def]
  then have owned: "io_pevents (ios L w) \<noteq> 0 \<longleftrightarrow> registered w L" by blast
  have idle: "\<not> registered w L \<Longrightarrow> io_pevents (ios L w) = 0" using owned by blast
  have "and ?p (not poll_mask) = and (and (io_pevents (ios L w)) (not poll_mask)) (not ev)"
    by (simp only: and.assoc and.commute [of "not ev"])
  then have pm: "and ?p (not poll_mask) = 0" using ww by simp
  have same: "io_upd w L L" by (simp add: io_upd_def)
  have conds: "and ev (not poll_mask) = 0" "(ev = 0) = False" using ev by (auto simp: events_ok_def)
  show ?thesis
  proof (cases "io_fd (ios L w) = - 1 \<or> length (watchers L) \<le> ?fd")
    case True
    then have "slot L (io_fd (ios L w)) = None" by (auto simp: slot_def)
    then have "\<not> registered w L" by (simp add: registered_def)
    moreover have "uv__io_stop w ev L = Inr L" using True conds w by (auto simp: uv__io_stop_def)
    ultimately show ?thesis using L same idle by simp
  next
    case False
    then have pos: "0 \<le> io_fd (ios L w)" "?fd < length (watchers L)" using w by auto
    then have at: "slot L (io_fd (ios L w)) = watchers L ! ?fd" by (simp add: slot_def nat_less_iff)
    define M where "M = upd_io w (\<lambda>i. i\<lparr>io_pevents := and (io_pevents i) (not ev)\<rparr>) L"
    define Q where "Q = M\<lparr>watcher_queue := removeAll w (watcher_queue M)\<rparr>"
    have iM: "ios M x = (if x = w then (ios L w)\<lparr>io_pevents := ?p\<rparr> else ios L x)" for x by (simp add: M_def uv_simps)
    have fM: "watcher_queue M = watcher_queue L" "watchers M = watchers L" "nfds M = nfds L" "interest M = interest L"
      "handles M = handles L" "handle_queue M = handle_queue L" "active_handles M = active_handles L"
      "calls M = calls L" "pending_queue M = pending_queue L" "pending_run M = pending_run L" by (simp_all add: M_def uv_simps)
    have fQ: "ios Q = ios M" "watchers Q = watchers M" "nfds Q = nfds M" "watcher_queue Q = removeAll w (watcher_queue L)"
      "interest Q = interest M" "handles Q = handles M" "handle_queue Q = handle_queue M" "active_handles Q = active_handles M"
      "calls Q = calls M" "pending_queue Q = pending_queue M" "pending_run Q = pending_run M" by (simp_all add: Q_def fM)
    have qd: "distinct (watcher_queue L)" and cnt: "nfds L = taken (watchers L)" using L by (simp_all add: io_ok_def)
    have step: "uv__io_stop w ev L =
       (if io_pevents (ios M w) = 0 then
          if watchers Q ! ?fd = None then Inr Q
          else if watchers Q ! ?fd \<noteq> Some w then Inl Assert_failed
          else if \<not> 0 < nfds Q then Inl Assert_failed
          else Inr (upd_io w (\<lambda>i. i\<lparr>io_events := 0\<rparr>) (Q\<lparr>watchers := (watchers Q)[?fd := None], nfds := nfds Q - 1\<rparr>))
        else Inr (queue_watcher w M))"
      using False pos conds unfolding uv__io_stop_def Let_def M_def [symmetric] Q_def [symmetric] by simp
    show ?thesis
    proof (cases "?p = 0")
      case True
      have t: "taken ((watchers L)[?fd := None]) + of_bool (watchers L ! ?fd \<noteq> None) = taken (watchers L)"
        using taken_update [OF pos(2), of None] by simp
      show ?thesis
      proof (cases "watchers L ! ?fd")
        case None
        then have "\<not> registered w L" using at by (simp add: registered_def)
        moreover have "io_events (ios L w) = 0" using ww \<open>\<not> registered w L\<close> by blast
        moreover have "io_ok Q \<and> io_upd w L Q"
          by (rule io_ok_set [OF L free])
            (use iM fM fQ True qd cnt at pm None \<open>io_events (ios L w) = 0\<close> slot_cong [of Q L] in \<open>auto simp: distinct_removeAll\<close>)
        ultimately show ?thesis
          using step True None iM fM fQ at slot_cong [of Q L] by (intro exI [of _ Q]) (simp add: registered_def)
      next
        case (Some x)
        then have x: "watchers L ! ?fd = Some w" using free at by simp
        define K where "K = upd_io w (\<lambda>i. i\<lparr>io_events := 0\<rparr>) (Q\<lparr>watchers := (watchers Q)[?fd := None], nfds := nfds Q - 1\<rparr>)"
        have fK: "watchers K = (watchers L)[?fd := None]" "nfds K = nfds L - 1" "watcher_queue K = removeAll w (watcher_queue L)"
          "interest K = interest L" "handles K = handles L" "handle_queue K = handle_queue L" "active_handles K = active_handles L"
          "calls K = calls L" "pending_queue K = pending_queue L" "pending_run K = pending_run L"
          by (simp_all add: K_def uv_simps fQ fM)
        have iK: "ios K y = (if y = w then (ios L w)\<lparr>io_pevents := 0, io_events := 0\<rparr> else ios L y)" for y
          by (simp add: K_def uv_simps fQ iM True)
        have sK: "slot K d = (if d = io_fd (ios L w) then None else slot L d)" for d
          using slot_update [OF pos(2) fK(1)] pos(1) by simp
        have "0 < nfds L" "nfds K = taken (watchers K)" using t cnt x fK by simp_all
        then have "uv__io_stop w ev L = Inr K"
          using step True x by (simp add: iM fQ fM K_def)
        moreover have "io_ok K \<and> io_upd w L K"
          by (rule io_ok_set [OF L free]) (use iK fK sK qd pm \<open>nfds K = taken (watchers K)\<close> in \<open>auto simp: distinct_removeAll\<close>)
        ultimately show ?thesis
          using iK sK fK True by (intro exI [of _ K]) (simp add: registered_def)
      qed
    next
      case False
      then have reg: "registered w L" using idle by (cases "registered w L") auto
      let ?K = "queue_watcher w M"
      have "io_ok ?K \<and> io_upd w L ?K"
        by (rule io_ok_set [OF L free])
          (use iM fM False qd cnt reg pm slot_cong [of ?K L] in \<open>auto simp: queue_watcher_view registered_def\<close>)
      then show ?thesis using step False iM fM reg slot_cong [of ?K L]
        by (intro exI [of _ ?K]) (simp add: registered_def queue_watcher_view)
    qed
  qed
qed

lemma io_ok_cong:
  assumes "io_ok L" "ios L' = ios L" "watchers L' = watchers L" "nfds L' = nfds L" "watcher_queue L' = watcher_queue L"
    and "\<And>w. registered w L \<Longrightarrow> interest L' (io_fd (ios L w)) = interest L (io_fd (ios L w))"
  shows "io_ok L'" "registered w L' = registered w L"
proof -
  have "slot L' = slot L" by (rule slot_cong) (rule assms(3))
  then have reg: "registered x L' = registered x L" for x using assms(2) by (simp add: registered_def)
  then show "registered w L' = registered w L" .
  have "watcher_ok x L'" for x
    using io_okD(4) [OF assms(1), of x] assms(6) [of x] unfolding watcher_ok_def reg assms(2-5) by auto
  then show "io_ok L'" using assms(1) unfolding io_ok_def assms(2-5) \<open>slot L' = slot L\<close> by blast
qed

text \<open>A watcher that is not registered can be initialised for any descriptor.\<close>

lemma io_init_ok:
  assumes "io_ok L" "\<not> registered w L" "c \<noteq> None" "- 1 \<le> fd"
  shows "\<exists>L'. uv__io_init w c fd L = Inr L' \<and> io_ok L' \<and> \<not> registered w L'
    \<and> (\<forall>x. x \<noteq> w \<longrightarrow> registered x L' = registered x L \<and> ios L' x = ios L x)"
proof -
  let ?i = "\<lparr>io_handler = c, io_fd = fd, io_events = 0, io_pevents = 0, io_stale = False\<rparr>"
  let ?M = "upd_io w (\<lambda>_. ?i) L"
  have free: "slot L d \<noteq> Some w" for d using assms(2) io_okD(2) [OF assms(1)] by (auto simp: registered_def)
  have nw: "w \<notin> set (watcher_queue L)" using io_okD(4) [OF assms(1), of w] assms(2) by (simp add: watcher_ok_def)
  have reg: "registered x ?M \<longleftrightarrow> registered x L" for x using assms(2) free by (auto simp: registered_def uv_simps)
  have "watcher_ok x ?M" for x
  proof (cases "x = w")
    case True
    then show ?thesis using assms(2) nw by (simp add: uv_simps watcher_ok_def reg)
  next
    case False
    then show ?thesis using io_okD(4) [OF assms(1), of x] by (simp add: uv_simps watcher_ok_def reg)
  qed
  moreover have "io_fd (ios ?M x) = d" if "slot ?M d = Some x" for d x
    using that io_okD(2) [OF assms(1)] free [of d] by (auto simp: uv_simps)
  ultimately have "io_ok ?M" using io_okD(1,3) [OF assms(1)] by (simp add: io_ok_def uv_simps)
  moreover have "uv__io_init w c fd L = Inr ?M" using assms(3,4) by (simp add: uv__io_init_def)
  ultimately show ?thesis using assms(2) reg by (intro exI [of _ ?M]) (simp add: uv_simps)
qed

lemma io_feed_ok:
  assumes "io_ok L"
  shows "io_ok (uv__io_feed w L)" "registered x (uv__io_feed w L) = registered x L"
proof -
  have f: "ios (uv__io_feed w L) = ios L" "watchers (uv__io_feed w L) = watchers L" "nfds (uv__io_feed w L) = nfds L"
    "watcher_queue (uv__io_feed w L) = watcher_queue L" "interest (uv__io_feed w L) = interest L"
    by (simp_all add: uv__io_feed_def)
  show "io_ok (uv__io_feed w L)" by (rule io_ok_cong [OF assms f(1-4)]) (simp add: f)
  show "registered x (uv__io_feed w L) = registered x L" by (rule io_ok_cong [OF assms f(1-4)]) (simp add: f)
qed

lemma io_stop_frame:
  assumes "uv__io_stop w ev L = Inr L'"
  shows "io_stale (ios L' x) = io_stale (ios L x)" "backend_fd L' = backend_fd L" "interest L' = interest L"
    "inflight L' = inflight L" "sys L' = sys L"
  using assms by (auto simp: uv__io_stop_def uv_simps upd_io_def queue_watcher_def Let_def split: if_splits)

text \<open>Closing: the watcher is registered nowhere, and \<open>epoll\<close> forgets its descriptor.\<close>

lemma io_close_ok:
  assumes L: "io_ok L" and w: "0 \<le> io_fd (ios L w)" "watchers L \<noteq> []" "0 \<le> backend_fd L" "\<not> io_stale (ios L w)"
    and free: "slot L (io_fd (ios L w)) = None \<or> slot L (io_fd (ios L w)) = Some w"
  shows "\<exists>L'. uv__io_close w L = Inr L' \<and> io_ok L' \<and> \<not> registered w L'
    \<and> (\<forall>x. x \<noteq> w \<longrightarrow> registered x L' = registered x L) \<and> interest L' (io_fd (ios L w)) = None
    \<and> w \<notin> set (watcher_queue L') \<union> set (pending_queue L') \<union> set (pending_run L')"
proof -
  have "events_ok poll_mask" by (simp add: events_ok_def poll_mask_def POLLIN_def POLLOUT_def UV__POLLRDHUP_def)
  from io_stop_ok [OF L this _ free] w(1) obtain M where
    M: "uv__io_stop w poll_mask L = Inr M" "io_ok M" "io_upd w L M" "watchers M \<noteq> []"
    "io_pevents (ios M w) = and (io_pevents (ios L w)) (not poll_mask)"
    "registered w M \<longleftrightarrow> and (io_pevents (ios L w)) (not poll_mask) \<noteq> 0" using w(2) by fastforce
  have unreg: "io_pevents (ios M w) = 0" "\<not> registered w M" using M io_okD(4) [OF L, of w] by (simp_all add: watcher_ok_def)
  have iM: "io_fd (ios M w) = io_fd (ios L w)" "\<And>x. x \<noteq> w \<Longrightarrow> ios M x = ios L x" using M(3) by (simp_all add: io_upd_def)
  have stale: "io_stale (ios M w) = io_stale (ios L w)" "backend_fd M = backend_fd L" using io_stop_frame [OF M(1)] by simp_all
  define N where "N = upd_io w (\<lambda>i. i\<lparr>io_stale := w \<in> set (pending_queue M) \<union> set (pending_run M)\<rparr>)
    (M\<lparr>pending_queue := removeAll w (pending_queue M), pending_run := removeAll w (pending_run M)\<rparr>)"
  define K where "K = N\<lparr>inflight := map_option (map (\<lambda>(d, ev). if d = io_fd (ios L w) then (- 1, ev) else (d, ev))) (inflight N),
    interest := (interest N)(io_fd (ios L w) := None)\<rparr>"
  have iK: "io_fd (ios K x) = io_fd (ios M x)" "io_events (ios K x) = io_events (ios M x)"
    "io_pevents (ios K x) = io_pevents (ios M x)" for x by (simp_all add: K_def N_def uv_simps)
  have fK: "watchers K = watchers M" "nfds K = nfds M" "watcher_queue K = watcher_queue M"
    "interest K = (interest M)(io_fd (ios L w) := None)" by (simp_all add: K_def N_def uv_simps)
  have sK: "slot K = slot M" by (rule slot_cong) (rule fK)
  have reg: "registered x K = registered x M" for x by (simp add: registered_def iK sK)
  have "io_fd (ios M x) \<noteq> io_fd (ios L w)" if "registered x M" for x
  proof -
    have "x \<noteq> w" using that unreg(2) by blast
    then have "registered x L" "ios M x = ios L x" using that M(3) by (simp_all add: io_upd_def)
    then show ?thesis using \<open>x \<noteq> w\<close> free by (auto simp: registered_def)
  qed
  then have "watcher_ok x K" for x
    using io_okD(4) [OF M(2), of x] unfolding watcher_ok_def reg iK fK by auto
  then have "io_ok K" using M(2) by (simp add: io_ok_def iK fK sK)
  moreover have "uv__io_close w L = Inr K"
  proof -
    have "uv__io_close w L = uv__platform_invalidate_fd (io_fd (ios N w)) N"
      unfolding uv__io_close_def M(1) bind_res.simps stale N_def Let_def using w(4) by (simp only: if_False)
    moreover have "io_fd (ios N w) = io_fd (ios L w)" "watchers N \<noteq> []" "0 \<le> backend_fd N"
      using M(4) w(3) stale(2) iM(1) by (simp_all add: N_def uv_simps)
    ultimately show ?thesis unfolding uv__platform_invalidate_fd_def K_def by simp
  qed
  moreover have "w \<notin> set (watcher_queue K)" using unreg(2) io_okD(4) [OF M(2), of w] by (simp add: fK watcher_ok_def)
  moreover have "w \<notin> set (pending_queue K) \<union> set (pending_run K)" by (simp add: K_def N_def uv_simps)
  ultimately show ?thesis using unreg(2) reg M(3) fK(4) by (intro exI [of _ K]) (simp add: io_upd_def)
qed

section \<open>What epoll watches\<close>

lemma epoll_register_done: "epoll_register w L = Some (Inr M) \<Longrightarrow> \<exists>es. M = watch w (L\<lparr>sys := es\<rparr>)"
  by (auto simp: epoll_register_def Let_def split: list.splits if_splits)

text \<open>One round of the first loop of \<open>uv__io_poll\<close>.\<close>

lemma register_step:
  assumes L: "io_ok L" "watcher_queue L = w # q" and M: "M = upd_io w (\<lambda>i. i\<lparr>io_events := io_pevents i\<rparr>) (watch w (L\<lparr>watcher_queue := q, sys := es\<rparr>))"
  shows "io_ok M" "watcher_queue M = q" "registered x M = registered x L" "io_pevents (ios M x) = io_pevents (ios L x)"
    "io_fd (ios M x) = io_fd (ios L x)" "io_pevents (ios L w) \<noteq> 0" "0 \<le> io_fd (ios L w)"
    "io_fd (ios L w) < int (length (watchers L))"
    "handles M = handles L" "handle_queue M = handle_queue L" "active_handles M = active_handles L" "calls M = calls L"
proof -
  have w: "registered w L" "io_pevents (ios L w) \<noteq> 0" using io_okD(4) [OF L(1), of w] L(2) by (simp_all add: watcher_ok_def)
  then show "io_pevents (ios L w) \<noteq> 0" "0 \<le> io_fd (ios L w)" "io_fd (ios L w) < int (length (watchers L))"
    by (auto simp: registered_def slot_def split: if_splits)
  have iM: "ios M y = (if y = w then (ios L w)\<lparr>io_events := io_pevents (ios L w)\<rparr> else ios L y)" for y
    by (simp add: M uv_simps watch_def)
  have fM: "watchers M = watchers L" "nfds M = nfds L" "watcher_queue M = q"
    "interest M = (interest L)(io_fd (ios L w) := Some (io_pevents (ios L w)))" by (simp_all add: M uv_simps watch_def)
  have sM: "slot M = slot L" by (rule slot_cong) (rule fM)
  have reg: "registered y M = registered y L" for y by (simp add: registered_def iM sM)
  have q: "distinct (w # q)" using io_okD(3) [OF L(1)] L(2) by simp
  have "watcher_ok y M" for y
  proof (cases "y = w")
    case True
    then show ?thesis using io_okD(4) [OF L(1), of w] w q by (simp add: watcher_ok_def iM fM reg)
  next
    case False
    have "io_fd (ios L y) \<noteq> io_fd (ios L w)" if "registered y L"
      using that w(1) False by (auto simp: registered_def)
    then show ?thesis using io_okD(4) [OF L(1), of y] False L(2) by (auto simp: watcher_ok_def iM fM reg)
  qed
  then show "io_ok M" using io_okD(1,2) [OF L(1)] q by (simp add: io_ok_def iM fM sM)
  show "watcher_queue M = q" "registered x M = registered x L" by (rule fM reg)+
  show "io_pevents (ios M x) = io_pevents (ios L x)" "io_fd (ios M x) = io_fd (ios L x)" by (simp_all add: iM)
  show "handles M = handles L" "handle_queue M = handle_queue L" "active_handles M = active_handles L" "calls M = calls L"
    by (simp_all add: M uv_simps watch_def)
qed

definition all_watched :: "uv_loop_t \<Rightarrow> bool" where
  "all_watched L \<longleftrightarrow> watcher_queue L = [] \<and> (\<forall>w. registered w L \<longrightarrow>
     io_events (ios L w) = io_pevents (ios L w) \<and> interest L (io_fd (ios L w)) = Some (io_pevents (ios L w)))"

lemma queue_empty_watched: "io_ok L \<Longrightarrow> watcher_queue L = [] \<Longrightarrow> all_watched L"
  using io_okD(4) [of L] by (simp add: all_watched_def watcher_ok_def)

lemma register_loop_ok:
  assumes "io_ok L" "watcher_queue L = q" "register_loop q L = Some (Inr L')"
  shows "io_ok L' \<and> all_watched L' \<and> (\<forall>x. registered x L' = registered x L \<and> io_pevents (ios L' x) = io_pevents (ios L x)
    \<and> io_fd (ios L' x) = io_fd (ios L x)) \<and> handles L' = handles L \<and> handle_queue L' = handle_queue L
    \<and> active_handles L' = active_handles L \<and> calls L' = calls L"
  using assms
proof (induction q arbitrary: L)
  case (Cons w q)
  obtain es where es: "register_loop q (upd_io w (\<lambda>i. i\<lparr>io_events := io_pevents i\<rparr>) (watch w (L\<lparr>watcher_queue := q, sys := es\<rparr>))) = Some (Inr L')"
    using Cons.prems(3) by (auto simp: run_bind_Inr_iff Let_def dest!: epoll_register_done split: if_splits)
  note step = register_step [where es = es, OF Cons.prems(1,2) refl]
  from Cons.IH [OF step(1,2) es] show ?case by (simp add: step)
qed (simp add: queue_empty_watched)

lemma register_loop_returns:
  assumes "io_ok L" "watcher_queue L = q" "sys L = replicate n 0" "length q \<le> n"
  shows "\<exists>L'. register_loop q L = Some (Inr L')"
  using assms
proof (induction q arbitrary: L n)
  case (Cons w q)
  then obtain m where n: "n = Suc m" by (cases n) auto
  note step = register_step [where es = "replicate m 0", OF Cons.prems(1,2) refl]
  have "sys (upd_io w (\<lambda>i. i\<lparr>io_events := io_pevents i\<rparr>) (watch w (L\<lparr>watcher_queue := q, sys := replicate m 0\<rparr>))) = replicate m 0"
    by (simp add: uv_simps watch_def)
  then obtain L' where "register_loop q (upd_io w (\<lambda>i. i\<lparr>io_events := io_pevents i\<rparr>) (watch w (L\<lparr>watcher_queue := q, sys := replicate m 0\<rparr>))) = Some (Inr L')"
    using Cons.IH [OF step(1,2)] Cons.prems(4) n by force
  then show ?case using step(6-8) Cons.prems(3) n by (simp add: epoll_register_def)
qed simp

text \<open>
  C30: The watcher table.  Starting and stopping a watcher whose slot is free or its own pass all
  their assertions and keep the table well formed: every slot belongs to the watcher of that
  descriptor, \<open>nfds\<close> counts the taken slots, and a watcher is registered exactly when it wants
  events, with no other watcher touched.  The table grows as needed.  After the first loop of the
  next \<open>uv__io_poll\<close> the queue is empty and \<open>epoll\<close> watches the descriptor of every registered
  watcher for exactly the events the watcher wants.
\<close>
theorem uv_io_watchers_ok:
  assumes "io_ok L" "events_ok ev" "0 \<le> io_fd (ios L w)" "io_fd (ios L w) < 2147483646"
    and "slot L (io_fd (ios L w)) = None \<or> slot L (io_fd (ios L w)) = Some w" "fst (next_alloc L)"
  shows "\<exists>S T. uv__io_start w ev L = Inr S \<and> io_ok S \<and> io_upd w L S \<and> registered w S
    \<and> io_pevents (ios S w) = or (io_pevents (ios L w)) ev
    \<and> uv__io_stop w ev L = Inr T \<and> io_ok T \<and> io_upd w L T
    \<and> io_pevents (ios T w) = and (io_pevents (ios L w)) (not ev)
    \<and> (registered w T \<longleftrightarrow> io_pevents (ios T w) \<noteq> 0)
    \<and> (\<forall>P. register_loop (watcher_queue S) S = Some (Inr P) \<longrightarrow>
         io_ok P \<and> all_watched P \<and> interest P (io_fd (ios L w)) = Some (or (io_pevents (ios L w)) ev))"
proof -
  obtain S where S: "uv__io_start w ev L = Inr S" "io_ok S" "io_upd w L S" "registered w S"
    "io_pevents (ios S w) = or (io_pevents (ios L w)) ev" using io_start_ok [OF assms(1,3,4,2,5,6)] by blast
  obtain T where T: "uv__io_stop w ev L = Inr T" "io_ok T" "io_upd w L T"
    "io_pevents (ios T w) = and (io_pevents (ios L w)) (not ev)" "registered w T \<longleftrightarrow> io_pevents (ios T w) \<noteq> 0"
    using io_stop_ok [OF assms(1,2) _ assms(5)] assms(3) by fastforce
  have "io_ok P \<and> all_watched P \<and> interest P (io_fd (ios L w)) = Some (or (io_pevents (ios L w)) ev)"
    if "register_loop (watcher_queue S) S = Some (Inr P)" for P
    using register_loop_ok [OF S(2) refl that] S(3-5) by (auto simp: all_watched_def io_upd_def)
  then show ?thesis using S T by blast
qed

lemma empty_loop_io_ok: "io_ok empty_loop"
  by (simp add: io_ok_def watcher_ok_def registered_def slot_def empty_loop_def plain_io_def taken_def)

definition one_watcher :: uv_loop_t where
  "one_watcher = empty_loop\<lparr>ios := (\<lambda>_. plain_io)(5 := plain_io\<lparr>io_handler := Some Async_io, io_fd := 7\<rparr>), sys := [EEXIST, 0]\<rparr>"

lemma uv_io_watchers_ok_witness:
  "\<exists>S P. uv__io_start 5 POLLIN one_watcher = Inr S \<and> length (watchers S) = 14 \<and> nfds S = 1
     \<and> register_loop (watcher_queue S) S = Some (Inr P) \<and> interest P 7 = Some POLLIN \<and> all_watched P"
proof -
  have ok: "io_ok one_watcher"
    by (simp add: io_ok_def watcher_ok_def registered_def slot_def one_watcher_def empty_loop_def plain_io_def taken_def)
  have w: "io_fd (ios one_watcher 5) = 7" "io_pevents (ios one_watcher 5) = 0" "slot one_watcher 7 = None" "fst (next_alloc one_watcher)"
    by (simp_all add: one_watcher_def empty_loop_def plain_io_def slot_def next_alloc_def)
  have "events_ok POLLIN" by (simp add: events_ok_def poll_mask_def POLLIN_def POLLOUT_def UV__POLLRDHUP_def)
  from uv_io_watchers_ok [OF ok this, of 5] w obtain S where
    S: "uv__io_start 5 POLLIN one_watcher = Inr S" "\<forall>P. register_loop (watcher_queue S) S = Some (Inr P) \<longrightarrow>
       all_watched P \<and> interest P 7 = Some POLLIN" by auto
  have "watcher_queue S = [5]" "sys S = [EEXIST, 0]" "length (watchers S) = 14" "nfds S = 1"
    "io_events (ios S 5) = 0" "io_pevents (ios S 5) = POLLIN" "io_fd (ios S 5) = 7"
    using S(1) by (auto simp: uv__io_start_def one_watcher_def empty_loop_def plain_io_def upd_io_def maybe_resize_def next_alloc_def
        next_power_of_two_def queue_watcher_def Let_def POLLIN_def poll_mask_def POLLOUT_def UV__POLLRDHUP_def split: if_splits)
  then show ?thesis using S
    by (auto simp: epoll_register_def watch_def uv_simps errno_simps POLLIN_def)
qed

end
