(* ===== verification/UvPoll.thy ===== *)
theory UvPoll
  imports UvIo
begin

text \<open>Poll handles, which watch a descriptor of the user: \<open>third/libuv/src/unix/poll.c\<close>.\<close>

section \<open>Operations\<close>

definition UV_READABLE :: u32 where "UV_READABLE = 1"
definition UV_WRITABLE :: u32 where "UV_WRITABLE = 2"
definition UV_DISCONNECT :: u32 where "UV_DISCONNECT = 4"

definition uv__poll_io :: "uv_env \<Rightarrow> hid \<Rightarrow> wid \<Rightarrow> u32 \<Rightarrow> uv_loop_t \<Rightarrow> uv_loop_t res" where
  "uv__poll_io E h w events L =
     (if and events POLLERR \<noteq> 0 then
        bind_res (uv__io_stop w poll_mask L) (\<lambda>L.
        bind_res (uv__handle_stop h L) (\<lambda>L.
        call_usr E (poll_cb (handles L h)) (Poll_cb h (- EBADF) 0) L))
      else
        let pevents = 0;
            pevents = (if and events POLLIN \<noteq> 0 then or pevents UV_READABLE else pevents);
            pevents = (if and events POLLOUT \<noteq> 0 then or pevents UV_WRITABLE else pevents);
            pevents = (if and events UV__POLLRDHUP \<noteq> 0 then or pevents UV_DISCONNECT else pevents)
        in call_usr E (poll_cb (handles L h)) (Poll_cb h 0 pevents) L)"

definition uv_poll_init :: "hid \<Rightarrow> int \<Rightarrow> uv_loop_t \<Rightarrow> (int \<times> uv_loop_t) res option" where
  "uv_poll_init h fd L =
     run_bind (uv__io_check_fd fd L) (\<lambda>(err, L).
     if err \<noteq> 0 then Some (Inr (err, L))
     else
       run_bind (on_kernel (uv__nonblock (nat fd) True) L) (\<lambda>(err, L).
       if err \<noteq> 0 then Some (Inr (err, L))
       else
         let L = uv__handle_init h UV_POLL L in
         run_bind (Some (uv__io_init (poll_io (handles L h)) (Some (Poll_io h)) fd L)) (\<lambda>L.
         Some (Inr (0, upd_handle h (\<lambda>x. x\<lparr>poll_cb := None\<rparr>) L)))))"

definition uv_poll_init_socket :: "hid \<Rightarrow> int \<Rightarrow> uv_loop_t \<Rightarrow> (int \<times> uv_loop_t) res option" where
  "uv_poll_init_socket h socket L = uv_poll_init h socket L"

definition uv__poll_stop :: "hid \<Rightarrow> uv_loop_t \<Rightarrow> uv_loop_t res" where
  "uv__poll_stop h L = bind_res (uv__io_stop (poll_io (handles L h)) poll_mask L) (uv__handle_stop h)"

definition uv_poll_stop :: "hid \<Rightarrow> uv_loop_t \<Rightarrow> (int \<times> uv_loop_t) res" where
  "uv_poll_stop h L =
     (if uv__is_closing h L then Inl Assert_failed
      else bind_res (uv__poll_stop h L) (\<lambda>L. Inr (0, L)))"

definition uv_poll_start :: "hid \<Rightarrow> u32 \<Rightarrow> cb option \<Rightarrow> uv_loop_t \<Rightarrow> (int \<times> uv_loop_t) res" where
  "uv_poll_start h pevents c L =
     (if and pevents (not (or (or UV_READABLE UV_WRITABLE) UV_DISCONNECT)) \<noteq> 0 then Inl Assert_failed
      else if uv__is_closing h L then Inl Assert_failed
      else
        bind_res (uv__poll_stop h L) (\<lambda>L.
        if pevents = 0 then Inr (0, L)
        else
          let events = 0;
              events = (if and pevents UV_READABLE \<noteq> 0 then or events POLLIN else events);
              events = (if and pevents UV_WRITABLE \<noteq> 0 then or events POLLOUT else events);
              events = (if and pevents UV_DISCONNECT \<noteq> 0 then or events UV__POLLRDHUP else events)
          in
            bind_res (uv__io_start (poll_io (handles L h)) events L) (\<lambda>L.
            bind_res (uv__handle_start h L) (\<lambda>L.
            Inr (0, upd_handle h (\<lambda>x. x\<lparr>poll_cb := c\<rparr>) L)))))"

definition uv__poll_close :: "hid \<Rightarrow> uv_loop_t \<Rightarrow> uv_loop_t res" where
  "uv__poll_close h L = uv__poll_stop h L"

section \<open>Initialising a poll handle\<close>

text \<open>
  A descriptor that is watched already passes \<open>uv__io_check_fd\<close>, because \<open>EEXIST\<close> is no error
  there, and is then taken out of \<open>epoll\<close>: whatever watched it hears nothing any more, although
  its watcher is still registered.
\<close>

lemma io_check_fd_unwatches:
  "uv__io_check_fd fd L = Some (Inr (0, L')) \<Longrightarrow> interest L' fd = None \<and> ios L' = ios L \<and> watchers L' = watchers L"
  by (auto simp: uv__io_check_fd_def Let_def split: list.splits if_splits)

lemma io_check_fd_breaks:
  assumes "io_ok L" "registered w L" "io_events (ios L w) \<noteq> 0" "uv__io_check_fd (io_fd (ios L w)) L = Some (Inr (0, L'))"
  shows "registered w L'" "interest L (io_fd (ios L w)) = Some (io_events (ios L w))" "interest L' (io_fd (ios L w)) = None"
    "\<not> io_ok L'"
proof -
  note c = io_check_fd_unwatches [OF assms(4)]
  then have "slot L' = slot L" by (intro slot_cong) simp
  then show r: "registered w L'" using assms(2) c by (simp add: registered_def)
  show "interest L (io_fd (ios L w)) = Some (io_events (ios L w))" using io_okD(4) [OF assms(1), of w] assms(3) by (simp add: watcher_ok_def)
  show n: "interest L' (io_fd (ios L w)) = None" using c by simp
  show "\<not> io_ok L'"
  proof
    assume "io_ok L'"
    from io_okD(4) [OF this, of w] assms(3) c n show False by (simp add: watcher_ok_def)
  qed
qed

text \<open>A fresh descriptor: the table of watchers stays well formed and the handle is idle.\<close>

lemma io_check_fd_ok:
  assumes "io_ok L" "\<forall>w. registered w L \<longrightarrow> io_fd (ios L w) \<noteq> fd" "uv__io_check_fd fd L = Some (Inr (r, L'))"
  shows "io_ok L'" "registered w L' = registered w L"
proof -
  have f: "ios L' = ios L" "watchers L' = watchers L" "nfds L' = nfds L" "watcher_queue L' = watcher_queue L"
    "\<And>d. d \<noteq> fd \<Longrightarrow> interest L' d = interest L d"
    using assms(3) by (auto simp: uv__io_check_fd_def Let_def split: list.splits if_splits)
  show "io_ok L'" by (rule io_ok_cong [OF assms(1) f(1-4)]) (simp add: f assms(2))
  show "registered w L' = registered w L" by (rule io_ok_cong [OF assms(1) f(1-4)]) (simp add: f assms(2))
qed

section \<open>Stopping a poll handle\<close>

text \<open>Stopping a poll handle keeps the invariants of the watchers and of the active count.\<close>

lemma poll_stop_ok:
  assumes "io_ok L" "count_ok L" "h \<in> set (handle_queue L)" "- 1 \<le> io_fd (ios L w)" "w = poll_io (handles L h)"
    and "slot L (io_fd (ios L w)) = None \<or> slot L (io_fd (ios L w)) = Some w"
  shows "\<exists>L'. uv__poll_stop h L = Inr L' \<and> io_ok L' \<and> count_ok L' \<and> \<not> registered w L' \<and> \<not> uv__is_active h L'"
proof -
  have "events_ok poll_mask" by (simp add: events_ok_def poll_mask_def POLLIN_def POLLOUT_def UV__POLLRDHUP_def)
  from io_stop_ok [OF assms(1) this assms(4,6)] obtain M where
    M: "uv__io_stop w poll_mask L = Inr M" "io_ok M" "io_upd w L M"
      "registered w M \<longleftrightarrow> and (io_pevents (ios L w)) (not poll_mask) \<noteq> 0" by blast
  have nr: "\<not> registered w M" using M(4) io_okD(4) [OF assms(1), of w] by (simp add: watcher_ok_def)
  have cM: "count_ok M" "h \<in> set (handle_queue M)" using M(3) assms(2,3) count_ok_cong [of M L] by (simp_all add: io_upd_def)
  obtain N where N: "uv__handle_stop h M = Inr N" using handle_stop_total by blast
  have f: "ios N = ios M" "watchers N = watchers M" "nfds N = nfds M" "watcher_queue N = watcher_queue M" "interest N = interest M"
    "\<not> uv__is_active h N"
    using N by (auto simp: uv__handle_stop_def uv_simps uv__active_handle_rm_def uv__is_active_def Let_def split: if_splits)
  have "io_ok N" "registered w N = registered w M" by (rule io_ok_cong [OF M(2) f(1-4)], simp add: f)+
  then show ?thesis using M(1) N nr f(6) handle_stop_count [OF cM N] assms(5) by (auto simp: uv__poll_stop_def)
qed

end
