(* ===== verification/UvAsync.thy ===== *)
theory UvAsync
  imports UvPoll
begin

text \<open>
  Waking the loop from another thread: \<open>third/libuv/src/unix/async.c\<close>, with \<open>uv__make_pipe\<close> of
  \<open>process.c\<close>.

  The loop's \<open>struct uv__async\<close> is the watcher \<open>async_watcher\<close> with the write descriptor
  \<open>async_wfd\<close>; its callback is always \<open>uv__async_event\<close>.  The atomic exchange of \<open>pending\<close> is
  one step.  In the script of the kernel a negative number answers a \<open>write\<close> that was cut short;
  \<open>reads\<close> gives the sizes of the reads, negative for an \<open>errno\<close>.
\<close>

section \<open>Sending\<close>

definition cmpxchgi :: "hid \<Rightarrow> int \<Rightarrow> int \<Rightarrow> uv_loop_t \<Rightarrow> int \<times> uv_loop_t" where
  "cmpxchgi h old new L =
     (pending (handles L h),
      if pending (handles L h) = old then upd_handle h (\<lambda>x. x\<lparr>pending := new\<rparr>) L else L)"

fun write_loop :: "script \<Rightarrow> (int \<times> script) option" where
  "write_loop [] = None"
| "write_loop (e # es) = (if e = EINTR then write_loop es else Some (e, es))"

definition uv__async_send :: "uv_loop_t \<Rightarrow> uv_loop_t res option" where
  "uv__async_send L =
     (case write_loop (sys L) of
        None \<Rightarrow> None
      | Some (e, es) \<Rightarrow>
          if e = 0 then Some (Inr (L\<lparr>sys := es\<rparr>))
          else if e = EAGAIN then Some (Inr (L\<lparr>sys := es\<rparr>))
          else Some (Inl Aborted))"

definition uv_async_send :: "hid \<Rightarrow> uv_loop_t \<Rightarrow> (int \<times> uv_loop_t) res option" where
  "uv_async_send h L =
     (if pending (handles L h) \<noteq> 0 then Some (Inr (0, L))
      else
        let (old, L) = cmpxchgi h 0 1 L
        in if old = 0 then run_bind (uv__async_send L) (\<lambda>L. Some (Inr (0, L))) else Some (Inr (0, L)))"

section \<open>Receiving\<close>

fun async_loop :: "nat \<Rightarrow> uv_env \<Rightarrow> uv_loop_t \<Rightarrow> uv_loop_t res option" where
  "async_loop 0 E L = None"
| "async_loop (Suc n) E L =
     (case run_queue L of
        [] \<Rightarrow> Some (Inr L)
      | h # q \<Rightarrow>
          let L = L\<lparr>run_queue := q, async_handles := async_handles L @ [h]\<rparr>;
              (old, L) = cmpxchgi h 1 0 L
          in if old = 0 then async_loop n E L
             else if async_cb (handles L h) = None then async_loop n E L
             else run_bind (Some (call_usr E (async_cb (handles L h)) (Async_cb h) L)) (async_loop n E))"

definition uv__async_event :: "nat \<Rightarrow> uv_env \<Rightarrow> uv_loop_t \<Rightarrow> uv_loop_t res option" where
  "uv__async_event n E L = async_loop n E (L\<lparr>run_queue := async_handles L, async_handles := []\<rparr>)"

text \<open>The loop that empties the descriptor.\<close>

fun drain_loop :: "u32 \<Rightarrow> int list \<Rightarrow> (u32 \<times> int list) res option" where
  "drain_loop n [] = None"
| "drain_loop n (r # rs) =
     (let n = (if 0 < r then n + word_of_int r else n) in
      if r = 1024 then drain_loop n rs
      else if 0 \<le> r then Some (Inr (n, rs))
      else if - r = EAGAIN then Some (Inr (n, rs))
      else if - r = EINTR then drain_loop n rs
      else Some (Inl Aborted))"

definition uv__async_io :: "nat \<Rightarrow> uv_env \<Rightarrow> uv_loop_t \<Rightarrow> uv_loop_t res option" where
  "uv__async_io k E L =
     run_bind (drain_loop 0 (reads L)) (\<lambda>(n, rs).
     let L = L\<lparr>reads := rs\<rparr> in
     if async_wfd L = - 1 \<and> n \<noteq> 8 then Some (Inl Assert_failed)
     else uv__async_event k E L)"

section \<open>Starting and stopping\<close>

definition uv__async_init :: "uv_loop_t \<Rightarrow> uv_loop_t" where
  "uv__async_init L = (upd_io (async_watcher L) (\<lambda>i. i\<lparr>io_fd := - 1\<rparr>) L)\<lparr>async_wfd := - 1\<rparr>"

text \<open>Calls whose result is ignored.\<close>

definition ignore :: "(script \<Rightarrow> kern \<Rightarrow> (int \<times> script \<times> kern) option) \<Rightarrow> uv_loop_t \<Rightarrow> uv_loop_t res option" where
  "ignore f L = run_bind (on_kernel f L) (\<lambda>(_, L). Some (Inr L))"

definition close_fd :: "int \<Rightarrow> uv_loop_t \<Rightarrow> uv_loop_t res option" where
  "close_fd fd L = run_bind (on_kernel_res (uv__close (nat fd)) L) (\<lambda>(_, L). Some (Inr L))"

text \<open>A system call that returns a descriptor: the error number or \<open>0\<close>, and the descriptor.\<close>

definition get_fd :: "bool \<Rightarrow> bool \<Rightarrow> uv_loop_t \<Rightarrow> (int \<times> int \<times> uv_loop_t) res option" where
  "get_fd ce nb L =
     (case new_fd ce nb (sys L) (os L) of
        None \<Rightarrow> None
      | Some (e, fd, es, k) \<Rightarrow> Some (Inr (e, int fd, L\<lparr>sys := es, os := k\<rparr>)))"

definition old_eventfd :: "uv_loop_t \<Rightarrow> (int \<times> uv_loop_t) res option" where
  "old_eventfd L =
     (if no_eventfd L then Some (Inr (- ENOSYS, L))
      else
        run_bind (get_fd False False L) (\<lambda>(e, fd, L).
        if e = 0 then
          run_bind (ignore (uv__cloexec (nat fd) True) L) (\<lambda>L.
          run_bind (ignore (uv__nonblock (nat fd) True) L) (\<lambda>L.
          Some (Inr (fd, L))))
        else if e \<noteq> ENOSYS then Some (Inr (- e, L))
        else Some (Inr (- ENOSYS, L\<lparr>no_eventfd := True\<rparr>))))"

definition uv__async_eventfd :: "uv_loop_t \<Rightarrow> (int \<times> uv_loop_t) res option" where
  "uv__async_eventfd L =
     (if no_eventfd2 L then old_eventfd L
      else
        run_bind (get_fd True True L) (\<lambda>(e, fd, L).
        if e = 0 then Some (Inr (fd, L))
        else if e \<noteq> ENOSYS then Some (Inr (- e, L))
        else old_eventfd (L\<lparr>no_eventfd2 := True\<rparr>)))"

text \<open>
  \<open>pipe\<close> and \<open>pipe2\<close> give two descriptors.  The result is the error and the pair.
\<close>

definition two_fds :: "bool \<Rightarrow> bool \<Rightarrow> uv_loop_t \<Rightarrow> (int \<times> int \<times> int \<times> uv_loop_t) res option" where
  "two_fds ce nb L =
     run_bind (get_fd ce nb L) (\<lambda>(e, a, L).
     if e \<noteq> 0 then Some (Inr (e, 0, 0, L))
     else
       let b = lowest_fd (opened (os L))
       in Some (Inr (0, a, int b, L\<lparr>os := install b ce nb (os L)\<rparr>)))"

definition old_pipe :: "bool \<Rightarrow> uv_loop_t \<Rightarrow> (int \<times> int \<times> int \<times> uv_loop_t) res option" where
  "old_pipe nonblock L =
     run_bind (two_fds False False L) (\<lambda>(e, a, b, L).
     if e \<noteq> 0 then Some (Inr (- e, a, b, L))
     else
       run_bind (ignore (uv__cloexec (nat a) True) L) (\<lambda>L.
       run_bind (ignore (uv__cloexec (nat b) True) L) (\<lambda>L.
       if nonblock then
         run_bind (ignore (uv__nonblock (nat a) True) L) (\<lambda>L.
         run_bind (ignore (uv__nonblock (nat b) True) L) (\<lambda>L.
         Some (Inr (0, a, b, L))))
       else Some (Inr (0, a, b, L)))))"

definition uv__make_pipe :: "bool \<Rightarrow> uv_loop_t \<Rightarrow> (int \<times> int \<times> int \<times> uv_loop_t) res option" where
  "uv__make_pipe nonblock L =
     (if no_pipe2 L then old_pipe nonblock L
      else
        run_bind (two_fds True nonblock L) (\<lambda>(e, a, b, L).
        if e = 0 then Some (Inr (0, a, b, L))
        else if e \<noteq> ENOSYS then Some (Inr (- e, a, b, L))
        else old_pipe nonblock (L\<lparr>no_pipe2 := True\<rparr>)))"

text \<open>The pipe is opened again through \<open>/proc\<close>, so that one descriptor is both its ends.\<close>

definition reopen_pipe :: "int \<Rightarrow> int \<Rightarrow> uv_loop_t \<Rightarrow> (int \<times> int \<times> uv_loop_t) res option" where
  "reopen_pipe a b L =
     run_bind (on_kernel_res uv__open_cloexec L) (\<lambda>(fd, L).
     if 0 \<le> fd then
       run_bind (close_fd a L) (\<lambda>L.
       run_bind (close_fd b L) (\<lambda>L.
       Some (Inr (fd, fd, L))))
     else Some (Inr (a, b, L)))"

definition async_fds :: "uv_loop_t \<Rightarrow> (int \<times> int \<times> int \<times> uv_loop_t) res option" where
  "async_fds L =
     run_bind (uv__async_eventfd L) (\<lambda>(err, L).
     if 0 \<le> err then Some (Inr (err, err, - 1, L))
     else if err = - ENOSYS then
       run_bind (uv__make_pipe True L) (\<lambda>(err, a, b, L).
       if err = 0 then run_bind (reopen_pipe a b L) (\<lambda>(a, b, L). Some (Inr (err, a, b, L)))
       else Some (Inr (err, a, b, L)))
     else Some (Inr (err, 0, 0, L)))"

definition uv__async_start :: "uv_loop_t \<Rightarrow> (int \<times> uv_loop_t) res option" where
  "uv__async_start L =
     (let w = async_watcher L in
      if io_fd (ios L w) \<noteq> - 1 then Some (Inr (0, L))
      else
        run_bind (async_fds L) (\<lambda>(err, a, b, L).
        if err < 0 then Some (Inr (err, L))
        else
          run_bind (Some (uv__io_init w (Some Async_io) a L)) (\<lambda>L.
          run_bind (Some (uv__io_start w POLLIN L)) (\<lambda>L.
          Some (Inr (0, L\<lparr>async_wfd := b\<rparr>))))))"

definition uv__async_stop :: "uv_loop_t \<Rightarrow> uv_loop_t res option" where
  "uv__async_stop L =
     (let w = async_watcher L in
      if io_fd (ios L w) = - 1 then Some (Inr L)
      else
        run_bind
          (if async_wfd L \<noteq> - 1 then
             run_bind (if async_wfd L \<noteq> io_fd (ios L w) then close_fd (async_wfd L) L else Some (Inr L)) (\<lambda>L.
             Some (Inr (L\<lparr>async_wfd := - 1\<rparr>)))
           else Some (Inr L)) (\<lambda>L.
        run_bind (Some (uv__io_stop w POLLIN L)) (\<lambda>L.
        run_bind (close_fd (io_fd (ios L w)) L) (\<lambda>L.
        Some (Inr (upd_io w (\<lambda>i. i\<lparr>io_fd := - 1\<rparr>) L))))))"

definition uv_async_init :: "hid \<Rightarrow> cb option \<Rightarrow> uv_loop_t \<Rightarrow> (int \<times> uv_loop_t) res option" where
  "uv_async_init h c L =
     run_bind (uv__async_start L) (\<lambda>(err, L).
     if err \<noteq> 0 then Some (Inr (err, L))
     else
       let L = uv__handle_init h UV_ASYNC L;
           L = upd_handle h (\<lambda>x. x\<lparr>async_cb := c, pending := 0\<rparr>) L;
           L = L\<lparr>async_handles := async_handles L @ [h]\<rparr>
       in run_bind (Some (uv__handle_start h L)) (\<lambda>L. Some (Inr (0, L))))"

definition uv__async_close :: "hid \<Rightarrow> uv_loop_t \<Rightarrow> uv_loop_t res" where
  "uv__async_close h L =
     uv__handle_stop h (L\<lparr>async_handles := removeAll h (async_handles L), run_queue := removeAll h (run_queue L)\<rparr>)"

section \<open>Every request is answered once\<close>

text \<open>Callbacks that leave the async handles alone.\<close>

definition async_quiet :: "uv_env \<Rightarrow> bool" where
  "async_quiet E \<longleftrightarrow> (\<forall>c h L. \<exists>L'. usr E c (Async_cb h) L = Inr L' \<and> run_queue L' = run_queue L
     \<and> async_handles L' = async_handles L \<and> handles L' = handles L \<and> calls L' = calls L)"

definition wants :: "uv_loop_t \<Rightarrow> hid \<Rightarrow> bool" where
  "wants L h \<longleftrightarrow> pending (handles L h) = 1 \<and> async_cb (handles L h) \<noteq> None"

definition flags01 :: "uv_loop_t \<Rightarrow> bool" where
  "flags01 L \<longleftrightarrow> (\<forall>h. pending (handles L h) = 0 \<or> pending (handles L h) = 1)"

lemma async_loop_answers:
  assumes "async_quiet E" "length (run_queue L) < n" "distinct (run_queue L)" "flags01 L"
  shows "\<exists>L'. async_loop n E L = Some (Inr L') \<and> calls L' = calls L @ map Async_cb (filter (wants L) (run_queue L))
    \<and> (\<forall>h. pending (handles L' h) = (if h \<in> set (run_queue L) then 0 else pending (handles L h)))
    \<and> async_handles L' = async_handles L @ run_queue L \<and> run_queue L' = []"
  using assms(2-4)
proof (induction n arbitrary: L)
  case (Suc n)
  show ?case
  proof (cases "run_queue L")
    case (Cons h q)
    define M where "M = L\<lparr>run_queue := q, async_handles := async_handles L @ [h]\<rparr>"
    obtain K where K: "cmpxchgi h 1 0 M = (pending (handles L h), K)" by (simp add: cmpxchgi_def M_def)
    then have k: "run_queue K = q" "async_handles K = async_handles L @ [h]" "calls K = calls L"
      "\<And>x. pending (handles K x) = (if x = h then 0 else pending (handles L x))"
      "\<And>x. async_cb (handles K x) = async_cb (handles L x)"
      using Suc.prems(3) by (auto simp: cmpxchgi_def M_def flags01_def uv_simps split: if_splits)
    obtain N where N: "async_loop (Suc n) E L = async_loop n E N" "run_queue N = q" "async_handles N = async_handles L @ [h]"
      "handles N = handles K" "calls N = calls L @ (if wants L h then [Async_cb h] else [])"
    proof (cases "wants L h")
      case True
      then obtain c where c: "async_cb (handles K h) = Some c" "pending (handles L h) = 1" by (auto simp: wants_def k(5))
      from assms(1) obtain N where "usr E c (Async_cb h) (K\<lparr>calls := calls K @ [Async_cb h]\<rparr>) = Inr N"
        "run_queue N = run_queue K" "async_handles N = async_handles K" "handles N = handles K" "calls N = calls K @ [Async_cb h]"
        unfolding async_quiet_def by fastforce
      then show thesis using that [of N] True c K Cons by (simp add: k call_usr_def flip: M_def)
    next
      case False
      then have "async_loop (Suc n) E L = async_loop n E K"
        using K Cons Suc.prems(3) by (auto simp: wants_def k(5) flags01_def simp flip: M_def)
      then show thesis using that [of K] False by (simp add: k)
    qed
    have "distinct q" "length q < n" "flags01 N" "h \<notin> set q"
      using Suc.prems Cons N(4) by (auto simp: flags01_def k)
    moreover have "filter (wants N) q = filter (wants L) q"
      using \<open>h \<notin> set q\<close> by (intro filter_cong) (auto simp: wants_def N(4) k)
    ultimately obtain L' where "async_loop n E N = Some (Inr L')" "calls L' = calls N @ map Async_cb (filter (wants L) q)"
      "\<forall>x. pending (handles L' x) = (if x \<in> set q then 0 else pending (handles N x))"
      "async_handles L' = async_handles N @ q" "run_queue L' = []"
      using Suc.IH [of N] N(2) by auto
    then show ?thesis using N Cons by (auto simp: k)
  qed simp
qed simp

text \<open>
  However often a handle was sent to, one run of \<open>uv__async_event\<close> calls it back once, in the
  order of the handles, and every request made after that is seen by the next run.
\<close>

lemma async_event_answers:
  assumes "async_quiet E" "length (async_handles L) < n" "distinct (async_handles L)" "flags01 L"
  shows "\<exists>L'. uv__async_event n E L = Some (Inr L')
    \<and> calls L' = calls L @ map Async_cb (filter (wants L) (async_handles L))
    \<and> (\<forall>h \<in> set (async_handles L). pending (handles L' h) = 0) \<and> async_handles L' = async_handles L"
proof -
  let ?M = "L\<lparr>run_queue := async_handles L, async_handles := []\<rparr>"
  have "wants ?M = wants L" "flags01 ?M = flags01 L" by (auto simp: wants_def flags01_def)
  then show ?thesis
    using async_loop_answers [OF assms(1), of ?M n] assms(2-4) by (auto simp: uv__async_event_def)
qed

lemma async_send_sets:
  assumes "uv_async_send h L = Some (Inr (r, L'))" "flags01 L"
  shows "r = 0" "pending (handles L' h) = 1" "async_cb (handles L' h) = async_cb (handles L h)"
    "\<And>x. x \<noteq> h \<Longrightarrow> handles L' x = handles L x" "flags01 L'" "async_handles L' = async_handles L"
  using assms by (auto simp: uv_async_send_def uv__async_send_def cmpxchgi_def uv_simps flags01_def run_bind_Inr_iff
      split: if_splits option.splits) (metis, metis)

end
