(* ===== verification/UvLoop.thy ===== *)
theory UvLoop
  imports UvAsync
begin

text \<open>
  The event loop: \<open>uv_run\<close>, \<open>uv_close\<close> and what they call in \<open>third/libuv/src/unix/core.c\<close>,
  \<open>uv__io_poll\<close> and the platform functions of \<open>linux-core.c\<close>, \<open>uv__loop_configure\<close> of \<open>loop.c\<close>.

  A watcher's callback is dispatched to \<open>uv__poll_io\<close>, \<open>uv__async_io\<close> or the environment.  The
  loops that callbacks can prolong run on fuel.  A 64-bit \<open>long\<close> is assumed, so the timeout is
  never capped.
\<close>

section \<open>Time\<close>

text \<open>A reading of the clock, or the old time when the readings have ended.\<close>

definition uv__update_time :: "uv_loop_t \<Rightarrow> uv_loop_t" where
  "uv__update_time L =
     (case clock L of [] \<Rightarrow> L | t # ts \<Rightarrow> L\<lparr>time := word_of_nat t div 1000000, clock := ts\<rparr>)"

definition uv_update_time :: "uv_loop_t \<Rightarrow> uv_loop_t" where
  "uv_update_time L = uv__update_time L"

section \<open>Callbacks of I/O watchers\<close>

definition call_io :: "nat \<Rightarrow> uv_env \<Rightarrow> wid \<Rightarrow> u32 \<Rightarrow> uv_loop_t \<Rightarrow> uv_loop_t res option" where
  "call_io k E w ev L =
     (let N = L\<lparr>calls := calls L @ [Io_cb w ev]\<rparr> in
      case io_handler (ios L w) of
        None \<Rightarrow> Some (Inl Null_deref)
      | Some (Poll_io h) \<Rightarrow> Some (uv__poll_io E h w ev N)
      | Some Async_io \<Rightarrow> uv__async_io k E N
      | Some (Other_io c) \<Rightarrow> Some (io_cb E c w ev N))"

fun pending_loop :: "nat \<Rightarrow> nat \<Rightarrow> uv_env \<Rightarrow> uv_loop_t \<Rightarrow> uv_loop_t res option" where
  "pending_loop k 0 E L = None"
| "pending_loop k (Suc n) E L =
     (case pending_run L of
        [] \<Rightarrow> Some (Inr L)
      | w # q \<Rightarrow> run_bind (call_io k E w POLLOUT (L\<lparr>pending_run := q\<rparr>)) (pending_loop k n E))"

definition uv__run_pending :: "nat \<Rightarrow> uv_env \<Rightarrow> uv_loop_t \<Rightarrow> (bool \<times> uv_loop_t) res option" where
  "uv__run_pending k E L =
     (if pending_queue L = [] then Some (Inr (False, L))
      else
        run_bind (pending_loop k k E (L\<lparr>pending_run := pending_queue L, pending_queue := []\<rparr>)) (\<lambda>L.
        Some (Inr (True, L))))"

section \<open>Polling\<close>

text \<open>
  One call of \<open>epoll_wait\<close> or \<open>epoll_pwait\<close>, with \<open>SIGPROF\<close> blocked around it when the kernel
  cannot do that itself.
\<close>

definition sigmask :: "uv_loop_t \<Rightarrow> uv_loop_t res option" where
  "sigmask L =
     (if block_sigprof L \<and> no_epoll_pwait L then
        (case sys L of [] \<Rightarrow> None | e # es \<Rightarrow> if e \<noteq> 0 then Some (Inl Aborted) else Some (Inr (L\<lparr>sys := es\<rparr>)))
      else Some (Inr L))"

definition epoll_call :: "uv_loop_t \<Rightarrow> (poll_result \<times> uv_loop_t) res option" where
  "epoll_call L =
     run_bind (sigmask L) (\<lambda>L.
     case polls L of
       [] \<Rightarrow> None
     | r # rs \<Rightarrow>
         let pwait = no_epoll_wait L \<or> (block_sigprof L \<and> \<not> no_epoll_pwait L);
             L = L\<lparr>polls := rs\<rparr>;
             L = (if r = Poll_errno ENOSYS then (if pwait then L\<lparr>no_epoll_pwait := True\<rparr> else L\<lparr>no_epoll_wait := True\<rparr>) else L)
         in run_bind (sigmask L) (\<lambda>L. Some (Inr (r, uv__update_time L))))"

text \<open>
  The event with the given index, as it is when its turn comes: a callback may have invalidated
  it in the meantime.
\<close>

definition event_at :: "nat \<Rightarrow> uv_loop_t \<Rightarrow> int \<times> u32" where
  "event_at i L = (case inflight L of Some es \<Rightarrow> if i < length es then es ! i else (- 1, 0) | None \<Rightarrow> (- 1, 0))"

text \<open>The events a watcher is told: those it wants, errors, and both directions on a bare error.\<close>

definition shown_events :: "u32 \<Rightarrow> u32 \<Rightarrow> u32" where
  "shown_events pevents ev =
     (let ev = and ev (or pevents (or POLLERR POLLHUP))
      in if ev = POLLERR \<or> ev = POLLHUP then or ev (and pevents (or POLLIN POLLOUT)) else ev)"

definition dispatch :: "nat \<Rightarrow> uv_env \<Rightarrow> nat \<Rightarrow> bool \<times> nat \<times> uv_loop_t \<Rightarrow> (bool \<times> nat \<times> uv_loop_t) res option" where
  "dispatch k E i = (\<lambda>(have_signals, nevents, L).
     let (fd, ev) = event_at i L in
     if fd = - 1 then Some (Inr (have_signals, nevents, L))
     else if \<not> 0 \<le> fd then Some (Inl Assert_failed)
     else if \<not> fd < int (length (watchers L)) then Some (Inl Assert_failed)
     else
       (case watchers L ! nat fd of
          None \<Rightarrow> Some (Inr (have_signals, nevents, L\<lparr>interest := (interest L)(fd := None)\<rparr>))
        | Some w \<Rightarrow>
            let ev = shown_events (io_pevents (ios L w)) ev in
            if ev = 0 then Some (Inr (have_signals, nevents, L))
            else if w = signal_io_watcher L then Some (Inr (True, nevents + 1, L))
            else run_bind (call_io k E w ev L) (\<lambda>L. Some (Inr (have_signals, nevents + 1, L)))))"

fun event_loop :: "nat \<Rightarrow> uv_env \<Rightarrow> nat list \<Rightarrow> bool \<times> nat \<times> uv_loop_t \<Rightarrow> (bool \<times> nat \<times> uv_loop_t) res option" where
  "event_loop k E [] s = Some (Inr s)"
| "event_loop k E (i # is) s = run_bind (dispatch k E i s) (event_loop k E is)"

text \<open>The result is whether a signal was seen, the number of events dispatched, and the loop.\<close>

definition handle_events :: "nat \<Rightarrow> uv_env \<Rightarrow> (int \<times> u32) list \<Rightarrow> uv_loop_t \<Rightarrow> (bool \<times> nat \<times> uv_loop_t) res option" where
  "handle_events k E es L =
     (if watchers L = [] then Some (Inl Assert_failed)
      else
        run_bind (event_loop k E [0..<length es] (False, 0, L\<lparr>inflight := Some es\<rparr>)) (\<lambda>(have_signals, nevents, L).
        run_bind (if have_signals then call_io k E (signal_io_watcher L) POLLIN L else Some (Inr L)) (\<lambda>L.
        Some (Inr (have_signals, nevents, L\<lparr>inflight := None\<rparr>)))))"

text \<open>The label \<open>update_timeout\<close>: the time that is left, or \<open>None\<close> when there is none.\<close>

definition time_left :: "int \<Rightarrow> u64 \<Rightarrow> uv_loop_t \<Rightarrow> int option" where
  "time_left real_timeout base L =
     (let left = cint (real_timeout - uint (time L - base)) in if left \<le> 0 then None else Some left)"

fun poll_loop :: "nat \<Rightarrow> uv_env \<Rightarrow> int \<Rightarrow> int \<Rightarrow> u64 \<Rightarrow> nat \<Rightarrow> uv_loop_t \<Rightarrow> uv_loop_t res option" where
  "poll_loop 0 E tmo real_timeout base cnt L = None"
| "poll_loop (Suc k) E tmo real_timeout base cnt L =
     (let update_timeout = (\<lambda>L.
            if \<not> 0 < tmo then Some (Inl Assert_failed)
            else case time_left real_timeout base L of
                   None \<Rightarrow> Some (Inr L)
                 | Some left \<Rightarrow> poll_loop k E left left base cnt L)
      in run_bind (epoll_call L) (\<lambda>(r, L).
         case r of
           Timed_out \<Rightarrow>
             if tmo = - 1 then Some (Inl Assert_failed)
             else if 0 < real_timeout - tmo then poll_loop k E (real_timeout - tmo) real_timeout base cnt L
             else Some (Inr L)
         | Poll_errno e \<Rightarrow>
             if e = ENOSYS then
               if no_epoll_wait L \<and> no_epoll_pwait L then Some (Inl Assert_failed)
               else poll_loop k E tmo real_timeout base cnt L
             else if e \<noteq> EINTR then Some (Inl Aborted)
             else if tmo = - 1 then poll_loop k E tmo real_timeout base cnt L
             else if tmo = 0 then Some (Inr L)
             else update_timeout L
         | Events es \<Rightarrow>
             run_bind (handle_events k E es L) (\<lambda>(have_signals, nevents, L).
             if have_signals then Some (Inr L)
             else if nevents \<noteq> 0 then
               if length es = 1024 \<and> cnt - 1 \<noteq> 0 then poll_loop k E 0 real_timeout base (cnt - 1) L
               else Some (Inr L)
             else if tmo = 0 then Some (Inr L)
             else if tmo = - 1 then poll_loop k E tmo real_timeout base cnt L
             else update_timeout L)))"

definition uv__io_poll :: "nat \<Rightarrow> uv_env \<Rightarrow> int \<Rightarrow> uv_loop_t \<Rightarrow> uv_loop_t res option" where
  "uv__io_poll k E tmo L =
     (if nfds L = 0 then
        if watcher_queue L \<noteq> [] then Some (Inl Assert_failed) else Some (Inr L)
      else
        run_bind (register_loop (watcher_queue L) L) (\<lambda>L.
        if \<not> - 1 \<le> tmo then Some (Inl Assert_failed)
        else poll_loop k E tmo tmo (time L) 48 L))"

section \<open>Closing handles\<close>

definition uv__make_close_pending :: "hid \<Rightarrow> uv_loop_t \<Rightarrow> uv_loop_t res" where
  "uv__make_close_pending h L =
     (if \<not> has_flag UV_CLOSING (handles L h) then Inl Assert_failed
      else if has_flag UV_CLOSED (handles L h) then Inl Assert_failed
      else Inr (L\<lparr>closing_handles := h # closing_handles L\<rparr>))"

text \<open>Signal handles are not put into the list here: the environment does that later.\<close>

definition uv_close :: "uv_env \<Rightarrow> hid \<Rightarrow> cb option \<Rightarrow> uv_loop_t \<Rightarrow> uv_loop_t res" where
  "uv_close E h c L =
     (if has_flag (or UV_CLOSING UV_CLOSED) (handles L h) then Inl Assert_failed
      else
        let L = upd_handle h (\<lambda>x. (set_flag UV_CLOSING x)\<lparr>close_cb := c\<rparr>) L in
        (case htype (handles L h) of
           UV_NAMED_PIPE \<Rightarrow> bind_res (type_close E h L) (uv__make_close_pending h)
         | UV_TTY \<Rightarrow> bind_res (type_close E h L) (uv__make_close_pending h)
         | UV_TCP \<Rightarrow> bind_res (type_close E h L) (uv__make_close_pending h)
         | UV_UDP \<Rightarrow> bind_res (type_close E h L) (uv__make_close_pending h)
         | UV_PREPARE \<Rightarrow> bind_res (uv__watcher_close Prepare h L) (uv__make_close_pending h)
         | UV_CHECK \<Rightarrow> bind_res (uv__watcher_close Check h L) (uv__make_close_pending h)
         | UV_IDLE \<Rightarrow> bind_res (uv__watcher_close Idle h L) (uv__make_close_pending h)
         | UV_ASYNC \<Rightarrow> bind_res (uv__async_close h L) (uv__make_close_pending h)
         | UV_TIMER \<Rightarrow> bind_res (uv__timer_close h L) (uv__make_close_pending h)
         | UV_PROCESS \<Rightarrow> bind_res (type_close E h L) (uv__make_close_pending h)
         | UV_FS_EVENT \<Rightarrow> bind_res (type_close E h L) (uv__make_close_pending h)
         | UV_POLL \<Rightarrow> bind_res (uv__poll_close h L) (uv__make_close_pending h)
         | UV_FS_POLL \<Rightarrow> bind_res (type_close E h L) (uv__make_close_pending h)
         | UV_SIGNAL \<Rightarrow> type_close E h L
         | _ \<Rightarrow> Inl Assert_failed))"

definition has_destructor :: "htype \<Rightarrow> bool res" where
  "has_destructor ty =
     (if ty \<in> {UV_PREPARE, UV_CHECK, UV_IDLE, UV_ASYNC, UV_TIMER, UV_PROCESS, UV_FS_EVENT, UV_FS_POLL, UV_POLL, UV_SIGNAL}
      then Inr False
      else if ty \<in> {UV_NAMED_PIPE, UV_TCP, UV_TTY, UV_UDP} then Inr True
      else Inl Assert_failed)"

definition uv__finish_close :: "uv_env \<Rightarrow> hid \<Rightarrow> uv_loop_t \<Rightarrow> uv_loop_t res" where
  "uv__finish_close E h L =
     (if \<not> has_flag UV_CLOSING (handles L h) then Inl Assert_failed
      else if has_flag UV_CLOSED (handles L h) then Inl Assert_failed
      else
        let L = upd_handle h (set_flag UV_CLOSED) L in
        bind_res (has_destructor (htype (handles L h))) (\<lambda>d.
        bind_res (if d then type_destroy E h L else Inr L) (\<lambda>L.
        let L = uv__handle_unref h L;
            L = L\<lparr>handle_queue := removeAll h (handle_queue L)\<rparr>
        in if close_cb (handles L h) \<noteq> None then call_usr E (close_cb (handles L h)) (Close_cb h) L else Inr L)))"

fun closing_loop :: "uv_env \<Rightarrow> hid list \<Rightarrow> uv_loop_t \<Rightarrow> uv_loop_t res" where
  "closing_loop E [] L = Inr L"
| "closing_loop E (p # q) L = bind_res (uv__finish_close E p L) (closing_loop E q)"

definition uv__run_closing_handles :: "uv_env \<Rightarrow> uv_loop_t \<Rightarrow> uv_loop_t res" where
  "uv__run_closing_handles E L = closing_loop E (closing_handles L) (L\<lparr>closing_handles := []\<rparr>)"

section \<open>The loop\<close>

definition uv_is_closing :: "hid \<Rightarrow> uv_loop_t \<Rightarrow> bool" where
  "uv_is_closing h L = uv__is_closing h L"

definition uv_is_active :: "hid \<Rightarrow> uv_loop_t \<Rightarrow> bool" where
  "uv_is_active h L = uv__is_active h L"

definition uv_backend_fd :: "uv_loop_t \<Rightarrow> int" where
  "uv_backend_fd L = backend_fd L"

definition uv_backend_timeout :: "uv_loop_t \<Rightarrow> int" where
  "uv_backend_timeout L =
     (if stop_flag L then 0
      else if \<not> uv__has_active_handles L \<and> \<not> uv__has_active_reqs L then 0
      else if watcher_handles L Idle \<noteq> [] then 0
      else if pending_queue L \<noteq> [] then 0
      else if closing_handles L \<noteq> [] then 0
      else uv__next_timeout L)"

definition uv__loop_alive :: "uv_loop_t \<Rightarrow> bool" where
  "uv__loop_alive L \<longleftrightarrow> uv__has_active_handles L \<or> uv__has_active_reqs L \<or> closing_handles L \<noteq> []"

definition uv_loop_alive :: "uv_loop_t \<Rightarrow> bool" where
  "uv_loop_alive L = uv__loop_alive L"

datatype uv_run_mode = UV_RUN_DEFAULT | UV_RUN_ONCE | UV_RUN_NOWAIT

text \<open>One round of \<open>uv_run\<close>; \<open>k\<close> is the fuel of the loops inside.\<close>

definition run_round :: "nat \<Rightarrow> uv_env \<Rightarrow> uv_run_mode \<Rightarrow> uv_loop_t \<Rightarrow> uv_loop_t res option" where
  "run_round k E mode L =
     (let L = uv__update_time L in
      run_bind (uv__run_timers k E L) (\<lambda>L.
      run_bind (uv__run_pending k E L) (\<lambda>(ran_pending, L).
      run_bind (uv__run_watcher k E Idle L) (\<lambda>L.
      run_bind (uv__run_watcher k E Prepare L) (\<lambda>L.
      let tmo = (if (mode = UV_RUN_ONCE \<and> \<not> ran_pending) \<or> mode = UV_RUN_DEFAULT then uv_backend_timeout L else 0) in
      run_bind (uv__io_poll k E tmo L) (\<lambda>L.
      run_bind (uv__run_watcher k E Check L) (\<lambda>L.
      run_bind (Some (uv__run_closing_handles E L)) (\<lambda>L.
      if mode = UV_RUN_ONCE then uv__run_timers k E (uv__update_time L) else Some (Inr L)))))))))"

fun run_loop :: "nat \<Rightarrow> nat \<Rightarrow> uv_env \<Rightarrow> uv_run_mode \<Rightarrow> bool \<Rightarrow> uv_loop_t \<Rightarrow> (bool \<times> uv_loop_t) res option" where
  "run_loop k 0 E mode r L = None"
| "run_loop k (Suc n) E mode r L =
     (if \<not> (r \<and> \<not> stop_flag L) then Some (Inr (r, L))
      else
        run_bind (run_round k E mode L) (\<lambda>L.
        let r = uv__loop_alive L in
        if mode = UV_RUN_ONCE \<or> mode = UV_RUN_NOWAIT then Some (Inr (r, L))
        else run_loop k n E mode r L))"

definition uv_run :: "nat \<Rightarrow> nat \<Rightarrow> uv_env \<Rightarrow> uv_run_mode \<Rightarrow> uv_loop_t \<Rightarrow> (bool \<times> uv_loop_t) res option" where
  "uv_run k n E mode L =
     (let r = uv__loop_alive L;
          L = (if r then L else uv__update_time L)
      in run_bind (run_loop k n E mode r L) (\<lambda>(r, L).
         Some (Inr (r, if stop_flag L then L\<lparr>stop_flag := False\<rparr> else L))))"

definition uv_stop :: "uv_loop_t \<Rightarrow> uv_loop_t" where
  "uv_stop L = L\<lparr>stop_flag := True\<rparr>"

section \<open>Starting and configuring a loop\<close>

definition uv__platform_loop_init :: "uv_loop_t \<Rightarrow> (int \<times> uv_loop_t) res option" where
  "uv__platform_loop_init L =
     (let finish = (\<lambda>e fd L.
            let L = L\<lparr>backend_fd := (if e = 0 then fd else - 1), inotify_fd := - 1\<rparr>
            in Some (Inr (if e = 0 then 0 else - e, L)))
      in run_bind (get_fd True False L) (\<lambda>(e, fd, L).
         if e = ENOSYS \<or> e = EINVAL then
           run_bind (get_fd False False L) (\<lambda>(e, fd, L).
           run_bind (if e = 0 then ignore (uv__cloexec (nat fd) True) L else Some (Inr L)) (finish e fd))
         else finish e fd L))"

definition uv__platform_loop_delete :: "uv_loop_t \<Rightarrow> uv_loop_t res option" where
  "uv__platform_loop_delete L =
     (if inotify_fd L = - 1 then Some (Inr L)
      else
        run_bind (Some (uv__io_stop (inotify_read_watcher L) POLLIN L)) (\<lambda>L.
        run_bind (close_fd (inotify_fd L) L) (\<lambda>L.
        Some (Inr (L\<lparr>inotify_fd := - 1\<rparr>)))))"

definition SIGPROF :: int where "SIGPROF = 27"

definition UV_LOOP_BLOCK_SIGNAL :: int where "UV_LOOP_BLOCK_SIGNAL = 0"

definition uv__loop_configure :: "int \<Rightarrow> int \<Rightarrow> uv_loop_t \<Rightarrow> int \<times> uv_loop_t" where
  "uv__loop_configure opt signum L =
     (if opt \<noteq> UV_LOOP_BLOCK_SIGNAL then (- ENOSYS, L)
      else if signum \<noteq> SIGPROF then (- EINVAL, L)
      else (0, L\<lparr>block_sigprof := True\<rparr>))"

section \<open>Closing: every handle is called back once\<close>

lemma has_flag_closing [uv_simps]:
  "has_flag UV_CLOSING (clear_flag UV__HANDLE_ACTIVE x) = has_flag UV_CLOSING x"
  "has_flag UV_CLOSED (clear_flag UV__HANDLE_ACTIVE x) = has_flag UV_CLOSED x"
  "has_flag UV_CLOSING (clear_flag UV__HANDLE_REF x) = has_flag UV_CLOSING x"
  "has_flag UV_CLOSED (clear_flag UV__HANDLE_REF x) = has_flag UV_CLOSED x"
  "has_flag UV_CLOSING (set_flag UV_CLOSING x)" "has_flag UV_CLOSED (set_flag UV_CLOSED x)"
  "has_flag UV_CLOSED (set_flag UV_CLOSING x) = has_flag UV_CLOSED x"
  "has_flag UV_CLOSING (set_flag UV_CLOSED x) = has_flag UV_CLOSING x"
  "has_flag (or UV_CLOSING UV_CLOSED) x \<longleftrightarrow> has_flag UV_CLOSING x \<or> has_flag UV_CLOSED x"
  by (simp_all add: flag_bits has_flag_bit) (simp add: has_flag_def bit.conj_disj_distrib or_eq_0_iff flip: has_flag_bit)

lemma has_flag_close_cb [simp]: "has_flag m (x\<lparr>close_cb := c\<rparr>) = has_flag m x"
  by (simp add: has_flag_def)

text \<open>What the closing of a handle of any type leaves as it is.\<close>

definition close_frame :: "hid \<Rightarrow> uv_loop_t \<Rightarrow> uv_loop_t \<Rightarrow> bool" where
  "close_frame h L M \<longleftrightarrow> (\<forall>x. x \<noteq> h \<longrightarrow> handles M x = handles L x)
     \<and> has_flag UV_CLOSING (handles M h) = has_flag UV_CLOSING (handles L h)
     \<and> has_flag UV_CLOSED (handles M h) = has_flag UV_CLOSED (handles L h)
     \<and> close_cb (handles M h) = close_cb (handles L h) \<and> htype (handles M h) = htype (handles L h)
     \<and> handle_queue M = handle_queue L \<and> closing_handles M = closing_handles L \<and> calls M = calls L
     \<and> (count_ok L \<and> h \<in> set (handle_queue L) \<longrightarrow> count_ok M) \<and> \<not> uv__is_active h M"

lemma handle_stop_frame: "uv__handle_stop h L = Inr M \<Longrightarrow> close_frame h L M"
  using handle_stop_count [of L h M]
  by (auto simp: close_frame_def uv__handle_stop_def uv_simps uv__is_active_def uv__active_handle_rm_def Let_def split: if_splits)

lemma close_frame_from:
  assumes "close_frame h L' M" "handles L' = handles L" "handle_queue L' = handle_queue L" "active_handles L' = active_handles L"
    "closing_handles L' = closing_handles L" "calls L' = calls L"
  shows "close_frame h L M"
  using assms count_ok_cong [OF assms(2-4)] by (simp add: close_frame_def)

lemma close_frame_refl: "\<not> uv__is_active h L \<Longrightarrow> close_frame h L L"
  by (simp add: close_frame_def)

lemma type_close_frames:
  "uv__timer_close h L = Inr M \<Longrightarrow> close_frame h L M"
  "uv__watcher_close k h L = Inr M \<Longrightarrow> close_frame h L M"
  "uv__async_close h L = Inr M \<Longrightarrow> close_frame h L M"
  "uv__poll_close h L = Inr M \<Longrightarrow> close_frame h L M"
proof -
  show "close_frame h L M" if "uv__timer_close h L = Inr M"
    using that by (auto simp: uv__timer_close_def uv_timer_stop_def Let_def intro: close_frame_refl
        dest!: handle_stop_frame elim!: close_frame_from split: if_splits)
  show "close_frame h L M" if "uv__watcher_close k h L = Inr M"
    using that by (auto simp: uv__watcher_close_def uv_watcher_stop_def set_watchers_def Let_def intro: close_frame_refl
        dest!: handle_stop_frame elim!: close_frame_from split: if_splits)
  show "close_frame h L M" if "uv__async_close h L = Inr M"
    using that by (auto simp: uv__async_close_def dest!: handle_stop_frame elim!: close_frame_from)
  show "close_frame h L M" if poll: "uv__poll_close h L = Inr M"
  proof -
    obtain K where K: "uv__io_stop (poll_io (handles L h)) poll_mask L = Inr K" "uv__handle_stop h K = Inr M"
      using poll by (auto simp: uv__poll_close_def uv__poll_stop_def)
    have "handles K = handles L \<and> handle_queue K = handle_queue L \<and> active_handles K = active_handles L
        \<and> closing_handles K = closing_handles L \<and> calls K = calls L"
      using K(1) by (auto simp: uv__io_stop_def upd_io_def queue_watcher_def Let_def split: if_splits)
    then show ?thesis using handle_stop_frame [OF K(2)] by (auto elim!: close_frame_from)
  qed
qed

definition loop_types :: "htype set" where
  "loop_types = {UV_PREPARE, UV_CHECK, UV_IDLE, UV_ASYNC, UV_TIMER, UV_POLL}"

text \<open>A handle in the list of closing handles.\<close>

definition closing :: "uv_loop_t \<Rightarrow> hid \<Rightarrow> bool" where
  "closing L h \<longleftrightarrow> h \<in> set (handle_queue L) \<and> has_flag UV_CLOSING (handles L h) \<and> \<not> has_flag UV_CLOSED (handles L h)
     \<and> htype (handles L h) \<in> loop_types"

lemma uv_close_frame:
  assumes "uv_close E h c L = Inr M" "htype (handles L h) \<in> loop_types" "count_ok L" "h \<in> set (handle_queue L)"
  shows "\<not> has_flag UV_CLOSING (handles L h)" "closing M h" "closing_handles M = h # closing_handles L"
    "close_cb (handles M h) = c" "\<And>x. x \<noteq> h \<Longrightarrow> handles M x = handles L x" "handle_queue M = handle_queue L"
    "calls M = calls L" "count_ok M" "\<not> uv__is_active h M"
proof -
  define K where "K = upd_handle h (\<lambda>x. (set_flag UV_CLOSING x)\<lparr>close_cb := c\<rparr>) L"
  have nc: "\<not> has_flag UV_CLOSING (handles L h)" "\<not> has_flag UV_CLOSED (handles L h)"
    using assms(1) by (auto simp: uv_close_def uv_simps split: if_splits)
  have cK: "count_ok K"
  proof -
    have "counts ((set_flag UV_CLOSING x)\<lparr>close_cb := c\<rparr>) = counts x" for x by (simp add: counts_def uv_simps)
    then show ?thesis using assms(3) count_ok_upd unfolding K_def by blast
  qed
  have ty: "htype (handles K h) = htype (handles L h)" by (simp add: K_def uv_simps)
  have "\<exists>N. close_frame h K N \<and> uv__make_close_pending h N = Inr M"
    using assms(1,2) nc ty unfolding uv_close_def K_def [symmetric] Let_def
    by (auto simp: loop_types_def uv_simps) (blast intro: type_close_frames)+
  then obtain N where N: "close_frame h K N" "uv__make_close_pending h N = Inr M" by blast
  then have M: "M = N\<lparr>closing_handles := h # closing_handles N\<rparr>" by (auto simp: uv__make_close_pending_def split: if_splits)
  have hK: "handles K x = (if x = h then (set_flag UV_CLOSING (handles L h))\<lparr>close_cb := c\<rparr> else handles L x)" for x
    by (simp add: K_def uv_simps)
  have fK: "handle_queue K = handle_queue L" "closing_handles K = closing_handles L" "calls K = calls L"
    by (simp_all add: K_def uv_simps)
  show "\<not> has_flag UV_CLOSING (handles L h)" by (rule nc)
  show "closing M h" using N(1) nc assms(2,4) fK by (simp add: closing_def M close_frame_def hK uv_simps)
  show "closing_handles M = h # closing_handles L" "handle_queue M = handle_queue L" "calls M = calls L"
    "close_cb (handles M h) = c" using N(1) fK by (simp_all add: M close_frame_def hK)
  show "handles M x = handles L x" if "x \<noteq> h" for x using N(1) that by (simp add: M close_frame_def hK)
  show "count_ok M" using N(1) cK assms(4) fK count_ok_cong [of M N] by (simp add: close_frame_def M)
  show "\<not> uv__is_active h M" using N(1) by (simp add: close_frame_def M uv__is_active_def)
qed

text \<open>Closing a timer, a watcher or an async handle passes every assertion.\<close>

lemma type_close_total:
  "\<exists>M. uv__timer_close h L = Inr M" "\<exists>M. uv__watcher_close k h L = Inr M" "\<exists>M. uv__async_close h L = Inr M"
proof -
  have stop: "\<exists>M. bind_res (uv__handle_stop h K) (\<lambda>L. Inr (0 :: int, L)) = Inr (0, M)" for K
    using handle_stop_total [of h K] by auto
  show "\<exists>M. uv__timer_close h L = Inr M" using stop [of "L\<lparr>timer_heap := heap_remove (timer_less_than (handles L)) h (timer_heap L)\<rparr>"]
    by (auto simp: uv__timer_close_def uv_timer_stop_def Let_def)
  show "\<exists>M. uv__watcher_close k h L = Inr M" using stop [of "(set_watchers k (removeAll h) L)\<lparr>run_queue := removeAll h (run_queue L)\<rparr>"]
    by (auto simp: uv__watcher_close_def uv_watcher_stop_def set_watchers_def Let_def)
  show "\<exists>M. uv__async_close h L = Inr M" unfolding uv__async_close_def by (rule handle_stop_total)
qed

lemma uv_close_returns:
  assumes "\<not> has_flag UV_CLOSING (handles L h)" "\<not> has_flag UV_CLOSED (handles L h)" "htype (handles L h) \<in> loop_types - {UV_POLL}"
  shows "\<exists>M. uv_close E h c L = Inr M"
proof -
  define K where "K = upd_handle h (\<lambda>x. (set_flag UV_CLOSING x)\<lparr>close_cb := c\<rparr>) L"
  have K: "has_flag UV_CLOSING (handles K h)" "\<not> has_flag UV_CLOSED (handles K h)" "htype (handles K h) = htype (handles L h)"
    using assms(2) by (simp_all add: K_def uv_simps)
  have pend: "\<exists>M. uv__make_close_pending h N = Inr M" if "close_frame h K N" for N
    using that K by (simp add: uv__make_close_pending_def close_frame_def)
  consider "htype (handles K h) = UV_TIMER" | "htype (handles K h) = UV_ASYNC"
    | "htype (handles K h) = UV_PREPARE" | "htype (handles K h) = UV_CHECK" | "htype (handles K h) = UV_IDLE"
    using assms(3) K(3) by (auto simp: loop_types_def)
  then have "\<exists>N M. close_frame h K N \<and> uv__make_close_pending h N = Inr M \<and> uv_close E h c L = uv__make_close_pending h N"
  proof cases
    case 1
    then show ?thesis using type_close_total(1) [of h K] type_close_frames(1) [of h K] pend assms(1,2)
      by (fastforce simp: uv_close_def Let_def uv_simps simp flip: K_def)
  next
    case 2
    then show ?thesis using type_close_total(3) [of h K] type_close_frames(3) [of h K] pend assms(1,2)
      by (fastforce simp: uv_close_def Let_def uv_simps simp flip: K_def)
  next
    case 3
    then show ?thesis using type_close_total(2) [of Prepare h K] type_close_frames(2) [of Prepare h K] pend assms(1,2)
      by (fastforce simp: uv_close_def Let_def uv_simps simp flip: K_def)
  next
    case 4
    then show ?thesis using type_close_total(2) [of Check h K] type_close_frames(2) [of Check h K] pend assms(1,2)
      by (fastforce simp: uv_close_def Let_def uv_simps simp flip: K_def)
  next
    case 5
    then show ?thesis using type_close_total(2) [of Idle h K] type_close_frames(2) [of Idle h K] pend assms(1,2)
      by (fastforce simp: uv_close_def Let_def uv_simps simp flip: K_def)
  qed
  then show ?thesis by auto
qed

text \<open>Close callbacks that leave the handles alone.\<close>

definition close_quiet :: "uv_env \<Rightarrow> bool" where
  "close_quiet E \<longleftrightarrow> (\<forall>c h L. \<exists>L'. usr E c (Close_cb h) L = Inr L' \<and> handles L' = handles L \<and> handle_queue L' = handle_queue L
     \<and> active_handles L' = active_handles L \<and> closing_handles L' = closing_handles L \<and> calls L' = calls L)"

definition notified :: "uv_loop_t \<Rightarrow> hid \<Rightarrow> bool" where
  "notified L h \<longleftrightarrow> close_cb (handles L h) \<noteq> None"

lemma finish_close_step:
  assumes "close_quiet E" "count_ok L" "closing L h"
  shows "\<exists>M. uv__finish_close E h L = Inr M \<and> count_ok M \<and> handle_queue M = removeAll h (handle_queue L)
    \<and> calls M = calls L @ (if notified L h then [Close_cb h] else []) \<and> closing_handles M = closing_handles L
    \<and> has_flag UV_CLOSED (handles M h) \<and> (\<forall>x. x \<noteq> h \<longrightarrow> handles M x = handles L x)"
proof -
  define K where "K = uv__handle_unref h (upd_handle h (set_flag UV_CLOSED) L)"
  define R where "R = K\<lparr>handle_queue := removeAll h (handle_queue K)\<rparr>"
  have cu: "count_ok (upd_handle h (set_flag UV_CLOSED) L)"
  proof -
    have "counts (set_flag UV_CLOSED x) = counts x" for x by (simp add: counts_def uv_simps)
    then show ?thesis using assms(2) count_ok_upd by blast
  qed
  have cK: "count_ok K" unfolding K_def
    by (rule handle_unref_count [OF cu]) (use assms(3) in \<open>simp add: closing_def uv_simps\<close>)
  have fK: "handle_queue K = handle_queue L" "closing_handles K = closing_handles L" "calls K = calls L"
    "\<And>x. x \<noteq> h \<Longrightarrow> handles K x = handles L x" "has_flag UV_CLOSED (handles K h)" "\<not> has_flag UV__HANDLE_REF (handles K h)"
    "close_cb (handles K h) = close_cb (handles L h)"
    by (auto simp: K_def uv__handle_unref_def uv_simps uv__active_handle_rm_def Let_def)
  have "counted R = counted K" using fK(6) by (auto simp: counted_def R_def counts_def)
  then have cR: "count_ok R" using cK by (simp add: count_ok_def R_def distinct_removeAll)
  have "has_destructor (htype (handles (upd_handle h (set_flag UV_CLOSED) L) h)) = Inr False"
    using assms(3) by (auto simp: closing_def loop_types_def has_destructor_def uv_simps)
  then have step: "uv__finish_close E h L = (if close_cb (handles R h) \<noteq> None then call_usr E (close_cb (handles R h)) (Close_cb h) R else Inr R)"
    using assms(3) unfolding uv__finish_close_def closing_def Let_def by (simp add: R_def K_def)
  have hR: "handles R = handles K" by (simp add: R_def)
  show ?thesis
  proof (cases "close_cb (handles L h)")
    case None
    then show ?thesis using step cR fK by (intro exI [of _ R]) (simp add: hR notified_def, simp add: R_def)
  next
    case (Some c)
    from assms(1) obtain M where M: "usr E c (Close_cb h) (R\<lparr>calls := calls R @ [Close_cb h]\<rparr>) = Inr M" "handles M = handles R"
      "handle_queue M = handle_queue R" "active_handles M = active_handles R" "closing_handles M = closing_handles R"
      "calls M = calls R @ [Close_cb h]" unfolding close_quiet_def by fastforce
    have "count_ok M" using cR count_ok_cong [OF M(2-4)] by simp
    then show ?thesis using step Some M fK by (intro exI [of _ M]) (simp add: hR notified_def call_usr_def, simp add: R_def)
  qed
qed

lemma closing_loop_calls:
  assumes "close_quiet E" "count_ok L" "distinct q" "\<forall>h \<in> set q. closing L h"
  shows "\<exists>N. closing_loop E q L = Inr N \<and> count_ok N \<and> handle_queue N = filter (\<lambda>x. x \<notin> set q) (handle_queue L)
    \<and> calls N = calls L @ map Close_cb (filter (notified L) q) \<and> closing_handles N = closing_handles L
    \<and> (\<forall>h \<in> set q. has_flag UV_CLOSED (handles N h)) \<and> (\<forall>x. x \<notin> set q \<longrightarrow> handles N x = handles L x)"
  using assms(2-4)
proof (induction q arbitrary: L)
  case (Cons h q)
  from finish_close_step [OF assms(1) Cons.prems(1), of h] Cons.prems(3) obtain M where
    M: "uv__finish_close E h L = Inr M" "count_ok M" "handle_queue M = removeAll h (handle_queue L)"
      "calls M = calls L @ (if notified L h then [Close_cb h] else [])" "closing_handles M = closing_handles L"
      "has_flag UV_CLOSED (handles M h)" "\<forall>x. x \<noteq> h \<longrightarrow> handles M x = handles L x" by auto
  have "\<forall>x \<in> set q. closing M x" using Cons.prems(2,3) M(3,7) by (auto simp: closing_def)
  then obtain N where N: "closing_loop E q M = Inr N" "count_ok N" "handle_queue N = filter (\<lambda>x. x \<notin> set q) (handle_queue M)"
      "calls N = calls M @ map Close_cb (filter (notified M) q)" "closing_handles N = closing_handles M"
      "\<forall>h \<in> set q. has_flag UV_CLOSED (handles N h)" "\<forall>x. x \<notin> set q \<longrightarrow> handles N x = handles M x"
    using Cons.IH [OF M(2)] Cons.prems(2) by auto
  have "filter (notified M) q = filter (notified L) q"
    using Cons.prems(2) M(7) by (intro filter_cong) (auto simp: notified_def)
  moreover have "filter (\<lambda>x. x \<notin> set q) (removeAll h (handle_queue L)) = filter (\<lambda>x. x \<notin> set (h # q)) (handle_queue L)"
    by (simp add: removeAll_filter_not_eq) (rule filter_cong, auto)
  moreover have "has_flag UV_CLOSED (handles N h)" using N(7) M(6) Cons.prems(2) by simp
  ultimately show ?case using M N by auto
qed simp

text \<open>
  C31: Closing a handle.  \<open>uv_close\<close> of a timer, prepare, check, idle, async or poll handle makes
  it inactive, marks it and puts it into the list of closing handles; it runs no callback, and
  closing the handle again fails an assertion.  The next closing phase of \<open>uv_run\<close> empties that
  list: each of its handles is unlinked from the loop and marked closed, those with a close
  callback are called back exactly once, the last closed first, all other handles are left as
  they are, and the count of active handles stays right.
\<close>
theorem uv_close_calls_back:
  assumes "uv_close E h c L = Inr M" "htype (handles L h) \<in> loop_types" "h \<in> set (handle_queue L)"
    and "count_ok L" "distinct (closing_handles L)" "\<forall>x \<in> set (closing_handles L). closing L x" "close_quiet E"
  shows "calls M = calls L \<and> \<not> uv__is_active h M \<and> closing_handles M = h # closing_handles L
    \<and> uv_close E h c' M = Inl Assert_failed
    \<and> (\<exists>N. uv__run_closing_handles E M = Inr N \<and> closing_handles N = []
         \<and> calls N = calls L @ map Close_cb (filter (notified M) (h # closing_handles L))
         \<and> handle_queue N = filter (\<lambda>x. x \<noteq> h \<and> x \<notin> set (closing_handles L)) (handle_queue L)
         \<and> (\<forall>x \<in> set (h # closing_handles L). has_flag UV_CLOSED (handles N x))
         \<and> (\<forall>x. x \<noteq> h \<and> x \<notin> set (closing_handles L) \<longrightarrow> handles N x = handles L x)
         \<and> count_ok N)"
proof -
  note M = uv_close_frame [OF assms(1,2,4,3)]
  have h: "h \<notin> set (closing_handles L)" using M(1) assms(6) by (auto simp: closing_def)
  have "closing M x" if "x \<in> set (closing_handles L)" for x
    using assms(6) that h M(5) [of x] M(6) by (cases "x = h") (auto simp: closing_def)
  then have q: "\<forall>x \<in> set (h # closing_handles L). closing (M\<lparr>closing_handles := []\<rparr>) x" "count_ok (M\<lparr>closing_handles := []\<rparr>)"
    using M(2,8) count_ok_cong [of "M\<lparr>closing_handles := []\<rparr>" M] by (auto simp: closing_def)
  have d: "distinct (h # closing_handles L)" using h assms(5) by simp
  have n: "notified (M\<lparr>closing_handles := []\<rparr>) = notified M" by (rule ext) (simp add: notified_def)
  have "uv__run_closing_handles E M = closing_loop E (h # closing_handles L) (M\<lparr>closing_handles := []\<rparr>)"
    by (simp only: uv__run_closing_handles_def M(3))
  with closing_loop_calls [OF assms(7) q(2) d q(1)] obtain N where
    N: "uv__run_closing_handles E M = Inr N" "count_ok N" "handle_queue N = filter (\<lambda>x. x \<notin> set (h # closing_handles L)) (handle_queue L)"
      "calls N = calls L @ map Close_cb (filter (notified M) (h # closing_handles L))" "closing_handles N = []"
      "\<forall>x \<in> set (h # closing_handles L). has_flag UV_CLOSED (handles N x)"
      "\<forall>x. x \<notin> set (h # closing_handles L) \<longrightarrow> handles N x = handles M x" by (auto simp: n M(6,7))
  have "handle_queue N = filter (\<lambda>x. x \<noteq> h \<and> x \<notin> set (closing_handles L)) (handle_queue L)" using N(3) by simp
  moreover have "\<forall>x. x \<noteq> h \<and> x \<notin> set (closing_handles L) \<longrightarrow> handles N x = handles L x" using N(7) M(5) by simp
  moreover have "uv_close E h c' M = Inl Assert_failed" using M(2) by (simp add: uv_close_def uv_simps closing_def)
  ultimately show ?thesis using M(3,7,9) N(1,2,4-6) by blast
qed

text \<open>An example: a started prepare watcher is closed.\<close>

definition one_prepare :: uv_loop_t where
  "one_prepare = (case uv_watcher_start Prepare 2 (Some 7) (snd (uv_watcher_init Prepare 2 empty_loop)) of
     Inr (_, L) \<Rightarrow> L | Inl _ \<Rightarrow> empty_loop)"

lemma uv_close_calls_back_witness:
  "\<exists>M N. uv_close quiet_env 2 (Some 9) one_prepare = Inr M \<and> uv__run_closing_handles quiet_env M = Inr N
     \<and> calls N = [Close_cb 2] \<and> handle_queue N = [] \<and> active_handles N = 0"
proof -
  let ?A = "snd (uv_watcher_init Prepare 2 empty_loop)"
  have cE: "count_ok empty_loop" by (simp add: count_ok_def counted_def empty_loop_def)
  have A: "handle_queue ?A = [2]" "htype (handles ?A 2) = UV_PREPARE" "closing_handles ?A = []" "calls ?A = []"
    "flags (handles ?A 2) = UV__HANDLE_REF"
    by (simp_all add: uv_watcher_init_def uv__handle_init_def upd_handle_def empty_loop_def watcher_type_def)
  have cA: "count_ok ?A"
    using handle_init_count [OF cE, of 2 UV_PREPARE]
    by (simp add: uv_watcher_init_def watcher_type_def count_ok_upd counts_def has_flag_def) (simp add: empty_loop_def)
  have na: "\<not> uv__is_active 2 ?A" using A(5) by (simp add: uv__is_active_def has_flag_def UV__HANDLE_ACTIVE_def UV__HANDLE_REF_def)
  obtain L where "uv__handle_start 2 (upd_handle 2 (\<lambda>x. x\<lparr>watcher_cb := Some 7\<rparr>) (set_watchers Prepare ((#) 2) ?A)) = Inr L"
    using handle_start_total by blast
  then have L: "uv_watcher_start Prepare 2 (Some 7) ?A = Inr (0, L)" by (simp add: uv_watcher_start_def na Let_def)
  then have L2: "one_prepare = L" by (simp add: one_prepare_def)
  have cL: "count_ok one_prepare" using watcher_start_count [OF cA _ L] A(1) L2 by simp
  have fL: "handle_queue one_prepare = [2]" "htype (handles one_prepare 2) = UV_PREPARE" "closing_handles one_prepare = []"
    "calls one_prepare = []" "\<not> has_flag UV_CLOSING (handles one_prepare 2) \<and> \<not> has_flag UV_CLOSED (handles one_prepare 2)"
    by (simp_all add: one_prepare_def uv_watcher_init_def uv_watcher_start_def uv__handle_init_def uv__handle_start_def upd_handle_def
        set_watchers_def watcher_type_def uv__active_handle_add_def uv__is_active_def has_flag_def set_flag_def UV__HANDLE_REF_def
        UV__HANDLE_ACTIVE_def UV__HANDLE_CLOSING_def UV_CLOSING_def UV_CLOSED_def Let_def empty_loop_def plain_handle_def)
  have nc: "\<not> has_flag UV_CLOSING (handles one_prepare 2)" "\<not> has_flag UV_CLOSED (handles one_prepare 2)" using fL(5) by simp_all
  obtain M where M: "uv_close quiet_env 2 (Some 9) one_prepare = Inr M"
    using uv_close_returns [OF nc] fL(2) by (fastforce simp: loop_types_def)
  have q: "close_quiet quiet_env" by (simp add: close_quiet_def quiet_env_def)
  have "close_cb (handles M 2) = Some 9"
    using uv_close_frame(4) [OF M _ cL] fL by (simp add: loop_types_def)
  then obtain N where "uv__run_closing_handles quiet_env M = Inr N" "calls N = [Close_cb 2]" "handle_queue N = []" "count_ok N"
    using uv_close_calls_back [OF M _ _ cL _ _ q] fL by (auto simp: loop_types_def notified_def)
  then show ?thesis using M by (auto simp: count_ok_def counted_def)
qed

section \<open>Polling and running\<close>

text \<open>
  After a full array of events the loop polls once more without blocking.  When that second call
  finds nothing, the time left is computed as the whole timeout minus zero, so the loop blocks
  again for the whole timeout instead of returning.
\<close>

lemma poll_again_blocks:
  assumes "polls L = Timed_out # rs" "\<not> block_sigprof L" "0 < real_timeout"
  shows "poll_loop (Suc k) E 0 real_timeout base cnt L
    = poll_loop k E real_timeout real_timeout base cnt (uv__update_time (L\<lparr>polls := rs\<rparr>))"
  using assms by (simp add: epoll_call_def sigmask_def Let_def)

text \<open>A poll with a timeout of zero that finds nothing returns at once.\<close>

lemma poll_zero_returns:
  assumes "polls L = Timed_out # rs" "\<not> block_sigprof L"
  shows "poll_loop (Suc k) E 0 0 base cnt L = Some (Inr (uv__update_time (L\<lparr>polls := rs\<rparr>)))"
  using assms by (simp add: epoll_call_def sigmask_def Let_def)

lemma uv_run_not_alive:
  assumes "\<not> uv__loop_alive L"
  shows "uv_run k (Suc n) E mode L = Some (Inr (False, (uv__update_time L)\<lparr>stop_flag := False\<rparr>))"
proof -
  have "(uv__update_time L)\<lparr>stop_flag := False\<rparr> = uv__update_time L" if "\<not> stop_flag (uv__update_time L)"
    using that by (cases "uv__update_time L") simp
  then show ?thesis using assms by (simp add: uv_run_def Let_def)
qed

lemma uv_run_one_round:
  assumes "uv__loop_alive L" "\<not> stop_flag L" "mode \<noteq> UV_RUN_DEFAULT" "run_round k E mode L = Some (Inr M)"
  shows "uv_run k (Suc n) E mode L = Some (Inr (uv__loop_alive M, M\<lparr>stop_flag := False\<rparr>))"
proof -
  have "M\<lparr>stop_flag := False\<rparr> = M" if "\<not> stop_flag M" using that by (cases M) simp
  moreover have "mode = UV_RUN_ONCE \<or> mode = UV_RUN_NOWAIT" using assms(3) by (cases mode) auto
  ultimately show ?thesis using assms by (simp add: uv_run_def)
qed

text \<open>An event is shown to a watcher only if it wants it, or if it is an error or a hang-up.\<close>

lemma shown_events_wanted:
  "and (shown_events p ev) (not (or p (or POLLERR POLLHUP))) = 0"
  by (rule bit_word_eqI)
    (auto simp: shown_events_def bit_simps Let_def POLLERR_def POLLHUP_def POLLIN_def POLLOUT_def)

end
