(* ===== verification/UvHeapSpec.thy ===== *)
theory UvHeapSpec
  imports UvTimer "HOL-Library.Product_Lexorder"
begin

text \<open>
  The heap of timers compared with a reference: a list of the same timers kept in the order of
  their timeouts, and of their start ids where the timeouts are the same.
\<close>

section \<open>The heap and the reference\<close>

datatype timer_op = Add hid | Take hid | Dequeue

definition heap_step :: "(hid \<Rightarrow> uv_handle_t) \<Rightarrow> timer_op \<Rightarrow> hid heap \<Rightarrow> hid heap" where
  "heap_step hs op q =
     (case op of
        Add h \<Rightarrow> if h \<in> set q then q else heap_insert (timer_less_than hs) h q
      | Take h \<Rightarrow> if h \<in> set q then heap_remove (timer_less_than hs) h q else q
      | Dequeue \<Rightarrow> heap_dequeue (timer_less_than hs) q)"

definition timer_key :: "(hid \<Rightarrow> uv_handle_t) \<Rightarrow> hid \<Rightarrow> u64 \<times> u64" where
  "timer_key hs h = (timeout (hs h), start_id (hs h))"

definition sorted_step :: "(hid \<Rightarrow> uv_handle_t) \<Rightarrow> timer_op \<Rightarrow> hid list \<Rightarrow> hid list" where
  "sorted_step hs op r =
     (case op of
        Add h \<Rightarrow> if h \<in> set r then r else insort_key (timer_key hs) h r
      | Take h \<Rightarrow> remove1 h r
      | Dequeue \<Rightarrow> tl r)"

definition first_of :: "'a list \<Rightarrow> 'a option" where
  "first_of r = (case r of [] \<Rightarrow> None | x # _ \<Rightarrow> Some x)"

section \<open>Agreement\<close>

definition agree :: "(hid \<Rightarrow> uv_handle_t) \<Rightarrow> hid heap \<Rightarrow> hid list \<Rightarrow> bool" where
  "agree hs q r \<longleftrightarrow> heap_ok (timer_less_than hs) q \<and> distinct q \<and> mset q = mset r \<and> sorted (map (timer_key hs) r)"

lemma less_key: "timer_less_than hs a b \<longleftrightarrow> timer_key hs a < timer_key hs b"
  by (simp add: timer_less_than_iff timer_key_def less_prod_def')

lemma agree_set: "agree hs q r \<Longrightarrow> set q = set r \<and> distinct r"
  unfolding agree_def by (metis mset_eq_imp_distinct_iff mset_eq_setD)

lemma agree_min:
  assumes "agree hs q r" "inj_on (timer_key hs) (set r)"
  shows "heap_min q = first_of r"
proof (cases r)
  case Nil
  then show ?thesis using agree_set [OF assms(1)] by (simp add: first_of_def)
next
  case (Cons x r')
  then obtain m where m: "heap_min q = Some m" using agree_set [OF assms(1)] by (metis heap_min_None list.distinct(1) not_None_eq set_empty)
  have mem: "m \<in> set r" "x \<in> set q" using heap_min_mem [OF m] agree_set [OF assms(1)] Cons by auto
  have "\<not> timer_less_than hs x m" using timers.heap_min_least m mem(2) assms(1) unfolding agree_def by blast
  moreover have "timer_key hs x \<le> timer_key hs m" using mem(1) assms(1) Cons unfolding agree_def by auto
  ultimately have "timer_key hs x = timer_key hs m" by (simp add: less_key)
  then have "x = m" using assms(2) mem(1) Cons by (auto dest: inj_onD)
  then show ?thesis using m Cons by (simp add: first_of_def)
qed

lemma sorted_map_remove1_key: "sorted (map f r) \<Longrightarrow> sorted (map f (remove1 x r))"
proof (induction r)
  case (Cons y r)
  have "f y \<le> f z" if "z \<in> set (remove1 x r)" for z using that Cons.prems notin_set_remove1 by fastforce
  then show ?case using Cons by simp
qed simp

lemma agree_take:
  assumes "agree hs q r" "h \<in> set q"
  shows "agree hs (heap_remove (timer_less_than hs) h q) (remove1 h r)"
proof -
  have q: "heap_ok (timer_less_than hs) q" "distinct q" "mset q = mset r" using assms(1) by (simp_all add: agree_def)
  have m: "mset (heap_remove (timer_less_than hs) h q) = mset (remove1 h r)"
    using heap_remove_mset [OF assms(2) q(2)] q(3) by simp
  have "distinct (remove1 h r)" using agree_set [OF assms(1)] by simp
  then have "distinct (heap_remove (timer_less_than hs) h q)" by (simp add: mset_eq_imp_distinct_iff [OF m])
  moreover have "sorted (map (timer_key hs) (remove1 h r))"
    using assms(1) by (intro sorted_map_remove1_key) (simp add: agree_def)
  ultimately show ?thesis using m timers.heap_remove_ok [OF q(1) assms(2) q(2)] by (simp only: agree_def simp_thms)
qed

lemma agree_step:
  assumes "agree hs q r" "inj_on (timer_key hs) (set r)"
  shows "agree hs (heap_step hs op q) (sorted_step hs op r)"
proof (cases op)
  case (Add h)
  have s: "set q = set r" using agree_set [OF assms(1)] by simp
  have "distinct (heap_insert (timer_less_than hs) h q)" if "h \<notin> set q"
    using that assms(1) heap_insert_mset [of "timer_less_than hs" h q] mset_eq_imp_distinct_iff [of _ "h # q"]
    unfolding agree_def by simp
  then show ?thesis using assms(1) Add s timers.heap_insert_ok [of hs q h]
    by (simp add: agree_def heap_step_def sorted_step_def heap_insert_mset sorted_insort_key)
next
  case (Take h)
  have s: "set q = set r" using agree_set [OF assms(1)] by simp
  show ?thesis using agree_take [OF assms(1), of h] assms(1) s Take
    by (auto simp: heap_step_def sorted_step_def remove1_idem)
next
  case Dequeue
  show ?thesis
  proof (cases r)
    case Nil
    moreover from this have "q = []" using agree_set [OF assms(1)] by simp
    ultimately show ?thesis using assms(1) Dequeue
      by (simp add: heap_min_def heap_step_def sorted_step_def heap_dequeue_def)
  next
    case (Cons x r')
    then have "heap_min q = Some x" using agree_min [OF assms] by (simp add: first_of_def)
    then show ?thesis using agree_take [OF assms(1) heap_min_mem] Dequeue Cons
      by (simp add: heap_step_def sorted_step_def heap_dequeue_def)
  qed
qed

lemma sorted_step_set: "set (sorted_step hs op r) \<subseteq> {h. op = Add h} \<union> set r"
  by (cases op) (auto simp: sorted_step_def set_insort_key dest: notin_set_remove1 list.set_sel(2) [rotated] intro: list.set_sel(2))

lemma agree_run:
  assumes "inj_on (timer_key hs) ({h. Add h \<in> set ops} \<union> set r)" "agree hs q r"
  shows "\<exists>q' r'. fold (heap_step hs) ops q = q' \<and> fold (sorted_step hs) ops r = r' \<and> agree hs q' r'
    \<and> set r' \<subseteq> {h. Add h \<in> set ops} \<union> set r"
  using assms
proof (induction ops arbitrary: q r)
  case (Cons op ops)
  have sub: "set (sorted_step hs op r) \<subseteq> {h. Add h \<in> set (op # ops)} \<union> set r"
    using sorted_step_set [of hs op r] by auto
  have "inj_on (timer_key hs) (set r)" by (rule inj_on_subset [OF Cons.prems(1)]) auto
  moreover have "inj_on (timer_key hs) ({h. Add h \<in> set ops} \<union> set (sorted_step hs op r))"
    by (rule inj_on_subset [OF Cons.prems(1)]) (use sub in auto)
  ultimately show ?case using Cons.IH [OF _ agree_step [OF Cons.prems(2)]] sub by fastforce
qed simp

text \<open>
  C34: Under any sequence of insertions, removals and dequeuings the heap gives, each time it is
  asked, the timer that the sorted list of the same timers has first; both hold the same timers.
  The timers added have different keys, as the start ids that \<open>uv_timer_start\<close> hands out make
  sure.
\<close>
theorem uv_heap_is_sorted_list:
  assumes "inj_on (timer_key hs) {h. Add h \<in> set ops}"
  shows "heap_min (fold (heap_step hs) ops heap_init) = first_of (fold (sorted_step hs) ops [])
    \<and> mset (fold (heap_step hs) ops heap_init) = mset (fold (sorted_step hs) ops [])"
proof -
  have "agree hs heap_init []" by (simp add: agree_def heap_init_def heap_ok_def)
  from agree_run [OF _ this, of ops] assms
  have a: "agree hs (fold (heap_step hs) ops heap_init) (fold (sorted_step hs) ops [])"
      "set (fold (sorted_step hs) ops []) \<subseteq> {h. Add h \<in> set ops}" by auto
  show ?thesis using agree_min [OF a(1) inj_on_subset [OF assms a(2)]] a(1) by (simp add: agree_def)
qed

definition three_timers :: "hid \<Rightarrow> uv_handle_t" where
  "three_timers h = (handles empty_loop h)\<lparr>timeout := (if h = 1 then 9 else 4), start_id := (if h = 3 then 8 else 7)\<rparr>"

lemma uv_heap_is_sorted_list_witness:
  "heap_min (fold (heap_step three_timers) [Add 1, Add 3, Add 2, Dequeue] heap_init) = Some 3"
proof -
  have "{h. Add h \<in> set [Add 1, Add 3, Add 2, Dequeue]} = {1, 2, 3}" by auto
  then have "inj_on (timer_key three_timers) {h. Add h \<in> set [Add 1, Add 3, Add 2, Dequeue]}"
    by (simp add: timer_key_def three_timers_def)
  from uv_heap_is_sorted_list [OF this] show ?thesis
    by (simp add: sorted_step_def first_of_def timer_key_def three_timers_def less_eq_prod_def)
qed

end
