(* ===== verification/UvThreadPool.thy ===== *)
theory UvThreadPool
  imports UvBase "HOL-Library.Multiset"
begin

text \<open>
  The thread pool of libuv: \<open>third/libuv/src/threadpool.c\<close>.

  A request is a number, new for each submission.  A critical section under one mutex is a single
  step, as is the work of a request; \<open>uv__work_cancel\<close> and \<open>uv__work_done\<close>, which run on the
  loop's thread, leave their first critical section and go on in later steps, so the workers may
  run in between.  \<open>uv_cond_signal\<close> wakes the worker the step names, which must be a blocked one
  if there is any; a blocked worker may also wake up by itself.  \<open>w->wq\<close> is empty exactly when
  the request is in no queue, until \<open>uv__work_done\<close> takes it out without initialising its links.
  \<open>uv_async_send\<close> is here that \<open>async_sent\<close> is set; its own steps, and that it aborts when the
  write to the descriptor fails, are in \<open>UvAsync\<close>.
  The lists \<open>submitted\<close>, \<open>ran\<close> and \<open>finished\<close> only record what happened.
\<close>

section \<open>State\<close>

datatype qitem = Exit_message | Item nat

text \<open>\<open>w->work\<close>: the function to run, null after it has run, or \<open>uv__cancelled\<close>.\<close>

datatype wfun = Work_fun | No_fun | Cancelled_fun

text \<open>Where a worker is in \<open>worker\<close>.\<close>

datatype wpc = At_top | Blocked | Woken | Running nat | Finishing nat | Left

record uv_pool =
  queue :: "qitem list"
  idle_threads :: nat
  nthreads :: nat
  pcs :: "nat \<Rightarrow> wpc"
  work_of :: "nat \<Rightarrow> wfun"
  loop_wq :: "nat list"
  local_wq :: "nat list"
  cancelling :: "nat option"
  async_sent :: bool
  in_done :: bool
  submitted :: "nat list"
  ran :: "nat list"
  finished :: "(nat \<times> int) list"

section \<open>Starting\<close>

definition MAX_THREADPOOL_SIZE :: u32 where "MAX_THREADPOOL_SIZE = 128"

text \<open>
  The number of threads: \<open>val\<close> is \<open>atoi\<close> of the environment variable, if it is set, \<open>got\<close>
  whether the array for more than four threads could be allocated.
\<close>

definition thread_count :: "int option \<Rightarrow> bool \<Rightarrow> u32" where
  "thread_count val got =
     (let n = (case val of None \<Rightarrow> 4 | Some v \<Rightarrow> word_of_int v);
          n = (if n = 0 then 1 else n);
          n = (if MAX_THREADPOOL_SIZE < n then MAX_THREADPOOL_SIZE else n)
      in if 4 < n \<and> \<not> got then 4 else n)"

text \<open>\<open>oks\<close>: whether the condition variable, the mutex and each thread could be made.\<close>

definition init_once :: "int option \<Rightarrow> bool \<Rightarrow> bool \<Rightarrow> bool \<Rightarrow> bool list \<Rightarrow> uv_pool res" where
  "init_once val got cond_ok mutex_ok oks =
     (let n = unat (thread_count val got) in
      if \<not> cond_ok then Inl Aborted
      else if \<not> mutex_ok then Inl Aborted
      else if \<not> list_all id (take n oks) then Inl Aborted
      else Inr \<lparr>queue = [], idle_threads = 0, nthreads = n, pcs = (\<lambda>_. At_top), work_of = (\<lambda>_. No_fun),
                loop_wq = [], local_wq = [], cancelling = None, async_sent = False, in_done = False,
                submitted = [], ran = [], finished = []\<rparr>)"

section \<open>Workers\<close>

definition set_pc :: "nat \<Rightarrow> wpc \<Rightarrow> uv_pool \<Rightarrow> uv_pool" where
  "set_pc i p t = t\<lparr>pcs := (pcs t)(i := p)\<rparr>"

definition signal :: "nat \<Rightarrow> uv_pool \<Rightarrow> uv_pool" where
  "signal j t = (if j < nthreads t \<and> pcs t j = Blocked then set_pc j Woken t else t)"

text \<open>The choice of the thread to wake is one the condition variable can make.\<close>

definition signal_ok :: "nat \<Rightarrow> uv_pool \<Rightarrow> bool" where
  "signal_ok j t \<longleftrightarrow> (j < nthreads t \<and> pcs t j = Blocked) \<or> list_all (\<lambda>i. pcs t i \<noteq> Blocked) [0..<nthreads t]"

text \<open>From the test of the queue to the end of the first critical section.\<close>

definition look :: "nat \<Rightarrow> nat \<Rightarrow> uv_pool \<Rightarrow> uv_pool" where
  "look i j t =
     (case queue t of
        [] \<Rightarrow> set_pc i Blocked (t\<lparr>idle_threads := idle_threads t + 1\<rparr>)
      | Exit_message # q \<Rightarrow> set_pc i Left (signal j t)
      | Item w # q \<Rightarrow> set_pc i (Running w) (t\<lparr>queue := q\<rparr>))"

definition worker :: "nat \<Rightarrow> nat \<Rightarrow> uv_pool \<Rightarrow> uv_pool res option" where
  "worker i j t =
     (if \<not> i < nthreads t then None
      else
        (case pcs t i of
           At_top \<Rightarrow> Some (Inr (look i j t))
         | Woken \<Rightarrow> Some (Inr (look i j (t\<lparr>idle_threads := idle_threads t - 1\<rparr>)))
         | Running w \<Rightarrow>
             (case work_of t w of
                Work_fun \<Rightarrow> Some (Inr (set_pc i (Finishing w) (t\<lparr>ran := ran t @ [w]\<rparr>)))
              | No_fun \<Rightarrow> Some (Inl Null_deref)
              | Cancelled_fun \<Rightarrow> Some (Inl Aborted))
         | Finishing w \<Rightarrow>
             Some (Inr (set_pc i At_top (t\<lparr>work_of := (work_of t)(w := No_fun), loop_wq := loop_wq t @ [w], async_sent := True\<rparr>)))
         | _ \<Rightarrow> None))"

section \<open>Submitting, cancelling, finishing\<close>

definition post :: "qitem \<Rightarrow> nat \<Rightarrow> uv_pool \<Rightarrow> uv_pool" where
  "post q j t =
     (let t = t\<lparr>queue := queue t @ [q]\<rparr> in if 0 < idle_threads t then signal j t else t)"

definition uv__work_submit :: "nat \<Rightarrow> nat \<Rightarrow> uv_pool \<Rightarrow> uv_pool" where
  "uv__work_submit w j t = post (Item w) j (t\<lparr>work_of := (work_of t)(w := Work_fun), submitted := submitted t @ [w]\<rparr>)"

text \<open>A request taken out by \<open>uv__work_done\<close> has dangling links, which do not look empty.\<close>

definition unlinked :: "nat \<Rightarrow> uv_pool \<Rightarrow> bool" where
  "unlinked w t \<longleftrightarrow> Item w \<notin> set (queue t) \<and> w \<notin> set (loop_wq t) \<and> w \<notin> set (local_wq t) \<and> w \<notin> fst ` set (finished t)"

text \<open>The result \<open>False\<close> is \<open>UV_EBUSY\<close>; \<open>True\<close> means that the rest of the function follows.\<close>

definition uv__work_cancel :: "nat \<Rightarrow> uv_pool \<Rightarrow> (bool \<times> uv_pool) res" where
  "uv__work_cancel w t =
     (if \<not> unlinked w t \<and> work_of t w \<noteq> No_fun then
        if w \<in> fst ` set (finished t) then Inl Use_after_free
        else Inr (True, t\<lparr>queue := removeAll (Item w) (queue t), loop_wq := removeAll w (loop_wq t),
                          local_wq := removeAll w (local_wq t), cancelling := Some w\<rparr>)
      else Inr (False, t))"

definition cancel_end :: "uv_pool \<Rightarrow> uv_pool option" where
  "cancel_end t =
     (case cancelling t of
        None \<Rightarrow> None
      | Some w \<Rightarrow> Some (t\<lparr>work_of := (work_of t)(w := Cancelled_fun), loop_wq := loop_wq t @ [w], async_sent := True,
                        cancelling := None\<rparr>))"

definition done_move :: "uv_pool \<Rightarrow> uv_pool" where
  "done_move t = t\<lparr>local_wq := loop_wq t, loop_wq := [], in_done := False\<rparr>"

definition done_one :: "uv_pool \<Rightarrow> uv_pool option" where
  "done_one t =
     (case local_wq t of
        [] \<Rightarrow> None
      | w # q \<Rightarrow>
          let err = (if work_of t w = Cancelled_fun then - ECANCELED else 0)
          in Some (t\<lparr>local_wq := q, finished := finished t @ [(w, err)]\<rparr>))"

section \<open>Interleavings\<close>

text \<open>
  \<open>Submit w j\<close>: a new request; \<open>Worker i j\<close>: one step of a worker; \<open>Wake i\<close>: a worker wakes up by
  itself; \<open>Cancel w\<close>, \<open>Cancel_end\<close>: the two parts of \<open>uv_cancel\<close> of a request that is not
  finished; \<open>Async\<close>: the loop answers the wake-up and is about to run \<open>uv__work_done\<close>; \<open>Move\<close>,
  \<open>Done\<close>: its parts; \<open>Leave j\<close>: \<open>cleanup\<close> posts the exit message.
\<close>

datatype action = Submit nat nat | Worker nat nat | Wake nat | Cancel nat | Cancel_end | Async | Move | Done | Leave nat

definition act :: "action \<Rightarrow> uv_pool \<Rightarrow> uv_pool res option" where
  "act a t =
     (case a of
        Submit w j \<Rightarrow> if w \<notin> set (submitted t) \<and> signal_ok j t then Some (Inr (uv__work_submit w j t)) else None
      | Worker i j \<Rightarrow> if signal_ok j t then worker i j t else None
      | Wake i \<Rightarrow> if i < nthreads t \<and> pcs t i = Blocked then Some (Inr (set_pc i Woken t)) else None
      | Cancel w \<Rightarrow>
          if cancelling t = None \<and> w \<in> set (submitted t) \<and> w \<notin> fst ` set (finished t)
          then Some (bind_res (uv__work_cancel w t) (\<lambda>(_, t). Inr t)) else None
      | Cancel_end \<Rightarrow> map_option Inr (cancel_end t)
      | Async \<Rightarrow> if async_sent t \<and> cancelling t = None \<and> local_wq t = [] \<and> \<not> in_done t
                 then Some (Inr (t\<lparr>async_sent := False, in_done := True\<rparr>)) else None
      | Move \<Rightarrow> if in_done t then Some (Inr (done_move t)) else None
      | Done \<Rightarrow> if cancelling t = None then map_option Inr (done_one t) else None
      | Leave j \<Rightarrow> if signal_ok j t then Some (Inr (post Exit_message j t)) else None)"

inductive pool_reach :: "uv_pool \<Rightarrow> uv_pool \<Rightarrow> bool" for t0 where
  start: "pool_reach t0 t0"
| step: "pool_reach t0 t \<Longrightarrow> act a t = Some (Inr t') \<Longrightarrow> pool_reach t0 t'"

section \<open>Every request is in one place\<close>

fun items :: "qitem list \<Rightarrow> nat list" where
  "items [] = []"
| "items (Exit_message # q) = items q"
| "items (Item w # q) = w # items q"

fun held_by :: "wpc \<Rightarrow> nat multiset" where
  "held_by (Running w) = {#w#}"
| "held_by (Finishing w) = {#w#}"
| "held_by _ = {#}"

definition held :: "uv_pool \<Rightarrow> nat multiset" where
  "held t = (\<Sum>i<nthreads t. held_by (pcs t i))"

definition aside :: "uv_pool \<Rightarrow> nat multiset" where
  "aside t = (case cancelling t of None \<Rightarrow> {#} | Some w \<Rightarrow> {#w#})"

definition places :: "uv_pool \<Rightarrow> nat multiset" where
  "places t = mset (items (queue t)) + held t + mset (loop_wq t) + mset (local_wq t) + aside t + mset (map fst (finished t))"

lemma items_append [simp]: "items (q @ r) = items q @ items r"
  by (induction q rule: items.induct) auto

lemma set_items [simp]: "w \<in> set (items q) \<longleftrightarrow> Item w \<in> set q"
  by (induction q rule: items.induct) auto

lemma items_removeAll [simp]: "items (removeAll (Item w) q) = removeAll w (items q)"
  by (induction q rule: items.induct) auto

lemma held_set_pc:
  "i < nthreads t \<Longrightarrow> held (set_pc i p t) + held_by (pcs t i) = held t + held_by p"
proof -
  assume i: "i < nthreads t"
  have s: "(\<Sum>k<n. f k) = f i + (\<Sum>k\<in>{..<n} - {i}. f k)" if "i < n" for n and f :: "nat \<Rightarrow> nat multiset"
    using that by (intro sum.remove) auto
  have "(\<Sum>k\<in>{..<nthreads t} - {i}. held_by (((pcs t)(i := p)) k)) = (\<Sum>k\<in>{..<nthreads t} - {i}. held_by (pcs t k))"
    by (intro sum.cong) auto
  then show ?thesis using i by (simp add: held_def set_pc_def s [OF i])
qed

lemma held_cong [simp]:
  "held (t\<lparr>queue := a\<rparr>) = held t" "held (t\<lparr>idle_threads := b\<rparr>) = held t" "held (t\<lparr>work_of := c\<rparr>) = held t"
  "held (t\<lparr>loop_wq := d\<rparr>) = held t" "held (t\<lparr>local_wq := d\<rparr>) = held t" "held (t\<lparr>cancelling := e\<rparr>) = held t"
  "held (t\<lparr>async_sent := f\<rparr>) = held t" "held (t\<lparr>in_done := f\<rparr>) = held t" "held (t\<lparr>submitted := d\<rparr>) = held t"
  "held (t\<lparr>ran := d\<rparr>) = held t" "held (t\<lparr>finished := g\<rparr>) = held t"
  by (simp_all add: held_def)

lemma set_pc_fields [simp]:
  "queue (set_pc i p t) = queue t" "idle_threads (set_pc i p t) = idle_threads t" "nthreads (set_pc i p t) = nthreads t"
  "work_of (set_pc i p t) = work_of t" "loop_wq (set_pc i p t) = loop_wq t" "local_wq (set_pc i p t) = local_wq t"
  "cancelling (set_pc i p t) = cancelling t" "async_sent (set_pc i p t) = async_sent t" "in_done (set_pc i p t) = in_done t"
  "submitted (set_pc i p t) = submitted t" "ran (set_pc i p t) = ran t" "finished (set_pc i p t) = finished t"
  "pcs (set_pc i p t) k = (if k = i then p else pcs t k)"
  by (simp_all add: set_pc_def)

lemma signal_fields [simp]:
  "queue (signal j t) = queue t" "idle_threads (signal j t) = idle_threads t" "nthreads (signal j t) = nthreads t"
  "work_of (signal j t) = work_of t" "loop_wq (signal j t) = loop_wq t" "local_wq (signal j t) = local_wq t"
  "cancelling (signal j t) = cancelling t" "async_sent (signal j t) = async_sent t" "in_done (signal j t) = in_done t"
  "submitted (signal j t) = submitted t" "ran (signal j t) = ran t" "finished (signal j t) = finished t"
  by (simp_all add: signal_def)

lemma pcs_signal: "pcs (signal j t) k = (if k = j \<and> j < nthreads t \<and> pcs t j = Blocked then Woken else pcs t k)"
  by (auto simp: signal_def)

lemma held_signal [simp]: "held (signal j t) = held t"
  using held_set_pc [of j t Woken] by (auto simp: signal_def)

lemma aside_simps [simp]:
  "aside (set_pc i p t) = aside t" "aside (signal j t) = aside t" "aside (t\<lparr>cancelling := None\<rparr>) = {#}"
  "aside (t\<lparr>cancelling := Some w\<rparr>) = {#w#}"
  by (simp_all add: aside_def)

lemma aside_cong [simp]:
  "aside (t\<lparr>queue := a\<rparr>) = aside t" "aside (t\<lparr>idle_threads := b\<rparr>) = aside t" "aside (t\<lparr>work_of := c\<rparr>) = aside t"
  "aside (t\<lparr>loop_wq := d\<rparr>) = aside t" "aside (t\<lparr>local_wq := d\<rparr>) = aside t"
  "aside (t\<lparr>async_sent := f\<rparr>) = aside t" "aside (t\<lparr>in_done := f\<rparr>) = aside t" "aside (t\<lparr>submitted := d\<rparr>) = aside t"
  "aside (t\<lparr>ran := d\<rparr>) = aside t" "aside (t\<lparr>finished := g\<rparr>) = aside t"
  by (simp_all add: aside_def)

text \<open>A request of which only one exists is nowhere else.\<close>

definition single :: "uv_pool \<Rightarrow> bool" where
  "single t \<longleftrightarrow> distinct (submitted t) \<and> mset (submitted t) = places t"

definition holds :: "uv_pool \<Rightarrow> nat \<Rightarrow> bool" where
  "holds t w \<longleftrightarrow> (\<exists>i<nthreads t. pcs t i = Running w \<or> pcs t i = Finishing w)"

lemma holds_held: "holds t w \<longleftrightarrow> w \<in># held t"
proof -
  have "w \<in># held_by p \<longleftrightarrow> p = Running w \<or> p = Finishing w" for p by (cases p) auto
  moreover have "w \<in># held t \<longleftrightarrow> (\<exists>i<nthreads t. w \<in># held_by (pcs t i))" by (auto simp: held_def set_mset_sum)
  ultimately show ?thesis by (simp add: holds_def)
qed

lemma single_excl:
  assumes "single t"
  shows "of_bool (Item w \<in> set (queue t)) + of_bool (holds t w) + of_bool (w \<in> set (loop_wq t)) + of_bool (w \<in> set (local_wq t))
    + of_bool (cancelling t = Some w) + of_bool (w \<in> fst ` set (finished t)) = (of_bool (w \<in> set (submitted t)) :: nat)"
proof -
  have one: "of_bool (0 < n) = n" if "n \<le> 1" for n :: nat using that by (cases n) auto
  have c: "count (places t) w = of_bool (w \<in> set (submitted t))"
    using assms unfolding single_def distinct_count_atmost_1 by (metis of_bool_def)
  let ?a = "count (mset (items (queue t))) w" and ?b = "count (held t) w" and ?c = "count (mset (loop_wq t)) w"
    and ?d = "count (mset (local_wq t)) w" and ?e = "count (aside t) w" and ?f = "count (mset (map fst (finished t))) w"
  have sum: "?a + ?b + ?c + ?d + ?e + ?f = of_bool (w \<in> set (submitted t))"
    unfolding c [symmetric] by (simp add: places_def)
  have "(of_bool (w \<in> set (submitted t)) :: nat) \<le> 1" by simp
  then have le: "?a \<le> 1" "?b \<le> 1" "?c \<le> 1" "?d \<le> 1" "?e \<le> 1" "?f \<le> 1" using sum by linarith+
  have iff: "Item w \<in> set (queue t) \<longleftrightarrow> 0 < ?a" "holds t w \<longleftrightarrow> 0 < ?b" "w \<in> set (loop_wq t) \<longleftrightarrow> 0 < ?c"
    "w \<in> set (local_wq t) \<longleftrightarrow> 0 < ?d" "cancelling t = Some w \<longleftrightarrow> 0 < ?e" "w \<in> fst ` set (finished t) \<longleftrightarrow> 0 < ?f"
    by (auto simp: holds_held aside_def split: option.splits)
  show ?thesis unfolding iff one [OF le(1)] one [OF le(2)] one [OF le(3)] one [OF le(4)] one [OF le(5)] one [OF le(6)] by (rule sum)
qed

lemma single_worker:
  assumes "single t" "i < nthreads t" "k < nthreads t" "i \<noteq> k" "held_by (pcs t i) = {#w#}"
  shows "held_by (pcs t k) \<noteq> {#w#}"
proof
  assume k: "held_by (pcs t k) = {#w#}"
  have "held t = held_by (pcs t i) + (\<Sum>x\<in>{..<nthreads t} - {i}. held_by (pcs t x))"
    unfolding held_def using assms(2) by (intro sum.remove) auto
  also have "(\<Sum>x\<in>{..<nthreads t} - {i}. held_by (pcs t x)) = held_by (pcs t k) + (\<Sum>x\<in>{..<nthreads t} - {i} - {k}. held_by (pcs t x))"
    using assms(3,4) by (intro sum.remove) auto
  finally have "2 \<le> count (held t) w" using assms(5) k by simp
  moreover have "count (held t) w \<le> count (mset (submitted t)) w" using assms(1) by (simp add: single_def places_def)
  moreover have "count (mset (submitted t)) w = (if w \<in> set (submitted t) then 1 else 0)"
    using assms(1) unfolding single_def distinct_count_atmost_1 by blast
  ultimately show False by (simp split: if_splits)
qed

section \<open>The invariant\<close>

text \<open>What is known of a request, wherever it is: whether it has run and what \<open>w->work\<close> is.\<close>

definition req_ok :: "uv_pool \<Rightarrow> nat \<Rightarrow> bool" where
  "req_ok t w \<longleftrightarrow>
     (Item w \<in> set (queue t) \<longrightarrow> work_of t w = Work_fun \<and> w \<notin> set (ran t))
   \<and> (\<forall>i<nthreads t. (pcs t i = Running w \<longrightarrow> work_of t w = Work_fun \<and> w \<notin> set (ran t))
        \<and> (pcs t i = Finishing w \<longrightarrow> work_of t w = Work_fun \<and> w \<in> set (ran t)))
   \<and> (w \<in> set (loop_wq t) \<union> set (local_wq t) \<longrightarrow> work_of t w = (if w \<in> set (ran t) then No_fun else Cancelled_fun))
   \<and> (cancelling t = Some w \<longrightarrow> w \<notin> set (ran t))
   \<and> (\<forall>s. (w, s) \<in> set (finished t) \<longrightarrow> s = (if w \<in> set (ran t) then 0 else - ECANCELED))
   \<and> (w \<in> set (ran t) \<longrightarrow> w \<in> set (submitted t))"

definition reqs_ok :: "uv_pool \<Rightarrow> bool" where
  "reqs_ok t \<longleftrightarrow> single t \<and> (\<forall>w. req_ok t w) \<and> distinct (ran t)"

lemma reqs_okD: "reqs_ok t \<Longrightarrow> single t" "reqs_ok t \<Longrightarrow> req_ok t w" "reqs_ok t \<Longrightarrow> distinct (ran t)"
  by (simp_all add: reqs_ok_def)

lemma reqs_ok_look:
  assumes "reqs_ok t" "i < nthreads t" "held_by (pcs t i) = {#}"
  shows "reqs_ok (look i j t)"
proof -
  have h: "held (set_pc i p t) = held t + held_by p" for p using held_set_pc [OF assms(2), of p] assms(3) by simp
  have hs: "held (set_pc i p (signal j t)) = held t + held_by p" for p
    using held_set_pc [of i "signal j t" p] assms(2,3) by (auto simp: pcs_signal split: if_splits)
  have nr: "pcs t i \<noteq> Running w" "pcs t i \<noteq> Finishing w" for w using assms(3) by auto
  show ?thesis
  proof (cases "queue t")
    case Nil
    have "single (look i j t)" using reqs_okD(1) [OF assms(1)] Nil held_set_pc [of i "t\<lparr>idle_threads := idle_threads t + 1\<rparr>" Blocked] assms(2,3)
      by (simp add: look_def single_def places_def)
    then show ?thesis using assms(1) Nil nr by (auto simp: reqs_ok_def req_ok_def look_def)
  next
    case (Cons x q)
    show ?thesis
    proof (cases x)
      case Exit_message
      have "single (look i j t)" using reqs_okD(1) [OF assms(1)] Cons Exit_message hs
        by (simp add: look_def single_def places_def)
      then show ?thesis using assms(1) Cons Exit_message nr by (auto simp: reqs_ok_def req_ok_def look_def pcs_signal)
    next
      case (Item w)
      have "single (look i j t)"
        using reqs_okD(1) [OF assms(1)] Cons Item held_set_pc [of i "t\<lparr>queue := q\<rparr>" "Running w"] assms(2,3)
        by (simp add: look_def single_def places_def)
      then show ?thesis using assms(1) Cons Item nr by (auto simp: reqs_ok_def req_ok_def look_def)
    qed
  qed
qed

lemma excl_cases:
  assumes "reqs_ok t"
  shows "Item w \<in> set (queue t) \<Longrightarrow> \<not> holds t w \<and> w \<notin> set (loop_wq t) \<and> w \<notin> set (local_wq t) \<and> cancelling t \<noteq> Some w \<and> w \<notin> fst ` set (finished t)"
    and "holds t w \<Longrightarrow> Item w \<notin> set (queue t) \<and> w \<notin> set (loop_wq t) \<and> w \<notin> set (local_wq t) \<and> cancelling t \<noteq> Some w \<and> w \<notin> fst ` set (finished t)"
    and "cancelling t = Some w \<Longrightarrow> Item w \<notin> set (queue t) \<and> \<not> holds t w \<and> w \<notin> set (loop_wq t) \<and> w \<notin> set (local_wq t) \<and> w \<notin> fst ` set (finished t)"
    and "w \<in> set (local_wq t) \<Longrightarrow> Item w \<notin> set (queue t) \<and> \<not> holds t w \<and> w \<notin> set (loop_wq t) \<and> cancelling t \<noteq> Some w \<and> w \<notin> fst ` set (finished t)"
    and "w \<notin> set (submitted t) \<Longrightarrow> Item w \<notin> set (queue t) \<and> \<not> holds t w \<and> w \<notin> set (loop_wq t) \<and> w \<notin> set (local_wq t)
        \<and> cancelling t \<noteq> Some w \<and> w \<notin> fst ` set (finished t) \<and> w \<notin> set (ran t)"
proof -
  note e = single_excl [OF reqs_okD(1) [OF assms], of w]
  have le: "(of_bool (w \<in> set (submitted t)) :: nat) \<le> 1" by simp
  show "Item w \<in> set (queue t) \<Longrightarrow> \<not> holds t w \<and> w \<notin> set (loop_wq t) \<and> w \<notin> set (local_wq t) \<and> cancelling t \<noteq> Some w \<and> w \<notin> fst ` set (finished t)"
    using e le by (auto split: if_splits simp: of_bool_def)
  show "holds t w \<Longrightarrow> Item w \<notin> set (queue t) \<and> w \<notin> set (loop_wq t) \<and> w \<notin> set (local_wq t) \<and> cancelling t \<noteq> Some w \<and> w \<notin> fst ` set (finished t)"
    using e le by (auto split: if_splits simp: of_bool_def)
  show "cancelling t = Some w \<Longrightarrow> Item w \<notin> set (queue t) \<and> \<not> holds t w \<and> w \<notin> set (loop_wq t) \<and> w \<notin> set (local_wq t) \<and> w \<notin> fst ` set (finished t)"
    using e le by (auto split: if_splits simp: of_bool_def)
  show "w \<in> set (local_wq t) \<Longrightarrow> Item w \<notin> set (queue t) \<and> \<not> holds t w \<and> w \<notin> set (loop_wq t) \<and> cancelling t \<noteq> Some w \<and> w \<notin> fst ` set (finished t)"
    using e le by (auto split: if_splits simp: of_bool_def)
  show "w \<notin> set (submitted t) \<Longrightarrow> Item w \<notin> set (queue t) \<and> \<not> holds t w \<and> w \<notin> set (loop_wq t) \<and> w \<notin> set (local_wq t)
        \<and> cancelling t \<noteq> Some w \<and> w \<notin> fst ` set (finished t) \<and> w \<notin> set (ran t)"
    using e reqs_okD(2) [OF assms, of w] by (auto split: if_splits simp: of_bool_def req_ok_def)
qed

text \<open>A worker never meets a request whose function is gone.\<close>

lemma reqs_ok_worker:
  assumes "reqs_ok t" "worker i j t = Some r"
  shows "\<exists>t'. r = Inr t' \<and> reqs_ok t'"
proof -
  have i: "i < nthreads t" using assms(2) by (simp add: worker_def split: if_splits)
  show ?thesis
  proof (cases "pcs t i")
    case At_top
    then show ?thesis using assms i reqs_ok_look [OF assms(1) i] by (auto simp: worker_def)
  next
    case Woken
    let ?t = "t\<lparr>idle_threads := idle_threads t - 1\<rparr>"
    have "reqs_ok ?t" using assms(1) by (simp add: reqs_ok_def req_ok_def single_def places_def)
    then show ?thesis using assms(2) i Woken reqs_ok_look [of ?t i j] by (auto simp: worker_def)
  next
    case (Running w)
    have req: "work_of t w = Work_fun" "w \<notin> set (ran t)" using reqs_okD(2) [OF assms(1), of w] i Running by (auto simp: req_ok_def)
    have h: "holds t w" using i Running by (auto simp: holds_def)
    let ?t = "set_pc i (Finishing w) (t\<lparr>ran := ran t @ [w]\<rparr>)"
    have "held ?t = held t" using held_set_pc [of i "t\<lparr>ran := ran t @ [w]\<rparr>" "Finishing w"] i Running by simp
    then have s: "single ?t" using reqs_okD(1) [OF assms(1)] by (simp add: single_def places_def)
    have sub: "w \<in> set (submitted t)" using excl_cases(5) [OF assms(1), of w] h by blast
    have other: "pcs t k \<noteq> Running w \<and> pcs t k \<noteq> Finishing w" if "k < nthreads t" "k \<noteq> i" for k
      using single_worker [OF reqs_okD(1) [OF assms(1)] i that(1), of w] that(2) Running by auto
    have "req_ok ?t x" for x
    proof (cases "x = w")
      case True
      then show ?thesis using excl_cases(2) [OF assms(1) h] other req sub by (force simp: req_ok_def)
    next
      case False
      then show ?thesis using reqs_okD(2) [OF assms(1), of x] by (auto simp: req_ok_def)
    qed
    then have "reqs_ok ?t" using s reqs_okD(3) [OF assms(1)] req by (simp add: reqs_ok_def)
    then show ?thesis using assms(2) i Running req by (auto simp: worker_def)
  next
    case (Finishing w)
    have req: "work_of t w = Work_fun" "w \<in> set (ran t)" using reqs_okD(2) [OF assms(1), of w] i Finishing by (auto simp: req_ok_def)
    have h: "holds t w" using i Finishing by (auto simp: holds_def)
    let ?u = "t\<lparr>work_of := (work_of t)(w := No_fun), loop_wq := loop_wq t @ [w], async_sent := True\<rparr>"
    let ?t = "set_pc i At_top ?u"
    have "held ?t + {#w#} = held t" using held_set_pc [of i ?u At_top] i Finishing by (simp add: held_def)
    then have s: "single ?t" using reqs_okD(1) [OF assms(1)] by (auto simp: single_def places_def aside_def)
    have other: "pcs t k \<noteq> Running w \<and> pcs t k \<noteq> Finishing w" if "k < nthreads t" "k \<noteq> i" for k
      using single_worker [OF reqs_okD(1) [OF assms(1)] i that(1), of w] that(2) Finishing by auto
    have "req_ok ?t x" for x
    proof (cases "x = w")
      case True
      then show ?thesis using excl_cases(2) [OF assms(1) h] other req reqs_okD(2) [OF assms(1), of w] by (force simp: req_ok_def)
    next
      case False
      then show ?thesis using reqs_okD(2) [OF assms(1), of x] by (auto simp: req_ok_def)
    qed
    then have "reqs_ok ?t" using s reqs_okD(3) [OF assms(1)] by (simp add: reqs_ok_def)
    then show ?thesis using assms(2) i Finishing by (auto simp: worker_def)
  qed (use assms(2) i in \<open>auto simp: worker_def\<close>)
qed

lemma reqs_ok_frame:
  assumes "reqs_ok t" "queue t' = queue t @ q" "items q = []" "held t' = held t" "nthreads t' = nthreads t" "work_of t' = work_of t"
    "loop_wq t' = loop_wq t" "local_wq t' = local_wq t" "cancelling t' = cancelling t" "submitted t' = submitted t"
    "ran t' = ran t" "finished t' = finished t" "\<And>k w. pcs t' k = Running w \<longleftrightarrow> pcs t k = Running w"
    "\<And>k w. pcs t' k = Finishing w \<longleftrightarrow> pcs t k = Finishing w"
  shows "reqs_ok t'"
proof -
  have i: "Item w \<in> set (queue t') \<longleftrightarrow> Item w \<in> set (queue t)" for w
    using assms(2,3) set_items [of w q] by auto
  have "single t'" using assms(1-12) by (simp add: reqs_ok_def single_def places_def aside_def)
  then show ?thesis using assms(1) by (simp add: reqs_ok_def req_ok_def i assms(4-14))
qed

lemma reqs_ok_signal: "reqs_ok t \<Longrightarrow> reqs_ok (signal j t)"
  by (erule reqs_ok_frame [where q = "[]"]) (auto simp: pcs_signal split: if_splits)

lemma reqs_ok_submit:
  assumes "reqs_ok t" "w \<notin> set (submitted t)"
  shows "reqs_ok (uv__work_submit w j t)"
proof -
  let ?u = "t\<lparr>work_of := (work_of t)(w := Work_fun), submitted := submitted t @ [w], queue := queue t @ [Item w]\<rparr>"
  note no = excl_cases(5) [OF assms]
  have "held ?u = held t" by (simp add: held_def)
  then have s: "single ?u" using assms reqs_okD(1) [OF assms(1)] by (simp add: single_def places_def aside_def)
  have "req_ok ?u x" for x
  proof (cases "x = w")
    case True
    then show ?thesis using no by (force simp: req_ok_def holds_def)
  next
    case False
    then show ?thesis using reqs_okD(2) [OF assms(1), of x] by (auto simp: req_ok_def)
  qed
  then have "reqs_ok ?u" using s reqs_okD(3) [OF assms(1)] by (simp add: reqs_ok_def)
  then show ?thesis by (simp add: uv__work_submit_def post_def Let_def reqs_ok_signal)
qed

lemma reqs_ok_cancel:
  assumes "reqs_ok t" "cancelling t = None" "w \<in> set (submitted t)" "w \<notin> fst ` set (finished t)"
  shows "\<exists>b t'. uv__work_cancel w t = Inr (b, t') \<and> reqs_ok t' \<and> (b \<longleftrightarrow> cancelling t' = Some w) \<and> (\<not> b \<longrightarrow> t' = t)"
proof (cases "\<not> unlinked w t \<and> work_of t w \<noteq> No_fun")
  case False
  then have "uv__work_cancel w t = Inr (False, t)" by (simp add: uv__work_cancel_def)
  then show ?thesis using assms by auto
next
  case True
  let ?t = "t\<lparr>queue := removeAll (Item w) (queue t), loop_wq := removeAll w (loop_wq t), local_wq := removeAll w (local_wq t), cancelling := Some w\<rparr>"
  have nh: "\<not> holds t w" using excl_cases(2) [OF assms(1), of w] True assms(4) by (auto simp: unlinked_def)
  have nran: "w \<notin> set (ran t)" using True assms(4) reqs_okD(2) [OF assms(1), of w] by (auto simp: unlinked_def req_ok_def split: if_splits)
  have cnt: "count (mset (removeAll w xs)) x = (if x = w then 0 else count (mset xs) x)" for xs x
    by (induction xs) auto
  have "held ?t = held t" by (simp add: held_def)
  moreover have "mset (submitted t) = mset (removeAll w (items (queue t))) + held t + mset (removeAll w (loop_wq t))
      + mset (removeAll w (local_wq t)) + {#w#} + mset (map fst (finished t))"
  proof (rule multiset_eqI)
    fix x
    have a: "aside t = {#}" using assms(2) by (simp add: aside_def)
    have "w \<notin># held t" "w \<notin># mset (map fst (finished t))" using nh assms(4) by (auto simp: holds_held)
    then have z: "count (held t) w = 0" "count (mset (map fst (finished t))) w = 0" by (simp_all add: count_eq_zero_iff)
    have "\<forall>a. count (mset (submitted t)) a = (if a \<in> set (submitted t) then 1 else 0)"
      using reqs_okD(1) [OF assms(1)] unfolding single_def distinct_count_atmost_1 by blast
    then have "count (mset (submitted t)) w = 1" using assms(3) by (simp only: if_True)
    moreover have "mset (submitted t) = places t" using reqs_okD(1) [OF assms(1)] by (simp add: single_def)
    ultimately show "count (mset (submitted t)) x = count (mset (removeAll w (items (queue t))) + held t + mset (removeAll w (loop_wq t))
      + mset (removeAll w (local_wq t)) + {#w#} + mset (map fst (finished t))) x"
      using z by (cases "x = w") (simp_all add: cnt places_def a del: mset_map)
  qed
  ultimately have "single ?t" using reqs_okD(1) [OF assms(1)] by (simp add: single_def places_def aside_def)
  moreover have "req_ok ?t x" for x using reqs_okD(2) [OF assms(1), of x] nran by (auto simp: req_ok_def)
  ultimately have "reqs_ok ?t" using reqs_okD(3) [OF assms(1)] by (simp add: reqs_ok_def)
  moreover have "uv__work_cancel w t = Inr (True, ?t)" using True assms(4) by (simp add: uv__work_cancel_def)
  ultimately show ?thesis by (intro exI [of _ True] exI [of _ ?t]) simp
qed

lemma reqs_ok_cancel_end:
  assumes "reqs_ok t" "cancelling t = Some w"
  shows "reqs_ok (t\<lparr>work_of := (work_of t)(w := Cancelled_fun), loop_wq := loop_wq t @ [w], async_sent := True, cancelling := None\<rparr>)"
    (is "reqs_ok ?t")
proof -
  have "held ?t = held t" by (simp add: held_def)
  then have "single ?t" using reqs_okD(1) [OF assms(1)] assms(2) by (simp add: single_def places_def aside_def)
  moreover have "req_ok ?t x" for x
  proof (cases "x = w")
    case True
    then show ?thesis using excl_cases(3) [OF assms] reqs_okD(2) [OF assms(1), of w] assms(2)
      by (force simp: req_ok_def holds_def)
  next
    case False
    then show ?thesis using reqs_okD(2) [OF assms(1), of x] by (auto simp: req_ok_def)
  qed
  ultimately show ?thesis using reqs_okD(3) [OF assms(1)] by (simp add: reqs_ok_def)
qed

lemma reqs_ok_move:
  assumes "reqs_ok t" "local_wq t = []"
  shows "reqs_ok (done_move t)"
proof -
  have "held (done_move t) = held t" by (simp add: held_def done_move_def)
  then have "single (done_move t)" using reqs_okD(1) [OF assms(1)] assms(2) by (simp add: single_def places_def done_move_def aside_def)
  then show ?thesis using assms by (simp add: reqs_ok_def req_ok_def done_move_def)
qed

lemma reqs_ok_done:
  assumes "reqs_ok t" "done_one t = Some t'"
  shows "reqs_ok t'"
proof -
  obtain w q where q: "local_wq t = w # q" using assms(2) by (cases "local_wq t") (auto simp: done_one_def)
  let ?err = "if work_of t w = Cancelled_fun then - ECANCELED else 0"
  have t': "t' = t\<lparr>local_wq := q, finished := finished t @ [(w, ?err)]\<rparr>" using assms(2) q by (simp add: done_one_def Let_def)
  have "held t' = held t" by (simp add: held_def t')
  then have "single t'" using reqs_okD(1) [OF assms(1)] q by (simp add: single_def places_def t' aside_def)
  moreover have "req_ok t' x" for x
    using reqs_okD(2) [OF assms(1), of x] reqs_okD(2) [OF assms(1), of w] q
    by (cases "x = w") (auto simp: req_ok_def t' split: if_splits)
  ultimately show ?thesis using reqs_okD(3) [OF assms(1)] by (simp add: reqs_ok_def t')
qed

section \<open>Nobody sleeps while there is work\<close>

text \<open>
  \<open>awake\<close>: some worker will look at the queue, unless all of them have left.  Finished work is
  either announced to the loop or about to be taken by it.
\<close>

definition waiting :: "uv_pool \<Rightarrow> nat set" where
  "waiting t = {i. i < nthreads t \<and> (pcs t i = Blocked \<or> pcs t i = Woken)}"

definition awake :: "uv_pool \<Rightarrow> bool" where
  "awake t \<longleftrightarrow> (\<exists>i<nthreads t. pcs t i \<noteq> Blocked \<and> pcs t i \<noteq> Left) \<or> (\<forall>i<nthreads t. pcs t i = Left)"

definition alert :: "uv_pool \<Rightarrow> bool" where
  "alert t \<longleftrightarrow> idle_threads t = card (waiting t) \<and> (queue t \<noteq> [] \<longrightarrow> awake t)
     \<and> (loop_wq t \<noteq> [] \<longrightarrow> async_sent t \<or> in_done t) \<and> (in_done t \<longrightarrow> local_wq t = [])"

lemma finite_waiting [simp]: "finite (waiting t)"
  by (simp add: waiting_def)

lemma signal_waiting [simp]: "waiting (signal j t) = waiting t"
  by (auto simp: waiting_def pcs_signal)

text \<open>Waking somebody wakes a worker, if one is blocked.\<close>

lemma awake_signal: "signal_ok j t \<Longrightarrow> nthreads t \<noteq> 0 \<Longrightarrow> awake (signal j t)"
  by (auto simp: awake_def signal_ok_def pcs_signal list_all_iff)

lemma waiting_set_pc:
  "i < nthreads t \<Longrightarrow> waiting (set_pc i p t) = (if p = Blocked \<or> p = Woken then insert i (waiting t) else waiting t - {i})"
  by (auto simp: waiting_def)

definition loop_alert :: "uv_pool \<Rightarrow> bool" where
  "loop_alert t \<longleftrightarrow> (loop_wq t \<noteq> [] \<longrightarrow> async_sent t \<or> in_done t) \<and> (in_done t \<longrightarrow> local_wq t = [])"

lemma alert_alt: "alert t \<longleftrightarrow> idle_threads t = card (waiting t) \<and> (queue t \<noteq> [] \<longrightarrow> awake t) \<and> loop_alert t"
  by (auto simp: alert_def loop_alert_def)

text \<open>A worker that looks at the queue is not counted as idle.\<close>

lemma alert_look:
  assumes "i < nthreads t" "pcs t i = At_top \<or> pcs t i = Woken" "idle_threads t = card (waiting t - {i})" "loop_alert t" "signal_ok j t"
  shows "alert (look i j t)"
proof (cases "queue t")
  case Nil
  have "idle_threads t + 1 = card (insert i (waiting t))"
    using assms(3) card.insert_remove [of "waiting t" i] by simp
  moreover have "waiting (set_pc i Blocked (t\<lparr>idle_threads := idle_threads t + 1\<rparr>)) = insert i (waiting t)"
    using assms(1) by (auto simp: waiting_def)
  ultimately show ?thesis using Nil assms(4) by (simp add: alert_alt look_def loop_alert_def)
next
  case (Cons x q)
  show ?thesis
  proof (cases x)
    case Exit_message
    have w: "waiting (set_pc i Left (signal j t)) = waiting t - {i}" using assms(1) by (simp add: waiting_set_pc)
    have "awake (set_pc i Left (signal j t))"
    proof (cases "j < nthreads t \<and> pcs t j = Blocked")
      case True
      then have "j \<noteq> i" using assms(2) by auto
      then show ?thesis using True unfolding awake_def by (intro disjI1 exI [of _ j]) (simp add: pcs_signal)
    next
      case False
      then have "\<forall>k<nthreads t. pcs t k \<noteq> Blocked" using assms(5) by (auto simp: signal_ok_def list_all_iff)
      then show ?thesis using False unfolding awake_def by (auto simp: pcs_signal)
    qed
    then show ?thesis using Cons Exit_message w assms(3,4) by (simp add: alert_alt look_def loop_alert_def)
  next
    case (Item w)
    have "waiting (set_pc i (Running w) (t\<lparr>queue := q\<rparr>)) = waiting t - {i}" using assms(1) by (auto simp: waiting_def)
    moreover have "awake (set_pc i (Running w) (t\<lparr>queue := q\<rparr>))" using assms(1) unfolding awake_def by (intro disjI1 exI [of _ i]) simp
    ultimately show ?thesis using Cons Item assms(3,4) by (simp add: alert_alt look_def loop_alert_def)
  qed
qed

lemma alert_worker:
  assumes "alert t" "worker i j t = Some (Inr t')" "signal_ok j t"
  shows "alert t'"
proof -
  have i: "i < nthreads t" using assms(2) by (simp add: worker_def split: if_splits)
  have a: "idle_threads t = card (waiting t)" "loop_alert t" using assms(1) by (simp_all add: alert_alt)
  show ?thesis
  proof (cases "pcs t i")
    case At_top
    then have "waiting t - {i} = waiting t" by (auto simp: waiting_def)
    then show ?thesis using alert_look [OF i _ _ a(2) assms(3)] At_top a(1) assms(2) i by (simp add: worker_def)
  next
    case Woken
    let ?t = "t\<lparr>idle_threads := idle_threads t - 1\<rparr>"
    have "i \<in> waiting t" using Woken i by (simp add: waiting_def)
    then have "idle_threads t - 1 = card (waiting t - {i})" using a(1) by simp
    moreover have "waiting ?t = waiting t" "loop_alert ?t = loop_alert t" "signal_ok j ?t = signal_ok j t"
      by (simp_all add: waiting_def loop_alert_def signal_ok_def)
    ultimately show ?thesis using alert_look [of i ?t j] Woken a(2) assms(2,3) i by (simp add: worker_def)
  next
    case (Running w)
    then have t': "t' = set_pc i (Finishing w) (t\<lparr>ran := ran t @ [w]\<rparr>)"
      using assms(2) i by (simp add: worker_def split: wfun.splits)
    have "waiting t' = waiting t" using Running by (auto simp: waiting_def t')
    moreover have "awake t'" using i unfolding awake_def t' by (intro disjI1 exI [of _ i]) simp
    ultimately show ?thesis using a by (simp add: alert_alt loop_alert_def) (simp add: t')
  next
    case (Finishing w)
    then have t': "t' = set_pc i At_top (t\<lparr>work_of := (work_of t)(w := No_fun), loop_wq := loop_wq t @ [w], async_sent := True\<rparr>)"
      using assms(2) i by (simp add: worker_def)
    have "waiting t' = waiting t" using Finishing by (auto simp: waiting_def t')
    moreover have "awake t'" using i unfolding awake_def t' by (intro disjI1 exI [of _ i]) simp
    ultimately show ?thesis using a by (simp add: alert_alt loop_alert_def) (simp add: t')
  qed (use assms(2) i in \<open>simp_all add: worker_def\<close>)
qed

lemma alert_post:
  assumes "idle_threads t = card (waiting t)" "loop_alert t" "signal_ok j t" "nthreads t \<noteq> 0"
  shows "alert (post q j t)"
proof -
  let ?t = "t\<lparr>queue := queue t @ [q]\<rparr>"
  have s: "waiting ?t = waiting t" "loop_alert ?t = loop_alert t" "signal_ok j ?t = signal_ok j t"
    by (simp_all add: waiting_def loop_alert_def signal_ok_def)
  show ?thesis
  proof (cases "0 < idle_threads t")
    case True
    have "awake (signal j ?t)" using awake_signal [of j ?t] assms(3,4) s by simp
    then show ?thesis using True assms(1,2) s by (simp add: post_def alert_alt loop_alert_def)
  next
    case False
    then have "waiting t = {}" using assms(1) by simp
    then have "\<forall>k<nthreads t. pcs t k \<noteq> Blocked" by (auto simp: waiting_def)
    then have "awake ?t" by (auto simp: awake_def)
    then show ?thesis using False assms(1,2) s by (simp add: post_def alert_alt)
  qed
qed

lemma alert_frame:
  assumes "alert t" "pcs t' = pcs t" "nthreads t' = nthreads t" "idle_threads t' = idle_threads t" "queue t' = [] \<or> queue t \<noteq> []" "loop_alert t'"
  shows "alert t'"
proof -
  have "waiting t' = waiting t" "awake t' = awake t" using assms(2,3) by (simp_all add: waiting_def awake_def)
  then show ?thesis using assms by (auto simp: alert_alt)
qed

lemma alert_act:
  assumes "alert t" "act a t = Some (Inr t')" "nthreads t \<noteq> 0"
  shows "alert t'" "nthreads t' = nthreads t"
proof -
  have a: "idle_threads t = card (waiting t)" "loop_alert t" using assms(1) by (simp_all add: alert_alt)
  have "alert t' \<and> nthreads t' = nthreads t"
  proof (cases a)
    case (Submit w j)
    let ?t = "t\<lparr>work_of := (work_of t)(w := Work_fun), submitted := submitted t @ [w]\<rparr>"
    have "alert (post (Item w) j ?t)"
      by (rule alert_post) (use a assms(2,3) Submit in \<open>auto simp: act_def waiting_def loop_alert_def signal_ok_def split: if_splits\<close>)
    then show ?thesis using assms(2) Submit by (auto simp: act_def uv__work_submit_def post_def Let_def split: if_splits)
  next
    case (Worker i j)
    then have w: "signal_ok j t" "worker i j t = Some (Inr t')" using assms(2) by (simp_all add: act_def split: if_splits)
    then have "nthreads t' = nthreads t" by (auto simp: worker_def look_def split: if_splits wpc.splits list.splits qitem.splits wfun.splits)
    then show ?thesis using alert_worker [OF assms(1) w(2,1)] by simp
  next
    case (Wake i)
    then have w: "i < nthreads t" "pcs t i = Blocked" "t' = set_pc i Woken t" using assms(2) by (auto simp: act_def split: if_splits)
    then have "waiting t' = waiting t" by (auto simp: waiting_def)
    moreover have "awake t'" using w unfolding awake_def by (intro disjI1 exI [of _ i]) simp
    ultimately show ?thesis using a w(3) by (simp add: alert_alt loop_alert_def)
  next
    case (Cancel w)
    then have "t' = t \<or> t' = t\<lparr>queue := removeAll (Item w) (queue t), loop_wq := removeAll w (loop_wq t),
        local_wq := removeAll w (local_wq t), cancelling := Some w\<rparr>"
      using assms(2) by (auto simp: act_def uv__work_cancel_def split: if_splits)
    moreover have "loop_alert (t\<lparr>queue := removeAll (Item w) (queue t), loop_wq := removeAll w (loop_wq t),
        local_wq := removeAll w (local_wq t), cancelling := Some w\<rparr>)" using a(2) by (auto simp: loop_alert_def)
    ultimately show ?thesis using assms(1) by (auto intro: alert_frame [OF assms(1)])
  next
    case Cancel_end
    then obtain w where "t' = t\<lparr>work_of := (work_of t)(w := Cancelled_fun), loop_wq := loop_wq t @ [w], async_sent := True, cancelling := None\<rparr>"
      using assms(2) by (auto simp: act_def cancel_end_def split: option.splits)
    then show ?thesis using a(2) by (auto intro!: alert_frame [OF assms(1)] simp: loop_alert_def)
  next
    case Async
    then show ?thesis using assms(2) a(2) by (auto intro!: alert_frame [OF assms(1)] simp: act_def loop_alert_def split: if_splits)
  next
    case Move
    then show ?thesis using assms(2) a(2) by (auto intro!: alert_frame [OF assms(1)] simp: act_def done_move_def loop_alert_def split: if_splits)
  next
    case Done
    then show ?thesis using assms(2) a(2)
      by (auto intro!: alert_frame [OF assms(1)] simp: act_def done_one_def loop_alert_def Let_def split: if_splits list.splits)
  next
    case (Leave j)
    then show ?thesis using assms(2,3) a alert_post [of t j Exit_message] by (auto simp: act_def post_def Let_def split: if_splits)
  qed
  then show "alert t'" "nthreads t' = nthreads t" by simp_all
qed

lemma reqs_ok_act:
  assumes "reqs_ok t" "loop_alert t" "act a t = Some r"
  shows "\<exists>t'. r = Inr t' \<and> reqs_ok t'"
proof (cases a)
  case (Submit w j)
  then show ?thesis using assms reqs_ok_submit by (auto simp: act_def split: if_splits)
next
  case (Worker i j)
  then show ?thesis using assms reqs_ok_worker [of t i j r] by (auto simp: act_def split: if_splits)
next
  case (Wake i)
  have "reqs_ok (set_pc i Woken t)" if "pcs t i = Blocked" "i < nthreads t"
    by (rule reqs_ok_frame [OF assms(1), where q = "[]"]) (use that held_set_pc [of i t Woken] in auto)
  then show ?thesis using assms Wake by (auto simp: act_def split: if_splits)
next
  case (Cancel w)
  then show ?thesis using assms reqs_ok_cancel [OF assms(1), of w] by (force simp: act_def split: if_splits)
next
  case Cancel_end
  then show ?thesis using assms reqs_ok_cancel_end [OF assms(1)] by (auto simp: act_def cancel_end_def split: option.splits)
next
  case Async
  have "reqs_ok (t\<lparr>async_sent := False, in_done := True\<rparr>)"
    by (rule reqs_ok_frame [OF assms(1), where q = "[]"]) auto
  then show ?thesis using assms Async by (auto simp: act_def split: if_splits)
next
  case Move
  then show ?thesis using assms reqs_ok_move [OF assms(1)] by (auto simp: act_def loop_alert_def split: if_splits)
next
  case Done
  then show ?thesis using assms reqs_ok_done [OF assms(1)] by (auto simp: act_def split: if_splits)
next
  case (Leave j)
  have "reqs_ok (t\<lparr>queue := queue t @ [Exit_message]\<rparr>)"
    by (rule reqs_ok_frame [OF assms(1), where q = "[Exit_message]"]) auto
  then show ?thesis using assms Leave reqs_ok_signal by (auto simp: act_def post_def Let_def split: if_splits)
qed

section \<open>Exactly once\<close>

lemma thread_count_bounds: "1 \<le> unat (thread_count val got)" "unat (thread_count val got) \<le> 128"
proof -
  have "0 < thread_count val got" "thread_count val got \<le> 128"
    by (auto simp: thread_count_def MAX_THREADPOOL_SIZE_def Let_def word_gt_0 linorder_not_less split: option.splits)
  then show "1 \<le> unat (thread_count val got)" "unat (thread_count val got) \<le> 128"
    by (simp_all add: word_le_nat_alt word_less_nat_alt)
qed

lemma init_once_ok:
  assumes "init_once val got c m oks = Inr t"
  shows "reqs_ok t" "alert t" "nthreads t \<noteq> 0" "nthreads t \<le> 128"
proof -
  have t: "t = \<lparr>queue = [], idle_threads = 0, nthreads = unat (thread_count val got), pcs = (\<lambda>_. At_top), work_of = (\<lambda>_. No_fun),
      loop_wq = [], local_wq = [], cancelling = None, async_sent = False, in_done = False, submitted = [], ran = [], finished = []\<rparr>"
    using assms by (auto simp: init_once_def Let_def split: if_splits)
  show "reqs_ok t" by (simp add: t reqs_ok_def single_def places_def held_def aside_def req_ok_def)
  show "alert t" by (simp add: t alert_def waiting_def)
  show "nthreads t \<noteq> 0" "nthreads t \<le> 128" using thread_count_bounds [of val got] by (simp_all add: t)
qed

lemma pool_reach_ok:
  assumes "pool_reach t0 t" "reqs_ok t0" "alert t0" "nthreads t0 \<noteq> 0"
  shows "reqs_ok t \<and> alert t \<and> nthreads t = nthreads t0"
  using assms
proof (induction rule: pool_reach.induct)
  case (step t a t')
  then have "loop_alert t" by (simp add: alert_alt)
  then show ?case using step reqs_ok_act [of t a "Inr t'"] alert_act [of t a t'] by auto
qed simp

definition settled :: "uv_pool \<Rightarrow> bool" where
  "settled t \<longleftrightarrow> (\<forall>w. Item w \<notin> set (queue t) \<and> \<not> holds t w) \<and> loop_wq t = [] \<and> local_wq t = [] \<and> cancelling t = None"

lemma settled_all_done:
  assumes "reqs_ok t" "settled t"
  shows "mset (map fst (finished t)) = mset (submitted t)"
proof -
  have "items (queue t) = []" using assms(2) by (metis list.exhaust list.set_intros(1) set_items settled_def)
  moreover have "held t = {#}" using assms(2) by (auto simp: settled_def holds_held multiset_eq_iff count_eq_zero_iff)
  ultimately show ?thesis using reqs_okD(1) [OF assms(1)] assms(2) by (simp add: single_def places_def aside_def settled_def)
qed

text \<open>
  C33: The thread pool of libuv, in any interleaving of its workers with the loop's thread.  No
  step faults (telling the loop is taken to succeed): a worker never calls \<open>uv__cancelled\<close> or a
  function that is gone.  Every request runs at most once and its \<open>done\<close> function is called at most once,
  with status 0 when it has run and \<open>UV_ECANCELED\<close> when it was cancelled before it could run.
  When nothing is queued, running or on its way back, every request submitted has been answered.
  While requests are queued some worker is awake (unless all have left), and finished requests
  are announced to the loop or about to be taken by it.
\<close>
theorem uv_work_exactly_once:
  assumes "init_once val got c m oks = Inr t0" "pool_reach t0 t"
  shows "(\<forall>a f. act a t \<noteq> Some (Inl f)) \<and> distinct (ran t) \<and> set (ran t) \<subseteq> set (submitted t)
    \<and> distinct (map fst (finished t)) \<and> fst ` set (finished t) \<subseteq> set (submitted t)
    \<and> (\<forall>(w, s) \<in> set (finished t). s = (if w \<in> set (ran t) then 0 else - ECANCELED))
    \<and> (settled t \<longrightarrow> mset (map fst (finished t)) = mset (submitted t))
    \<and> (queue t \<noteq> [] \<longrightarrow> awake t) \<and> (loop_wq t \<noteq> [] \<longrightarrow> async_sent t \<or> in_done t)"
proof -
  have t: "reqs_ok t" "alert t" using pool_reach_ok [OF assms(2)] init_once_ok [OF assms(1)] by blast+
  have "act a t \<noteq> Some (Inl f)" for a f using reqs_ok_act [OF t(1), of a] t(2) by (auto simp: alert_alt)
  moreover have "w \<in> set (ran t) \<Longrightarrow> w \<in> set (submitted t)" for w using reqs_okD(2) [OF t(1), of w] by (simp add: req_ok_def)
  moreover have "w \<in> fst ` set (finished t) \<Longrightarrow> w \<in> set (submitted t)" for w using excl_cases(5) [OF t(1), of w] by blast
  moreover have "\<forall>(w, s) \<in> set (finished t). s = (if w \<in> set (ran t) then 0 else - ECANCELED)"
    using reqs_okD(2) [OF t(1)] by (fastforce simp: req_ok_def)
  moreover have "distinct (map fst (finished t))"
  proof -
    obtain zs where "mset zs = mset (items (queue t)) + held t + mset (loop_wq t) + mset (local_wq t) + aside t"
      using ex_mset by blast
    then have "mset (submitted t) = mset (map fst (finished t) @ zs)"
      using reqs_okD(1) [OF t(1)] by (simp add: single_def places_def)
    moreover have "distinct (submitted t)" using reqs_okD(1) [OF t(1)] by (simp add: single_def)
    ultimately show ?thesis using mset_eq_imp_distinct_iff by fastforce
  qed
  moreover have "queue t \<noteq> [] \<longrightarrow> awake t" "loop_wq t \<noteq> [] \<longrightarrow> async_sent t \<or> in_done t" using t(2) by (simp_all add: alert_def)
  ultimately show ?thesis
    using reqs_okD(3) [OF t(1)] settled_all_done [OF t(1)] by blast
qed

fun run_acts :: "action list \<Rightarrow> uv_pool \<Rightarrow> uv_pool option" where
  "run_acts [] t = Some t"
| "run_acts (a # as) t = (case act a t of Some (Inr t') \<Rightarrow> run_acts as t' | _ \<Rightarrow> None)"

lemma run_acts_reach: "pool_reach t0 t \<Longrightarrow> run_acts as t = Some t' \<Longrightarrow> pool_reach t0 t'"
  by (induction as arbitrary: t) (auto split: option.splits sum.splits intro: pool_reach.step)

text \<open>One worker: request 7 runs, request 8 is cancelled while 7 is running.\<close>

lemma uv_work_exactly_once_witness:
  "\<exists>t0 t. init_once (Some 0) True True True [True] = Inr t0 \<and> pool_reach t0 t
     \<and> finished t = [(8, - ECANCELED), (7, 0)] \<and> ran t = [7]
     \<and> mset (map fst (finished t)) = mset (submitted t)"
proof -
  let ?as = "[Worker 0 0, Submit 7 0, Worker 0 0, Submit 8 0, Cancel 8, Cancel_end, Worker 0 0, Worker 0 0, Worker 0 0,
     Async, Move, Done, Done]"
  define t0 where "t0 = \<lparr>queue = [], idle_threads = 0, nthreads = 1, pcs = (\<lambda>_. At_top), work_of = (\<lambda>_. No_fun), loop_wq = [],
      local_wq = [], cancelling = None, async_sent = False, in_done = False, submitted = [], ran = [], finished = []\<rparr>"
  have t0: "init_once (Some 0) True True True [True] = Inr t0"
    by (simp add: init_once_def thread_count_def MAX_THREADPOOL_SIZE_def t0_def)
  have "\<exists>t. run_acts ?as t0 = Some t \<and> finished t = [(8, - ECANCELED), (7, 0)] \<and> ran t = [7] \<and> settled t"
    by (simp add: act_def worker_def look_def uv__work_submit_def post_def signal_def signal_ok_def set_pc_def uv__work_cancel_def
        unlinked_def cancel_end_def done_move_def done_one_def t0_def settled_def holds_def)
  then obtain t where t: "run_acts ?as t0 = Some t" "finished t = [(8, - ECANCELED), (7, 0)]" "ran t = [7]" "settled t" by blast
  have "pool_reach t0 t" using run_acts_reach [OF pool_reach.start t(1)] .
  then show ?thesis using uv_work_exactly_once [OF t0] t t0 by blast
qed

end
