(* ===== verification/UvWork.thy ===== *)
theory UvWork
  imports UvThreadPool
begin

text \<open>
  Work requests on the thread pool: \<open>uv_queue_work\<close>, \<open>uv_cancel\<close> and the end of the pool,
  \<open>cleanup\<close>, of \<open>third/libuv/src/threadpool.c\<close>, over the pool of \<open>UvThreadPool\<close>.

  There is one loop; its thread is the main one, which calls \<open>cleanup\<close> when the program ends and
  does nothing else from then on.  The requests of \<open>active_reqs\<close> keep the loop alive.  Callbacks
  are numbers; \<open>work_calls\<close> and \<open>after_calls\<close> record the calls made.  A request is a number, new
  for each submission.
\<close>

section \<open>State\<close>

datatype uv_req_type =
    UV_UNKNOWN_REQ | UV_REQ | UV_CONNECT | UV_WRITE | UV_SHUTDOWN | UV_UDP_SEND | UV_FS | UV_WORK
  | UV_GETADDRINFO | UV_GETNAMEINFO

record uv_work_t =
  req_type :: uv_req_type
  work_cb :: nat
  after_work_cb :: "nat option"

text \<open>\<open>Joining k\<close>: the first \<open>k\<close> threads have been joined.\<close>

datatype ending = Not_ending | Joining nat | Ended

record uv_works =
  pool :: uv_pool
  initialized :: bool
  reqs :: "nat \<Rightarrow> uv_work_t"
  active_reqs :: "nat list"
  work_calls :: "(nat \<times> nat) list"
  after_calls :: "(nat \<times> nat \<times> int) list"
  ending :: ending

text \<open>The arguments of \<open>init_once\<close>.\<close>

type_synonym start_env = "int option \<times> bool \<times> bool \<times> bool \<times> bool list"

definition no_pool :: uv_pool where
  "no_pool = \<lparr>queue = [], idle_threads = 0, nthreads = 0, pcs = (\<lambda>_. At_top), work_of = (\<lambda>_. No_fun),
     loop_wq = [], local_wq = [], cancelling = None, async_sent = False, in_done = False,
     submitted = [], ran = [], finished = []\<rparr>"

definition no_works :: uv_works where
  "no_works = \<lparr>pool = no_pool, initialized = False, reqs = (\<lambda>_. \<lparr>req_type = UV_UNKNOWN_REQ, work_cb = 0, after_work_cb = None\<rparr>),
     active_reqs = [], work_calls = [], after_calls = [], ending = Not_ending\<rparr>"

section \<open>Operations\<close>

fun pool_once :: "start_env \<Rightarrow> uv_works \<Rightarrow> uv_works res" where
  "pool_once (val, got, c, m, oks) W =
     (if initialized W then Inr W
      else bind_res (init_once val got c m oks) (\<lambda>t. Inr (W\<lparr>pool := t, initialized := True\<rparr>)))"

definition uv_queue_work :: "start_env \<Rightarrow> nat \<Rightarrow> nat option \<Rightarrow> nat option \<Rightarrow> nat \<Rightarrow> uv_works \<Rightarrow> (int \<times> uv_works) res" where
  "uv_queue_work E w cb after j W =
     (case cb of
        None \<Rightarrow> Inr (- EINVAL, W)
      | Some c \<Rightarrow>
          let W = W\<lparr>reqs := (reqs W)(w := \<lparr>req_type = UV_WORK, work_cb = c, after_work_cb = after\<rparr>),
                    active_reqs := active_reqs W @ [w]\<rparr>
          in bind_res (pool_once E W) (\<lambda>W.
             Inr (0, W\<lparr>pool := uv__work_submit w j (pool W)\<rparr>)))"

definition uv__queue_work :: "nat \<Rightarrow> uv_works \<Rightarrow> uv_works" where
  "uv__queue_work w W = W\<lparr>work_calls := work_calls W @ [(work_cb (reqs W w), w)]\<rparr>"

definition uv__queue_done :: "nat \<Rightarrow> int \<Rightarrow> uv_works \<Rightarrow> uv_works res" where
  "uv__queue_done w err W =
     (if active_reqs W = [] then Inl Assert_failed
      else
        let W = W\<lparr>active_reqs := remove1 w (active_reqs W)\<rparr>
        in case after_work_cb (reqs W w) of
             None \<Rightarrow> Inr W
           | Some c \<Rightarrow> Inr (W\<lparr>after_calls := after_calls W @ [(c, w, err)]\<rparr>))"

text \<open>The result \<open>0\<close> is returned after \<open>cancel_end\<close>.\<close>

definition uv_cancel :: "nat \<Rightarrow> uv_works \<Rightarrow> (int \<times> uv_works) res" where
  "uv_cancel w W =
     (if req_type (reqs W w) \<in> {UV_FS, UV_GETADDRINFO, UV_GETNAMEINFO, UV_WORK} then
        bind_res (uv__work_cancel w (pool W)) (\<lambda>(b, t). Inr (if b then 0 else - EBUSY, W\<lparr>pool := t\<rparr>))
      else Inr (- EINVAL, W))"

text \<open>\<open>cleanup\<close> up to the loop that joins the threads, and one round of the loop or what follows it.\<close>

definition cleanup :: "nat \<Rightarrow> uv_works \<Rightarrow> uv_works" where
  "cleanup j W =
     (if \<not> initialized W then W\<lparr>ending := Ended\<rparr>
      else W\<lparr>pool := post Exit_message j (pool W), ending := Joining 0\<rparr>)"

text \<open>
  The loop that joins the threads, a thread at a time, and what follows it: \<open>e\<close> is the answer of
  \<open>pthread_join\<close>, and in the end whether the mutex or the condition variable cannot be destroyed.
  The array of the threads, which is freed unless it is the static one, has no other use; \<open>nthreads\<close>
  keeps its value, which is read again only after \<open>init_threads\<close> has set it.
\<close>

definition cleanup_join :: "int \<Rightarrow> uv_works \<Rightarrow> uv_works res option" where
  "cleanup_join e W =
     (case ending W of
        Joining k \<Rightarrow>
          if k < nthreads (pool W) then
            if pcs (pool W) k \<noteq> Left then None
            else if e \<noteq> 0 then Some (Inl Aborted)
            else Some (Inr (W\<lparr>ending := Joining (Suc k)\<rparr>))
          else if e \<noteq> 0 then Some (Inl Aborted)
          else Some (Inr (W\<lparr>initialized := False, ending := Ended\<rparr>))
      | _ \<Rightarrow> None)"

section \<open>Interleavings\<close>

definition worker_turn :: "nat \<Rightarrow> nat \<Rightarrow> uv_works \<Rightarrow> uv_works res option" where
  "worker_turn i j W =
     run_bind (worker i j (pool W)) (\<lambda>t.
     let V = W\<lparr>pool := t\<rparr> in
     Some (Inr (case pcs (pool W) i of Running w \<Rightarrow> uv__queue_work w V | _ \<Rightarrow> V)))"

definition done_turn :: "uv_works \<Rightarrow> uv_works res option" where
  "done_turn W =
     (case done_one (pool W) of
        None \<Rightarrow> None
      | Some t \<Rightarrow> let (w, err) = last (finished t) in Some (uv__queue_done w err (W\<lparr>pool := t\<rparr>)))"

definition in_pool :: "action \<Rightarrow> uv_works \<Rightarrow> uv_works res option" where
  "in_pool a W = run_bind (act a (pool W)) (\<lambda>t. Some (Inr (W\<lparr>pool := t\<rparr>)))"

text \<open>The choice \<open>j\<close> of the thread to wake is as in \<open>UvThreadPool\<close>.\<close>

datatype wact =
    Queue_work start_env nat "nat option" "nat option" nat
  | Worker_turn nat nat
  | Wake_up nat
  | Cancel_req nat
  | Cancel_rest
  | Loop_async
  | Loop_take
  | Loop_done
  | Exit nat
  | Join int

definition wact :: "wact \<Rightarrow> uv_works \<Rightarrow> uv_works res option" where
  "wact a W =
     (case a of
        Queue_work E w cb after j \<Rightarrow>
          if ending W = Not_ending \<and> w \<notin> set (submitted (pool W)) \<and> (initialized W \<longrightarrow> signal_ok j (pool W))
          then Some (bind_res (uv_queue_work E w cb after j W) (\<lambda>(_, W). Inr W)) else None
      | Worker_turn i j \<Rightarrow> if ending W \<noteq> Ended \<and> signal_ok j (pool W) then worker_turn i j W else None
      | Wake_up i \<Rightarrow> if ending W \<noteq> Ended then in_pool (Wake i) W else None
      | Cancel_req w \<Rightarrow>
          if ending W = Not_ending \<and> cancelling (pool W) = None \<and> w \<in> set (submitted (pool W)) \<and> w \<notin> fst ` set (finished (pool W))
          then Some (bind_res (uv_cancel w W) (\<lambda>(_, W). Inr W)) else None
      | Cancel_rest \<Rightarrow> if ending W = Not_ending then in_pool Cancel_end W else None
      | Loop_async \<Rightarrow> if ending W = Not_ending then in_pool Async W else None
      | Loop_take \<Rightarrow> if ending W = Not_ending then in_pool Move W else None
      | Loop_done \<Rightarrow> if ending W = Not_ending \<and> cancelling (pool W) = None then done_turn W else None
      | Exit j \<Rightarrow>
          if ending W = Not_ending \<and> cancelling (pool W) = None \<and> (initialized W \<longrightarrow> signal_ok j (pool W))
          then Some (Inr (cleanup j W)) else None
      | Join e \<Rightarrow> cleanup_join e W)"

inductive works_reach :: "uv_works \<Rightarrow> uv_works \<Rightarrow> bool" for W0 where
  start: "works_reach W0 W0"
| step: "works_reach W0 W \<Longrightarrow> wact a W = Some (Inr W') \<Longrightarrow> works_reach W0 W'"

section \<open>The invariant\<close>

text \<open>The calls that the finished requests amount to.\<close>

fun after_of :: "(nat \<Rightarrow> uv_work_t) \<Rightarrow> (nat \<times> int) list \<Rightarrow> (nat \<times> nat \<times> int) list" where
  "after_of r [] = []"
| "after_of r ((w, e) # f) = (case after_work_cb (r w) of None \<Rightarrow> [] | Some c \<Rightarrow> [(c, w, e)]) @ after_of r f"

definition calls_ok :: "uv_works \<Rightarrow> bool" where
  "calls_ok W \<longleftrightarrow> mset (active_reqs W) + mset (map fst (finished (pool W))) = mset (submitted (pool W))
     \<and> work_calls W = map (\<lambda>w. (work_cb (reqs W w), w)) (ran (pool W))
     \<and> after_calls W = after_of (reqs W) (finished (pool W))"

definition gone :: "uv_pool \<Rightarrow> bool" where
  "gone t \<longleftrightarrow> (\<exists>i<nthreads t. pcs t i = Left)"

definition ending_ok :: "uv_works \<Rightarrow> bool" where
  "ending_ok W \<longleftrightarrow>
     (case ending W of
        Not_ending \<Rightarrow> Exit_message \<notin> set (queue (pool W)) \<and> \<not> gone (pool W)
      | Joining k \<Rightarrow> initialized W \<and> k \<le> nthreads (pool W) \<and> (\<forall>i<k. pcs (pool W) i = Left) \<and> cancelling (pool W) = None
          \<and> (\<exists>ws. queue (pool W) = map Item ws @ [Exit_message]) \<and> (gone (pool W) \<longrightarrow> queue (pool W) = [Exit_message])
      | Ended \<Rightarrow> (\<forall>i<nthreads (pool W). pcs (pool W) i = Left) \<and> items (queue (pool W)) = [] \<and> cancelling (pool W) = None)"

definition works_ok :: "uv_works \<Rightarrow> bool" where
  "works_ok W \<longleftrightarrow> reqs_ok (pool W) \<and> alert (pool W) \<and> (initialized W \<longrightarrow> nthreads (pool W) \<noteq> 0)
     \<and> (\<not> initialized W \<and> ending W \<noteq> Ended \<longrightarrow> pool W = no_pool) \<and> calls_ok W \<and> ending_ok W"

lemma works_okD:
  assumes "works_ok W"
  shows "reqs_ok (pool W)" "alert (pool W)" "initialized W \<Longrightarrow> nthreads (pool W) \<noteq> 0" "calls_ok W" "ending_ok W"
    "\<not> initialized W \<Longrightarrow> ending W \<noteq> Ended \<Longrightarrow> pool W = no_pool"
  using assms by (simp_all add: works_ok_def)

lemma no_pool_ok: "reqs_ok no_pool" "alert no_pool"
  by (simp_all add: no_pool_def reqs_ok_def single_def places_def held_def aside_def req_ok_def alert_def waiting_def)

lemma no_works_ok: "works_ok no_works"
  using no_pool_ok by (simp add: works_ok_def no_works_def calls_ok_def ending_ok_def gone_def) (simp add: no_pool_def)

lemma after_of_append: "after_of r (f @ g) = after_of r f @ after_of r g"
  by (induction r f rule: after_of.induct) auto

lemma after_of_cong: "(\<And>w. w \<in> fst ` set f \<Longrightarrow> r w = r' w) \<Longrightarrow> after_of r f = after_of r' f"
  by (induction r f rule: after_of.induct) auto

section \<open>Every step keeps the invariant\<close>

lemma worker_frame:
  assumes "worker i j t = Some (Inr t')"
  shows "submitted t' = submitted t" "finished t' = finished t" "nthreads t' = nthreads t" "cancelling t' = cancelling t"
    "ran t' = ran t @ (case pcs t i of Running w \<Rightarrow> [w] | _ \<Rightarrow> [])" "pcs t k = Left \<Longrightarrow> pcs t' k = Left"
  using assms
  by (auto simp: worker_def look_def pcs_signal split: if_splits wpc.splits list.splits qitem.splits wfun.splits)

lemma gone_set_pc: "i < nthreads t \<Longrightarrow> gone (set_pc i p t) \<longleftrightarrow> p = Left \<or> (\<exists>k<nthreads t. k \<noteq> i \<and> pcs t k = Left)"
  by (auto simp: gone_def)

lemma gone_signal [simp]: "gone (signal j t) = gone t"
proof -
  have "pcs (signal j t) i = Left \<longleftrightarrow> pcs t i = Left" for i by (auto simp: pcs_signal)
  then show ?thesis by (simp add: gone_def)
qed

lemma look_ending:
  assumes "i < nthreads t" "pcs t i \<noteq> Left"
  shows "Exit_message \<notin> set (queue t) \<and> \<not> gone t \<Longrightarrow> Exit_message \<notin> set (queue (look i j t)) \<and> \<not> gone (look i j t)"
    and "queue t = map Item ws @ [Exit_message] \<Longrightarrow> gone t \<longrightarrow> queue t = [Exit_message] \<Longrightarrow>
      (\<exists>ws. queue (look i j t) = map Item ws @ [Exit_message]) \<and> (gone (look i j t) \<longrightarrow> queue (look i j t) = [Exit_message])"
proof -
  show "Exit_message \<notin> set (queue t) \<and> \<not> gone t \<Longrightarrow> Exit_message \<notin> set (queue (look i j t)) \<and> \<not> gone (look i j t)"
    using assms by (auto simp: look_def gone_set_pc split: list.splits qitem.splits) (auto simp: gone_def)
  assume q: "queue t = map Item ws @ [Exit_message]" "gone t \<longrightarrow> queue t = [Exit_message]"
  show "(\<exists>ws. queue (look i j t) = map Item ws @ [Exit_message]) \<and> (gone (look i j t) \<longrightarrow> queue (look i j t) = [Exit_message])"
  proof (cases ws)
    case Nil
    then show ?thesis using q by (auto simp: look_def intro: exI [of _ "[]"])
  next
    case (Cons w ws')
    then have "\<not> gone t" using q by auto
    then show ?thesis using q Cons assms by (auto simp: look_def gone_set_pc) (auto simp: gone_def)
  qed
qed

lemma worker_ending:
  assumes "worker i j t = Some (Inr t')"
  shows "Exit_message \<notin> set (queue t) \<and> \<not> gone t \<Longrightarrow> Exit_message \<notin> set (queue t') \<and> \<not> gone t'"
    and "queue t = map Item ws @ [Exit_message] \<Longrightarrow> gone t \<longrightarrow> queue t = [Exit_message] \<Longrightarrow>
      (\<exists>ws. queue t' = map Item ws @ [Exit_message]) \<and> (gone t' \<longrightarrow> queue t' = [Exit_message])"
proof -
  have i: "i < nthreads t" "pcs t i \<noteq> Left" using assms by (auto simp: worker_def split: if_splits)
  let ?u = "t\<lparr>idle_threads := idle_threads t - 1\<rparr>"
  have u: "queue ?u = queue t" "gone ?u = gone t" "nthreads ?u = nthreads t" "pcs ?u = pcs t" by (simp_all add: gone_def)
  have c: "t' = look i j t \<or> t' = look i j ?u \<or> (\<exists>v p. t' = set_pc i p v \<and> p \<noteq> Left \<and> queue v = queue t \<and> nthreads v = nthreads t \<and> pcs v = pcs t)"
  proof (cases "pcs t i")
    case (Running w)
    then have "t' = set_pc i (Finishing w) (t\<lparr>ran := ran t @ [w]\<rparr>)" using assms by (simp add: worker_def split: if_splits wfun.splits)
    then show ?thesis by fastforce
  next
    case (Finishing w)
    then have "t' = set_pc i At_top (t\<lparr>work_of := (work_of t)(w := No_fun), loop_wq := loop_wq t @ [w], async_sent := True\<rparr>)"
      using assms by (simp add: worker_def split: if_splits)
    then show ?thesis by fastforce
  qed (use assms in \<open>auto simp: worker_def split: if_splits\<close>)
  show "Exit_message \<notin> set (queue t) \<and> \<not> gone t \<Longrightarrow> Exit_message \<notin> set (queue t') \<and> \<not> gone t'"
    using c look_ending(1) [OF i] look_ending(1) [of i ?u] i u by (auto simp: gone_set_pc) (auto simp: gone_def)
  assume q: "queue t = map Item ws @ [Exit_message]" "gone t \<longrightarrow> queue t = [Exit_message]"
  show "(\<exists>ws. queue t' = map Item ws @ [Exit_message]) \<and> (gone t' \<longrightarrow> queue t' = [Exit_message])"
    using c
  proof (elim disjE exE conjE)
    assume "t' = look i j ?u"
    then show ?thesis using look_ending(2) [of i ?u ws j] i q u by simp
  next
    fix v p
    assume v: "t' = set_pc i p v" "p \<noteq> Left" "queue v = queue t" "nthreads v = nthreads t" "pcs v = pcs t"
    then have "gone t' \<longrightarrow> gone t" using i by (auto simp: gone_set_pc) (auto simp: gone_def)
    then show ?thesis using q v by auto
  qed (use look_ending(2) [OF i q] in simp)
qed

lemma worker_turn_ok:
  assumes "works_ok W" "ending W \<noteq> Ended" "signal_ok j (pool W)" "worker_turn i j W = Some r"
  shows "\<exists>W'. r = Inr W' \<and> works_ok W'"
proof -
  note W = works_okD [OF assms(1)]
  obtain x where x: "worker i j (pool W) = Some x" using assms(4) by (cases "worker i j (pool W)") (auto simp: worker_turn_def)
  obtain t where t: "x = Inr t" "reqs_ok t" using reqs_ok_worker [OF W(1) x] by blast
  have w: "worker i j (pool W) = Some (Inr t)" using x t(1) by simp
  note f = worker_frame [OF w] and e = worker_ending [OF w]
  have "i < nthreads (pool W)" using w by (simp add: worker_def split: if_splits)
  then have ini: "initialized W" using W(6) assms(2) by (cases "initialized W") (auto simp: no_pool_def)
  let ?V = "W\<lparr>pool := t\<rparr>"
  define V where "V = (case pcs (pool W) i of Running w \<Rightarrow> uv__queue_work w ?V | _ \<Rightarrow> ?V)"
  have V: "pool V = t" "initialized V = initialized W" "ending V = ending W" "reqs V = reqs W" "active_reqs V = active_reqs W"
      "after_calls V = after_calls W" "work_calls V = map (\<lambda>w. (work_cb (reqs W w), w)) (ran t)"
    using W(4) f(5) by (auto simp: V_def uv__queue_work_def calls_ok_def split: wpc.splits)
  have "calls_ok V" using W(4) f by (simp add: calls_ok_def V)
  moreover have "ending_ok V"
    using W(5) f e assms(2) by (auto simp: ending_ok_def V split: ending.splits)
  moreover have "alert t" using alert_worker [OF W(2) w assms(3)] .
  ultimately have "works_ok V" using t(2) W(3) [OF ini] f ini by (simp add: works_ok_def V)
  moreover have "r = Inr V" using assms(4) w by (simp add: worker_turn_def V_def Let_def split: wpc.splits)
  ultimately show ?thesis by blast
qed

text \<open>The steps of the pool that only move requests or wake a worker.\<close>

definition quiet :: "action \<Rightarrow> bool" where
  "quiet a \<longleftrightarrow> (case a of Wake _ \<Rightarrow> True | Cancel_end \<Rightarrow> True | Async \<Rightarrow> True | Move \<Rightarrow> True | _ \<Rightarrow> False)"

lemma quiet_frame:
  assumes "act a t = Some (Inr t')" "quiet a"
  shows "submitted t' = submitted t" "finished t' = finished t" "nthreads t' = nthreads t" "ran t' = ran t" "queue t' = queue t"
    "pcs t' k = Left \<longleftrightarrow> pcs t k = Left" "cancelling t = None \<Longrightarrow> cancelling t' = None" "t \<noteq> no_pool"
  using assms
  by (auto simp: quiet_def act_def cancel_end_def done_move_def no_pool_def split: action.splits if_splits option.splits)

lemma in_pool_ok:
  assumes "works_ok W" "ending W \<noteq> Ended" "quiet a" "in_pool a W = Some r"
  shows "\<exists>W'. r = Inr W' \<and> works_ok W'"
proof -
  note W = works_okD [OF assms(1)]
  have la: "loop_alert (pool W)" using W(2) by (simp add: alert_alt)
  obtain x where x: "act a (pool W) = Some x" using assms(4) by (cases "act a (pool W)") (auto simp: in_pool_def)
  obtain t where t: "x = Inr t" "reqs_ok t" using reqs_ok_act [OF W(1) la x] by blast
  have at: "act a (pool W) = Some (Inr t)" using x t(1) by simp
  note f = quiet_frame [OF at assms(3)]
  have ini: "initialized W" using f(8) W(6) assms(2) by blast
  have "alert t" using alert_act [OF W(2) at W(3) [OF ini]] by simp
  moreover have "gone t = gone (pool W)" using f by (simp add: gone_def)
  ultimately have "works_ok (W\<lparr>pool := t\<rparr>)"
    using t(2) W ini f assms(2) by (auto simp: works_ok_def calls_ok_def ending_ok_def split: ending.splits)
  moreover have "r = Inr (W\<lparr>pool := t\<rparr>)" using assms(4) at by (simp add: in_pool_def)
  ultimately show ?thesis by blast
qed

lemma submit_views:
  "submitted (uv__work_submit w j t) = submitted t @ [w]" "finished (uv__work_submit w j t) = finished t"
  "ran (uv__work_submit w j t) = ran t" "nthreads (uv__work_submit w j t) = nthreads t"
  "queue (uv__work_submit w j t) = queue t @ [Item w]" "gone (uv__work_submit w j t) = gone t"
  by (auto simp: uv__work_submit_def post_def Let_def) (auto simp: gone_def)

lemma post_views:
  "submitted (post q j t) = submitted t" "finished (post q j t) = finished t" "ran (post q j t) = ran t"
  "nthreads (post q j t) = nthreads t" "queue (post q j t) = queue t @ [q]" "gone (post q j t) = gone t"
  "cancelling (post q j t) = cancelling t"
  by (auto simp: post_def Let_def) (auto simp: gone_def)

lemma init_once_views:
  assumes "init_once val got c m oks = Inr t"
  shows "submitted t = []" "finished t = []" "ran t = []" "queue t = []" "\<not> gone t" "signal_ok j t"
  using assms by (auto simp: init_once_def Let_def gone_def signal_ok_def list_all_iff split: if_splits)

lemma queue_work_ok:
  assumes "works_ok W" "ending W = Not_ending" "w \<notin> set (submitted (pool W))" "initialized W \<Longrightarrow> signal_ok j (pool W)"
    "uv_queue_work E w cb after j W = r"
  shows "r = Inl Aborted \<or> (\<exists>e W'. r = Inr (e, W') \<and> works_ok W')"
proof (cases cb)
  case None
  then show ?thesis using assms(1,5) by (auto simp: uv_queue_work_def)
next
  case (Some c)
  note W = works_okD [OF assms(1)]
  obtain val got cc m oks where E: "E = (val, got, cc, m, oks)" by (cases E) auto
  let ?V = "W\<lparr>reqs := (reqs W)(w := \<lparr>req_type = UV_WORK, work_cb = c, after_work_cb = after\<rparr>), active_reqs := active_reqs W @ [w]\<rparr>"
  show ?thesis
  proof (cases "pool_once E ?V")
    case (Inl f)
    then have "r = Inl Aborted" using assms(5) Some E
      by (auto simp: uv_queue_work_def init_once_def Let_def bind_res_Inl_iff split: if_splits)
    then show ?thesis by simp
  next
    case (Inr V)
    then have V: "reqs V = reqs ?V" "active_reqs V = active_reqs ?V" "work_calls V = work_calls W" "after_calls V = after_calls W"
        "ending V = ending W" "initialized V"
      unfolding E by (auto split: if_splits)
    have P: "reqs_ok (pool V) \<and> alert (pool V) \<and> nthreads (pool V) \<noteq> 0 \<and> signal_ok j (pool V) \<and> submitted (pool V) = submitted (pool W)
        \<and> finished (pool V) = finished (pool W) \<and> ran (pool V) = ran (pool W) \<and> queue (pool V) = queue (pool W) \<and> gone (pool V) = gone (pool W)"
    proof (cases "initialized W")
      case True
      then show ?thesis using Inr W assms(4) E by auto
    next
      case False
      then obtain t where t: "init_once val got cc m oks = Inr t" "pool V = t" using Inr unfolding E by auto
      have n: "pool W = no_pool" using W(6) False assms(2) by simp
      show ?thesis using init_once_ok [OF t(1)] init_once_views(1-5) [OF t(1)] init_once_views(6) [OF t(1), of j] t(2) by (simp add: n) (simp add: no_pool_def gone_def)
    qed
    let ?X = "V\<lparr>pool := uv__work_submit w j (pool V)\<rparr>"
    have new: "w \<notin> set (ran (pool W))" "w \<notin> fst ` set (finished (pool W))" using excl_cases(5) [OF W(1) assms(3)] by simp_all
    have "reqs_ok (pool ?X)" using reqs_ok_submit [of "pool V" w j] P assms(3) by simp
    moreover have "alert (pool ?X)"
    proof -
      let ?u = "(pool V)\<lparr>work_of := (work_of (pool V))(w := Work_fun), submitted := submitted (pool V) @ [w]\<rparr>"
      have "waiting ?u = waiting (pool V)" "loop_alert ?u = loop_alert (pool V)" "signal_ok j ?u = signal_ok j (pool V)"
        by (simp_all add: waiting_def loop_alert_def signal_ok_def)
      then show ?thesis using alert_post [of ?u j "Item w"] P by (simp add: uv__work_submit_def alert_alt)
    qed
    moreover have "calls_ok ?X"
    proof -
      have "after_of (reqs ?V) (finished (pool W)) = after_of (reqs W) (finished (pool W))"
        using new(2) by (intro after_of_cong) auto
      moreover have "map (\<lambda>x. (work_cb (reqs ?V x), x)) (ran (pool W)) = map (\<lambda>x. (work_cb (reqs W x), x)) (ran (pool W))"
        using new(1) by auto
      ultimately show ?thesis using W(4) P by (simp add: calls_ok_def V submit_views)
    qed
    moreover have "ending_ok ?X" using W(5) P assms(2) by (simp add: ending_ok_def V submit_views)
    ultimately have "works_ok ?X" using P V by (simp add: works_ok_def submit_views)
    moreover have "r = Inr (0, ?X)" using assms(5) Some Inr by (simp add: uv_queue_work_def)
    ultimately show ?thesis by blast
  qed
qed

lemma cancel_views:
  assumes "uv__work_cancel w t = Inr (b, t')"
  shows "submitted t' = submitted t" "finished t' = finished t" "ran t' = ran t" "nthreads t' = nthreads t" "gone t' = gone t"
    "set (queue t') \<subseteq> set (queue t)"
  using assms by (auto simp: uv__work_cancel_def gone_def split: if_splits)

lemma cancel_ok:
  assumes "works_ok W" "ending W = Not_ending" "cancelling (pool W) = None" "w \<in> set (submitted (pool W))" "w \<notin> fst ` set (finished (pool W))"
  shows "\<exists>e W'. uv_cancel w W = Inr (e, W') \<and> works_ok W'"
proof (cases "req_type (reqs W w) \<in> {UV_FS, UV_GETADDRINFO, UV_GETNAMEINFO, UV_WORK}")
  case True
  note W = works_okD [OF assms(1)]
  obtain b t where t: "uv__work_cancel w (pool W) = Inr (b, t)" "reqs_ok t" using reqs_ok_cancel [OF W(1) assms(3-5)] by blast
  note f = cancel_views [OF t(1)]
  have ini: "initialized W" using assms(2,4) W(6) by (cases "initialized W") (auto simp: no_pool_def)
  have "act (Cancel w) (pool W) = Some (Inr t)" using assms(3-5) t(1) by (simp add: act_def)
  then have "alert t" using alert_act [OF W(2) _ W(3) [OF ini]] by blast
  then have "works_ok (W\<lparr>pool := t\<rparr>)"
    using t(2) W ini f assms(2) by (auto simp: works_ok_def calls_ok_def ending_ok_def)
  moreover have "uv_cancel w W = Inr (if b then 0 else - EBUSY, W\<lparr>pool := t\<rparr>)" using True t(1) by (auto simp: uv_cancel_def)
  ultimately show ?thesis by blast
qed (use assms(1) in \<open>auto simp: uv_cancel_def\<close>)

lemma done_turn_ok:
  assumes "works_ok W" "ending W = Not_ending" "cancelling (pool W) = None" "done_turn W = Some r"
  shows "\<exists>W'. r = Inr W' \<and> works_ok W'"
proof -
  note W = works_okD [OF assms(1)]
  obtain t where t: "done_one (pool W) = Some t" using assms(4) by (cases "done_one (pool W)") (auto simp: done_turn_def)
  obtain w q where q: "local_wq (pool W) = w # q" using t by (cases "local_wq (pool W)") (auto simp: done_one_def)
  let ?err = "if work_of (pool W) w = Cancelled_fun then - ECANCELED else 0"
  have tt: "t = (pool W)\<lparr>local_wq := q, finished := finished (pool W) @ [(w, ?err)]\<rparr>" using t q by (simp add: done_one_def Let_def)
  have ini: "initialized W" using q assms(2) W(6) by (cases "initialized W") (auto simp: no_pool_def)
  have at: "act Done (pool W) = Some (Inr t)" using t assms(3) by (simp add: act_def)
  have ok: "reqs_ok t" "alert t" using reqs_ok_done [OF W(1) t] alert_act [OF W(2) at W(3) [OF ini]] by simp_all
  have sub: "w \<in># mset (active_reqs W)"
  proof -
    have "w \<in># mset (submitted (pool W))" "w \<notin> fst ` set (finished (pool W))"
      using excl_cases(4,5) [OF W(1), of w] q by auto
    moreover have "set_mset (mset (submitted (pool W))) = set (active_reqs W) \<union> fst ` set (finished (pool W))"
      using W(4) unfolding calls_ok_def by (metis set_mset_mset set_mset_union list.set_map)
    ultimately show ?thesis by simp
  qed
  define V where "V = (let W = W\<lparr>pool := t, active_reqs := remove1 w (active_reqs W)\<rparr> in
      case after_work_cb (reqs W w) of None \<Rightarrow> W | Some c \<Rightarrow> W\<lparr>after_calls := after_calls W @ [(c, w, ?err)]\<rparr>)"
  have r: "r = Inr V"
    using assms(4) t sub by (auto simp: done_turn_def tt uv__queue_done_def V_def Let_def split: option.splits)
  have V: "pool V = t" "initialized V = initialized W" "reqs V = reqs W" "active_reqs V = remove1 w (active_reqs W)"
      "work_calls V = work_calls W" "ending V = ending W"
      "after_calls V = after_calls W @ (case after_work_cb (reqs W w) of None \<Rightarrow> [] | Some c \<Rightarrow> [(c, w, ?err)])"
    by (auto simp: V_def Let_def split: option.splits)
  have "mset (active_reqs V) + mset (map fst (finished t))
      = add_mset w (mset (active_reqs W) - {#w#}) + mset (map fst (finished (pool W)))" by (simp add: V tt)
  also have "\<dots> = mset (submitted t)"
    unfolding insert_DiffM [OF sub] using W(4) by (simp add: calls_ok_def tt)
  finally have "calls_ok V" using W(4) by (simp add: calls_ok_def V) (simp add: tt after_of_append)
  moreover have "ending_ok V" using W(5) assms(2) by (simp add: ending_ok_def V tt gone_def)
  ultimately have "works_ok V" using ok W(3) [OF ini] ini by (simp add: works_ok_def V) (simp add: tt)
  then show ?thesis using r by blast
qed

lemma items_all: "Exit_message \<notin> set q \<Longrightarrow> map Item (items q) = q"
  by (induction q rule: items.induct) auto

lemma cleanup_ok:
  assumes "works_ok W" "ending W = Not_ending" "cancelling (pool W) = None" "initialized W \<Longrightarrow> signal_ok j (pool W)"
  shows "works_ok (cleanup j W)"
proof (cases "initialized W")
  case False
  then show ?thesis using works_okD [OF assms(1)] assms(2)
    by (simp add: cleanup_def works_ok_def calls_ok_def ending_ok_def) (simp add: no_pool_def)
next
  case True
  note W = works_okD [OF assms(1)]
  let ?t = "post Exit_message j (pool W)"
  have at: "act (Leave j) (pool W) = Some (Inr ?t)" using assms(4) True by (simp add: act_def)
  have la: "loop_alert (pool W)" using W(2) by (simp add: alert_alt)
  have "reqs_ok ?t" "alert ?t" using reqs_ok_act [OF W(1) la at] alert_act [OF W(2) at W(3) [OF True]] by auto
  moreover have "queue (pool W) = map Item (items (queue (pool W)))" if "Exit_message \<notin> set (queue (pool W))"
    using items_all [OF that] by simp
  ultimately show ?thesis using W True assms(2,3)
    by (auto simp: cleanup_def works_ok_def calls_ok_def ending_ok_def post_views)
qed

lemma cleanup_join_ok:
  assumes "works_ok W" "cleanup_join e W = Some r"
  shows "r = Inl Aborted \<or> (\<exists>W'. r = Inr W' \<and> works_ok W')"
proof -
  note W = works_okD [OF assms(1)]
  obtain k where k: "ending W = Joining k" using assms(2) by (cases "ending W") (auto simp: cleanup_join_def)
  have E: "initialized W" "k \<le> nthreads (pool W)" "\<forall>i<k. pcs (pool W) i = Left" "cancelling (pool W) = None"
      "gone (pool W) \<longrightarrow> queue (pool W) = [Exit_message]" "\<exists>ws. queue (pool W) = map Item ws @ [Exit_message]"
    using W(5) by (auto simp: ending_ok_def k)
  show ?thesis
  proof (cases "k < nthreads (pool W)")
    case True
    have "works_ok (W\<lparr>ending := Joining (Suc k)\<rparr>)" if "pcs (pool W) k = Left"
      using W E True that by (auto simp: works_ok_def calls_ok_def ending_ok_def less_Suc_eq)
    then show ?thesis using assms(2) True k by (auto simp: cleanup_join_def split: if_splits)
  next
    case False
    then have all: "\<forall>i<nthreads (pool W). pcs (pool W) i = Left" using E(2,3) by auto
    then have "gone (pool W)" using W(3) [OF E(1)] by (auto simp: gone_def)
    then have "works_ok (W\<lparr>initialized := False, ending := Ended\<rparr>)"
      using W E all by (auto simp: works_ok_def calls_ok_def ending_ok_def)
    then show ?thesis using assms(2) False k by (auto simp: cleanup_join_def split: if_splits)
  qed
qed

text \<open>The only failures are \<open>abort\<close> when the pool cannot be made or a thread cannot be joined.\<close>

definition may_abort :: "wact \<Rightarrow> bool" where
  "may_abort a \<longleftrightarrow> (case a of Queue_work _ _ _ _ _ \<Rightarrow> True | Join _ \<Rightarrow> True | _ \<Rightarrow> False)"

lemma wact_queue_ok:
  assumes "works_ok W" "wact (Queue_work E w cb after j) W = Some r"
  shows "r = Inl Aborted \<or> (\<exists>W'. r = Inr W' \<and> works_ok W')"
proof -
  have q: "ending W = Not_ending" "w \<notin> set (submitted (pool W))" "initialized W \<Longrightarrow> signal_ok j (pool W)"
      "r = bind_res (uv_queue_work E w cb after j W) (\<lambda>(_, W). Inr W)"
    using assms(2) by (simp_all add: wact_def split: if_splits)
  have "uv_queue_work E w cb after j W = Inl Aborted \<or> (\<exists>e W'. uv_queue_work E w cb after j W = Inr (e, W') \<and> works_ok W')"
    by (rule queue_work_ok [OF assms(1) q(1,2) _ refl]) (rule q(3))
  then show ?thesis
  proof (elim disjE exE conjE)
    fix e W'
    assume "uv_queue_work E w cb after j W = Inr (e, W')" "works_ok W'"
    then show ?thesis using q(4) by simp
  qed (use q(4) in simp)
qed

lemma wact_ok:
  assumes "works_ok W" "wact a W = Some r"
  shows "r = Inl Aborted \<and> may_abort a \<or> (\<exists>W'. r = Inr W' \<and> works_ok W')"
proof (cases a)
  case (Queue_work E w cb after j)
  then show ?thesis using wact_queue_ok [OF assms(1)] assms(2) by (simp add: may_abort_def)
next
  case (Worker_turn i j)
  then show ?thesis using assms worker_turn_ok [OF assms(1)] by (simp add: wact_def split: if_splits)
next
  case (Wake_up i)
  then show ?thesis using assms in_pool_ok [OF assms(1), of "Wake i"] by (simp add: wact_def quiet_def split: if_splits)
next
  case (Cancel_req w)
  then have c: "ending W = Not_ending" "cancelling (pool W) = None" "w \<in> set (submitted (pool W))" "w \<notin> fst ` set (finished (pool W))"
      "r = bind_res (uv_cancel w W) (\<lambda>(_, W). Inr W)" using assms(2) by (simp_all add: wact_def split: if_splits)
  obtain e W' where "uv_cancel w W = Inr (e, W')" "works_ok W'" using cancel_ok [OF assms(1) c(1-4)] by blast
  then show ?thesis using c(5) by simp
next
  case Cancel_rest
  then show ?thesis using assms in_pool_ok [OF assms(1), of Cancel_end] by (simp add: wact_def quiet_def split: if_splits)
next
  case Loop_async
  then show ?thesis using assms in_pool_ok [OF assms(1), of Async] by (simp add: wact_def quiet_def split: if_splits)
next
  case Loop_take
  then show ?thesis using assms in_pool_ok [OF assms(1), of Move] by (simp add: wact_def quiet_def split: if_splits)
next
  case Loop_done
  then show ?thesis using assms done_turn_ok [OF assms(1)] by (simp add: wact_def split: if_splits)
next
  case (Exit j)
  then have c: "ending W = Not_ending" "cancelling (pool W) = None" "initialized W \<Longrightarrow> signal_ok j (pool W)" "r = Inr (cleanup j W)"
    using assms(2) by (simp_all add: wact_def split: if_splits)
  have "works_ok (cleanup j W)" by (rule cleanup_ok [OF assms(1) c(1,2)]) (rule c(3))
  then show ?thesis using c(4) by simp
next
  case (Join e)
  then show ?thesis using assms cleanup_join_ok [OF assms(1)] by (simp add: wact_def may_abort_def)
qed

lemma works_reach_ok: "works_reach no_works W \<Longrightarrow> works_ok W"
proof (induction rule: works_reach.induct)
  case (step W a W')
  then show ?case using wact_ok [of W a "Inr W'"] by blast
qed (rule no_works_ok)

section \<open>\<open>cleanup\<close> ends\<close>

text \<open>An upper bound of the steps that are left once \<open>cleanup\<close> has posted its message.\<close>

fun rank :: "wpc \<Rightarrow> nat" where
  "rank Left = 0"
| "rank At_top = 1"
| "rank Woken = 1"
| "rank Blocked = 2"
| "rank (Finishing w) = 2"
| "rank (Running w) = 3"

definition turns_left :: "uv_works \<Rightarrow> nat" where
  "turns_left W = 4 * length (items (queue (pool W))) + (\<Sum>i<nthreads (pool W). rank (pcs (pool W) i))
     + (case ending W of Joining k \<Rightarrow> Suc (nthreads (pool W)) - k | _ \<Rightarrow> 0)"

definition ranks :: "uv_pool \<Rightarrow> nat" where
  "ranks t = (\<Sum>i<nthreads t. rank (pcs t i))"

lemma ranks_set_pc: "i < nthreads t \<Longrightarrow> ranks (set_pc i p t) + rank (pcs t i) = ranks t + rank p"
proof -
  assume i: "i < nthreads t"
  have s: "(\<Sum>k<n. f k) = f i + (\<Sum>k\<in>{..<n} - {i}. f k)" if "i < n" for n and f :: "nat \<Rightarrow> nat"
    using that by (intro sum.remove) auto
  have "(\<Sum>k\<in>{..<nthreads t} - {i}. rank (((pcs t)(i := p)) k)) = (\<Sum>k\<in>{..<nthreads t} - {i}. rank (pcs t k))"
    by (intro sum.cong) auto
  then show ?thesis using i by (simp add: ranks_def set_pc_def s [OF i])
qed

lemma ranks_cong: "pcs t' = pcs t \<Longrightarrow> nthreads t' = nthreads t \<Longrightarrow> ranks t' = ranks t"
  by (simp add: ranks_def)

lemma ranks_signal: "ranks (signal j t) \<le> ranks t"
  using ranks_set_pc [of j t Woken] by (auto simp: signal_def)

lemma look_ranks:
  assumes "i < nthreads t" "pcs t i = At_top \<or> pcs t i = Woken" "queue t \<noteq> []"
  shows "4 * length (items (queue (look i j t))) + ranks (look i j t) < 4 * length (items (queue t)) + ranks t"
proof -
  have r: "rank (pcs t i) = 1" using assms(2) by auto
  obtain x q where q: "queue t = x # q" using assms(3) by (cases "queue t") auto
  show ?thesis
  proof (cases x)
    case Exit_message
    have "pcs (signal j t) i = pcs t i" using assms(2) by (auto simp: pcs_signal)
    then have "ranks (set_pc i Left (signal j t)) + 1 = ranks (signal j t)"
      using ranks_set_pc [of i "signal j t" Left] assms(1) r by simp
    then show ?thesis using ranks_signal [of j t] q Exit_message by (simp add: look_def)
  next
    case (Item w)
    have "ranks (set_pc i (Running w) (t\<lparr>queue := q\<rparr>)) + 1 = ranks t + 3"
      using ranks_set_pc [of i "t\<lparr>queue := q\<rparr>" "Running w"] assms(1) r ranks_cong [of "t\<lparr>queue := q\<rparr>" t] by simp
    then show ?thesis using q Item by (simp add: look_def)
  qed
qed

lemma worker_ranks:
  assumes "worker i j t = Some (Inr t')" "queue t \<noteq> []"
  shows "4 * length (items (queue t')) + ranks t' < 4 * length (items (queue t)) + ranks t"
proof -
  have i: "i < nthreads t" using assms(1) by (simp add: worker_def split: if_splits)
  show ?thesis
  proof (cases "pcs t i")
    case At_top
    then have "t' = look i j t" using assms(1) i by (simp add: worker_def)
    then show ?thesis using look_ranks [OF i _ assms(2)] At_top by simp
  next
    case Woken
    let ?u = "t\<lparr>idle_threads := idle_threads t - 1\<rparr>"
    have "ranks ?u = ranks t" by (rule ranks_cong) simp_all
    have "t' = look i j ?u" using assms(1) Woken i by (simp add: worker_def)
    then show ?thesis using look_ranks [of i ?u j] \<open>ranks ?u = ranks t\<close> assms(2) Woken i by simp
  next
    case (Running w)
    let ?u = "t\<lparr>ran := ran t @ [w]\<rparr>"
    have "ranks ?u = ranks t" by (rule ranks_cong) simp_all
    then show ?thesis using assms Running i ranks_set_pc [of i ?u "Finishing w"] by (auto simp: worker_def split: wfun.splits)
  next
    case (Finishing w)
    let ?u = "t\<lparr>work_of := (work_of t)(w := No_fun), loop_wq := loop_wq t @ [w], async_sent := True\<rparr>"
    have "ranks ?u = ranks t" by (rule ranks_cong) simp_all
    then show ?thesis using assms Finishing i ranks_set_pc [of i ?u At_top] by (auto simp: worker_def)
  qed (use assms(1) i in \<open>simp_all add: worker_def\<close>)
qed

lemma joining_step:
  assumes "works_ok W" "ending W = Joining k" "wact a W = Some (Inr W')"
  shows "turns_left W' < turns_left W"
proof -
  have E: "k \<le> nthreads (pool W)" "cancelling (pool W) = None" "queue (pool W) \<noteq> []"
    using works_okD(5) [OF assms(1)] by (auto simp: ending_ok_def assms(2))
  have t: "turns_left V = 4 * length (items (queue (pool V))) + ranks (pool V)
      + (case ending V of Joining k \<Rightarrow> Suc (nthreads (pool V)) - k | _ \<Rightarrow> 0)" for V
    by (simp add: turns_left_def ranks_def)
  consider (turn) i j where "a = Worker_turn i j" | (wake) i where "a = Wake_up i" | (join) e where "a = Join e"
    using assms(2,3) by (cases a) (auto simp: wact_def)
  then show ?thesis
  proof cases
    case turn
    have "worker i j (pool W) = Some (Inr (pool W')) \<and> ending W' = ending W"
      using assms(3) turn
      by (cases "pcs (pool W) i") (auto simp: wact_def worker_turn_def run_bind_Inr_iff uv__queue_work_def Let_def split: if_splits)
    then show ?thesis using worker_ranks [of i j "pool W" "pool W'"] E worker_frame(3) [of i j "pool W" "pool W'"] assms(2)
      by (simp add: t)
  next
    case wake
    then have w: "i < nthreads (pool W)" "pcs (pool W) i = Blocked" "W' = W\<lparr>pool := set_pc i Woken (pool W)\<rparr>"
      using assms(2,3) by (auto simp: wact_def in_pool_def act_def split: if_splits)
    then show ?thesis using ranks_set_pc [OF w(1), of Woken] assms(2) by (simp add: t)
  next
    case join
    then show ?thesis using assms(2,3) E by (auto simp: wact_def cleanup_join_def t split: if_splits)
  qed
qed

lemma joining_progress:
  assumes "works_ok W" "ending W = Joining k"
  shows "\<exists>a W'. wact a W = Some (Inr W')"
proof (cases "k < nthreads (pool W) \<and> pcs (pool W) k \<noteq> Left")
  case False
  then show ?thesis using assms(2) by (intro exI [of _ "Join 0"]) (auto simp: wact_def cleanup_join_def)
next
  case True
  note W = works_okD [OF assms(1)]
  have "queue (pool W) \<noteq> []" using W(5) by (auto simp: ending_ok_def assms(2))
  then have "awake (pool W)" using W(2) by (simp add: alert_def)
  then obtain i where i: "i < nthreads (pool W)" "pcs (pool W) i \<noteq> Blocked" "pcs (pool W) i \<noteq> Left"
    using True by (auto simp: awake_def)
  have "\<exists>j. signal_ok j (pool W)" by (auto simp: signal_ok_def list_all_iff)
  then obtain j where j: "signal_ok j (pool W)" by blast
  have "worker i j (pool W) \<noteq> None" using i by (auto simp: worker_def split: wpc.splits wfun.splits)
  then obtain x where x: "worker i j (pool W) = Some x" by blast
  obtain r where r: "worker_turn i j W = Some r" by (cases x) (simp_all add: worker_turn_def x Let_def)
  have a: "wact (Worker_turn i j) W = Some r" using r j assms(2) by (simp add: wact_def)
  then obtain W' where "r = Inr W'" using wact_ok [OF assms(1) a] by (auto simp: may_abort_def)
  then show ?thesis using a by blast
qed

lemma ended_done:
  assumes "works_ok W" "ending W = Ended" "w \<in> set (submitted (pool W))"
  shows "w \<in> set (ran (pool W)) \<or> work_of (pool W) w = Cancelled_fun \<or> (w, - ECANCELED) \<in> set (finished (pool W))"
proof -
  note W = works_okD [OF assms(1)]
  have E: "\<forall>i<nthreads (pool W). pcs (pool W) i = Left" "items (queue (pool W)) = []" "cancelling (pool W) = None"
    using W(5) by (simp_all add: ending_ok_def assms(2))
  have "Item w \<notin> set (queue (pool W))" "\<not> holds (pool W) w" using E set_items [of w "queue (pool W)"] by (auto simp: holds_def)
  then have "w \<in> set (loop_wq (pool W)) \<union> set (local_wq (pool W)) \<or> w \<in> fst ` set (finished (pool W))"
    using single_excl [OF reqs_okD(1) [OF W(1)], of w] assms(3) E(3) by (auto simp: of_bool_def split: if_splits)
  then show ?thesis using reqs_okD(2) [OF W(1), of w] by (fastforce simp: req_ok_def split: if_splits)
qed

section \<open>Properties\<close>

text \<open>
  C37: Work requests, in any interleaving.  No step fails, except by \<open>abort\<close> when the pool cannot
  be made or a thread cannot be joined.  A request keeps the loop alive from \<open>uv_queue_work\<close> until
  it is finished, and no longer; its work callback is called at most once, by the thread that runs
  it, and its after-work callback, if there is one, exactly when it is finished, with the status.
\<close>
theorem uv_work_requests:
  assumes "works_reach no_works W"
  shows "(\<forall>a r. wact a W = Some r \<longrightarrow> r = Inl Aborted \<and> may_abort a \<or> (\<exists>W'. r = Inr W'))
    \<and> distinct (active_reqs W) \<and> set (active_reqs W) = set (submitted (pool W)) - fst ` set (finished (pool W))
    \<and> distinct (map snd (work_calls W)) \<and> (\<forall>(c, w) \<in> set (work_calls W). c = work_cb (reqs W w) \<and> w \<in> set (submitted (pool W)))
    \<and> after_calls W = after_of (reqs W) (finished (pool W))"
proof -
  have ok: "works_ok W" using assms by (rule works_reach_ok)
  note W = works_okD [OF ok]
  have c: "mset (active_reqs W) + mset (map fst (finished (pool W))) = mset (submitted (pool W))"
      "work_calls W = map (\<lambda>w. (work_cb (reqs W w), w)) (ran (pool W))"
    using W(4) by (simp_all add: calls_ok_def)
  have "distinct (submitted (pool W))" using reqs_okD(1) [OF W(1)] by (simp add: single_def)
  moreover have "mset (active_reqs W @ map fst (finished (pool W))) = mset (submitted (pool W))" using c(1) by simp
  ultimately have d: "distinct (active_reqs W @ map fst (finished (pool W)))"
      "set (active_reqs W @ map fst (finished (pool W))) = set (submitted (pool W))"
    by (metis mset_eq_imp_distinct_iff, metis set_mset_mset)
  have "w \<in> set (ran (pool W)) \<Longrightarrow> w \<in> set (submitted (pool W))" for w using reqs_okD(2) [OF W(1), of w] by (simp add: req_ok_def)
  moreover have "map snd (work_calls W) = ran (pool W)" by (simp add: c(2) comp_def)
  moreover have "set (active_reqs W) = set (submitted (pool W)) - fst ` set (finished (pool W))" using d by auto
  moreover have "wact a W = Some r \<Longrightarrow> r = Inl Aborted \<and> may_abort a \<or> (\<exists>W'. r = Inr W')" for a r
    using wact_ok [OF ok] by blast
  moreover have "after_calls W = after_of (reqs W) (finished (pool W))" using W(4) by (simp add: calls_ok_def)
  moreover have "\<forall>(c, w) \<in> set (work_calls W). c = work_cb (reqs W w) \<and> w \<in> set (ran (pool W))" by (auto simp: c(2))
  ultimately show ?thesis using d(1) reqs_okD(3) [OF W(1)] by fastforce
qed

fun run_wacts :: "wact list \<Rightarrow> uv_works \<Rightarrow> uv_works option" where
  "run_wacts [] W = Some W"
| "run_wacts (a # as) W = (case wact a W of Some (Inr W') \<Rightarrow> run_wacts as W' | _ \<Rightarrow> None)"

lemma run_wacts_reach: "works_reach W0 W \<Longrightarrow> run_wacts as W = Some W' \<Longrightarrow> works_reach W0 W'"
  by (induction as arbitrary: W) (auto split: option.splits sum.splits intro: works_reach.step)

lemmas works_run_defs = wact_def uv_queue_work_def init_once_def thread_count_def MAX_THREADPOOL_SIZE_def no_works_def no_pool_def
  uv__work_submit_def post_def signal_def signal_ok_def set_pc_def worker_turn_def worker_def look_def uv__queue_work_def in_pool_def act_def
  done_move_def done_turn_def done_one_def uv__queue_done_def cleanup_def cleanup_join_def Let_def

text \<open>One worker: request 7 is finished, request 8 waits.\<close>

lemma one_finished:
  "\<exists>W. run_wacts [Queue_work (Some 0, True, True, True, [True]) 7 (Some 1) (Some 2) 0, Worker_turn 0 0, Worker_turn 0 0,
      Worker_turn 0 0, Queue_work (Some 0, True, True, True, [True]) 8 (Some 1) None 0, Loop_async, Loop_take, Loop_done] no_works = Some W
   \<and> submitted (pool W) = [7, 8] \<and> finished (pool W) = [(7, 0)] \<and> work_calls W = [(1, 7)] \<and> after_calls W = [(2, 7, 0)]"
  by (simp add: works_run_defs)

lemma uv_work_requests_witness:
  "\<exists>W. works_reach no_works W \<and> work_calls W = [(1, 7)] \<and> after_calls W = [(2, 7, 0)] \<and> set (active_reqs W) = {8}"
proof -
  obtain W where W: "works_reach no_works W" "submitted (pool W) = [7, 8]" "finished (pool W) = [(7, 0)]"
      "work_calls W = [(1, 7)]" "after_calls W = [(2, 7, 0)]"
    using one_finished run_wacts_reach [OF works_reach.start] by blast
  have "set (active_reqs W) = set (submitted (pool W)) - fst ` set (finished (pool W))"
    using uv_work_requests [OF W(1)] by blast
  then show ?thesis using W by auto
qed

text \<open>
  C38: \<open>cleanup\<close> returns, and only when all the work is done.  From the post of the exit message on
  some step is always possible and every step brings the end nearer by the measure \<open>turns_left\<close>,
  so there are at most that many; at the end every worker has left its function, and every request
  that was queued before has run or was cancelled.
\<close>
theorem uv_cleanup_waits:
  assumes "works_reach no_works W"
  shows "(\<forall>k. ending W = Joining k \<longrightarrow> (\<exists>a W'. wact a W = Some (Inr W'))
        \<and> (\<forall>a W'. wact a W = Some (Inr W') \<longrightarrow> turns_left W' < turns_left W))
    \<and> (ending W = Ended \<longrightarrow> (\<forall>i<nthreads (pool W). pcs (pool W) i = Left)
        \<and> (\<forall>w \<in> set (submitted (pool W)). w \<in> set (map snd (work_calls W)) \<or> work_of (pool W) w = Cancelled_fun
             \<or> (w, - ECANCELED) \<in> set (finished (pool W))))"
proof -
  have ok: "works_ok W" using assms by (rule works_reach_ok)
  have "map snd (work_calls W) = ran (pool W)" using works_okD(4) [OF ok] by (simp add: calls_ok_def comp_def)
  then show ?thesis
    using joining_progress [OF ok] joining_step [OF ok] ended_done [OF ok] works_okD(5) [OF ok] by (auto simp: ending_ok_def)
qed

text \<open>The program ends while request 7 is queued.\<close>

lemma ended_run:
  "\<exists>W. run_wacts [Queue_work (Some 0, True, True, True, [True]) 7 (Some 1) None 0, Exit 0, Worker_turn 0 0, Worker_turn 0 0,
      Worker_turn 0 0, Worker_turn 0 0, Join 0, Join 0] no_works = Some W
   \<and> ending W = Ended \<and> submitted (pool W) = [7] \<and> nthreads (pool W) = 1 \<and> finished (pool W) = [] \<and> work_of (pool W) 7 = No_fun"
  by (simp add: works_run_defs)

lemma uv_cleanup_waits_witness:
  "\<exists>W. works_reach no_works W \<and> ending W = Ended \<and> pcs (pool W) 0 = Left \<and> 7 \<in> set (map snd (work_calls W))"
proof -
  obtain W where W: "works_reach no_works W" "ending W = Ended" "submitted (pool W) = [7]" "nthreads (pool W) = 1"
      "finished (pool W) = []" "work_of (pool W) 7 = No_fun"
    using ended_run run_wacts_reach [OF works_reach.start] by blast
  show ?thesis using uv_cleanup_waits [OF W(1)] W by auto
qed

end
