(* ===== verification/UvErrno.thy ===== *)
theory UvErrno
  imports UvInet
begin

text \<open>
  Error codes and their names: \<open>third/libuv/include/uv-errno.h\<close>, \<open>UV_ERRNO_MAP\<close> of
  \<open>include/uv.h\<close>, \<open>uv_err_name\<close> and \<open>uv_strerror\<close> of \<open>src/uv-common.c\<close>.

  Which error numbers the system has is the function \<open>sys\<close>, what \<open><errno.h>\<close> defines; a code is
  the negated number or, where there is none, the fallback of the header.
\<close>

section \<open>Tables\<close>

definition fixed_codes :: "(string \<times> int) list" where
  "fixed_codes = [
    (''EOF'', - 4095), (''UNKNOWN'', - 4094), (''EAI_ADDRFAMILY'', - 3000),
    (''EAI_AGAIN'', - 3001), (''EAI_BADFLAGS'', - 3002), (''EAI_CANCELED'', - 3003),
    (''EAI_FAIL'', - 3004), (''EAI_FAMILY'', - 3005), (''EAI_MEMORY'', - 3006),
    (''EAI_NODATA'', - 3007), (''EAI_NONAME'', - 3008), (''EAI_OVERFLOW'', - 3009),
    (''EAI_SERVICE'', - 3010), (''EAI_SOCKTYPE'', - 3011), (''EAI_BADHINTS'', - 3013),
    (''EAI_PROTOCOL'', - 3014)]"

text \<open>The codes used where the system does not define the name.\<close>

definition fallback_codes_1 :: "(string \<times> int) list" where
  "fallback_codes_1 = [
    (''E2BIG'', - 4093), (''EACCES'', - 4092), (''EADDRINUSE'', - 4091),
    (''EADDRNOTAVAIL'', - 4090), (''EAFNOSUPPORT'', - 4089), (''EAGAIN'', - 4088),
    (''EALREADY'', - 4084), (''EBADF'', - 4083), (''EBUSY'', - 4082), (''ECANCELED'', - 4081),
    (''ECHARSET'', - 4080), (''ECONNABORTED'', - 4079), (''ECONNREFUSED'', - 4078),
    (''ECONNRESET'', - 4077), (''EDESTADDRREQ'', - 4076), (''EEXIST'', - 4075),
    (''EFAULT'', - 4074), (''EHOSTUNREACH'', - 4073), (''EINTR'', - 4072), (''EINVAL'', - 4071)]"

definition fallback_codes_2 :: "(string \<times> int) list" where
  "fallback_codes_2 = [
    (''EIO'', - 4070), (''EISCONN'', - 4069), (''EISDIR'', - 4068), (''ELOOP'', - 4067),
    (''EMFILE'', - 4066), (''EMSGSIZE'', - 4065), (''ENAMETOOLONG'', - 4064),
    (''ENETDOWN'', - 4063), (''ENETUNREACH'', - 4062), (''ENFILE'', - 4061), (''ENOBUFS'', - 4060),
    (''ENODEV'', - 4059), (''ENOENT'', - 4058), (''ENOMEM'', - 4057), (''ENONET'', - 4056),
    (''ENOSPC'', - 4055), (''ENOSYS'', - 4054), (''ENOTCONN'', - 4053), (''ENOTDIR'', - 4052),
    (''ENOTEMPTY'', - 4051)]"

definition fallback_codes_3 :: "(string \<times> int) list" where
  "fallback_codes_3 = [
    (''ENOTSOCK'', - 4050), (''ENOTSUP'', - 4049), (''EPERM'', - 4048), (''EPIPE'', - 4047),
    (''EPROTO'', - 4046), (''EPROTONOSUPPORT'', - 4045), (''EPROTOTYPE'', - 4044),
    (''EROFS'', - 4043), (''ESHUTDOWN'', - 4042), (''ESPIPE'', - 4041), (''ESRCH'', - 4040),
    (''ETIMEDOUT'', - 4039), (''ETXTBSY'', - 4038), (''EXDEV'', - 4037), (''EFBIG'', - 4036),
    (''ENOPROTOOPT'', - 4035), (''ERANGE'', - 4034), (''ENXIO'', - 4033), (''EMLINK'', - 4032),
    (''EHOSTDOWN'', - 4031)]"

definition fallback_codes :: "(string \<times> int) list" where
  "fallback_codes = fallback_codes_1 @ fallback_codes_2 @ fallback_codes_3"

definition UV_ERRNO_MAP :: "(string \<times> string) list" where
  "UV_ERRNO_MAP = [
    (''E2BIG'', ''argument list too long''), (''EACCES'', ''permission denied''),
    (''EADDRINUSE'', ''address already in use''), (''EADDRNOTAVAIL'', ''address not available''),
    (''EAFNOSUPPORT'', ''address family not supported''),
    (''EAGAIN'', ''resource temporarily unavailable''),
    (''EAI_ADDRFAMILY'', ''address family not supported''), (''EAI_AGAIN'', ''temporary failure''),
    (''EAI_BADFLAGS'', ''bad ai_flags value''), (''EAI_BADHINTS'', ''invalid value for hints''),
    (''EAI_CANCELED'', ''request canceled''), (''EAI_FAIL'', ''permanent failure''),
    (''EAI_FAMILY'', ''ai_family not supported''), (''EAI_MEMORY'', ''out of memory''),
    (''EAI_NODATA'', ''no address''), (''EAI_NONAME'', ''unknown node or service''),
    (''EAI_OVERFLOW'', ''argument buffer overflow''),
    (''EAI_PROTOCOL'', ''resolved protocol is unknown''),
    (''EAI_SERVICE'', ''service not available for socket type''),
    (''EAI_SOCKTYPE'', ''socket type not supported''),
    (''EALREADY'', ''connection already in progress''), (''EBADF'', ''bad file descriptor''),
    (''EBUSY'', ''resource busy or locked''), (''ECANCELED'', ''operation canceled''),
    (''ECHARSET'', ''invalid Unicode character''),
    (''ECONNABORTED'', ''software caused connection abort''),
    (''ECONNREFUSED'', ''connection refused''), (''ECONNRESET'', ''connection reset by peer''),
    (''EDESTADDRREQ'', ''destination address required''), (''EEXIST'', ''file already exists''),
    (''EFAULT'', ''bad address in system call argument''), (''EFBIG'', ''file too large''),
    (''EHOSTUNREACH'', ''host is unreachable''), (''EINTR'', ''interrupted system call''),
    (''EINVAL'', ''invalid argument''), (''EIO'', ''i/o error''),
    (''EISCONN'', ''socket is already connected''),
    (''EISDIR'', ''illegal operation on a directory''),
    (''ELOOP'', ''too many symbolic links encountered''), (''EMFILE'', ''too many open files''),
    (''EMSGSIZE'', ''message too long''), (''ENAMETOOLONG'', ''name too long''),
    (''ENETDOWN'', ''network is down''), (''ENETUNREACH'', ''network is unreachable''),
    (''ENFILE'', ''file table overflow''), (''ENOBUFS'', ''no buffer space available''),
    (''ENODEV'', ''no such device''), (''ENOENT'', ''no such file or directory''),
    (''ENOMEM'', ''not enough memory''), (''ENONET'', ''machine is not on the network''),
    (''ENOPROTOOPT'', ''protocol not available''), (''ENOSPC'', ''no space left on device''),
    (''ENOSYS'', ''function not implemented''), (''ENOTCONN'', ''socket is not connected''),
    (''ENOTDIR'', ''not a directory''), (''ENOTEMPTY'', ''directory not empty''),
    (''ENOTSOCK'', ''socket operation on non-socket''),
    (''ENOTSUP'', ''operation not supported on socket''), (''EPERM'', ''operation not permitted''),
    (''EPIPE'', ''broken pipe''), (''EPROTO'', ''protocol error''),
    (''EPROTONOSUPPORT'', ''protocol not supported''),
    (''EPROTOTYPE'', ''protocol wrong type for socket''), (''ERANGE'', ''result too large''),
    (''EROFS'', ''read-only file system''),
    (''ESHUTDOWN'', ''cannot send after transport endpoint shutdown''),
    (''ESPIPE'', ''invalid seek''), (''ESRCH'', ''no such process''),
    (''ETIMEDOUT'', ''connection timed out''), (''ETXTBSY'', ''text file is busy''),
    (''EXDEV'', ''cross-device link not permitted''), (''UNKNOWN'', ''unknown error''),
    (''EOF'', ''end of file''), (''ENXIO'', ''no such device or address''),
    (''EMLINK'', ''too many links''), (''EHOSTDOWN'', ''host is down'')]"

section \<open>Codes and names\<close>

definition uv_code :: "(string \<Rightarrow> int option) \<Rightarrow> string \<Rightarrow> int option" where
  "uv_code sys n =
     (case map_of fixed_codes n of
        Some c \<Rightarrow> Some c
      | None \<Rightarrow>
          (case map_of fallback_codes n of
             None \<Rightarrow> None
           | Some c \<Rightarrow> Some (case sys n of Some e \<Rightarrow> - e | None \<Rightarrow> c)))"

text \<open>The conversion \<open>%d\<close>, and the message that is cut at the 31 characters its buffer holds.\<close>

definition decimal :: "int \<Rightarrow> string" where
  "decimal n = (if n < 0 then ''-'' @ digits 10 (nat (- n)) else digits 10 (nat n))"

definition uv__unknown_err_code :: "bool \<Rightarrow> int \<Rightarrow> string" where
  "uv__unknown_err_code copied err =
     (let buf = take 31 (''Unknown system error '' @ decimal err)
      in if copied then buf else ''Unknown system error'')"

definition uv_err_name :: "(string \<Rightarrow> int option) \<Rightarrow> bool \<Rightarrow> int \<Rightarrow> string" where
  "uv_err_name sys copied err =
     (case find (\<lambda>(n, m). uv_code sys n = Some err) UV_ERRNO_MAP of
        Some (n, m) \<Rightarrow> n
      | None \<Rightarrow> uv__unknown_err_code copied err)"

definition uv_strerror :: "(string \<Rightarrow> int option) \<Rightarrow> bool \<Rightarrow> int \<Rightarrow> string" where
  "uv_strerror sys copied err =
     (case find (\<lambda>(n, m). uv_code sys n = Some err) UV_ERRNO_MAP of
        Some (n, m) \<Rightarrow> m
      | None \<Rightarrow> uv__unknown_err_code copied err)"

section \<open>Names and codes determine each other\<close>

lemma table_names: "distinct (map fst UV_ERRNO_MAP)"
  "set (map fst UV_ERRNO_MAP) = set (map fst (fixed_codes @ fallback_codes))"
  "distinct (map fst (fixed_codes @ fallback_codes))"
  by (code_simp, code_simp, code_simp)

lemma table_codes: "distinct (map snd (fixed_codes @ fallback_codes))" "\<forall>(n, c) \<in> set (fixed_codes @ fallback_codes). c \<le> - 3000"
  by (code_simp, code_simp)

text \<open>What \<open><errno.h>\<close> promises: different positive numbers, here below the range of the tables.\<close>

definition errno_ok :: "(string \<Rightarrow> int option) \<Rightarrow> bool" where
  "errno_ok sys \<longleftrightarrow> (\<forall>n e. sys n = Some e \<longrightarrow> 0 < e \<and> e < 3000) \<and> (\<forall>n m e. sys n = Some e \<and> sys m = Some e \<longrightarrow> n = m)"

lemma map_of_value_inj:
  assumes "distinct (map snd T)" "map_of T n = Some c" "map_of T m = Some c"
  shows "n = m"
proof -
  have "inj_on snd (set T)" using assms(1) by (simp add: distinct_map)
  then have "(n, c) = (m, c)" by (rule inj_onD) (use assms(2,3) in \<open>auto dest!: map_of_SomeD\<close>)
  then show ?thesis by simp
qed

lemma uv_code_cases:
  assumes "uv_code sys n = Some c"
  obtains (table) "map_of (fixed_codes @ fallback_codes) n = Some c"
  | (system) e where "sys n = Some e" "c = - e"
  using assms by (auto simp: uv_code_def map_add_def split: option.splits)

lemma table_low: "map_of (fixed_codes @ fallback_codes) n = Some c \<Longrightarrow> c \<le> - 3000"
  using table_codes(2) map_of_SomeD by fastforce

lemma uv_code_inj:
  assumes ok: "errno_ok sys" and n: "uv_code sys n = Some c" and m: "uv_code sys m = Some c"
  shows "n = m"
  using n
proof (cases rule: uv_code_cases)
  case table
  with m show ?thesis
  proof (cases rule: uv_code_cases)
    case (system e)
    then show ?thesis using table_low [OF table] ok unfolding errno_ok_def by fastforce
  qed (rule map_of_value_inj [OF table_codes(1)])
next
  case (system e)
  from m show ?thesis
  proof (cases rule: uv_code_cases)
    case table
    then show ?thesis using table_low [OF table] ok system unfolding errno_ok_def by fastforce
  next
    case (system e')
    then show ?thesis using \<open>sys n = Some e\<close> \<open>c = - e\<close> ok unfolding errno_ok_def by auto
  qed
qed

lemma uv_code_named: "uv_code sys n = Some c \<Longrightarrow> n \<in> fst ` set UV_ERRNO_MAP"
proof -
  assume "uv_code sys n = Some c"
  then have "map_of (fixed_codes @ fallback_codes) n \<noteq> None" by (auto simp: uv_code_def map_add_def split: option.splits)
  then have "n \<in> set (map fst (fixed_codes @ fallback_codes))" by (auto simp: map_of_eq_None_iff)
  then have "n \<in> set (map fst UV_ERRNO_MAP)" unfolding table_names(2) .
  then show "n \<in> fst ` set UV_ERRNO_MAP" by simp
qed

lemma find_first:
  assumes "x \<in> set xs" "P x"
  shows "\<exists>y. find P xs = Some y \<and> y \<in> set xs \<and> P y"
  using assms by (induction xs) auto

lemma find_code:
  assumes "errno_ok sys" "uv_code sys n = Some c"
  shows "\<exists>m. find (\<lambda>(n, m). uv_code sys n = Some c) UV_ERRNO_MAP = Some (n, m) \<and> map_of UV_ERRNO_MAP n = Some m"
proof -
  let ?P = "\<lambda>(n, m :: string). uv_code sys n = Some c"
  obtain m where m: "(n, m) \<in> set UV_ERRNO_MAP" using uv_code_named [OF assms(2)] by force
  have "?P (n, m)" using assms(2) by (simp only: prod.case)
  from find_first [of _ _ ?P, OF m this] obtain y where
    fy: "find ?P UV_ERRNO_MAP = Some y" "y \<in> set UV_ERRNO_MAP" "?P y" by (elim exE conjE)
  obtain n' m' where p: "y = (n', m')" by (cases y)
  note y = fy [unfolded p prod.case]
  have f: "n' = n" by (rule uv_code_inj [OF assms(1) y(3) assms(2)])
  have "map_of UV_ERRNO_MAP n' = Some m'" by (rule map_of_is_SomeI [OF table_names(1) y(2)])
  then show ?thesis using y(1) unfolding f by (intro exI [of _ m'] conjI)
qed

text \<open>The name and the message of every code are its own.\<close>

lemma err_name_code:
  assumes "errno_ok sys" "uv_code sys n = Some c"
  shows "uv_err_name sys copied c = n" "map_of UV_ERRNO_MAP n = Some (uv_strerror sys copied c)"
proof -
  obtain m where m: "find (\<lambda>(n, m). uv_code sys n = Some c) UV_ERRNO_MAP = Some (n, m)" "map_of UV_ERRNO_MAP n = Some m"
    using find_code [OF assms] by (elim exE conjE)
  show "uv_err_name sys copied c = n" unfolding uv_err_name_def m(1) by simp
  show "map_of UV_ERRNO_MAP n = Some (uv_strerror sys copied c)" unfolding uv_strerror_def m(1) using m(2) by simp
qed

text \<open>The most negative number does not fit the message: its last digit is lost.\<close>

lemma unknown_error_cut:
  "uv__unknown_err_code True (- 2147483648) = ''Unknown system error -214748364''"
  by (simp add: uv__unknown_err_code_def decimal_def digits_step digits_small digits_l_def)

end
