(* ===== verification/UvRbTree.thy ===== *)
theory UvRbTree
  imports UvBase
begin

text \<open>
  The red-black tree of \<open>third/libuv/include/tree.h\<close>, as \<open>RB_GENERATE\<close> instantiates it.

  A pointer to an element of a tree, with its \<open>rbe_parent\<close> links up to the root, is the subtree
  under it together with the path of its ancestors: for each of them the side on which the walk
  came up, its colour, the element and the subtree on the other side.  A null pointer with the
  parent it would have is the subtree \<open>Null\<close> with a path.  The two halves of each function that
  mirror each other are one, with the side as an argument.  The function \<open>cmp\<close> compares elements
  as in the source: negative, zero or positive.
\<close>

section \<open>Trees and positions\<close>

datatype colour = RB_BLACK | RB_RED

datatype 'n rb_tree = Null | Entry colour "'n rb_tree" 'n "'n rb_tree"

datatype side = On_left | On_right

datatype 'n frame = Frame side colour 'n "'n rb_tree"

type_synonym 'n rb_path = "'n frame list"

fun other :: "side \<Rightarrow> side" where
  "other On_left = On_right"
| "other On_right = On_left"

text \<open>The entry with subtree \<open>t\<close> on the given side and \<open>s\<close> on the other.\<close>

fun entry :: "side \<Rightarrow> colour \<Rightarrow> 'n rb_tree \<Rightarrow> 'n \<Rightarrow> 'n rb_tree \<Rightarrow> 'n rb_tree" where
  "entry On_left c t x s = Entry c t x s"
| "entry On_right c t x s = Entry c s x t"

fun zip_up :: "'n rb_tree \<Rightarrow> 'n rb_path \<Rightarrow> 'n rb_tree" where
  "zip_up t [] = t"
| "zip_up t (Frame d c x s # ps) = zip_up (entry d c t x s) ps"

text \<open>The test the source makes of a child: null or black.\<close>

fun is_red :: "'n rb_tree \<Rightarrow> bool" where
  "is_red Null = False"
| "is_red (Entry c l x r) = (c = RB_RED)"

fun set_color :: "colour \<Rightarrow> 'n rb_tree \<Rightarrow> 'n rb_tree" where
  "set_color c Null = Null"
| "set_color c (Entry c' l x r) = Entry c l x r"

fun child :: "side \<Rightarrow> 'n rb_tree \<Rightarrow> 'n rb_tree" where
  "child d Null = Null"
| "child On_left (Entry c l x r) = l"
| "child On_right (Entry c l x r) = r"

fun RB_ROTATE_LEFT :: "'n rb_tree \<Rightarrow> 'n rb_tree res" where
  "RB_ROTATE_LEFT (Entry c l x (Entry c' m y r)) = Inr (Entry c' (Entry c l x m) y r)"
| "RB_ROTATE_LEFT t = Inl Null_deref"

fun RB_ROTATE_RIGHT :: "'n rb_tree \<Rightarrow> 'n rb_tree res" where
  "RB_ROTATE_RIGHT (Entry c (Entry c' l y m) x r) = Inr (Entry c' l y (Entry c m x r))"
| "RB_ROTATE_RIGHT t = Inl Null_deref"

text \<open>The rotation that takes the upper element down on the given side.\<close>

fun rotate :: "side \<Rightarrow> 'n rb_tree \<Rightarrow> 'n rb_tree res" where
  "rotate On_left t = RB_ROTATE_LEFT t"
| "rotate On_right t = RB_ROTATE_RIGHT t"

section \<open>Insertion\<close>

text \<open>
  After the rotations of a round the parent of \<open>elm\<close> is black and the loop ends; the last
  assignment colours the root.
\<close>

fun RB_INSERT_COLOR :: "'n rb_tree \<Rightarrow> 'n rb_path \<Rightarrow> 'n rb_tree res" where
  "RB_INSERT_COLOR elm [] = (if elm = Null then Inl Null_deref else Inr (set_color RB_BLACK elm))"
| "RB_INSERT_COLOR elm [Frame d pc p ps] =
     (if pc = RB_RED then Inl Null_deref else Inr (set_color RB_BLACK (entry d pc elm p ps)))"
| "RB_INSERT_COLOR elm (Frame d pc p ps # Frame d' gc g tmp # up) =
     (if pc \<noteq> RB_RED then
        Inr (set_color RB_BLACK (zip_up (entry d pc elm p ps) (Frame d' gc g tmp # up)))
      else if is_red tmp then
        RB_INSERT_COLOR (entry d' RB_RED (entry d RB_BLACK elm p ps) g (set_color RB_BLACK tmp)) up
      else
        bind_res (if d \<noteq> d' then rotate d' (entry d pc elm p ps) else Inr (entry d pc elm p ps)) (\<lambda>parent.
        bind_res (rotate (other d') (entry d' RB_RED (set_color RB_BLACK parent) g tmp)) (\<lambda>t.
        Inr (set_color RB_BLACK (zip_up t up)))))"

text \<open>The walk down: either an element that compares equal, or the path to the free place.\<close>

fun descend :: "('n \<Rightarrow> 'n \<Rightarrow> int) \<Rightarrow> 'n \<Rightarrow> 'n rb_tree \<Rightarrow> 'n rb_path \<Rightarrow> 'n + 'n rb_path" where
  "descend cmp elm Null path = Inr path"
| "descend cmp elm (Entry c l x r) path =
     (let comp = cmp elm x in
      if comp < 0 then descend cmp elm l (Frame On_left c x r # path)
      else if 0 < comp then descend cmp elm r (Frame On_right c x l # path)
      else Inl x)"

definition RB_INSERT :: "('n \<Rightarrow> 'n \<Rightarrow> int) \<Rightarrow> 'n rb_tree \<Rightarrow> 'n \<Rightarrow> ('n option \<times> 'n rb_tree) res" where
  "RB_INSERT cmp head elm =
     (case descend cmp elm head [] of
        Inl tmp \<Rightarrow> Inr (Some tmp, head)
      | Inr path \<Rightarrow>
          bind_res (RB_INSERT_COLOR (Entry RB_RED Null elm Null) path) (\<lambda>head. Inr (None, head)))"

section \<open>Removal\<close>

text \<open>
  The part of a round of the loop after the case of a red sibling: the result is the parent as
  the new \<open>elm\<close>, or the finished subtree with \<open>True\<close> where the loop breaks.
\<close>

definition black_sibling :: "side \<Rightarrow> 'n rb_tree \<Rightarrow> colour \<Rightarrow> 'n \<Rightarrow> 'n rb_tree \<Rightarrow> (bool \<times> 'n rb_tree) res" where
  "black_sibling d elm pc p tmp =
     (if tmp = Null then Inl Null_deref
      else if \<not> is_red (child d tmp) \<and> \<not> is_red (child (other d) tmp) then
        Inr (False, entry d pc elm p (set_color RB_RED tmp))
      else
        bind_res
          (if \<not> is_red (child (other d) tmp) then
             (case tmp of
                Null \<Rightarrow> Inl Null_deref
              | Entry c l x r \<Rightarrow>
                  rotate (other d) (entry d RB_RED (set_color RB_BLACK (child d tmp)) x (child (other d) tmp)))
           else Inr tmp) (\<lambda>tmp.
        case tmp of
          Null \<Rightarrow> Inl Null_deref
        | Entry c l x r \<Rightarrow>
            bind_res (rotate d (entry d RB_BLACK elm p
              (entry d pc (child d tmp) x (set_color RB_BLACK (child (other d) tmp))))) (\<lambda>t.
            Inr (True, t))))"

lemma black_sibling_goes_up: "black_sibling d elm pc p tmp = Inr (False, t) \<Longrightarrow> is_red t \<longleftrightarrow> pc = RB_RED"
  by (cases d) (auto simp: black_sibling_def split: if_splits rb_tree.splits, (metis rb_tree.exhaust)+)

function RB_REMOVE_COLOR :: "'n rb_tree \<Rightarrow> 'n rb_path \<Rightarrow> 'n rb_tree res" where
  "RB_REMOVE_COLOR elm [] = Inr (set_color RB_BLACK elm)"
| "RB_REMOVE_COLOR elm (Frame d pc p tmp # up) =
     (if is_red elm then Inr (zip_up (set_color RB_BLACK elm) (Frame d pc p tmp # up))
      else
        case tmp of
          Null \<Rightarrow> Inl Null_deref
        | Entry tc a x b \<Rightarrow>
            if tc = RB_RED then
              bind_res (black_sibling d elm RB_RED p (child d tmp)) (\<lambda>(finished, t).
              if finished then
                Inr (set_color RB_BLACK (zip_up t (Frame d RB_BLACK x (child (other d) tmp) # up)))
              else RB_REMOVE_COLOR t (Frame d RB_BLACK x (child (other d) tmp) # up))
            else
              bind_res (black_sibling d elm pc p tmp) (\<lambda>(finished, t).
              if finished then Inr (set_color RB_BLACK (zip_up t up)) else RB_REMOVE_COLOR t up))"
  by pat_completeness auto

termination
  by (relation "measure (\<lambda>(elm, path). 2 * length path + (if is_red elm then 0 else 1))")
    (auto dest: black_sibling_goes_up)

text \<open>The element \<open>x\<close> in the tree: its colour, its subtrees and the path to it.\<close>

fun position :: "'n \<Rightarrow> 'n rb_tree \<Rightarrow> 'n rb_path \<Rightarrow> (colour \<times> 'n rb_tree \<times> 'n rb_tree \<times> 'n rb_path) option" where
  "position x Null path = None"
| "position x (Entry c l y r) path =
     (if x = y then Some (c, l, r, path)
      else case position x l (Frame On_left c y r # path) of
             Some q \<Rightarrow> Some q
           | None \<Rightarrow> position x r (Frame On_right c y l # path))"

text \<open>The leftmost element under an entry, with its colour, its right child and the path.\<close>

fun leftmost :: "colour \<Rightarrow> 'n rb_tree \<Rightarrow> 'n \<Rightarrow> 'n rb_tree \<Rightarrow> 'n rb_path \<Rightarrow> colour \<times> 'n \<times> 'n rb_tree \<times> 'n rb_path" where
  "leftmost c Null x r path = (c, x, r, path)"
| "leftmost c (Entry c' l y r') x r path = leftmost c' l y r' (Frame On_left c x r # path)"

definition RB_REMOVE :: "'n rb_tree \<Rightarrow> 'n \<Rightarrow> 'n rb_tree res" where
  "RB_REMOVE head elm =
     (case position elm head [] of
        None \<Rightarrow> Inl Use_after_free
      | Some (color, l, r, path) \<Rightarrow>
          let (color', c, path') =
            (case l of
               Null \<Rightarrow> (color, r, path)
             | _ \<Rightarrow>
                 (case r of
                    Null \<Rightarrow> (color, l, path)
                  | Entry rc rl rx rr \<Rightarrow>
                      let (c, x, t, down) = leftmost rc rl rx rr []
                      in (c, t, down @ Frame On_right color x l # path)))
          in if color' = RB_BLACK then RB_REMOVE_COLOR c path' else Inr (zip_up c path'))"

section \<open>Searching\<close>

fun RB_FIND :: "('n \<Rightarrow> 'n \<Rightarrow> int) \<Rightarrow> 'n \<Rightarrow> 'n rb_tree \<Rightarrow> 'n option" where
  "RB_FIND cmp elm Null = None"
| "RB_FIND cmp elm (Entry c l x r) =
     (let comp = cmp elm x in
      if comp < 0 then RB_FIND cmp elm l else if 0 < comp then RB_FIND cmp elm r else Some x)"

fun nfind :: "('n \<Rightarrow> 'n \<Rightarrow> int) \<Rightarrow> 'n \<Rightarrow> 'n rb_tree \<Rightarrow> 'n option \<Rightarrow> 'n option" where
  "nfind cmp elm Null res = res"
| "nfind cmp elm (Entry c l x r) res =
     (let comp = cmp elm x in
      if comp < 0 then nfind cmp elm l (Some x)
      else if 0 < comp then nfind cmp elm r res else Some x)"

definition RB_NFIND :: "('n \<Rightarrow> 'n \<Rightarrow> int) \<Rightarrow> 'n rb_tree \<Rightarrow> 'n \<Rightarrow> 'n option" where
  "RB_NFIND cmp head elm = nfind cmp elm head None"

text \<open>The first ancestor reached from the given side.\<close>

fun first_up :: "side \<Rightarrow> 'n rb_path \<Rightarrow> 'n option" where
  "first_up d [] = None"
| "first_up d (Frame d' c x s # up) = (if d = d' then Some x else first_up d up)"

fun outermost :: "side \<Rightarrow> 'n rb_tree \<Rightarrow> 'n option" where
  "outermost d Null = None"
| "outermost On_left (Entry c l x r) = (if l = Null then Some x else outermost On_left l)"
| "outermost On_right (Entry c l x r) = (if r = Null then Some x else outermost On_right r)"

definition RB_NEXT :: "'n rb_tree \<Rightarrow> 'n \<Rightarrow> 'n option res" where
  "RB_NEXT head elm =
     (case position elm head [] of
        None \<Rightarrow> Inl Use_after_free
      | Some (c, l, r, path) \<Rightarrow> Inr (if r \<noteq> Null then outermost On_left r else first_up On_left path))"

definition RB_PREV :: "'n rb_tree \<Rightarrow> 'n \<Rightarrow> 'n option res" where
  "RB_PREV head elm =
     (case position elm head [] of
        None \<Rightarrow> Inl Use_after_free
      | Some (c, l, r, path) \<Rightarrow> Inr (if l \<noteq> Null then outermost On_right l else first_up On_right path))"

definition RB_MINMAX :: "'n rb_tree \<Rightarrow> int \<Rightarrow> 'n option" where
  "RB_MINMAX head val = outermost (if val < 0 then On_left else On_right) head"

section \<open>Entries by side\<close>

lemma side_cases [simp]: "d \<noteq> On_left \<longleftrightarrow> d = On_right" "d \<noteq> On_right \<longleftrightarrow> d = On_left" "other (other d) = d"
  "other d \<noteq> d" "d \<noteq> other d"
  by (cases d; simp)+

lemma entry_cases: "t \<noteq> Null \<Longrightarrow> (\<And>c a x b. t = entry d c a x b \<Longrightarrow> P) \<Longrightarrow> P"
  by (cases d; cases t) auto

lemma entry_simps [simp]:
  "child d (entry d c a x b) = a" "child (other d) (entry d c a x b) = b" "entry d c a x b \<noteq> Null"
  "set_color c' (entry d c a x b) = entry d c' a x b" "is_red (entry d c a x b) \<longleftrightarrow> c = RB_RED"
  "entry (other d) c a x b = entry d c b x a"
  by (cases d; simp)+

lemma rotate_entry [simp]: "rotate d (entry d c a x (entry d c' m y r)) = Inr (entry d c' (entry d c a x m) y r)"
  by (cases d) simp_all

lemma rotate_other [simp]: "rotate (other d) (entry d c (entry d c' m y r) x b) = Inr (entry d c' m y (entry d c r x b))"
  by (cases d) simp_all

lemma black_sibling_eq:
  "black_sibling d elm pc p (entry d c m x e) =
     (if \<not> is_red m \<and> \<not> is_red e then Inr (False, entry d pc elm p (entry d RB_RED m x e))
      else if is_red e then Inr (True, entry d pc (entry d RB_BLACK elm p m) x (set_color RB_BLACK e))
      else Inr (True, entry d pc (entry d RB_BLACK elm p (child d m)) (case m of Entry _ _ y _ \<Rightarrow> y)
             (entry d RB_BLACK (child (other d) m) x e)))"
proof (cases "is_red e \<or> \<not> is_red m")
  case True
  then show ?thesis by (cases d) (auto simp: black_sibling_def)
next
  case False
  then have "m \<noteq> Null" by auto
  then show ?thesis by (rule entry_cases [of _ d]) (use False in \<open>cases d; auto simp: black_sibling_def\<close>)
qed

section \<open>The elements in order\<close>

fun inorder :: "'n rb_tree \<Rightarrow> 'n list" where
  "inorder Null = []"
| "inorder (Entry c l x r) = inorder l @ x # inorder r"

fun before :: "'n rb_path \<Rightarrow> 'n list" where
  "before [] = []"
| "before (Frame d c x s # up) = before up @ (if d = On_right then inorder s @ [x] else [])"

fun after :: "'n rb_path \<Rightarrow> 'n list" where
  "after [] = []"
| "after (Frame d c x s # up) = (if d = On_left then x # inorder s else []) @ after up"

lemma inorder_entry: "inorder (entry d c t x s) = (if d = On_left then inorder t @ x # inorder s else inorder s @ x # inorder t)"
  by (cases d) auto

lemma inorder_zip: "inorder (zip_up t path) = before path @ inorder t @ after path"
  by (induction t path rule: zip_up.induct) (auto simp: inorder_entry)

lemma inorder_set_color [simp]: "inorder (set_color c t) = inorder t"
  by (cases t) auto

lemma inorder_Null [simp]: "inorder t = [] \<longleftrightarrow> t = Null"
  by (cases t) auto

lemma inorder_rotate: "rotate d t = Inr u \<Longrightarrow> inorder u = inorder t"
  by (cases d; cases t rule: RB_ROTATE_LEFT.cases; cases t rule: RB_ROTATE_RIGHT.cases) auto

lemma before_append: "before (p @ q) = before q @ before p" "after (p @ q) = after p @ after q"
proof -
  show "before (p @ q) = before q @ before p" by (induction p rule: before.induct) auto
  show "after (p @ q) = after p @ after q" by (induction p rule: after.induct) auto
qed

lemma inorder_insert_color: "RB_INSERT_COLOR elm path = Inr u \<Longrightarrow> inorder u = before path @ inorder elm @ after path"
proof (induction elm path rule: RB_INSERT_COLOR.induct)
  case (3 elm d pc p ps d' gc g tmp up)
  show ?case
  proof (cases "pc \<noteq> RB_RED \<or> is_red tmp")
    case True
    then show ?thesis using 3 by (auto simp: inorder_zip inorder_entry split: if_splits)
  next
    case False
    then have "\<exists>parent t. (parent = entry d pc elm p ps \<or> rotate d' (entry d pc elm p ps) = Inr parent)
      \<and> rotate (other d') (entry d' RB_RED (set_color RB_BLACK parent) g tmp) = Inr t \<and> u = set_color RB_BLACK (zip_up t up)"
      using 3(2) by (auto simp del: entry_simps rotate_other rotate_entry split: if_splits)
    then obtain parent t where "inorder parent = inorder (entry d pc elm p ps)"
      "inorder t = inorder (entry d' RB_RED (set_color RB_BLACK parent) g tmp)" "u = set_color RB_BLACK (zip_up t up)"
      by (metis inorder_rotate)
    then show ?thesis by (auto simp: inorder_zip inorder_entry)
  qed
qed (auto simp: inorder_entry split: if_splits)

lemma inorder_black_sibling:
  assumes "black_sibling d elm pc p tmp = Inr (b, t)"
  shows "inorder t = inorder (entry d pc elm p tmp)"
proof -
  have "tmp \<noteq> Null" using assms by (auto simp: black_sibling_def)
  then obtain c m x e where tmp: "tmp = entry d c m x e" by (rule entry_cases)
  have "is_red m \<Longrightarrow> inorder m = inorder (entry d c (child d m) (case m of Entry _ _ y _ \<Rightarrow> y) (child (other d) m))"
    by (cases d; cases m) auto
  then show ?thesis using assms unfolding tmp black_sibling_eq by (auto simp: inorder_entry split: if_splits)
qed

lemma inorder_remove_color: "RB_REMOVE_COLOR elm path = Inr u \<Longrightarrow> inorder u = before path @ inorder elm @ after path"
proof (induction elm path rule: RB_REMOVE_COLOR.induct)
  case (2 elm d pc p tmp up)
  show ?case
  proof (cases "is_red elm")
    case True
    then show ?thesis using 2(3) by (auto simp: inorder_zip inorder_entry)
  next
    case False
    then obtain c a x b where tmp: "tmp = Entry c a x b" using 2(3) by (cases tmp) auto
    show ?thesis
    proof (cases "c = RB_RED")
      case True
      then obtain fin t where s: "black_sibling d elm RB_RED p (child d tmp) = Inr (fin, t)"
        "if fin then u = set_color RB_BLACK (zip_up t (Frame d RB_BLACK x (child (other d) tmp) # up))
         else RB_REMOVE_COLOR t (Frame d RB_BLACK x (child (other d) tmp) # up) = Inr u"
        using 2(3) False tmp by (auto split: if_splits)
      then have "inorder u = before (Frame d RB_BLACK x (child (other d) tmp) # up) @ inorder t
          @ after (Frame d RB_BLACK x (child (other d) tmp) # up)"
        using 2(1) [OF False tmp True s(1)] tmp by (auto simp: inorder_zip inorder_entry split: if_splits)
      then show ?thesis using inorder_black_sibling [OF s(1)] tmp by (cases d) (auto simp: inorder_entry)
    next
      case False2: False
      then obtain fin t where s: "black_sibling d elm pc p tmp = Inr (fin, t)"
        "if fin then u = set_color RB_BLACK (zip_up t up) else RB_REMOVE_COLOR t up = Inr u"
        using 2(3) False tmp by (auto split: if_splits)
      then have "inorder u = before up @ inorder t @ after up"
        using 2(2) [OF False tmp False2 s(1)] by (auto simp: inorder_zip split: if_splits)
      then show ?thesis using inorder_black_sibling [OF s(1)] by (auto simp: inorder_entry)
    qed
  qed
qed auto

section \<open>The colours\<close>

fun bh :: "'n rb_tree \<Rightarrow> nat" where
  "bh Null = 0"
| "bh (Entry c l x r) = bh l + of_bool (c = RB_BLACK)"

fun invh :: "'n rb_tree \<Rightarrow> bool" where
  "invh Null = True"
| "invh (Entry c l x r) \<longleftrightarrow> bh l = bh r \<and> invh l \<and> invh r"

fun invc :: "'n rb_tree \<Rightarrow> bool" where
  "invc Null = True"
| "invc (Entry c l x r) \<longleftrightarrow> (c = RB_RED \<longrightarrow> \<not> is_red l \<and> \<not> is_red r) \<and> invc l \<and> invc r"

text \<open>A path whose hole takes a subtree of black height \<open>n\<close>, red only if \<open>red\<close> is false.\<close>

fun path_h :: "nat \<Rightarrow> 'n rb_path \<Rightarrow> bool" where
  "path_h n [] = True"
| "path_h n (Frame d c x s # up) \<longleftrightarrow> invh s \<and> bh s = n \<and> path_h (n + of_bool (c = RB_BLACK)) up"

fun path_c :: "bool \<Rightarrow> 'n rb_path \<Rightarrow> bool" where
  "path_c red [] = True"
| "path_c red (Frame d c x s # up) \<longleftrightarrow> (c = RB_RED \<longrightarrow> \<not> red \<and> \<not> is_red s) \<and> invc s \<and> (up = [] \<longrightarrow> c = RB_BLACK)
     \<and> path_c (c = RB_RED) up"

definition rb_ok :: "'n rb_tree \<Rightarrow> bool" where
  "rb_ok t \<longleftrightarrow> \<not> is_red t \<and> invc t \<and> invh t"

lemma inv_entry [simp]:
  "invc (entry d c a x b) \<longleftrightarrow> (c = RB_RED \<longrightarrow> \<not> is_red a \<and> \<not> is_red b) \<and> invc a \<and> invc b"
  "invh (entry d c a x b) \<longleftrightarrow> bh a = bh b \<and> invh a \<and> invh b"
  "invh (entry d c a x b) \<Longrightarrow> bh (entry d c a x b) = bh a + of_bool (c = RB_BLACK)"
  by (cases d; auto)+

lemma inv_set_color [simp]:
  "invh (set_color c t) = invh t" "invc t \<Longrightarrow> invc (set_color RB_BLACK t)" "is_red (set_color RB_BLACK t) = False"
  "bh (set_color RB_BLACK t) = bh t + of_bool (is_red t)"
  by (cases t; auto intro: colour.exhaust)+

lemma black_colour [simp]: "c \<noteq> RB_RED \<longleftrightarrow> c = RB_BLACK" "c \<noteq> RB_BLACK \<longleftrightarrow> c = RB_RED"
  by (cases c; simp)+

lemma path_c_black: "path_c red path \<Longrightarrow> path_c False path"
  by (cases "(red, path)" rule: path_c.cases) auto

lemma invc_zip: "invc t \<Longrightarrow> path_c (is_red t) path \<Longrightarrow> invc (zip_up t path)"
  by (induction t path rule: zip_up.induct) auto

lemma invh_zip: "invh t \<Longrightarrow> path_h (bh t) path \<Longrightarrow> invh (zip_up t path)"
  by (induction t path rule: zip_up.induct) auto

lemma root_zip: "path_c red path \<Longrightarrow> path \<noteq> [] \<Longrightarrow> \<not> is_red (zip_up t path)"
proof (induction t path arbitrary: red rule: zip_up.induct)
  case (2 t d c x s ps)
  then show ?case by (cases ps) auto
qed simp

lemma rb_ok_zip:
  assumes "invc t" "invh t" "path_c (is_red t) path" "path_h (bh t) path"
  shows "rb_ok (set_color RB_BLACK (zip_up t path))"
  using invc_zip [OF assms(1,3)] invh_zip [OF assms(2,4)] by (simp add: rb_ok_def)

lemma insert_color_ok:
  assumes "is_red elm" "invc elm" "invh elm" "path_h (bh elm) path" "path_c False path"
  shows "\<exists>u. RB_INSERT_COLOR elm path = Inr u \<and> rb_ok u"
  using assms
proof (induction elm path rule: RB_INSERT_COLOR.induct)
  case (1 elm)
  then show ?case by (auto simp: rb_ok_def)
next
  case (2 elm d pc p ps)
  then show ?case by (auto simp: rb_ok_def)
next
  case (3 elm d pc p ps d' gc g tmp up)
  show ?case
  proof (cases "pc = RB_RED")
    case False
    then show ?thesis using 3 by (auto intro!: rb_ok_zip)
  next
    case red: True
    then have gc: "gc = RB_BLACK" using 3(5,6) by auto
    have h: "bh ps = bh elm" "invh ps" "bh tmp = bh elm" "invh tmp" "path_h (bh elm + 1) up"
      and c: "\<not> is_red ps" "invc ps" "invc tmp" "path_c False up" using 3(5,6) red gc by auto
    show ?thesis
    proof (cases "is_red tmp")
      case True
      have "\<exists>u. RB_INSERT_COLOR (entry d' RB_RED (entry d RB_BLACK elm p ps) g (set_color RB_BLACK tmp)) up = Inr u \<and> rb_ok u"
        using 3(1) [OF _ True] red h c 3(2-4) True by simp
      then show ?thesis using red True by simp
    next
      case False
      show ?thesis
      proof (cases "d = d'")
        case True
        then show ?thesis using red False h c 3(2-4) by (auto intro!: rb_ok_zip)
      next
        case inner: False
        then have d: "d = other d'" by (cases d; cases d') auto
        have "elm \<noteq> Null" using 3(2) by auto
        then obtain ec a x b where elm: "elm = entry d' ec a x b" by (rule entry_cases)
        show ?thesis using inner red False h c 3(2-4) unfolding d elm by (auto intro!: rb_ok_zip)
      qed
    qed
  qed
qed

lemma set_color_black: "\<not> is_red t \<Longrightarrow> set_color RB_BLACK t = t"
  by (cases t) auto

text \<open>
  One round at a black sibling: \<open>elm\<close> lacks one black; either the parent's subtree is complete, or
  it lacks one black itself.
\<close>

lemma black_sibling_ok:
  assumes "\<not> is_red elm" "invc elm" "invh elm" "invc tmp" "invh tmp" "bh tmp = bh elm + 1" "\<not> is_red tmp"
  shows "\<exists>fin t. black_sibling d elm pc p tmp = Inr (fin, t) \<and> (fin \<longrightarrow> invc t) \<and> invc (set_color RB_BLACK t) \<and> invh t
    \<and> bh t = bh elm + of_bool (pc = RB_BLACK) + of_bool fin \<and> (is_red t \<longleftrightarrow> pc = RB_RED)"
proof -
  have "tmp \<noteq> Null" using assms(6) by auto
  then obtain c m x e where tmp: "tmp = entry d c m x e" by (rule entry_cases)
  then have c: "c = RB_BLACK" using assms(7) by simp
  have h: "bh m = bh elm" "bh e = bh elm" "invh m" "invh e" "invc m" "invc e"
    using assms(4-6) unfolding tmp c by (auto simp: c)
  show ?thesis
  proof (cases "is_red e \<or> \<not> is_red m")
    case True
    then show ?thesis using assms(1-3) h unfolding tmp black_sibling_eq c by auto
  next
    case False
    then have "m \<noteq> Null" by auto
    then obtain mc a y b where m: "m = entry d mc a y b" by (rule entry_cases)
    then have mc: "mc = RB_RED" using False by simp
    have "(case m of Entry _ _ y _ \<Rightarrow> y) = y" unfolding m by (cases d) auto
    then show ?thesis using assms(1-3) h False unfolding tmp black_sibling_eq c m mc by auto
  qed
qed

lemma remove_color_ok:
  assumes "invc (set_color RB_BLACK elm)" "invh elm" "path_h (bh elm + 1) path" "path_c False path"
  shows "\<exists>u. RB_REMOVE_COLOR elm path = Inr u \<and> rb_ok u"
  using assms
proof (induction elm path rule: RB_REMOVE_COLOR.induct)
  case (1 elm)
  then show ?case by (auto simp: rb_ok_def)
next
  case (2 elm d pc p tmp up)
  show ?case
  proof (cases "is_red elm")
    case True
    let ?e = "set_color RB_BLACK elm"
    have "invc ?e" "invh ?e" "bh ?e = bh elm + 1" using 2(3,4) True by simp_all
    moreover have "path_c (is_red ?e) (Frame d pc p tmp # up)" using 2(6) by simp
    ultimately have "rb_ok (zip_up ?e (Frame d pc p tmp # up))"
      using invc_zip [of ?e "Frame d pc p tmp # up"] invh_zip [of ?e "Frame d pc p tmp # up"] 2(5) root_zip [OF 2(6)]
      by (simp add: rb_ok_def)
    then show ?thesis using True by simp
  next
    case black: False
    then have ce: "invc elm" using 2(3) by (simp add: set_color_black)
    have t: "invh tmp" "invc tmp" "bh tmp = bh elm + 1" and uph: "path_h (bh elm + 1 + of_bool (pc = RB_BLACK)) up"
      and upc: "path_c (pc = RB_RED) up" and pcr: "pc = RB_RED \<Longrightarrow> \<not> is_red tmp" "up = [] \<Longrightarrow> pc = RB_BLACK"
      using 2(5,6) by auto
    then have "tmp \<noteq> Null" by auto
    then obtain c m x e where tmp: "tmp = entry d c m x e" by (rule entry_cases)
    obtain a b where E: "tmp = Entry c a x b" unfolding tmp by (cases d) auto
    have ch: "child d (Entry c a x b) = m" "child (other d) (Entry c a x b) = e"
      unfolding E [symmetric] tmp by simp_all
    show ?thesis
    proof (cases "c = RB_RED")
      case True
      have pc: "pc = RB_BLACK" using pcr(1) tmp True by (cases pc) auto
      have me: "invh m" "invc m" "bh m = bh elm + 1" "\<not> is_red m" "invh e" "invc e" "bh e = bh elm + 1" "\<not> is_red e"
        using t unfolding tmp True by auto
      obtain fin s where s: "black_sibling d elm RB_RED p m = Inr (fin, s)" "fin \<Longrightarrow> invc s" "invh s"
          "bh s = bh elm + of_bool fin" "is_red s" "invc (set_color RB_BLACK s)"
        using black_sibling_ok [OF black ce 2(4) me(2,1,3,4), of d RB_RED p] by auto
      let ?P = "Frame d RB_BLACK x e # up"
      have eq: "RB_REMOVE_COLOR elm (Frame d pc p tmp # up) =
          (if fin then Inr (set_color RB_BLACK (zip_up s ?P)) else RB_REMOVE_COLOR s ?P)"
        unfolding E using black s(1) True by (simp add: ch [unfolded True] del: RB_REMOVE_COLOR.simps(1))
      have pth: "path_h (bh elm + 1) ?P" "path_c True ?P" "path_c False ?P" using me uph upc pc by auto
      show ?thesis
      proof (cases fin)
        case True
        then show ?thesis using eq s pth rb_ok_zip [of s ?P] by simp
      next
        case False
        have "\<exists>u. RB_REMOVE_COLOR s ?P = Inr u \<and> rb_ok u"
          using 2(1) [OF black E True, where a = "(fin, s)"] s pth False by (simp add: tmp)
        then show ?thesis using eq False by simp
      qed
    next
      case False
      then have cb: "\<not> is_red tmp" using tmp by simp
      obtain fin s where s: "black_sibling d elm pc p tmp = Inr (fin, s)" "fin \<Longrightarrow> invc s" "invh s"
          "bh s = bh elm + of_bool (pc = RB_BLACK) + of_bool fin" "is_red s \<longleftrightarrow> pc = RB_RED" "invc (set_color RB_BLACK s)"
        using black_sibling_ok [OF black ce 2(4) t(2,1,3) cb, of d pc p] by auto
      have eq: "RB_REMOVE_COLOR elm (Frame d pc p tmp # up) =
          (if fin then Inr (set_color RB_BLACK (zip_up s up)) else RB_REMOVE_COLOR s up)"
        unfolding E using black s(1) [unfolded E] False by simp
      have pc_up: "path_c (is_red s) up" "path_c False up" using upc s(5) path_c_black by auto
      show ?thesis
      proof (cases fin)
        case True
        then show ?thesis using eq s uph pc_up rb_ok_zip [of s up] by simp
      next
        case f: False
        have "\<exists>u. RB_REMOVE_COLOR s up = Inr u \<and> rb_ok u"
          using 2(2) [OF black E False, where a = "(fin, s)"] s uph pc_up f by (simp add: add.commute add.left_commute)
        then show ?thesis using eq f by simp
      qed
    qed
  qed
qed

section \<open>Positions in a tree\<close>

lemma unzip_h: "invh (zip_up t path) \<Longrightarrow> invh t \<and> path_h (bh t) path"
  by (induction t path rule: zip_up.induct) auto

lemma unzip_c:
  "invc (zip_up t path) \<Longrightarrow> \<not> is_red (zip_up t path) \<Longrightarrow> invc t \<and> (path = [] \<longrightarrow> \<not> is_red t) \<and> path_c (is_red t) path"
proof (induction t path rule: zip_up.induct)
  case (2 t d c x s ps)
  then have "invc (entry d c t x s)" "ps = [] \<Longrightarrow> \<not> is_red (entry d c t x s)" "path_c (is_red (entry d c t x s)) ps"
    by simp_all
  then show ?case by (cases c) auto
qed simp

lemma unzip:
  assumes "rb_ok (zip_up t path)"
  shows "invc t" "invh t" "path_c (is_red t) path" "path_h (bh t) path" "path = [] \<Longrightarrow> \<not> is_red t"
  using assms unzip_h [of t path] unzip_c [of t path] by (auto simp: rb_ok_def)

lemma zip_append: "zip_up t (p @ q) = zip_up (zip_up t p) q"
  by (induction t p rule: zip_up.induct) auto

lemma position_zip: "position x t path = Some (c, l, r, path') \<Longrightarrow> zip_up (Entry c l x r) path' = zip_up t path"
  by (induction x t path arbitrary: c l r path' rule: position.induct) (auto split: if_splits option.splits)

lemma position_iff: "position x t path = None \<longleftrightarrow> x \<notin> set (inorder t)"
  by (induction x t path rule: position.induct) (auto split: if_splits option.splits)

lemma leftmost_zip: "leftmost c l x r path = (c', x', r', path') \<Longrightarrow> zip_up (Entry c' Null x' r') path' = zip_up (Entry c l x r) path"
  by (induction c l x r path rule: leftmost.induct) auto

lemma leftmost_before: "leftmost c l x r path = (c', x', r', path') \<Longrightarrow> before path' = before path"
  by (induction c l x r path rule: leftmost.induct) auto

lemma path_elements:
  "path_h n (p @ Frame d c x s # q) \<longleftrightarrow> path_h n (p @ Frame d c y s # q)"
  "path_c red (p @ Frame d c x s # q) \<longleftrightarrow> path_c red (p @ Frame d c y s # q)"
proof -
  show "path_h n (p @ Frame d c x s # q) \<longleftrightarrow> path_h n (p @ Frame d c y s # q)"
    by (induction n p rule: path_h.induct) auto
  show "path_c red (p @ Frame d c x s # q) \<longleftrightarrow> path_c red (p @ Frame d c y s # q)"
    by (induction red p rule: path_c.induct) auto
qed

lemma splice:
  assumes "path_h (bh (entry d c Null x t)) path" "path_c (c = RB_RED) path" "path = [] \<Longrightarrow> c = RB_BLACK"
    and "invc (entry d c Null x t)" "invh (entry d c Null x t)"
  shows "\<exists>u. (if c = RB_BLACK then RB_REMOVE_COLOR t path else Inr (zip_up t path)) = Inr u \<and> rb_ok u
    \<and> inorder u = before path @ inorder t @ after path"
proof -
  have t: "invc t" "invh t" "path_h (bh t + of_bool (c = RB_BLACK)) path" "c = RB_RED \<Longrightarrow> \<not> is_red t"
    using assms(1,4,5) by auto
  show ?thesis
  proof (cases "c = RB_BLACK")
    case True
    then have "\<exists>u. RB_REMOVE_COLOR t path = Inr u \<and> rb_ok u"
      using t path_c_black [OF assms(2)] by (intro remove_color_ok) auto
    then show ?thesis using True inorder_remove_color by auto
  next
    case False
    then have r: "\<not> is_red t" "path_c (is_red t) path" "path \<noteq> []" using t(4) assms(2,3) path_c_black by auto
    have "rb_ok (zip_up t path)"
      using invc_zip [OF t(1) r(2)] invh_zip [OF t(2), of path] t(3) False root_zip [OF r(2,3)] by (simp add: rb_ok_def)
    then show ?thesis using False by (simp add: inorder_zip)
  qed
qed

lemma RB_REMOVE_ok:
  assumes "rb_ok t" "x \<in> set (inorder t)" "distinct (inorder t)"
  shows "\<exists>u. RB_REMOVE t x = Inr u \<and> rb_ok u \<and> inorder u = remove1 x (inorder t)"
proof -
  obtain c l r path where p: "position x t [] = Some (c, l, r, path)"
    using assms(2) position_iff [of x t "[]"] by (metis option.exhaust prod_cases4)
  then have z: "t = zip_up (Entry c l x r) path" using position_zip by force
  note inv = unzip [OF assms(1) [unfolded z]]
  have r1: "remove1 x (inorder t) = before path @ inorder l @ inorder r @ after path"
    using assms(3) by (auto simp: z inorder_zip remove1_append)
  show ?thesis
  proof (cases "l = Null \<or> r = Null")
    case True
    obtain d s where e: "Entry c l x r = entry d c Null x s" "s = (if l = Null then r else l)"
      using True by (cases "l = Null") (metis entry.simps)+
    have "\<exists>u. (if c = RB_BLACK then RB_REMOVE_COLOR s path else Inr (zip_up s path)) = Inr u \<and> rb_ok u
        \<and> inorder u = before path @ inorder s @ after path"
      using inv unfolding e by (intro splice [where d = d and x = x]) auto
    then show ?thesis using p True r1 e(2) by (cases l; cases r) (auto simp: RB_REMOVE_def)
  next
    case False
    then obtain rc rl rx rr where r: "r = Entry rc rl rx rr" by (cases r) auto
    obtain c' y s down where m: "leftmost rc rl rx rr [] = (c', y, s, down)" by (metis prod_cases4)
    have rz: "r = zip_up (Entry c' Null y s) down" and b: "before down = []"
      using leftmost_zip [OF m] leftmost_before [OF m] r by simp_all
    let ?P = "down @ Frame On_right c y l # path" and ?Q = "down @ Frame On_right c x l # path"
    have "t = zip_up (Entry c' Null y s) ?Q" using z rz by (simp add: zip_append)
    note inv2 = unzip [OF assms(1) [unfolded this]]
    have "\<exists>u. (if c' = RB_BLACK then RB_REMOVE_COLOR s ?P else Inr (zip_up s ?P)) = Inr u \<and> rb_ok u
        \<and> inorder u = before ?P @ inorder s @ after ?P"
      using inv2 path_elements [of _ down On_right c y l path x]
      by (intro splice [where d = On_left and x = y]) auto
    moreover have "before ?P @ inorder s @ after ?P = remove1 x (inorder t)"
      unfolding r1 by (simp add: rz inorder_zip before_append b)
    ultimately show ?thesis using p m r False by (cases l) (auto simp: RB_REMOVE_def)
  qed
qed

section \<open>Ordered trees\<close>

text \<open>What the tree relies on of its comparison: a total order in which only equal elements tie.\<close>

locale rb_order =
  fixes cmp :: "'n \<Rightarrow> 'n \<Rightarrow> int"
  assumes cmp_swap: "cmp x y < 0 \<longleftrightarrow> 0 < cmp y x"
    and cmp_trans: "cmp x y < 0 \<Longrightarrow> cmp y z < 0 \<Longrightarrow> cmp x z < 0"
    and cmp_eq: "cmp x y = 0 \<longleftrightarrow> x = y"
begin

abbreviation ordered :: "'n list \<Rightarrow> bool" where
  "ordered \<equiv> sorted_wrt (\<lambda>x y. cmp x y < 0)"

lemma cmp_self [simp]: "cmp x x = 0"
  using cmp_eq by blast

lemma cmp_asym: "cmp x y < 0 \<Longrightarrow> \<not> cmp y x < 0"
  using cmp_trans [of x y x] by auto

lemma ordered_distinct: "ordered xs \<Longrightarrow> distinct xs"
  by (induction xs) auto

lemma ordered_mid:
  "ordered (xs @ x # ys) \<longleftrightarrow> ordered (xs @ ys) \<and> (\<forall>y \<in> set xs. cmp y x < 0) \<and> (\<forall>y \<in> set ys. cmp x y < 0)"
  by (auto simp: sorted_wrt_append intro: cmp_trans)

lemma descend_ok:
  assumes "ordered (before path @ inorder t @ after path)" "\<forall>y \<in> set (before path). cmp y x < 0" "\<forall>y \<in> set (after path). cmp x y < 0"
  shows "case descend cmp x t path of
      Inl y \<Rightarrow> y = x \<and> x \<in> set (inorder t)
    | Inr path' \<Rightarrow> x \<notin> set (inorder t) \<and> zip_up Null path' = zip_up t path
        \<and> (\<forall>y \<in> set (before path'). cmp y x < 0) \<and> (\<forall>y \<in> set (after path'). cmp x y < 0)"
  using assms
proof (induction t arbitrary: path)
  case (Entry c l y r)
  have o: "ordered ((before path @ inorder l) @ y # (inorder r @ after path))" using Entry.prems(1) by simp
  note mid = o [unfolded ordered_mid]
  show ?case
  proof (rule linorder_cases [of "cmp x y" 0])
    assume lt: "cmp x y < 0"
    have nr: "x \<notin> set (inorder r)" "x \<noteq> y"
      using lt mid cmp_trans [of x y x] by auto
    have "\<forall>z \<in> set (after (Frame On_left c y r # path)). cmp x z < 0"
      using lt mid Entry.prems(3) cmp_trans [OF lt] by auto
    then show ?thesis using lt nr Entry.IH(1) [of "Frame On_left c y r # path"] Entry.prems o
      by (auto split: sum.splits)
  next
    assume "cmp x y = 0"
    then show ?thesis using cmp_eq by auto
  next
    assume gt: "0 < cmp x y"
    then have lt: "cmp y x < 0" by (simp add: cmp_swap)
    have nl: "x \<notin> set (inorder l)" "x \<noteq> y"
      using lt mid cmp_trans [of x y x] by auto
    have "\<forall>z \<in> set (before (Frame On_right c y l # path)). cmp z x < 0"
      using lt mid Entry.prems(2) cmp_trans [OF _ lt] by auto
    then show ?thesis using gt nl Entry.IH(2) [of "Frame On_right c y l # path"] Entry.prems o
      by (auto split: sum.splits)
  qed
qed auto

lemma RB_INSERT_ok:
  assumes "rb_ok t" "ordered (inorder t)"
  shows "x \<in> set (inorder t) \<Longrightarrow> RB_INSERT cmp t x = Inr (Some x, t)"
    and "x \<notin> set (inorder t) \<Longrightarrow> \<exists>u xs ys. RB_INSERT cmp t x = Inr (None, u) \<and> rb_ok u \<and> ordered (inorder u)
      \<and> inorder t = xs @ ys \<and> inorder u = xs @ x # ys"
proof -
  note d = descend_ok [of "[]" t x, simplified, OF assms(2)]
  show "RB_INSERT cmp t x = Inr (Some x, t)" if "x \<in> set (inorder t)"
    using d that by (auto simp: RB_INSERT_def split: sum.splits)
  assume "x \<notin> set (inorder t)"
  then obtain path where p: "descend cmp x t [] = Inr path" "zip_up Null path = t"
    "\<forall>y \<in> set (before path). cmp y x < 0" "\<forall>y \<in> set (after path). cmp x y < 0"
    using d by (auto split: sum.splits)
  have "path_h 0 path" "path_c False path" using unzip [of Null path] assms(1) p(2) by auto
  then obtain u where u: "RB_INSERT_COLOR (Entry RB_RED Null x Null) path = Inr u" "rb_ok u"
    using insert_color_ok [of "Entry RB_RED Null x Null" path] by auto
  have i: "inorder u = before path @ x # after path" "inorder t = before path @ after path"
    using inorder_insert_color [OF u(1)] inorder_zip [of Null path] p(2) by simp_all
  then have "ordered (inorder u)" using assms(2) p(3,4) ordered_mid by simp
  then show "\<exists>u xs ys. RB_INSERT cmp t x = Inr (None, u) \<and> rb_ok u \<and> ordered (inorder u)
      \<and> inorder t = xs @ ys \<and> inorder u = xs @ x # ys"
    using p(1) u i by (auto simp: RB_INSERT_def)
qed

lemma ordered_remove1: "ordered xs \<Longrightarrow> ordered (remove1 x xs)"
  by (induction xs) (auto dest: notin_set_remove1)

lemma RB_FIND_ok: "ordered (inorder t) \<Longrightarrow> RB_FIND cmp x t = (if x \<in> set (inorder t) then Some x else None)"
proof (induction t)
  case (Entry c l y r)
  note mid = Entry.prems [simplified, unfolded ordered_mid]
  have s: "ordered (inorder l)" "ordered (inorder r)" using mid by (auto simp: sorted_wrt_append)
  show ?case
  proof (rule linorder_cases [of "cmp x y" 0])
    assume lt: "cmp x y < 0"
    then have "x \<notin> set (inorder r)" "x \<noteq> y" using mid cmp_trans [of x y x] by auto
    then show ?thesis using lt Entry.IH(1) [OF s(1)] by simp
  next
    assume "cmp x y = 0"
    then show ?thesis using cmp_eq by auto
  next
    assume gt: "0 < cmp x y"
    then have "x \<notin> set (inorder l)" "x \<noteq> y" using mid cmp_trans [of x y x] cmp_swap by fastforce+
    then show ?thesis using gt Entry.IH(2) [OF s(2)] by simp
  qed
qed simp

text \<open>\<open>RB_NFIND\<close>: the first element that is not smaller.\<close>

lemma nfind_ok:
  "ordered (inorder t) \<Longrightarrow> nfind cmp x t res =
     (case dropWhile (\<lambda>y. cmp y x < 0) (inorder t) of [] \<Rightarrow> res | y # _ \<Rightarrow> Some y)"
proof (induction t arbitrary: res)
  case (Entry c l y r)
  note mid = Entry.prems [simplified, unfolded ordered_mid]
  have s: "ordered (inorder l)" "ordered (inorder r)" using mid by (auto simp: sorted_wrt_append)
  show ?case
  proof (rule linorder_cases [of "cmp x y" 0])
    assume lt: "cmp x y < 0"
    then have "\<not> cmp y x < 0" by (rule cmp_asym)
    then show ?thesis using lt Entry.IH(1) [OF s(1)] 
      by (cases "dropWhile (\<lambda>z. cmp z x < 0) (inorder l)") (auto simp: dropWhile_append dest: dropWhile_eq_Nil_conv [THEN iffD2])
  next
    assume "cmp x y = 0"
    then have xy: "x = y" using cmp_eq by simp
    have "dropWhile (\<lambda>z. cmp z x < 0) (inorder l @ y # inorder r) = y # inorder r"
      using mid xy by (subst dropWhile_append2) auto
    then show ?thesis using xy by simp
  next
    assume gt: "0 < cmp x y"
    then have yx: "cmp y x < 0" by (simp add: cmp_swap)
    have "dropWhile (\<lambda>z. cmp z x < 0) (inorder l @ y # inorder r) = dropWhile (\<lambda>z. cmp z x < 0) (inorder r)"
      using mid yx cmp_trans [OF _ yx] by (subst dropWhile_append2) auto
    then show ?thesis using gt Entry.IH(2) [OF s(2)] by simp
  qed
qed simp

end

section \<open>Walking in order\<close>

lemma outermost_ok:
  "outermost On_left t = (case inorder t of [] \<Rightarrow> None | x # _ \<Rightarrow> Some x)"
  "outermost On_right t = (if inorder t = [] then None else Some (last (inorder t)))"
proof -
  show "outermost On_left t = (case inorder t of [] \<Rightarrow> None | x # _ \<Rightarrow> Some x)"
    by (induction t) (auto split: list.splits)
  show "outermost On_right t = (if inorder t = [] then None else Some (last (inorder t)))"
    by (induction t) auto
qed

lemma first_up_ok:
  "first_up On_left path = (case after path of [] \<Rightarrow> None | x # _ \<Rightarrow> Some x)"
  "first_up On_right path = (if before path = [] then None else Some (last (before path)))"
proof -
  show "first_up On_left path = (case after path of [] \<Rightarrow> None | x # _ \<Rightarrow> Some x)"
    by (induction path rule: after.induct) auto
  show "first_up On_right path = (if before path = [] then None else Some (last (before path)))"
    by (induction path rule: before.induct) auto
qed

lemma RB_NEXT_ok:
  assumes "inorder t = xs @ x # ys" "x \<notin> set xs" "x \<notin> set ys"
  shows "RB_NEXT t x = Inr (case ys of [] \<Rightarrow> None | y # _ \<Rightarrow> Some y)"
    and "RB_PREV t x = Inr (if xs = [] then None else Some (last xs))"
proof -
  have "x \<in> set (inorder t)" using assms(1) by simp
  then obtain c l r path where p: "position x t [] = Some (c, l, r, path)"
    using position_iff [of x t "[]"] by (metis option.exhaust prod_cases4)
  then have "inorder t = (before path @ inorder l) @ x # (inorder r @ after path)"
    using position_zip [OF p] inorder_zip [of "Entry c l x r" path] by simp
  then have e: "xs = before path @ inorder l" "ys = inorder r @ after path"
    using assms append_Cons_eq_iff [of x xs ys "before path @ inorder l" "inorder r @ after path"] by auto
  show "RB_NEXT t x = Inr (case ys of [] \<Rightarrow> None | y # _ \<Rightarrow> Some y)"
    using p by (auto simp: RB_NEXT_def e outermost_ok first_up_ok split: list.splits)
  show "RB_PREV t x = Inr (if xs = [] then None else Some (last xs))"
    using p by (auto simp: RB_PREV_def e outermost_ok first_up_ok)
qed

section \<open>Height\<close>

fun depth :: "'n rb_tree \<Rightarrow> nat" where
  "depth Null = 0"
| "depth (Entry c l x r) = max (depth l) (depth r) + 1"

lemma depth_bh: "invc t \<Longrightarrow> invh t \<Longrightarrow> depth t \<le> 2 * bh t + of_bool (is_red t)"
  by (induction t) (auto simp: max_def of_bool_def split: if_splits)

lemma bh_size: "invh t \<Longrightarrow> 2 ^ bh t \<le> length (inorder t) + 1"
proof (induction t)
  case (Entry c l x r)
  then have "2 ^ bh l \<le> length (inorder l) + 1" "2 ^ bh l \<le> length (inorder r) + 1" by auto
  then show ?case by (cases c) auto
qed simp

lemma rb_depth: "rb_ok t \<Longrightarrow> 2 ^ (depth t div 2) \<le> length (inorder t) + 1"
proof -
  assume ok: "rb_ok t"
  then have "depth t div 2 \<le> bh t" using depth_bh [of t] by (simp add: rb_ok_def)
  then have "2 ^ (depth t div 2) \<le> (2 :: nat) ^ bh t" by simp
  then show ?thesis using bh_size [of t] ok unfolding rb_ok_def by linarith
qed

end
