(* ===== verification/UvSignal.thy ===== *)
theory UvSignal
  imports UvRbTree "HOL-Library.Multiset"
begin

text \<open>
  Signals: \<open>third/libuv/src/unix/signal.c\<close>, with the tree of \<open>UvRbTree\<close>.

  Handles and loops are named by their addresses; 0 is not an address of either.  What is done
  under the signal lock is one step.  The flags of a handle are booleans: \<open>live\<close> from
  \<open>uv_signal_init\<close> until its close callback, when the memory may be used for something else;
  \<open>closing\<close> from \<open>uv_close\<close> on; \<open>started\<close> is \<open>UV__HANDLE_ACTIVE\<close>.  The pipe of a loop holds bytes,
  16 for each message.  \<open>uv__signal_event\<close> runs user code in its middle, so it is cut into the
  steps before, between and after the callbacks; \<open>event_pc\<close> says where it is.  System calls
  answer with the script \<open>es\<close>: 0 or an \<open>errno\<close> for each.
\<close>

section \<open>State\<close>

type_synonym addr = nat

record uv_signal_t =
  signum :: int
  sig_loop :: addr
  signal_cb :: nat
  caught_signals :: u32
  dispatched_signals :: u32
  started :: bool
  closing :: bool
  live :: bool

record uv__signal_msg_t =
  msg_handle :: addr
  msg_signum :: int

datatype piece = Piece uv__signal_msg_t nat

text \<open>
  \<open>uv__signal_event\<close>: not running, at the call of \<open>read\<close>, in the loop over the messages, or in
  the callback of a handle.
\<close>

datatype event_pc = Not_running | Reading | Handling | In_callback addr

record uv_signals =
  hs :: "addr \<Rightarrow> uv_signal_t"
  signal_tree :: "addr rb_tree"
  installed :: "int \<Rightarrow> bool"
  pipe_open :: "addr \<Rightarrow> bool"
  pipe :: "addr \<Rightarrow> piece list"
  event_pc :: "addr \<Rightarrow> event_pc"
  buf :: "addr \<Rightarrow> piece list"
  buf_pos :: "addr \<Rightarrow> nat"
  buf_end :: "addr \<Rightarrow> nat"
  close_list :: "addr \<Rightarrow> addr list"
  told :: "(addr \<times> int) list"

type_synonym outcomes = "int list"

definition upd_sig :: "addr \<Rightarrow> (uv_signal_t \<Rightarrow> uv_signal_t) \<Rightarrow> uv_signals \<Rightarrow> uv_signals" where
  "upd_sig h f S = S\<lparr>hs := (hs S)(h := f (hs S h))\<rparr>"

section \<open>The order of the handles\<close>

definition uv__signal_compare :: "(addr \<Rightarrow> uv_signal_t) \<Rightarrow> addr \<Rightarrow> addr \<Rightarrow> int" where
  "uv__signal_compare m w1 w2 =
     (if signum (m w1) < signum (m w2) then - 1
      else if signum (m w2) < signum (m w1) then 1
      else if sig_loop (m w1) < sig_loop (m w2) then - 1
      else if sig_loop (m w2) < sig_loop (m w1) then 1
      else if w1 < w2 then - 1
      else if w2 < w1 then 1
      else 0)"

interpretation signal_order: rb_order "uv__signal_compare m" for m
  by unfold_locales (auto simp: uv__signal_compare_def split: if_splits)

section \<open>The lock\<close>

fun again :: "outcomes \<Rightarrow> (int \<times> outcomes) option" where
  "again [] = None"
| "again (e # es) = (if e = EINTR then again es else Some (e, es))"

definition uv__signal_lock :: "outcomes \<Rightarrow> (int \<times> outcomes) option" where
  "uv__signal_lock es = map_option (\<lambda>(e, es). (if e \<noteq> 0 then - 1 else 0, es)) (again es)"

definition uv__signal_unlock :: "outcomes \<Rightarrow> (int \<times> outcomes) option" where
  "uv__signal_unlock es = map_option (\<lambda>(e, es). (if e \<noteq> 0 then - 1 else 0, es)) (again es)"

text \<open>A call whose failure aborts.\<close>

definition must :: "(int \<times> outcomes) option \<Rightarrow> outcomes res option" where
  "must r = map_option (\<lambda>(e, es). if e \<noteq> 0 then Inl Aborted else Inr es) r"

text \<open>A call that does not block: \<open>sigfillset\<close>, \<open>pthread_sigmask\<close> and \<open>sigaction\<close> never answer \<open>EINTR\<close>.\<close>

definition one_call :: "outcomes \<Rightarrow> (int \<times> outcomes) option" where
  "one_call es = (case es of [] \<Rightarrow> None | e # es \<Rightarrow> if e = EINTR then None else Some (e, es))"

definition uv__signal_block_and_lock :: "outcomes \<Rightarrow> outcomes res option" where
  "uv__signal_block_and_lock es =
     run_bind (must (one_call es)) (\<lambda>es.
     run_bind (must (one_call es)) (\<lambda>es.
     must (uv__signal_lock es)))"

definition uv__signal_unlock_and_unblock :: "outcomes \<Rightarrow> outcomes res option" where
  "uv__signal_unlock_and_unblock es =
     run_bind (must (uv__signal_unlock es)) (\<lambda>es.
     must (one_call es))"

section \<open>Catching\<close>

text \<open>The \<open>lookup\<close> on the stack stands at address 0.\<close>

definition uv__signal_first_handle :: "int \<Rightarrow> uv_signals \<Rightarrow> addr option" where
  "uv__signal_first_handle sn S =
     (let m = (hs S)(0 := (hs S 0)\<lparr>signum := sn, sig_loop := 0\<rparr>) in
      case RB_NFIND (uv__signal_compare m) (signal_tree S) 0 of
        None \<Rightarrow> None
      | Some h \<Rightarrow> if signum (m h) = sn then Some h else None)"

definition bytes_of :: "uv__signal_msg_t \<Rightarrow> piece list" where
  "bytes_of msg = map (Piece msg) [0..<16]"

text \<open>
  The walk over the handles of a signal.  A \<open>write\<close> that the kernel lets through finds room in
  the pipe for the whole message or answers \<open>EAGAIN\<close>.
\<close>

fun handler_loop :: "nat \<Rightarrow> int \<Rightarrow> addr option \<Rightarrow> outcomes \<Rightarrow> uv_signals \<Rightarrow> (outcomes \<times> uv_signals) res option" where
  "handler_loop 0 sn handle es S = None"
| "handler_loop (Suc n) sn handle es S =
     (case handle of
        None \<Rightarrow> Some (Inr (es, S))
      | Some h \<Rightarrow>
          if signum (hs S h) \<noteq> sn then Some (Inr (es, S))
          else
            (case again es of
               None \<Rightarrow> None
             | Some (e, es) \<Rightarrow>
                 let l = sig_loop (hs S h);
                     e = (if e = 0 \<and> 65536 < length (pipe S l) + 16 then EAGAIN else e) in
                 if \<not> (e = 0 \<or> e = EAGAIN) then Some (Inl Assert_failed)
                 else
                   let S = (if e = 0 then
                              upd_sig h (\<lambda>x. x\<lparr>caught_signals := caught_signals x + 1\<rparr>)
                                (S\<lparr>pipe := (pipe S)(l := pipe S l @ bytes_of \<lparr>msg_handle = h, msg_signum = sn\<rparr>)\<rparr>)
                            else S)
                   in run_bind (Some (RB_NEXT (signal_tree S) h)) (\<lambda>handle.
                      handler_loop n sn handle es S)))"

definition uv__signal_handler :: "nat \<Rightarrow> int \<Rightarrow> outcomes \<Rightarrow> uv_signals \<Rightarrow> uv_signals res option" where
  "uv__signal_handler n sn es S =
     (case uv__signal_lock es of
        None \<Rightarrow> None
      | Some (r, es) \<Rightarrow>
          if r \<noteq> 0 then Some (Inr S)
          else
            run_bind (handler_loop n sn (uv__signal_first_handle sn S) es S) (\<lambda>(es, S).
            case uv__signal_unlock es of None \<Rightarrow> None | Some _ \<Rightarrow> Some (Inr S)))"

definition uv__signal_register_handler :: "int \<Rightarrow> outcomes \<Rightarrow> uv_signals \<Rightarrow> (int \<times> outcomes \<times> uv_signals) res option" where
  "uv__signal_register_handler sn es S =
     run_bind (must (one_call es)) (\<lambda>es.
     case one_call es of
       None \<Rightarrow> None
     | Some (e, es) \<Rightarrow>
         if e \<noteq> 0 then Some (Inr (- e, es, S)) else Some (Inr (0, es, S\<lparr>installed := (installed S)(sn := True)\<rparr>)))"

definition uv__signal_unregister_handler :: "int \<Rightarrow> outcomes \<Rightarrow> uv_signals \<Rightarrow> (outcomes \<times> uv_signals) res option" where
  "uv__signal_unregister_handler sn es S =
     run_bind (must (one_call es)) (\<lambda>es.
     Some (Inr (es, S\<lparr>installed := (installed S)(sn := False)\<rparr>)))"

section \<open>Handles\<close>

definition uv__signal_stop :: "addr \<Rightarrow> outcomes \<Rightarrow> uv_signals \<Rightarrow> (outcomes \<times> uv_signals) res option" where
  "uv__signal_stop h es S =
     (if signum (hs S h) = 0 then Some (Inr (es, S))
      else
        run_bind (uv__signal_block_and_lock es) (\<lambda>es.
        run_bind (Some (RB_REMOVE (signal_tree S) h)) (\<lambda>t.
        let S = S\<lparr>signal_tree := t\<rparr> in
        run_bind
          (if uv__signal_first_handle (signum (hs S h)) S = None
           then uv__signal_unregister_handler (signum (hs S h)) es S else Some (Inr (es, S))) (\<lambda>(es, S).
        run_bind (uv__signal_unlock_and_unblock es) (\<lambda>es.
        Some (Inr (es, upd_sig h (\<lambda>x. x\<lparr>signum := 0, started := False\<rparr>) S)))))))"

definition uv_signal_stop :: "addr \<Rightarrow> outcomes \<Rightarrow> uv_signals \<Rightarrow> (outcomes \<times> uv_signals) res option" where
  "uv_signal_stop h es S = (if closing (hs S h) then Some (Inl Assert_failed) else uv__signal_stop h es S)"

text \<open>The second half of \<open>uv_signal_start\<close>, from the lock on.\<close>

definition start_locked :: "addr \<Rightarrow> nat \<Rightarrow> int \<Rightarrow> outcomes \<Rightarrow> uv_signals \<Rightarrow> (int \<times> outcomes \<times> uv_signals) res option" where
  "start_locked h cb sn es S =
     run_bind (uv__signal_block_and_lock es) (\<lambda>es.
     run_bind
       (if uv__signal_first_handle sn S = None then uv__signal_register_handler sn es S
        else Some (Inr (0, es, S))) (\<lambda>(err, es, S).
     if err \<noteq> 0 then
       run_bind (uv__signal_unlock_and_unblock es) (\<lambda>es. Some (Inr (err, es, S)))
     else
       let S = upd_sig h (\<lambda>x. x\<lparr>signum := sn\<rparr>) S in
       run_bind (Some (RB_INSERT (uv__signal_compare (hs S)) (signal_tree S) h)) (\<lambda>(_, t).
       run_bind (uv__signal_unlock_and_unblock es) (\<lambda>es.
       Some (Inr (0, es, upd_sig h (\<lambda>x. x\<lparr>signal_cb := cb, started := True\<rparr>) (S\<lparr>signal_tree := t\<rparr>)))))))"

definition uv_signal_start :: "addr \<Rightarrow> nat \<Rightarrow> int \<Rightarrow> outcomes \<Rightarrow> uv_signals \<Rightarrow> (int \<times> outcomes \<times> uv_signals) res option" where
  "uv_signal_start h cb sn es S =
     (if closing (hs S h) then Some (Inl Assert_failed)
      else if sn = 0 then Some (Inr (- EINVAL, es, S))
      else if sn = signum (hs S h) then Some (Inr (0, es, upd_sig h (\<lambda>x. x\<lparr>signal_cb := cb\<rparr>) S))
      else
        run_bind (if signum (hs S h) \<noteq> 0 then uv__signal_stop h es S else Some (Inr (es, S))) (\<lambda>(es, S).
        start_locked h cb sn es S))"

text \<open>\<open>made\<close> is the result of \<open>uv__make_pipe\<close>.\<close>

definition uv__signal_loop_once_init :: "int \<Rightarrow> addr \<Rightarrow> uv_signals \<Rightarrow> int \<times> uv_signals" where
  "uv__signal_loop_once_init made l S =
     (if pipe_open S l then (0, S)
      else if made \<noteq> 0 then (made, S)
      else (0, S\<lparr>pipe_open := (pipe_open S)(l := True), pipe := (pipe S)(l := [])\<rparr>))"

definition uv_signal_init :: "int \<Rightarrow> addr \<Rightarrow> addr \<Rightarrow> uv_signals \<Rightarrow> int \<times> uv_signals" where
  "uv_signal_init made l h S =
     (let (err, S) = uv__signal_loop_once_init made l S in
      if err \<noteq> 0 then (err, S)
      else
        (0, upd_sig h (\<lambda>x. x\<lparr>sig_loop := l, signum := 0, caught_signals := 0, dispatched_signals := 0,
               started := False, closing := False, live := True\<rparr>) S))"

definition make_close_pending :: "addr \<Rightarrow> uv_signals \<Rightarrow> uv_signals res" where
  "make_close_pending h S =
     (if \<not> closing (hs S h) then Inl Assert_failed
      else if \<not> live (hs S h) then Inl Assert_failed
      else let l = sig_loop (hs S h) in Inr (S\<lparr>close_list := (close_list S)(l := h # close_list S l)\<rparr>))"

definition uv__signal_close :: "addr \<Rightarrow> outcomes \<Rightarrow> uv_signals \<Rightarrow> (outcomes \<times> uv_signals) res option" where
  "uv__signal_close h es S =
     run_bind (uv__signal_stop h es S) (\<lambda>(es, S).
     if caught_signals (hs S h) = dispatched_signals (hs S h) then
       run_bind (Some (make_close_pending h S)) (\<lambda>S. Some (Inr (es, S)))
     else Some (Inr (es, S)))"

text \<open>The part of \<open>uv_close\<close> before its \<open>switch\<close>, and the case of signal handles.\<close>

definition close_signal :: "addr \<Rightarrow> outcomes \<Rightarrow> uv_signals \<Rightarrow> (outcomes \<times> uv_signals) res option" where
  "close_signal h es S =
     (if closing (hs S h) then Some (Inl Assert_failed)
      else uv__signal_close h es (upd_sig h (\<lambda>x. x\<lparr>closing := True\<rparr>) S))"

text \<open>
  \<open>uv__finish_close\<close> of the next handle in the list; after its close callback the memory is the
  user's again.
\<close>

definition finish_one :: "addr \<Rightarrow> uv_signals \<Rightarrow> uv_signals res option" where
  "finish_one l S =
     (case close_list S l of
        [] \<Rightarrow> None
      | h # q \<Rightarrow>
          if \<not> closing (hs S h) \<or> \<not> live (hs S h) then Some (Inl Assert_failed)
          else Some (Inr (upd_sig h (\<lambda>x. x\<lparr>live := False\<rparr>) (S\<lparr>close_list := (close_list S)(l := q)\<rparr>))))"

fun stop_all :: "addr list \<Rightarrow> outcomes \<Rightarrow> uv_signals \<Rightarrow> (outcomes \<times> uv_signals) res option" where
  "stop_all [] es S = Some (Inr (es, S))"
| "stop_all (h # q) es S = run_bind (uv__signal_stop h es S) (\<lambda>(es, S). stop_all q es S)"

text \<open>\<open>q\<close> are the signal handles in the loop's queue of handles.\<close>

definition uv__signal_loop_cleanup :: "addr \<Rightarrow> addr list \<Rightarrow> outcomes \<Rightarrow> uv_signals \<Rightarrow> (outcomes \<times> uv_signals) res option" where
  "uv__signal_loop_cleanup l q es S =
     run_bind (stop_all q es S) (\<lambda>(es, S).
     Some (Inr (es, S\<lparr>pipe_open := (pipe_open S)(l := False), pipe := (pipe S)(l := [])\<rparr>)))"

section \<open>Dispatching\<close>

definition event_enter :: "addr \<Rightarrow> uv_signals \<Rightarrow> uv_signals option" where
  "event_enter l S =
     (if event_pc S l = Not_running \<and> pipe_open S l then
        Some (S\<lparr>event_pc := (event_pc S)(l := Reading), buf := (buf S)(l := []), buf_end := (buf_end S)(l := 0)\<rparr>)
      else None)"

text \<open>The condition of the loop, which \<open>continue\<close> goes to as well.\<close>

definition event_again :: "addr \<Rightarrow> uv_signals \<Rightarrow> uv_signals" where
  "event_again l S =
     S\<lparr>event_pc := (event_pc S)(l := if buf_end S l = 512 then Reading else Not_running)\<rparr>"

text \<open>The call of \<open>read\<close> returns \<open>r\<close> bytes or \<open>- r\<close> is the \<open>errno\<close>.\<close>

definition event_read :: "addr \<Rightarrow> int \<Rightarrow> uv_signals \<Rightarrow> uv_signals res option" where
  "event_read l r S =
     (if event_pc S l \<noteq> Reading then None
      else if r = - EINTR then Some (Inr (event_again l S))
      else if r = - EAGAIN then
        if buf S l \<noteq> [] then Some (Inr (event_again l S))
        else Some (Inr (S\<lparr>event_pc := (event_pc S)(l := Not_running)\<rparr>))
      else if r < 0 then Some (Inl Aborted)
      else
        let b = buf S l @ take (nat r) (pipe S l) in
        Some (Inr (S\<lparr>buf := (buf S)(l := b), pipe := (pipe S)(l := drop (nat r) (pipe S l)),
          buf_end := (buf_end S)(l := length b div 16 * 16), buf_pos := (buf_pos S)(l := 0),
          event_pc := (event_pc S)(l := Handling)\<rparr>)))"

text \<open>The message that 16 bytes stand for; bytes of different messages are no message.\<close>

definition message_at :: "nat \<Rightarrow> piece list \<Rightarrow> uv__signal_msg_t option" where
  "message_at i b =
     (case drop i b of
        [] \<Rightarrow> None
      | Piece msg k # _ \<Rightarrow> if take 16 (drop i b) = bytes_of msg then Some msg else None)"

text \<open>What follows the callback in the body of the loop.\<close>

definition event_done :: "addr \<Rightarrow> addr \<Rightarrow> uv_signals \<Rightarrow> uv_signals res" where
  "event_done l h S =
     (let S = upd_sig h (\<lambda>x. x\<lparr>dispatched_signals := dispatched_signals x + 1\<rparr>) S;
          S = S\<lparr>buf_pos := (buf_pos S)(l := buf_pos S l + 16), event_pc := (event_pc S)(l := Handling)\<rparr>
      in if closing (hs S h) \<and> caught_signals (hs S h) = dispatched_signals (hs S h)
         then make_close_pending h S else Inr S)"

definition event_message :: "addr \<Rightarrow> uv_signals \<Rightarrow> uv_signals res" where
  "event_message l S =
     (case message_at (buf_pos S l) (buf S l) of
        None \<Rightarrow> Inl Use_after_free
      | Some msg \<Rightarrow>
          let h = msg_handle msg in
          if \<not> live (hs S h) then Inl Use_after_free
          else if msg_signum msg = signum (hs S h) then
            if closing (hs S h) then Inl Assert_failed
            else Inr (S\<lparr>told := told S @ [(h, msg_signum msg)], event_pc := (event_pc S)(l := In_callback h)\<rparr>)
          else event_done l h S)"

definition event_step :: "addr \<Rightarrow> uv_signals \<Rightarrow> uv_signals res option" where
  "event_step l S =
     (case event_pc S l of
        Handling \<Rightarrow>
          if buf_pos S l < buf_end S l then Some (event_message l S)
          else Some (Inr (event_again l (S\<lparr>buf := (buf S)(l := drop (buf_end S l) (buf S l))\<rparr>)))
      | In_callback h \<Rightarrow> Some (event_done l h S)
      | _ \<Rightarrow> None)"

section \<open>Interleavings\<close>

text \<open>
  What user code does with the handles of a loop happens on the loop's thread, outside
  \<open>uv__signal_event\<close> or in a callback; a signal arrives on any thread.  A handle may be
  initialised where no live one is, and is used according to the manual: not after \<open>uv_close\<close>.
  The kernel's \<open>read\<close> gives all there is, up to the size asked for.  \<open>uv_signal_start\<close> of a
  started handle holds the lock twice; a signal in between is one between stopping it and
  starting it again.
\<close>

datatype sig_action =
    Init addr addr int
  | Start addr nat int outcomes
  | Stop addr outcomes
  | Close addr outcomes
  | Raise int outcomes
  | Enter addr
  | Read addr int
  | Go_on addr
  | Finish addr

definition in_user_code :: "addr \<Rightarrow> uv_signals \<Rightarrow> bool" where
  "in_user_code l S \<longleftrightarrow> event_pc S l \<noteq> Reading \<and> event_pc S l \<noteq> Handling"

definition usable :: "addr \<Rightarrow> uv_signals \<Rightarrow> bool" where
  "usable h S \<longleftrightarrow> live (hs S h) \<and> \<not> closing (hs S h) \<and> in_user_code (sig_loop (hs S h)) S"

text \<open>\<open>read\<close> fails with some \<open>errno\<close>, or gives all there is, up to the size asked for.\<close>

definition read_answers :: "addr \<Rightarrow> uv_signals \<Rightarrow> int \<Rightarrow> bool" where
  "read_answers l S r \<longleftrightarrow> r < 0
     \<or> (pipe S l \<noteq> [] \<and> r = int (min (512 - length (buf S l)) (length (pipe S l))))"

definition forget :: "('a \<times> uv_signals) res option \<Rightarrow> uv_signals res option" where
  "forget r = run_bind r (\<lambda>(_, S). Some (Inr S))"

definition sig_act :: "sig_action \<Rightarrow> uv_signals \<Rightarrow> uv_signals res option" where
  "sig_act a S =
     (case a of
        Init l h made \<Rightarrow>
          if 0 < l \<and> 0 < h \<and> \<not> live (hs S h) \<and> in_user_code l S then Some (Inr (snd (uv_signal_init made l h S))) else None
      | Start h cb sn es \<Rightarrow> if usable h S then forget (run_bind (uv_signal_start h cb sn es S) (\<lambda>(err, es, S). Some (Inr (es, S)))) else None
      | Stop h es \<Rightarrow> if usable h S then forget (uv_signal_stop h es S) else None
      | Close h es \<Rightarrow> if usable h S then forget (close_signal h es S) else None
      | Raise sn es \<Rightarrow>
          if installed S sn then uv__signal_handler (length (inorder (signal_tree S)) + 1) sn es S else None
      | Enter l \<Rightarrow> map_option Inr (event_enter l S)
      | Read l r \<Rightarrow> if read_answers l S r then event_read l r S else None
      | Go_on l \<Rightarrow> event_step l S
      | Finish l \<Rightarrow> if event_pc S l = Not_running then finish_one l S else None)"

text \<open>
  The only ways for a step to fail, which all are the kernel's refusal of a call: \<open>abort\<close> in the
  operations on handles when something other than an interruption, which is retried, happens to
  the lock or the mask; \<open>abort\<close> when \<open>read\<close> on the pipe fails with another error than \<open>EINTR\<close> and
  \<open>EAGAIN\<close>; the assertion on \<open>write\<close>, when it fails with another error than these.
\<close>

definition refused :: "sig_action \<Rightarrow> fault \<Rightarrow> bool" where
  "refused a f =
     (case a of
        Start h cb sn es \<Rightarrow> f = Aborted \<and> \<not> list_all (\<lambda>e. e \<in> {0, EINTR}) es
      | Stop h es \<Rightarrow> f = Aborted \<and> \<not> list_all (\<lambda>e. e \<in> {0, EINTR}) es
      | Close h es \<Rightarrow> f = Aborted \<and> \<not> list_all (\<lambda>e. e \<in> {0, EINTR}) es
      | Raise sn es \<Rightarrow> f = Assert_failed \<and> \<not> list_all (\<lambda>e. e \<in> {0, EINTR, EAGAIN}) es
      | Read l r \<Rightarrow> f = Aborted \<and> r < 0 \<and> - r \<notin> {EINTR, EAGAIN}
      | _ \<Rightarrow> False)"

inductive sig_reach :: "uv_signals \<Rightarrow> uv_signals \<Rightarrow> bool" for S0 where
  start: "sig_reach S0 S0"
| step: "sig_reach S0 S \<Longrightarrow> sig_act a S = Some (Inr S') \<Longrightarrow> sig_reach S0 S'"

definition no_signals :: uv_signals where
  "no_signals = \<lparr>hs = (\<lambda>_. \<lparr>signum = 0, sig_loop = 0, signal_cb = 0, caught_signals = 0, dispatched_signals = 0,
       started = False, closing = False, live = False\<rparr>),
     signal_tree = Null, installed = (\<lambda>_. False), pipe_open = (\<lambda>_. False), pipe = (\<lambda>_. []),
     event_pc = (\<lambda>_. Not_running), buf = (\<lambda>_. []), buf_pos = (\<lambda>_. 0), buf_end = (\<lambda>_. 0), close_list = (\<lambda>_. []), told = []\<rparr>"

section \<open>Bytes and messages\<close>

fun decode :: "piece list \<Rightarrow> uv__signal_msg_t list" where
  "decode [] = []"
| "decode (Piece m k # b) = m # decode (drop 15 b)"

definition whole :: "piece list \<Rightarrow> bool" where
  "whole b \<longleftrightarrow> b = concat (map bytes_of (decode b))"

lemma bytes_of_form: "bytes_of m = Piece m 0 # map (Piece m) [1..<16]"
  by (simp add: bytes_of_def upt_rec)

lemma bytes_of_length [simp]: "length (bytes_of m) = 16"
  by (simp add: bytes_of_def)

lemma decode_bytes [simp]: "decode (bytes_of m @ b) = m # decode b"
proof -
  have "drop 15 (map (Piece m) [1..<16] @ b) = b" by simp
  then show ?thesis by (simp only: bytes_of_form append_Cons decode.simps)
qed

lemma decode_concat [simp]: "decode (concat (map bytes_of ms)) = ms"
  by (induction ms) auto

lemma wholeI: "whole (concat (map bytes_of ms))"
  by (simp add: whole_def)

lemma wholeE: "whole b \<Longrightarrow> (\<And>ms. b = concat (map bytes_of ms) \<Longrightarrow> decode b = ms \<Longrightarrow> P) \<Longrightarrow> P"
  by (metis whole_def)

lemma whole_Nil [simp]: "whole []" "decode [] = []"
  by (simp_all add: whole_def)

lemma whole_append:
  assumes "whole a" "whole b"
  shows "whole (a @ b)" "decode (a @ b) = decode a @ decode b"
proof -
  have "a @ b = concat (map bytes_of (decode a @ decode b))" using assms by (simp add: whole_def)
  then show "whole (a @ b)" "decode (a @ b) = decode a @ decode b" by (metis wholeI, metis decode_concat)
qed

lemma whole_bytes: "whole (bytes_of m)" "decode (bytes_of m) = [m]"
  using wholeI [of "[m]"] decode_concat [of "[m]"] by simp_all

lemma whole_length: "whole b \<Longrightarrow> length b = 16 * length (decode b)"
proof (erule wholeE)
  fix ms assume "b = concat (map bytes_of ms)" "decode b = ms"
  moreover have "length (concat (map bytes_of ms)) = 16 * length ms" by (induction ms) auto
  ultimately show "length b = 16 * length (decode b)" by simp
qed

lemma whole_split:
  assumes "whole b" "16 dvd n"
  shows "whole (take n b)" "whole (drop n b)" "decode (take n b) = take (n div 16) (decode b)"
    "decode (drop n b) = drop (n div 16) (decode b)"
proof -
  obtain k where n: "n = 16 * k" using assms(2) by (elim dvdE)
  have c: "take (16 * k) (concat (map bytes_of ms)) = concat (map bytes_of (take k ms))
      \<and> drop (16 * k) (concat (map bytes_of ms)) = concat (map bytes_of (drop k ms))" for ms
  proof (induction k arbitrary: ms)
    case (Suc k)
    then show ?case by (cases ms) simp_all
  qed simp
  from assms(1) obtain ms where "b = concat (map bytes_of ms)" "decode b = ms" by (rule wholeE)
  then show "whole (take n b)" "whole (drop n b)" "decode (take n b) = take (n div 16) (decode b)"
    "decode (drop n b) = drop (n div 16) (decode b)"
    using c [of ms] wholeI by (simp_all add: n)
qed

lemma message_at_whole:
  assumes "whole b" "16 dvd n" "n < length b"
  shows "\<exists>m. message_at n b = Some m \<and> decode (drop n b) = m # decode (drop (n + 16) b)"
proof -
  have w: "whole (drop n b)" and ne: "drop n b \<noteq> []" using whole_split [OF assms(1,2)] assms(3) by auto
  then obtain m ms where d: "drop n b = bytes_of m @ concat (map bytes_of ms)"
    by (elim wholeE) (metis concat.simps(1) concat.simps(2) list.exhaust list.simps(8) list.simps(9))
  have "drop (n + 16) b = drop 16 (drop n b)" by (simp add: add.commute)
  then have "drop (n + 16) b = concat (map bytes_of ms)" using d by simp
  moreover have "message_at n b = Some m"
    unfolding message_at_def d by (simp add: bytes_of_form)
  ultimately show ?thesis using d by auto
qed

section \<open>The invariant\<close>

text \<open>The messages on their way to the handles of a loop.\<close>

definition under_way :: "uv_signals \<Rightarrow> addr \<Rightarrow> uv__signal_msg_t list" where
  "under_way S l =
     (case event_pc S l of
        Not_running \<Rightarrow> []
      | Reading \<Rightarrow> []
      | _ \<Rightarrow> decode (drop (buf_pos S l) (buf S l))) @ decode (pipe S l)"

definition owed :: "uv_signals \<Rightarrow> addr \<Rightarrow> nat" where
  "owed S h = count_list (map msg_handle (under_way S (sig_loop (hs S h)))) h"

definition tree_ok :: "uv_signals \<Rightarrow> bool" where
  "tree_ok S \<longleftrightarrow> rb_ok (signal_tree S)
     \<and> sorted_wrt (\<lambda>x y. uv__signal_compare (hs S) x y < 0) (inorder (signal_tree S))
     \<and> set (inorder (signal_tree S)) = {h. signum (hs S h) \<noteq> 0}
     \<and> (\<forall>sn. installed S sn \<longleftrightarrow> sn \<noteq> 0 \<and> (\<exists>h. signum (hs S h) = sn))"

definition handle_ok :: "uv_signals \<Rightarrow> addr \<Rightarrow> bool" where
  "handle_ok S h \<longleftrightarrow>
     (signum (hs S h) \<noteq> 0 \<longrightarrow> live (hs S h) \<and> \<not> closing (hs S h))
   \<and> (live (hs S h) \<longrightarrow> 0 < h \<and> 0 < sig_loop (hs S h) \<and> pipe_open S (sig_loop (hs S h))
        \<and> caught_signals (hs S h) = dispatched_signals (hs S h) + of_nat (owed S h)
        \<and> (started (hs S h) \<longleftrightarrow> signum (hs S h) \<noteq> 0))"

definition messages_ok :: "uv_signals \<Rightarrow> addr \<Rightarrow> bool" where
  "messages_ok S l \<longleftrightarrow>
     (\<forall>m \<in> set (under_way S l). live (hs S (msg_handle m)) \<and> sig_loop (hs S (msg_handle m)) = l \<and> msg_signum m \<noteq> 0)"

definition closing_ok :: "uv_signals \<Rightarrow> addr \<Rightarrow> bool" where
  "closing_ok S l \<longleftrightarrow> distinct (close_list S l)
     \<and> set (close_list S l) = {h. live (hs S h) \<and> closing (hs S h) \<and> sig_loop (hs S h) = l \<and> owed S h = 0}"

definition event_ok :: "uv_signals \<Rightarrow> addr \<Rightarrow> bool" where
  "event_ok S l \<longleftrightarrow> whole (pipe S l) \<and> length (pipe S l) \<le> 65536 \<and> (\<not> pipe_open S l \<longrightarrow> pipe S l = []) \<and>
     (case event_pc S l of
        Not_running \<Rightarrow> True
      | Reading \<Rightarrow> buf S l = []
      | Handling \<Rightarrow> whole (buf S l) \<and> length (buf S l) \<le> 512 \<and> buf_end S l = length (buf S l) \<and> 16 dvd buf_pos S l
          \<and> buf_pos S l \<le> length (buf S l)
      | In_callback h \<Rightarrow> whole (buf S l) \<and> length (buf S l) \<le> 512 \<and> buf_end S l = length (buf S l) \<and> 16 dvd buf_pos S l
          \<and> buf_pos S l < length (buf S l) \<and> msg_handle (hd (decode (drop (buf_pos S l) (buf S l)))) = h)"

definition sig_ok :: "uv_signals \<Rightarrow> bool" where
  "sig_ok S \<longleftrightarrow> tree_ok S \<and> (\<forall>h. handle_ok S h) \<and> (\<forall>l. messages_ok S l \<and> closing_ok S l \<and> event_ok S l)"

lemma sig_okD:
  "sig_ok S \<Longrightarrow> tree_ok S" "sig_ok S \<Longrightarrow> handle_ok S h" "sig_ok S \<Longrightarrow> messages_ok S l" "sig_ok S \<Longrightarrow> closing_ok S l"
  "sig_ok S \<Longrightarrow> event_ok S l"
  by (simp_all add: sig_ok_def)

lemma sig_okI:
  "tree_ok S \<Longrightarrow> (\<And>h. handle_ok S h) \<Longrightarrow> (\<And>l. messages_ok S l) \<Longrightarrow> (\<And>l. closing_ok S l) \<Longrightarrow> (\<And>l. event_ok S l) \<Longrightarrow> sig_ok S"
  by (simp add: sig_ok_def)

lemma no_signals_ok: "sig_ok no_signals"
  by (simp add: sig_ok_def no_signals_def tree_ok_def rb_ok_def handle_ok_def messages_ok_def closing_ok_def
      event_ok_def under_way_def)

text \<open>The counters tell whether messages are under way, because there is never room for \<open>2 ^ 32\<close>.\<close>

lemma under_way_length:
  assumes "event_ok S l"
  shows "length (under_way S l) \<le> 4128"
proof -
  have p: "length (decode (pipe S l)) \<le> 4096" using assms whole_length [of "pipe S l"] by (simp add: event_ok_def)
  have b: "length (decode (drop (buf_pos S l) (buf S l))) \<le> 32"
    if "whole (buf S l)" "16 dvd buf_pos S l" "length (buf S l) \<le> 512"
    using whole_length [OF whole_split(2) [OF that(1,2)]] that(3) by simp
  show ?thesis using p assms b by (auto simp: under_way_def event_ok_def split: event_pc.splits)
qed

lemma owed_bound: "event_ok S (sig_loop (hs S h)) \<Longrightarrow> owed S h < 2 ^ 32"
proof -
  assume "event_ok S (sig_loop (hs S h))"
  then have "length (under_way S (sig_loop (hs S h))) \<le> 4128" by (rule under_way_length)
  moreover have "owed S h \<le> length (under_way S (sig_loop (hs S h)))"
    using count_le_length [of "map msg_handle (under_way S (sig_loop (hs S h)))" h] by (simp add: owed_def)
  ultimately show ?thesis by simp
qed

lemma counters:
  assumes "handle_ok S h" "event_ok S (sig_loop (hs S h))" "live (hs S h)"
  shows "caught_signals (hs S h) = dispatched_signals (hs S h) \<longleftrightarrow> owed S h = 0"
proof -
  have "caught_signals (hs S h) = dispatched_signals (hs S h) + of_nat (owed S h)"
    using assms(1,3) by (simp add: handle_ok_def)
  moreover have "(of_nat (owed S h) :: u32) = 0 \<longleftrightarrow> owed S h = 0"
    using owed_bound [OF assms(2)] by (simp add: word_of_nat_eq_0_iff nat_dvd_not_less dvd_imp_le) (metis dvd_0_right nat_dvd_not_less neq0_conv)
  ultimately show ?thesis by simp
qed

section \<open>The tree\<close>

lemma compare_cong:
  assumes "\<And>x. x \<in> set xs \<Longrightarrow> signum (m' x) = signum (m x) \<and> sig_loop (m' x) = sig_loop (m x)"
  shows "sorted_wrt (\<lambda>x y. uv__signal_compare m' x y < 0) xs = sorted_wrt (\<lambda>x y. uv__signal_compare m x y < 0) xs"
  using assms by (intro iffI; elim sorted_wrt_mono_rel [rotated]) (auto simp: uv__signal_compare_def)

lemma first_handle_ok:
  fixes S
  defines "xs \<equiv> inorder (signal_tree S)"
  assumes "sorted_wrt (\<lambda>x y. uv__signal_compare (hs S) x y < 0) xs" "0 \<notin> set xs"
  shows "uv__signal_first_handle sn S =
    (case dropWhile (\<lambda>h. signum (hs S h) < sn) xs of
       [] \<Rightarrow> None | h # _ \<Rightarrow> if signum (hs S h) = sn then Some h else None)"
proof -
  let ?m = "(hs S)(0 := (hs S 0)\<lparr>signum := sn, sig_loop := 0\<rparr>)"
  have "sorted_wrt (\<lambda>x y. uv__signal_compare ?m x y < 0) xs"
    using assms(2,3) compare_cong [of xs ?m "hs S"] by (metis fun_upd_apply)
  then have f: "RB_NFIND (uv__signal_compare ?m) (signal_tree S) 0
      = (case dropWhile (\<lambda>y. uv__signal_compare ?m y 0 < 0) xs of [] \<Rightarrow> None | y # _ \<Rightarrow> Some y)"
    using signal_order.nfind_ok [of ?m "signal_tree S" 0 None] by (simp add: RB_NFIND_def xs_def)
  have "uv__signal_compare ?m y 0 < 0 \<longleftrightarrow> signum (hs S y) < sn" if "y \<in> set xs" for y
    using that assms(3) by (auto simp: uv__signal_compare_def)
  then have d: "dropWhile (\<lambda>y. uv__signal_compare ?m y 0 < 0) xs = dropWhile (\<lambda>h. signum (hs S h) < sn) xs"
    by (intro dropWhile_cong) auto
  show ?thesis
  proof (cases "dropWhile (\<lambda>h. signum (hs S h) < sn) xs")
    case Nil
    then show ?thesis unfolding uv__signal_first_handle_def Let_def f d Nil by simp
  next
    case (Cons h ys)
    then have "h \<noteq> 0" using assms(3) set_dropWhileD [of h _ xs] by (metis list.set_intros(1))
    then show ?thesis unfolding uv__signal_first_handle_def Let_def f d Cons by simp
  qed
qed

lemma first_handle_None:
  assumes "sorted_wrt (\<lambda>x y. uv__signal_compare (hs S) x y < 0) (inorder (signal_tree S))" "0 \<notin> set (inorder (signal_tree S))"
  shows "uv__signal_first_handle sn S = None \<longleftrightarrow> (\<forall>h \<in> set (inorder (signal_tree S)). signum (hs S h) \<noteq> sn)"
proof -
  let ?xs = "inorder (signal_tree S)"
  let ?P = "\<lambda>h. signum (hs S h) < sn"
  have s: "sorted_wrt (\<lambda>x y. signum (hs S x) \<le> signum (hs S y)) ?xs"
    using assms(1) by (rule sorted_wrt_mono_rel [rotated]) (auto simp: uv__signal_compare_def split: if_splits)
  have x: "?xs = takeWhile ?P ?xs @ dropWhile ?P ?xs" by simp
  have t: "\<forall>h \<in> set (takeWhile ?P ?xs). signum (hs S h) < sn" by (auto dest: set_takeWhileD)
  show ?thesis
  proof (cases "dropWhile ?P ?xs")
    case Nil
    then have "\<forall>h \<in> set ?xs. signum (hs S h) < sn" by (simp add: dropWhile_eq_Nil_conv)
    then have "\<forall>h \<in> set ?xs. signum (hs S h) \<noteq> sn" by blast
    then show ?thesis using first_handle_ok [OF assms, of sn] Nil by simp
  next
    case (Cons h ys)
    then have h: "\<not> signum (hs S h) < sn" by (metis hd_dropWhile list.distinct(1) list.sel(1))
    have "sorted_wrt (\<lambda>x y. signum (hs S x) \<le> signum (hs S y)) (takeWhile ?P ?xs @ h # ys)" using s x Cons by metis
    then have ge: "\<forall>y \<in> set ys. signum (hs S h) \<le> signum (hs S y)" by (simp add: sorted_wrt_append)
    have "set ?xs = set (takeWhile ?P ?xs) \<union> insert h (set ys)" by (metis x Cons set_append list.set(2))
    then have "(\<forall>h \<in> set ?xs. signum (hs S h) \<noteq> sn) \<longleftrightarrow> signum (hs S h) \<noteq> sn" using h t ge by fastforce
    then show ?thesis using first_handle_ok [OF assms, of sn] Cons by simp
  qed
qed

lemma tree_okD:
  assumes "tree_ok S"
  shows "rb_ok (signal_tree S)" "sorted_wrt (\<lambda>x y. uv__signal_compare (hs S) x y < 0) (inorder (signal_tree S))"
    "set (inorder (signal_tree S)) = {h. signum (hs S h) \<noteq> 0}" "distinct (inorder (signal_tree S))"
    "installed S sn \<longleftrightarrow> sn \<noteq> 0 \<and> (\<exists>h. signum (hs S h) = sn)"
  using assms signal_order.ordered_distinct by (auto simp: tree_ok_def)

lemma upd_sig_at [simp]: "hs (upd_sig h f S) x = (if x = h then f (hs S h) else hs S x)"
  by (simp add: upd_sig_def)

lemma upd_sig_fields [simp]:
  "signal_tree (upd_sig h f S) = signal_tree S" "installed (upd_sig h f S) = installed S" "pipe_open (upd_sig h f S) = pipe_open S"
  "pipe (upd_sig h f S) = pipe S" "event_pc (upd_sig h f S) = event_pc S" "buf (upd_sig h f S) = buf S"
  "buf_pos (upd_sig h f S) = buf_pos S" "buf_end (upd_sig h f S) = buf_end S" "close_list (upd_sig h f S) = close_list S"
  "told (upd_sig h f S) = told S"
  by (simp_all add: upd_sig_def)

section \<open>Stopping and starting\<close>

definition same_event :: "uv_signals \<Rightarrow> uv_signals \<Rightarrow> bool" where
  "same_event S S' \<longleftrightarrow> pipe S' = pipe S \<and> event_pc S' = event_pc S \<and> buf S' = buf S \<and> buf_pos S' = buf_pos S
     \<and> buf_end S' = buf_end S \<and> close_list S' = close_list S \<and> pipe_open S' = pipe_open S \<and> told S' = told S"

lemma under_way_same: "same_event S S' \<Longrightarrow> under_way S' l = under_way S l"
  by (simp add: under_way_def same_event_def cong: event_pc.case_cong)

lemma event_ok_same: "same_event S S' \<Longrightarrow> event_ok S' l = event_ok S l"
  by (simp add: event_ok_def same_event_def cong: event_pc.case_cong)

text \<open>Changes of \<open>signum\<close>, \<open>started\<close> and \<open>signal_cb\<close> alone.\<close>

definition same_sig :: "uv_signal_t \<Rightarrow> uv_signal_t \<Rightarrow> bool" where
  "same_sig x y \<longleftrightarrow> sig_loop y = sig_loop x \<and> caught_signals y = caught_signals x \<and> dispatched_signals y = dispatched_signals x
     \<and> live y = live x \<and> closing y = closing x"

lemma sig_ok_restart:
  assumes "sig_ok S" "same_event S S'" "\<And>x. same_sig (hs S x) (hs S' x)" "tree_ok S'"
    "\<And>x. signum (hs S' x) \<noteq> 0 \<longrightarrow> live (hs S' x) \<and> \<not> closing (hs S' x)"
    "\<And>x. live (hs S' x) \<longrightarrow> (started (hs S' x) \<longleftrightarrow> signum (hs S' x) \<noteq> 0)"
  shows "sig_ok S'"
proof -
  have f: "sig_loop (hs S' x) = sig_loop (hs S x)" "caught_signals (hs S' x) = caught_signals (hs S x)"
    "dispatched_signals (hs S' x) = dispatched_signals (hs S x)" "live (hs S' x) = live (hs S x)"
    "closing (hs S' x) = closing (hs S x)" for x using assms(3) [of x] by (auto simp: same_sig_def)
  have o: "owed S' x = owed S x" for x by (simp add: owed_def under_way_same [OF assms(2)] f)
  have "handle_ok S' x" for x
    using sig_okD(2) [OF assms(1), of x] assms(2) assms(5,6) [of x] by (auto simp: handle_ok_def f o same_event_def)
  moreover have "messages_ok S' l" for l
    using sig_okD(3) [OF assms(1), of l] by (simp add: messages_ok_def under_way_same [OF assms(2)] f)
  moreover have "closing_ok S' l" for l
    using sig_okD(4) [OF assms(1), of l] assms(2) by (simp add: closing_ok_def f o same_event_def)
  moreover have "event_ok S' l" for l using sig_okD(5) [OF assms(1), of l] event_ok_same [OF assms(2)] by simp
  ultimately show ?thesis using assms(4) by (simp add: sig_ok_def)
qed

text \<open>Answers with which no call is refused: success, and interruptions, which are retried.\<close>

definition granted :: "outcomes \<Rightarrow> bool" where
  "granted es \<longleftrightarrow> (\<forall>e \<in> set es. e = 0 \<or> e = EINTR)"

lemma granted_Cons: "granted (e # es) \<longleftrightarrow> (e = 0 \<or> e = EINTR) \<and> granted es"
  by (simp add: granted_def)

lemma one_call_0 [simp]: "one_call (0 # es) = Some (0, es)"
  by (simp add: one_call_def EINTR_def)

lemma one_call_granted: "one_call es = Some (e, es') \<Longrightarrow> granted es \<Longrightarrow> e = 0 \<and> granted es'"
  by (auto simp: one_call_def granted_Cons split: list.splits if_splits)

lemma again_granted: "again es = Some (e, es') \<Longrightarrow> granted es \<Longrightarrow> e = 0 \<and> granted es'"
  by (induction es rule: again.induct) (auto simp: granted_Cons split: if_splits)

lemma must_cases:
  "must (one_call es) = Some x \<Longrightarrow> x = Inl Aborted \<and> \<not> granted es \<or> (\<exists>es'. x = Inr es' \<and> (granted es \<longrightarrow> granted es'))"
  by (auto simp: must_def split: if_splits dest: one_call_granted)

lemma must_lock_cases:
  "must (uv__signal_lock es) = Some x \<Longrightarrow> x = Inl Aborted \<and> \<not> granted es \<or> (\<exists>es'. x = Inr es' \<and> (granted es \<longrightarrow> granted es'))"
  "must (uv__signal_unlock es) = Some x \<Longrightarrow> x = Inl Aborted \<and> \<not> granted es \<or> (\<exists>es'. x = Inr es' \<and> (granted es \<longrightarrow> granted es'))"
  by (auto simp: must_def uv__signal_lock_def uv__signal_unlock_def split: if_splits dest: again_granted)

lemma lock_cases:
  "uv__signal_block_and_lock es = Some x \<Longrightarrow> x = Inl Aborted \<and> \<not> granted es \<or> (\<exists>es'. x = Inr es' \<and> (granted es \<longrightarrow> granted es'))"
  "uv__signal_unlock_and_unblock es = Some x \<Longrightarrow> x = Inl Aborted \<and> \<not> granted es \<or> (\<exists>es'. x = Inr es' \<and> (granted es \<longrightarrow> granted es'))"
  unfolding uv__signal_block_and_lock_def uv__signal_unlock_and_unblock_def
  by (auto simp: run_bind_def split: option.splits sum.splits dest!: must_cases must_lock_cases)

lemma register_cases:
  "uv__signal_register_handler sn es S = Some x \<Longrightarrow> x = Inl Aborted \<and> \<not> granted es
     \<or> (\<exists>r es'. (granted es \<longrightarrow> granted es') \<and>
          (r = 0 \<and> x = Inr (0, es', S\<lparr>installed := (installed S)(sn := True)\<rparr>) \<or> r \<noteq> 0 \<and> x = Inr (r, es', S)))"
  unfolding uv__signal_register_handler_def
  by (auto simp: run_bind_def split: option.splits sum.splits if_splits dest!: must_cases; metis one_call_granted neg_0_equal_iff_equal)

text \<open>The binds of code that can only abort, or go on.\<close>

lemma run_bind_Some:
  "run_bind r k = Some x \<Longrightarrow> (\<And>f. r = Some (Inl f) \<Longrightarrow> x = Inl f \<Longrightarrow> P) \<Longrightarrow> (\<And>a. r = Some (Inr a) \<Longrightarrow> k a = Some x \<Longrightarrow> P) \<Longrightarrow> P"
  by (auto simp: run_bind_def split: option.splits sum.splits)

definition stopped :: "addr \<Rightarrow> uv_signals \<Rightarrow> uv_signals \<Rightarrow> bool" where
  "stopped h S S' \<longleftrightarrow> same_event S S' \<and> hs S' = (hs S)(h := (hs S h)\<lparr>signum := 0, started := False\<rparr>) \<and> tree_ok S'"

lemma zero_not_in_tree: "sig_ok S \<Longrightarrow> 0 \<notin> set (inorder (signal_tree S))"
  using tree_okD(3) [OF sig_okD(1)] sig_okD(2) [of S 0] by (auto simp: handle_ok_def)

lemma tree_ok_removed:
  assumes "tree_ok S" "signum (hs S h) \<noteq> 0" "rb_ok t" "inorder t = remove1 h (inorder (signal_tree S))"
    and "signal_tree S' = t" "hs S' = (hs S)(h := (hs S h)\<lparr>signum := 0, started := False\<rparr>)"
    and "\<And>sn. installed S' sn \<longleftrightarrow> installed S sn \<and> (sn = signum (hs S h) \<longrightarrow> (\<exists>x \<noteq> h. signum (hs S x) = sn))"
  shows "tree_ok S'"
proof -
  note T = tree_okD [OF assms(1)]
  have d: "h \<notin> set (inorder t)" using T(4) assms(4) by simp
  have s: "set (inorder t) = {x. signum (hs S' x) \<noteq> 0}" using T(3,4) assms(2,4,6) by auto
  have "sorted_wrt (\<lambda>x y. uv__signal_compare (hs S) x y < 0) (inorder t)"
    using signal_order.ordered_remove1 [OF T(2)] assms(4) by simp
  then have o: "sorted_wrt (\<lambda>x y. uv__signal_compare (hs S') x y < 0) (inorder t)"
    using compare_cong [of "inorder t" "hs S'" "hs S"] d assms(6) by (metis fun_upd_apply)
  have "installed S' sn \<longleftrightarrow> sn \<noteq> 0 \<and> (\<exists>x. signum (hs S' x) = sn)" for sn
  proof -
    have "(\<exists>x. signum (hs S' x) = sn) \<longleftrightarrow> (\<exists>x. x \<noteq> h \<and> signum (hs S x) = sn)" if "sn \<noteq> 0"
      using that unfolding assms(6) by force
    then show ?thesis using T(5) [of sn] assms(7) [of sn] by metis
  qed
  then show ?thesis using s o assms(3,5) by (simp add: tree_ok_def)
qed

lemma signal_stop_ok:
  assumes "tree_ok S" "0 \<notin> set (inorder (signal_tree S))" "signum (hs S h) = 0 \<Longrightarrow> \<not> started (hs S h)"
    and "uv__signal_stop h es S = Some x"
  shows "x = Inl Aborted \<and> \<not> granted es \<or> (\<exists>es1 S'. x = Inr (es1, S') \<and> stopped h S S' \<and> (granted es \<longrightarrow> granted es1))"
proof (cases "signum (hs S h) = 0")
  case True
  then have "(hs S)(h := (hs S h)\<lparr>signum := 0, started := False\<rparr>) = hs S" using True assms(3) by (intro ext) simp
  then show ?thesis using assms(1,4) True by (auto simp: uv__signal_stop_def stopped_def same_event_def)
next
  case False
  note T = tree_okD [OF assms(1)]
  obtain t where t: "RB_REMOVE (signal_tree S) h = Inr t" "rb_ok t" "inorder t = remove1 h (inorder (signal_tree S))"
    using RB_REMOVE_ok [OF T(1), of h] T(3,4) False by auto
  let ?M = "S\<lparr>signal_tree := t\<rparr>"
  let ?sn = "signum (hs S h)"
  have mt: "sorted_wrt (\<lambda>x y. uv__signal_compare (hs ?M) x y < 0) (inorder (signal_tree ?M))" "0 \<notin> set (inorder (signal_tree ?M))"
    using signal_order.ordered_remove1 [OF T(2), of h] assms(2) t(3) notin_set_remove1 by auto
  have first: "uv__signal_first_handle ?sn ?M = None \<longleftrightarrow> (\<forall>y. y \<noteq> h \<longrightarrow> signum (hs S y) \<noteq> ?sn)"
    using first_handle_None [OF mt, of ?sn] T(3,4) t(3) False by auto
  have fin: "stopped h S (upd_sig h (\<lambda>x. x\<lparr>signum := 0, started := False\<rparr>) (?M\<lparr>installed := i\<rparr>))"
    if "\<And>sn. i sn \<longleftrightarrow> installed S sn \<and> (sn = ?sn \<longrightarrow> (\<exists>x \<noteq> h. signum (hs S x) = sn))" for i
  proof -
    have "tree_ok (upd_sig h (\<lambda>x. x\<lparr>signum := 0, started := False\<rparr>) (?M\<lparr>installed := i\<rparr>))"
      using that by (intro tree_ok_removed [OF assms(1) False t(2,3)]) (simp_all add: upd_sig_def)
    then show ?thesis by (simp add: stopped_def same_event_def upd_sig_def)
  qed
  have un: "stopped h S (upd_sig h (\<lambda>x. x\<lparr>signum := 0, started := False\<rparr>) (?M\<lparr>installed := (installed S)(?sn := False)\<rparr>))"
    if "uv__signal_first_handle ?sn ?M = None"
    using that first by (intro fin) auto
  have keep: "stopped h S (upd_sig h (\<lambda>x. x\<lparr>signum := 0, started := False\<rparr>) ?M)" if "uv__signal_first_handle ?sn ?M \<noteq> None"
    using that first fin [of "installed S"] by auto
  show ?thesis
    using assms(4) False t(1) unfolding uv__signal_stop_def Let_def
    by (auto elim!: run_bind_Some split: if_splits dest!: lock_cases must_cases
        simp: uv__signal_unregister_handler_def un keep)
qed

lemma stop_ok:
  assumes "sig_ok S" "live (hs S h)" "uv__signal_stop h es S = Some x"
  shows "x = Inl Aborted \<and> \<not> granted es \<or> (\<exists>es1 S'. x = Inr (es1, S') \<and> stopped h S S' \<and> (granted es \<longrightarrow> granted es1))"
  using signal_stop_ok [OF sig_okD(1) zero_not_in_tree _ assms(3)] assms(1,2) sig_okD(2) [OF assms(1), of h]
  by (simp add: handle_ok_def)

lemma stopped_ok: "sig_ok S \<Longrightarrow> stopped h S S' \<Longrightarrow> sig_ok S'"
proof -
  assume S: "sig_ok S" and st: "stopped h S S'"
  have "signum (hs S' x) \<noteq> 0 \<longrightarrow> live (hs S' x) \<and> \<not> closing (hs S' x)"
    "live (hs S' x) \<longrightarrow> (started (hs S' x) \<longleftrightarrow> signum (hs S' x) \<noteq> 0)" "same_sig (hs S x) (hs S' x)" for x
    using sig_okD(2) [OF S, of x] st by (auto simp: stopped_def handle_ok_def same_sig_def)
  then show "sig_ok S'" using st by (intro sig_ok_restart [OF S]) (auto simp: stopped_def)
qed

lemma ex_update: "f h \<noteq> s \<Longrightarrow> (\<exists>x. (if x = h then v else f x) = s) \<longleftrightarrow> s = v \<or> (\<exists>x. f x = s)"
  by metis

lemma insert_ok:
  assumes "sig_ok S" "signum (hs S h) = 0" "live (hs S h)" "\<not> closing (hs S h)" "sn \<noteq> 0"
    and S2: "same_event S S2" "signal_tree S2 = signal_tree S" "hs S2 = (hs S)(h := (hs S h)\<lparr>signum := sn\<rparr>)"
    and inst: "\<And>s. installed S2 s \<longleftrightarrow> installed S s \<or> s = sn"
  shows "\<exists>r t. RB_INSERT (uv__signal_compare (hs S2)) (signal_tree S2) h = Inr (r, t)
    \<and> sig_ok (upd_sig h (\<lambda>x. x\<lparr>signal_cb := cb, started := True\<rparr>) (S2\<lparr>signal_tree := t\<rparr>))"
proof -
  note T = tree_okD [OF sig_okD(1) [OF assms(1)]]
  have nh: "h \<notin> set (inorder (signal_tree S))" using T(3) assms(2) by simp
  have o: "sorted_wrt (\<lambda>x y. uv__signal_compare (hs S2) x y < 0) (inorder (signal_tree S2))"
    using compare_cong [of "inorder (signal_tree S)" "hs S2" "hs S"] T(2) nh S2(2,3) by (metis fun_upd_apply)
  obtain u xs ys where u: "RB_INSERT (uv__signal_compare (hs S2)) (signal_tree S2) h = Inr (None, u)" "rb_ok u"
      "sorted_wrt (\<lambda>x y. uv__signal_compare (hs S2) x y < 0) (inorder u)" "inorder (signal_tree S2) = xs @ ys" "inorder u = xs @ h # ys"
    using signal_order.RB_INSERT_ok(2) [of "signal_tree S2" "hs S2" h] T(1) o nh S2(2) by auto
  let ?F = "upd_sig h (\<lambda>x. x\<lparr>signal_cb := cb, started := True\<rparr>) (S2\<lparr>signal_tree := u\<rparr>)"
  have hsF: "hs ?F x = (if x = h then (hs S h)\<lparr>signum := sn, signal_cb := cb, started := True\<rparr> else hs S x)" for x
    using S2(3) by simp
  have sF: "set (inorder u) = {x. signum (hs ?F x) \<noteq> 0}"
  proof -
    have "set (inorder u) = insert h (set (inorder (signal_tree S)))" using u(4,5) S2(2) by auto
    also have "\<dots> = insert h {x. signum (hs S x) \<noteq> 0}" using T(3) by simp
    also have "\<dots> = {x. signum (hs ?F x) \<noteq> 0}" unfolding hsF using assms(5) by auto
    finally show ?thesis .
  qed
  have oF: "sorted_wrt (\<lambda>x y. uv__signal_compare (hs ?F) x y < 0) (inorder u)"
    using compare_cong [of "inorder u" "hs ?F" "hs S2"] u(3) S2(3) by simp
  have ex: "(\<exists>x. signum (hs ?F x) = s) \<longleftrightarrow> s = sn \<or> (\<exists>x. signum (hs S x) = s)" if "s \<noteq> 0" for s
  proof -
    have "(\<exists>x. signum (hs ?F x) = s) \<longleftrightarrow> (\<exists>x. (if x = h then sn else signum (hs S x)) = s)"
      unfolding hsF by (intro iff_exI) simp
    moreover have "signum (hs S h) \<noteq> s" using that assms(2) by simp
    ultimately show ?thesis using ex_update [of "\<lambda>x. signum (hs S x)" h s sn] by simp
  qed
  have iF: "installed ?F s \<longleftrightarrow> s \<noteq> 0 \<and> (\<exists>x. signum (hs ?F x) = s)" for s
  proof -
    have "installed ?F s \<longleftrightarrow> installed S s \<or> s = sn" using inst [of s] by simp
    then show ?thesis using T(5) [of s] ex [of s] assms(5) by metis
  qed
  have tF: "tree_ok ?F" using u(2) oF sF iF by (simp add: tree_ok_def)
  have "sig_ok ?F"
  proof (rule sig_ok_restart [OF assms(1) _ _ tF])
    show "same_event S ?F" using S2(1) by (simp add: same_event_def upd_sig_def)
    fix x
    show "same_sig (hs S x) (hs ?F x)" unfolding hsF by (simp add: same_sig_def)
    show "signum (hs ?F x) \<noteq> 0 \<longrightarrow> live (hs ?F x) \<and> \<not> closing (hs ?F x)"
      "live (hs ?F x) \<longrightarrow> (started (hs ?F x) \<longleftrightarrow> signum (hs ?F x) \<noteq> 0)"
      unfolding hsF using sig_okD(2) [OF assms(1), of x] assms(3-5) by (auto simp: handle_ok_def)
  qed
  then show ?thesis using u(1) by blast
qed

lemma tree_ok_cong:
  assumes "tree_ok S" "signal_tree S' = signal_tree S" "installed S' = installed S"
    "\<And>x. signum (hs S' x) = signum (hs S x) \<and> sig_loop (hs S' x) = sig_loop (hs S x)"
  shows "tree_ok S'"
proof -
  have "signum (hs S' x) = signum (hs S x)" for x using assms(4) by simp
  then show ?thesis
    using assms(1) compare_cong [of "inorder (signal_tree S)" "hs S'" "hs S"] assms(4) by (simp add: tree_ok_def assms(2,3))
qed

lemma start_locked_ok:
  assumes "sig_ok S" "signum (hs S h) = 0" "live (hs S h)" "\<not> closing (hs S h)" "sn \<noteq> 0"
    and "start_locked h cb sn es S = Some x"
  shows "x = Inl Aborted \<and> \<not> granted es \<or> (\<exists>r es1 S'. x = Inr (r, es1, S') \<and> sig_ok S' \<and> (r = 0 \<longrightarrow> signum (hs S' h) = sn))"
proof -
  note T = tree_okD [OF sig_okD(1) [OF assms(1)]]
  have known: "installed S sn" if "uv__signal_first_handle sn S \<noteq> None"
    using that first_handle_None [OF T(2) zero_not_in_tree [OF assms(1)], of sn] T(5) assms(5) by auto
  define ins where "ins = (\<lambda>i. RB_INSERT (uv__signal_compare (hs (upd_sig h (\<lambda>x. x\<lparr>signum := sn\<rparr>) (S\<lparr>installed := i\<rparr>)))) (signal_tree S) h)"
  have ins: "\<exists>r t. ins i = Inr (r, t) \<and> sig_ok (upd_sig h (\<lambda>x. x\<lparr>signal_cb := cb, started := True\<rparr>)
      ((upd_sig h (\<lambda>x. x\<lparr>signum := sn\<rparr>) (S\<lparr>installed := i\<rparr>))\<lparr>signal_tree := t\<rparr>))"
    if "\<And>s. i s \<longleftrightarrow> installed S s \<or> s = sn" for i
    using insert_ok [OF assms(1-5), of "upd_sig h (\<lambda>x. x\<lparr>signum := sn\<rparr>) (S\<lparr>installed := i\<rparr>)" cb] that
    unfolding ins_def by (simp add: same_event_def upd_sig_def)
  obtain r1 t1 where 1: "ins ((installed S)(sn := True)) = Inr (r1, t1)" "sig_ok (upd_sig h (\<lambda>x. x\<lparr>signal_cb := cb, started := True\<rparr>)
      ((upd_sig h (\<lambda>x. x\<lparr>signum := sn\<rparr>) (S\<lparr>installed := (installed S)(sn := True)\<rparr>))\<lparr>signal_tree := t1\<rparr>))"
  proof -
    have "((installed S)(sn := True)) s \<longleftrightarrow> installed S s \<or> s = sn" for s by simp
    then show thesis using ins that by blast
  qed
  have S0: "S\<lparr>installed := installed S\<rparr> = S" by simp
  have 2: "\<exists>r t. ins (installed S) = Inr (r, t) \<and> sig_ok (upd_sig h (\<lambda>x. x\<lparr>signal_cb := cb, started := True\<rparr>)
      ((upd_sig h (\<lambda>x. x\<lparr>signum := sn\<rparr>) S)\<lparr>signal_tree := t\<rparr>))" if "uv__signal_first_handle sn S \<noteq> None"
    using ins [of "installed S"] known [OF that] unfolding S0 by auto
  show ?thesis
  proof (cases "uv__signal_first_handle sn S = None")
    case True
    then show ?thesis using assms(1,6) 1 unfolding start_locked_def Let_def ins_def
      by (auto elim!: run_bind_Some split: if_splits dest!: lock_cases register_cases; blast)
  next
    case False
    then obtain r t where t: "ins (installed S) = Inr (r, t)" "sig_ok (upd_sig h (\<lambda>x. x\<lparr>signal_cb := cb, started := True\<rparr>)
      ((upd_sig h (\<lambda>x. x\<lparr>signum := sn\<rparr>) S)\<lparr>signal_tree := t\<rparr>))" using 2 by auto
    then show ?thesis using assms(6) False unfolding start_locked_def Let_def ins_def S0
      by (auto elim!: run_bind_Some split: if_splits dest!: lock_cases must_cases)
  qed
qed

lemma signal_start_ok:
  assumes "sig_ok S" "live (hs S h)" "\<not> closing (hs S h)" "uv_signal_start h cb sn es S = Some x"
  shows "x = Inl Aborted \<and> \<not> granted es \<or> (\<exists>r es1 S'. x = Inr (r, es1, S') \<and> sig_ok S' \<and> (r = 0 \<longrightarrow> signum (hs S' h) = sn))"
proof (cases "sn = 0 \<or> sn = signum (hs S h)")
  case True
  have "sig_ok (upd_sig h (\<lambda>x. x\<lparr>signal_cb := cb\<rparr>) S)"
  proof (rule sig_ok_restart [OF assms(1)])
    show "tree_ok (upd_sig h (\<lambda>x. x\<lparr>signal_cb := cb\<rparr>) S)"
      by (rule tree_ok_cong [OF sig_okD(1) [OF assms(1)]]) auto
  qed (use sig_okD(2) [OF assms(1)] in \<open>auto simp: same_event_def same_sig_def handle_ok_def upd_sig_def\<close>)
  then show ?thesis using True assms(1,3,4) by (cases "sn = 0") (auto simp: uv_signal_start_def EINVAL_def)
next
  case False
  then have sn: "sn \<noteq> 0" by simp
  show ?thesis
  proof (cases "signum (hs S h) = 0")
    case True
    then show ?thesis using start_locked_ok [OF assms(1) True assms(2,3) sn, of cb es x] assms(3,4) False
      by (auto simp: uv_signal_start_def)
  next
    case on: False
    have "start_locked h cb sn es1 S1 = Some y \<Longrightarrow>
        y = Inl Aborted \<and> \<not> granted es1 \<or> (\<exists>r es2 S'. y = Inr (r, es2, S') \<and> sig_ok S' \<and> (r = 0 \<longrightarrow> signum (hs S' h) = sn))"
      if "stopped h S S1" for S1 es1 y
      using that assms(2,3) stopped_ok [OF assms(1) that]
      by (intro start_locked_ok [OF _ _ _ _ sn]) (auto simp: stopped_def)
    then show ?thesis using assms(3,4) False on
      by (auto simp: uv_signal_start_def elim!: run_bind_Some dest!: stop_ok [OF assms(1,2)])
  qed
qed

section \<open>Initialising and closing\<close>

lemma once_init_ok:
  assumes "sig_ok S" "uv__signal_loop_once_init made l S = (err, S1)"
  shows "sig_ok S1 \<and> hs S1 = hs S \<and> (err = 0 \<longrightarrow> pipe_open S1 l)"
proof (cases "pipe_open S l \<or> made \<noteq> 0")
  case True
  then have "S1 = S \<and> (err = 0 \<longrightarrow> pipe_open S l)" using assms(2) by (auto simp: uv__signal_loop_once_init_def split: if_splits)
  then show ?thesis using assms(1) by simp
next
  case False
  then have "pipe S l = []" using sig_okD(5) [OF assms(1), of l] by (simp add: event_ok_def)
  then have S1: "S1 = S\<lparr>pipe_open := (pipe_open S)(l := True)\<rparr>"
    using assms(2) False by (auto simp: uv__signal_loop_once_init_def fun_upd_idem)
  have u: "under_way S1 k = under_way S k" for k by (simp add: S1 under_way_def cong: event_pc.case_cong)
  have o: "owed S1 x = owed S x" for x using u by (simp add: owed_def S1)
  have "tree_ok S1" using sig_okD(1) [OF assms(1)] by (rule tree_ok_cong) (simp_all add: S1)
  moreover have "handle_ok S1 x" for x using sig_okD(2) [OF assms(1), of x] unfolding handle_ok_def o by (simp add: S1)
  moreover have "messages_ok S1 k" for k using sig_okD(3) [OF assms(1), of k] unfolding messages_ok_def u by (simp add: S1)
  moreover have "closing_ok S1 k" for k using sig_okD(4) [OF assms(1), of k] unfolding closing_ok_def o by (simp add: S1)
  moreover have "event_ok S1 k" for k using sig_okD(5) [OF assms(1), of k] by (simp add: S1 event_ok_def cong: event_pc.case_cong)
  ultimately have "sig_ok S1" by (rule sig_okI)
  then show ?thesis by (simp add: S1)
qed

text \<open>A handle that is not live appears nowhere.\<close>

lemma dead_handle:
  assumes "sig_ok S" "\<not> live (hs S h)"
  shows "signum (hs S h) = 0" "h \<notin> set (inorder (signal_tree S))" "h \<notin> msg_handle ` set (under_way S l)" "h \<notin> set (close_list S l)"
proof -
  show s: "signum (hs S h) = 0" using sig_okD(2) [OF assms(1), of h] assms(2) by (auto simp: handle_ok_def)
  then show "h \<notin> set (inorder (signal_tree S))" using tree_okD(3) [OF sig_okD(1) [OF assms(1)]] by simp
  show "h \<notin> msg_handle ` set (under_way S l)" using sig_okD(3) [OF assms(1), of l] assms(2) by (auto simp: messages_ok_def)
  show "h \<notin> set (close_list S l)" using sig_okD(4) [OF assms(1), of l] assms(2) by (auto simp: closing_ok_def)
qed

text \<open>Rewriting a handle that is in no tree and has \<open>signum\<close> 0 before and after.\<close>

lemma tree_ok_upd:
  assumes "tree_ok S" "signum (hs S h) = 0" "signum (f (hs S h)) = 0"
    "signal_tree S' = signal_tree S" "installed S' = installed S" "hs S' = (hs S)(h := f (hs S h))"
  shows "tree_ok S'"
proof -
  have n: "h \<notin> set (inorder (signal_tree S))" using tree_okD(3) [OF assms(1)] assms(2) by simp
  have s: "signum (hs S' x) = signum (hs S x)" for x using assms(2,3,6) by simp
  have "sorted_wrt (\<lambda>x y. uv__signal_compare (hs S') x y < 0) (inorder (signal_tree S))"
    using compare_cong [of "inorder (signal_tree S)" "hs S'" "hs S"] tree_okD(2) [OF assms(1)] n assms(6) by (metis fun_upd_apply)
  then show ?thesis using assms(1) by (simp add: tree_ok_def assms(4,5) s)
qed

lemma signal_init_ok:
  assumes "sig_ok S" "0 < l" "0 < h" "\<not> live (hs S h)"
  shows "sig_ok (snd (uv_signal_init made l h S))"
proof -
  obtain err S1 where 1: "uv__signal_loop_once_init made l S = (err, S1)" by fastforce
  note S1 = once_init_ok [OF assms(1) 1]
  then have ok: "sig_ok S1" and dead: "\<not> live (hs S1 h)" using assms(4) by auto
  show ?thesis
  proof (cases "err = 0")
    case False
    then show ?thesis using 1 ok by (simp add: uv_signal_init_def)
  next
    case True
    let ?f = "\<lambda>x. x\<lparr>sig_loop := l, signum := 0, caught_signals := 0, dispatched_signals := 0,
               started := False, closing := False, live := True\<rparr>"
    let ?M = "upd_sig h ?f S1"
    note d = dead_handle [OF ok dead]
    have u: "under_way ?M k = under_way S1 k" for k by (simp add: under_way_def cong: event_pc.case_cong)
    have z: "count_list (map msg_handle (under_way S1 k)) h = 0" for k using d(3) [of k] by (simp add: count_list_0_iff)
    have o: "owed ?M x = (if x = h then 0 else owed S1 x)" for x using z by (simp add: owed_def u)
    have "tree_ok ?M" by (rule tree_ok_upd [OF sig_okD(1) [OF ok] d(1), of ?f]) (simp_all add: upd_sig_def)
    moreover have "handle_ok ?M x" for x
      using sig_okD(2) [OF ok, of x] assms(2,3) True S1 unfolding handle_ok_def o by simp
    moreover have "messages_ok ?M k" for k using sig_okD(3) [OF ok, of k] d(3) [of k] unfolding messages_ok_def u by auto
    moreover have "closing_ok ?M k" for k
      using sig_okD(4) [OF ok, of k] d(4) [of k] unfolding closing_ok_def o by auto
    moreover have "event_ok ?M k" for k using sig_okD(5) [OF ok, of k] by (simp add: event_ok_def cong: event_pc.case_cong)
    ultimately have "sig_ok ?M" by (rule sig_okI)
    then show ?thesis using 1 True by (simp add: uv_signal_init_def)
  qed
qed

lemma finish_one_ok:
  assumes "sig_ok S" "finish_one l S = Some x" "event_pc S l = Not_running"
  shows "\<exists>S'. x = Inr S' \<and> sig_ok S'"
proof -
  obtain h q where c: "close_list S l = h # q" using assms(2) by (auto simp: finish_one_def split: list.splits)
  have h: "live (hs S h)" "closing (hs S h)" "sig_loop (hs S h) = l" "owed S h = 0" "h \<notin> set q" "distinct q"
    and q: "insert h (set q) = {h. live (hs S h) \<and> closing (hs S h) \<and> sig_loop (hs S h) = l \<and> owed S h = 0}"
    using sig_okD(4) [OF assms(1), of l] by (auto simp: closing_ok_def c)
  let ?M = "upd_sig h (\<lambda>x. x\<lparr>live := False\<rparr>) (S\<lparr>close_list := (close_list S)(l := q)\<rparr>)"
  have x: "x = Inr ?M" using assms(2) c h(1,2) by (simp add: finish_one_def)
  have sn: "signum (hs S h) = 0" using sig_okD(2) [OF assms(1), of h] h(2) by (auto simp: handle_ok_def)
  have u: "under_way ?M k = under_way S k" for k by (simp add: under_way_def cong: event_pc.case_cong)
  have o: "owed ?M y = owed S y" for y by (simp add: owed_def u)
  have nm: "msg_handle m \<noteq> h" if "m \<in> set (under_way S k)" for m k
  proof
    assume m: "msg_handle m = h"
    then have "k = l" using sig_okD(3) [OF assms(1), of k] that h(3) by (auto simp: messages_ok_def)
    then have "h \<notin> set (map msg_handle (under_way S l))" using h(3,4) by (simp add: owed_def count_list_0_iff)
    then show False using m that \<open>k = l\<close> by auto
  qed
  have "tree_ok ?M" by (rule tree_ok_upd [OF sig_okD(1) [OF assms(1)] sn, of "\<lambda>x. x\<lparr>live := False\<rparr>"]) (simp_all add: upd_sig_def sn)
  moreover have "handle_ok ?M y" for y using sig_okD(2) [OF assms(1), of y] sn unfolding handle_ok_def o by auto
  moreover have "messages_ok ?M k" for k using sig_okD(3) [OF assms(1), of k] nm unfolding messages_ok_def u by auto
  moreover have "closing_ok ?M k" for k
    using sig_okD(4) [OF assms(1), of k] h q unfolding closing_ok_def o by auto
  moreover have "event_ok ?M k" for k using sig_okD(5) [OF assms(1), of k] by (simp add: event_ok_def cong: event_pc.case_cong)
  ultimately have "sig_ok ?M" by (rule sig_okI)
  then show ?thesis using x by blast
qed

text \<open>Steps of \<open>uv__signal_event\<close> that leave the handles and what is under way as they are.\<close>

lemma sig_ok_view:
  assumes "sig_ok S" "hs S' = hs S" "signal_tree S' = signal_tree S \<and> installed S' = installed S" "pipe_open S' = pipe_open S"
    "close_list S' = close_list S" "\<And>k. under_way S' k = under_way S k" "\<And>k. event_ok S' k"
  shows "sig_ok S'"
proof -
  have o: "owed S' x = owed S x" for x by (simp add: owed_def assms(2,6))
  have "tree_ok S'" using sig_okD(1) [OF assms(1)] by (rule tree_ok_cong) (simp_all add: assms(2,3))
  moreover have "handle_ok S' x" for x using sig_okD(2) [OF assms(1), of x] unfolding handle_ok_def o by (simp add: assms(2,4))
  moreover have "messages_ok S' k" for k using sig_okD(3) [OF assms(1), of k] by (simp add: messages_ok_def assms(2,6))
  moreover have "closing_ok S' k" for k using sig_okD(4) [OF assms(1), of k] by (simp add: closing_ok_def o assms(2,5))
  ultimately show ?thesis using assms(7) by (rule sig_okI)
qed

text \<open>Putting a closing handle into the list when nothing is on its way to it any more.\<close>

lemma close_pending_ok:
  assumes "tree_ok S" "\<And>x. handle_ok S x" "\<And>l. messages_ok S l" "\<And>l. event_ok S l"
    and "\<And>k. distinct (close_list S k)"
    and "\<And>k. set (close_list S k) = {x. live (hs S x) \<and> closing (hs S x) \<and> sig_loop (hs S x) = k \<and> owed S x = 0} - {h}"
    and "live (hs S h)" "closing (hs S h)"
  shows "\<exists>S'. (if caught_signals (hs S h) = dispatched_signals (hs S h) then make_close_pending h S else Inr S) = Inr S' \<and> sig_ok S'"
proof (cases "owed S h = 0")
  case False
  have "closing_ok S k" for k using assms(5,6) [of k] False by (auto simp: closing_ok_def)
  then have "sig_ok S" using assms(1-4) by (intro sig_okI)
  then show ?thesis using counters [OF assms(2,4,7)] False by simp
next
  case True
  let ?l = "sig_loop (hs S h)"
  let ?M = "S\<lparr>close_list := (close_list S)(?l := h # close_list S ?l)\<rparr>"
  have u: "under_way ?M k = under_way S k" for k by (simp add: under_way_def cong: event_pc.case_cong)
  have o: "owed ?M x = owed S x" for x by (simp add: owed_def u)
  have "tree_ok ?M" by (rule tree_ok_cong [OF assms(1)]) simp_all
  moreover have "handle_ok ?M x" for x using assms(2) [of x] unfolding handle_ok_def o by simp
  moreover have "messages_ok ?M k" for k using assms(3) [of k] unfolding messages_ok_def u by simp
  moreover have "closing_ok ?M k" for k using assms(5,6) [of k] assms(7,8) True unfolding closing_ok_def o by auto
  moreover have "event_ok ?M k" for k using assms(4) [of k] by (simp add: event_ok_def cong: event_pc.case_cong)
  ultimately have "sig_ok ?M" by (rule sig_okI)
  then show ?thesis using counters [OF assms(2,4,7)] True assms(7,8) by (simp add: make_close_pending_def Let_def)
qed

lemma close_signal_ok:
  assumes "sig_ok S" "live (hs S h)" "\<not> closing (hs S h)" "close_signal h es S = Some x"
  shows "x = Inl Aborted \<and> \<not> granted es \<or> (\<exists>es S'. x = Inr (es, S') \<and> sig_ok S')"
proof -
  let ?C = "upd_sig h (\<lambda>x. x\<lparr>closing := True\<rparr>) S"
  have tC: "tree_ok ?C" by (rule tree_ok_cong [OF sig_okD(1) [OF assms(1)]]) auto
  have zC: "0 \<notin> set (inorder (signal_tree ?C))" using zero_not_in_tree [OF assms(1)] by simp
  have sC: "signum (hs ?C h) = 0 \<Longrightarrow> \<not> started (hs ?C h)" using sig_okD(2) [OF assms(1), of h] assms(2) by (simp add: handle_ok_def)
  have fin: "\<exists>S''. (if caught_signals (hs S' h) = dispatched_signals (hs S' h) then make_close_pending h S' else Inr S') = Inr S'' \<and> sig_ok S''"
    if st: "stopped h ?C S'" for S'
  proof -
    have hs': "hs S' = (hs S)(h := (hs S h)\<lparr>closing := True, signum := 0, started := False\<rparr>)" and t: "tree_ok S'" and se: "same_event S S'"
      using st by (auto simp: stopped_def same_event_def upd_sig_def)
    have f: "sig_loop (hs S' x) = sig_loop (hs S x)" "live (hs S' x) = live (hs S x)" for x by (auto simp: hs')
    have o: "owed S' x = owed S x" for x by (simp add: owed_def under_way_same [OF se] f)
    have "handle_ok S' x" for x
      using sig_okD(2) [OF assms(1), of x] se unfolding handle_ok_def o hs' by (auto simp: same_event_def)
    moreover have "messages_ok S' l" for l using sig_okD(3) [OF assms(1), of l] by (simp add: messages_ok_def under_way_same [OF se] f)
    moreover have "event_ok S' l" for l using sig_okD(5) [OF assms(1), of l] event_ok_same [OF se] by simp
    moreover have "distinct (close_list S' k)" for k using sig_okD(4) [OF assms(1), of k] se by (simp add: closing_ok_def same_event_def)
    moreover have "set (close_list S' k) = {x. live (hs S' x) \<and> closing (hs S' x) \<and> sig_loop (hs S' x) = k \<and> owed S' x = 0} - {h}" for k
      using sig_okD(4) [OF assms(1), of k] se assms(3) unfolding o f by (auto simp: closing_ok_def same_event_def hs')
    ultimately show ?thesis using t assms(2) by (intro close_pending_ok) (auto simp: hs')
  qed
  have "uv__signal_close h es ?C = Some x" using assms(3,4) by (simp add: close_signal_def)
  then show ?thesis unfolding uv__signal_close_def
  proof (rule run_bind_Some)
    fix f assume "uv__signal_stop h es ?C = Some (Inl f)" "x = Inl f"
    then show ?thesis using signal_stop_ok [OF tC zC sC] by blast
  next
    fix a assume a: "uv__signal_stop h es ?C = Some (Inr a)" and
      k: "(case a of (es, S) \<Rightarrow> if caught_signals (hs S h) = dispatched_signals (hs S h)
        then run_bind (Some (make_close_pending h S)) (\<lambda>S. Some (Inr (es, S))) else Some (Inr (es, S))) = Some x"
    obtain es' S' where p: "a = (es', S')" "stopped h ?C S'" using signal_stop_ok [OF tC zC sC a] by auto
    from fin [OF p(2)] k show ?thesis by (auto simp: p(1) split: if_splits)
  qed
qed

section \<open>Dispatching\<close>

lemma event_enter_ok: "sig_ok S \<Longrightarrow> event_enter l S = Some S' \<Longrightarrow> sig_ok S'"
proof -
  assume ok: "sig_ok S" and e: "event_enter l S = Some S'"
  have S': "S' = S\<lparr>event_pc := (event_pc S)(l := Reading), buf := (buf S)(l := []), buf_end := (buf_end S)(l := 0)\<rparr>"
    and pc: "event_pc S l = Not_running" using e by (auto simp: event_enter_def split: if_splits)
  have u: "under_way S' k = under_way S k" for k using pc by (simp add: S' under_way_def cong: event_pc.case_cong)
  have ev: "event_ok S' k" for k using sig_okD(5) [OF ok, of k] pc by (simp add: S' event_ok_def cong: event_pc.case_cong)
  show "sig_ok S'" by (rule sig_ok_view [OF ok _ _ _ _ u ev]) (simp_all add: S')
qed

lemma event_again_ok:
  assumes "sig_ok S" "event_pc S l = Reading \<or> (event_pc S l = Handling \<and> buf S l = [])"
  shows "sig_ok (event_again l S)"
proof -
  have u: "under_way (event_again l S) k = under_way S k" for k
    using assms(2) by (auto simp: event_again_def under_way_def cong: event_pc.case_cong)
  have b: "buf S l = []" using assms(2) sig_okD(5) [OF assms(1), of l] by (auto simp: event_ok_def)
  have e: "event_ok (event_again l S) k" for k
    using sig_okD(5) [OF assms(1), of k] b by (simp add: event_again_def event_ok_def cong: event_pc.case_cong)
  show ?thesis by (rule sig_ok_view [OF assms(1) _ _ _ _ u e]) (simp_all add: event_again_def)
qed

lemma event_read_ok:
  assumes "sig_ok S" "read_answers l S r" "event_read l r S = Some x"
  shows "x = Inl Aborted \<and> r < 0 \<and> - r \<notin> {EINTR, EAGAIN} \<or> (\<exists>S'. x = Inr S' \<and> sig_ok S')"
proof -
  have pc: "event_pc S l = Reading" using assms(3) by (auto simp: event_read_def split: if_splits)
  then have b: "buf S l = []" using sig_okD(5) [OF assms(1), of l] by (simp add: event_ok_def)
  consider "r = - EINTR" | "r = - EAGAIN" "r \<noteq> - EINTR" | "r < 0" "r \<noteq> - EINTR" "r \<noteq> - EAGAIN" | n where "r = int n" "n = min 512 (length (pipe S l))" "pipe S l \<noteq> []"
    using assms(2) b by (auto simp: read_answers_def EINTR_def EAGAIN_def)
  then show ?thesis
  proof cases
    case 1
    then show ?thesis using assms(3) pc event_again_ok [OF assms(1), of l] by (auto simp: event_read_def)
  next
    case 2
    let ?M = "S\<lparr>event_pc := (event_pc S)(l := Not_running)\<rparr>"
    have u: "under_way ?M k = under_way S k" for k using pc by (simp add: under_way_def cong: event_pc.case_cong)
    have e: "event_ok ?M k" for k using sig_okD(5) [OF assms(1), of k] by (simp add: event_ok_def cong: event_pc.case_cong)
    have "sig_ok ?M" by (rule sig_ok_view [OF assms(1) _ _ _ _ u e]) simp_all
    moreover have "x = Inr ?M" using 2 assms(3) pc b by (simp add: event_read_def)
    ultimately show ?thesis by blast
  next
    case 3
    then show ?thesis using assms(3) pc by (auto simp: event_read_def)
  next
    case 4
    let ?p = "pipe S l"
    let ?M = "S\<lparr>buf := (buf S)(l := take n ?p), pipe := (pipe S)(l := drop n ?p),
          buf_end := (buf_end S)(l := length (take n ?p) div 16 * 16), buf_pos := (buf_pos S)(l := 0),
          event_pc := (event_pc S)(l := Handling)\<rparr>"
    have x: "x = Inr ?M" using assms(3) pc b 4(1) by (simp add: event_read_def EINTR_def EAGAIN_def Let_def)
    have w: "whole ?p" "length ?p \<le> 65536" using sig_okD(5) [OF assms(1), of l] by (simp_all add: event_ok_def)
    have "16 dvd length ?p" using whole_length [OF w(1)] by simp
    then have d: "16 dvd n" unfolding 4(2) by (simp add: min_def)
    note sp = whole_split [OF w(1) d]
    have dec: "decode (take n ?p) @ decode (drop n ?p) = decode ?p" using sp(3,4) by simp
    have ln: "length (take n ?p) = n" using 4(2) by simp
    have po: "pipe_open S l" using sig_okD(5) [OF assms(1), of l] 4(3) by (auto simp: event_ok_def)
    have le: "length ?p - m \<le> 65536" for m using w(2) by simp
    have u: "under_way ?M k = under_way S k" for k using pc dec by (simp add: under_way_def cong: event_pc.case_cong)
    have e: "event_ok ?M k" for k
      using sig_okD(5) [OF assms(1), of k] sp(1,2) d ln le po 4(2) by (simp add: event_ok_def cong: event_pc.case_cong)
    have "sig_ok ?M" by (rule sig_ok_view [OF assms(1) _ _ _ _ u e]) simp_all
    then show ?thesis using x by blast
  qed
qed

text \<open>The rest of the body of the loop, for the message at the front.\<close>

lemma event_done_ok:
  assumes "sig_ok S" "event_pc S l = Handling \<or> event_pc S l = In_callback h" "buf_pos S l < length (buf S l)"
    and "decode (drop (buf_pos S l) (buf S l)) = m # decode (drop (buf_pos S l + 16) (buf S l))" "msg_handle m = h"
  shows "\<exists>S'. event_done l h S = Inr S' \<and> sig_ok S'"
proof -
  let ?M = "(upd_sig h (\<lambda>x. x\<lparr>dispatched_signals := dispatched_signals x + 1\<rparr>) S)
      \<lparr>buf_pos := (buf_pos S)(l := buf_pos S l + 16), event_pc := (event_pc S)(l := Handling)\<rparr>"
  have B: "whole (buf S l)" "length (buf S l) \<le> 512" "buf_end S l = length (buf S l)" "16 dvd buf_pos S l"
    using sig_okD(5) [OF assms(1), of l] assms(2) by (auto simp: event_ok_def)
  have uw: "under_way S l = m # decode (drop (buf_pos S l + 16) (buf S l)) @ decode (pipe S l)"
    using assms(2,4) by (auto simp: under_way_def)
  have u: "under_way ?M k = (if k = l then tl (under_way S l) else under_way S k)" for k
    using uw by (simp add: under_way_def cong: event_pc.case_cong)
  have mok: "live (hs S h)" "sig_loop (hs S h) = l"
    using sig_okD(3) [OF assms(1), of l] uw assms(5) by (auto simp: messages_ok_def)
  have f: "sig_loop (hs ?M x) = sig_loop (hs S x)" "live (hs ?M x) = live (hs S x)" "closing (hs ?M x) = closing (hs S x)"
    "signum (hs ?M x) = signum (hs S x)" for x by simp_all
  have o1: "owed S h = owed ?M h + 1" unfolding owed_def f u mok(2) using uw assms(5) by simp
  have o2: "owed ?M x = owed S x" if "x \<noteq> h" for x
    unfolding owed_def f u using uw assms(5) that by auto
  have tree: "tree_ok ?M" by (rule tree_ok_cong [OF sig_okD(1) [OF assms(1)]]) auto
  have hok: "handle_ok ?M x" for x
    using sig_okD(2) [OF assms(1), of x] o1 o2 [of x] by (cases "x = h") (auto simp: handle_ok_def)
  have msg: "messages_ok ?M k" for k
    using sig_okD(3) [OF assms(1), of k] uw unfolding messages_ok_def u by (auto split: if_splits)
  have "buf_pos S l + 16 \<le> length (buf S l)"
    using whole_length [OF B(1)] B(4) assms(3) by (elim dvdE) simp
  then have ev: "event_ok ?M k" for k
    using sig_okD(5) [OF assms(1), of k] B by (simp add: event_ok_def cong: event_pc.case_cong)
  have dl: "distinct (close_list ?M k)" for k using sig_okD(4) [OF assms(1), of k] by (simp add: closing_ok_def)
  have old: "set (close_list S k) = {x. live (hs S x) \<and> closing (hs S x) \<and> sig_loop (hs S x) = k \<and> owed S x = 0}" for k
    using sig_okD(4) [OF assms(1), of k] by (simp add: closing_ok_def)
  have cl: "set (close_list ?M k) = {x. live (hs ?M x) \<and> closing (hs ?M x) \<and> sig_loop (hs ?M x) = k \<and> owed ?M x = 0} - {h}" for k
  proof -
    have z: "owed ?M x = 0 \<and> x \<noteq> h \<longleftrightarrow> owed S x = 0" for x using o1 o2 [of x] by (cases "x = h") auto
    have "set (close_list ?M k) = {x. live (hs S x) \<and> closing (hs S x) \<and> sig_loop (hs S x) = k \<and> (owed ?M x = 0 \<and> x \<noteq> h)}"
      unfolding z using old [of k] by simp
    then show ?thesis unfolding f by auto
  qed
  have ed: "event_done l h S =
      (if closing (hs ?M h) \<and> caught_signals (hs ?M h) = dispatched_signals (hs ?M h) then make_close_pending h ?M else Inr ?M)"
    by (simp add: event_done_def Let_def)
  show ?thesis
  proof (cases "closing (hs S h)")
    case True
    then show ?thesis using close_pending_ok [OF tree hok msg ev dl cl] mok(1) unfolding ed f by simp
  next
    case False
    then have "closing_ok ?M k" for k using dl [of k] cl [of k] by (auto simp: closing_ok_def)
    then have "sig_ok ?M" using tree hok msg ev by (intro sig_okI)
    then show ?thesis using False unfolding ed by simp
  qed
qed

lemma event_step_ok:
  assumes "sig_ok S" "event_step l S = Some x"
  shows "\<exists>S'. x = Inr S' \<and> sig_ok S'"
proof (cases "event_pc S l")
  case (In_callback h)
  have B: "whole (buf S l)" "16 dvd buf_pos S l" "buf_pos S l < length (buf S l)"
    "msg_handle (hd (decode (drop (buf_pos S l) (buf S l)))) = h"
    using sig_okD(5) [OF assms(1), of l] In_callback by (simp_all add: event_ok_def)
  from message_at_whole [OF B(1-3)] obtain m where
    "decode (drop (buf_pos S l) (buf S l)) = m # decode (drop (buf_pos S l + 16) (buf S l))" by auto
  with event_done_ok [OF assms(1) _ B(3) this] B(4) In_callback show ?thesis
    using assms(2) by (simp add: event_step_def)
next
  case Handling
  have B: "whole (buf S l)" "16 dvd buf_pos S l" "buf_end S l = length (buf S l)" "buf_pos S l \<le> length (buf S l)" "length (buf S l) \<le> 512"
    using sig_okD(5) [OF assms(1), of l] Handling by (simp_all add: event_ok_def)
  show ?thesis
  proof (cases "buf_pos S l < length (buf S l)")
    case True
    from message_at_whole [OF B(1,2) True] obtain m where
      m: "message_at (buf_pos S l) (buf S l) = Some m"
        "decode (drop (buf_pos S l) (buf S l)) = m # decode (drop (buf_pos S l + 16) (buf S l))" by auto
    let ?h = "msg_handle m"
    have mok: "live (hs S ?h)" "msg_signum m \<noteq> 0"
      using sig_okD(3) [OF assms(1), of l] m(2) Handling by (auto simp: messages_ok_def under_way_def)
    have x: "x = event_message l S" using assms(2) Handling True B(3) by (simp add: event_step_def)
    show ?thesis
    proof (cases "msg_signum m = signum (hs S ?h)")
      case same: True
      then have "\<not> closing (hs S ?h)" using sig_okD(2) [OF assms(1), of ?h] mok by (auto simp: handle_ok_def)
      let ?M = "S\<lparr>told := told S @ [(?h, msg_signum m)], event_pc := (event_pc S)(l := In_callback ?h)\<rparr>"
      have xM: "x = Inr ?M" using x m(1) mok(1) same \<open>\<not> closing (hs S ?h)\<close> by (simp add: event_message_def Let_def)
      have u: "under_way ?M k = under_way S k" for k using Handling by (simp add: under_way_def cong: event_pc.case_cong)
      have e: "event_ok ?M k" for k
        using sig_okD(5) [OF assms(1), of k] Handling B True m(2) by (simp add: event_ok_def cong: event_pc.case_cong)
      have "sig_ok ?M" by (rule sig_ok_view [OF assms(1) _ _ _ _ u e]) simp_all
      then show ?thesis using xM by blast
    next
      case False
      then have "x = event_done l ?h S" using x m(1) mok(1) by (simp add: event_message_def)
      then show ?thesis using event_done_ok [OF assms(1) _ True m(2)] Handling by simp
    qed
  next
    case False
    then have p: "buf_pos S l = length (buf S l)" using B(4) by simp
    let ?A = "event_again l (S\<lparr>buf := (buf S)(l := drop (buf_end S l) (buf S l))\<rparr>)"
    have x: "x = Inr ?A" using assms(2) Handling p B(3) by (simp add: event_step_def)
    have u: "under_way ?A k = under_way S k" for k
      using Handling p by (simp add: event_again_def under_way_def cong: event_pc.case_cong)
    have e: "event_ok ?A k" for k
      using sig_okD(5) [OF assms(1), of k] B(3) by (simp add: event_again_def event_ok_def cong: event_pc.case_cong)
    have "sig_ok ?A" by (rule sig_ok_view [OF assms(1) _ _ _ _ u e]) (simp_all add: event_again_def)
    then show ?thesis using x by blast
  qed
qed (use assms(2) in \<open>simp_all add: event_step_def\<close>)

section \<open>Catching\<close>

lemma caught_owed:
  assumes "whole (pipe S (sig_loop (hs S h)))"
  shows "owed (upd_sig h (\<lambda>x. x\<lparr>caught_signals := caught_signals x + 1\<rparr>)
    (S\<lparr>pipe := (pipe S)(sig_loop (hs S h) := pipe S (sig_loop (hs S h)) @ bytes_of \<lparr>msg_handle = h, msg_signum = sn\<rparr>)\<rparr>)) x
    = owed S x + of_bool (x = h)"
    (is "owed ?M x = _")
proof -
  have "under_way ?M k = (if k = sig_loop (hs S h) then under_way S k @ [\<lparr>msg_handle = h, msg_signum = sn\<rparr>] else under_way S k)" for k
    using whole_append(2) [OF assms whole_bytes(1)] by (simp add: under_way_def whole_bytes cong: event_pc.case_cong)
  then show ?thesis by (auto simp: owed_def)
qed

lemma caught_ok:
  assumes "sig_ok S" "signum (hs S h) = sn" "sn \<noteq> 0" "length (pipe S (sig_loop (hs S h))) + 16 \<le> 65536"
  shows "sig_ok (upd_sig h (\<lambda>x. x\<lparr>caught_signals := caught_signals x + 1\<rparr>)
    (S\<lparr>pipe := (pipe S)(sig_loop (hs S h) := pipe S (sig_loop (hs S h)) @ bytes_of \<lparr>msg_handle = h, msg_signum = sn\<rparr>)\<rparr>))"
    (is "sig_ok ?M")
proof -
  let ?l = "sig_loop (hs S h)" and ?m = "\<lparr>msg_handle = h, msg_signum = sn\<rparr>"
  have h: "live (hs S h)" "\<not> closing (hs S h)" "pipe_open S ?l" using sig_okD(2) [OF assms(1), of h] assms(2,3) by (auto simp: handle_ok_def)
  have w: "whole (pipe S ?l)" using sig_okD(5) [OF assms(1), of ?l] by (simp add: event_ok_def)
  note wa = whole_append [OF w whole_bytes(1) [of ?m]]
  have u: "under_way ?M k = (if k = ?l then under_way S k @ [?m] else under_way S k)" for k
    using wa(2) by (simp add: under_way_def whole_bytes cong: event_pc.case_cong)
  have f: "sig_loop (hs ?M x) = sig_loop (hs S x)" "live (hs ?M x) = live (hs S x)" "closing (hs ?M x) = closing (hs S x)"
    "signum (hs ?M x) = signum (hs S x)" for x by simp_all
  note o = caught_owed [OF w, of sn]
  have "tree_ok ?M" by (rule tree_ok_cong [OF sig_okD(1) [OF assms(1)]]) auto
  moreover have "handle_ok ?M x" for x
    using sig_okD(2) [OF assms(1), of x] unfolding handle_ok_def o by auto
  moreover have "messages_ok ?M k" for k
    using sig_okD(3) [OF assms(1), of k] h(1) assms(3) unfolding messages_ok_def u by auto
  moreover have "closing_ok ?M k" for k
  proof -
    have "{x. live (hs ?M x) \<and> closing (hs ?M x) \<and> sig_loop (hs ?M x) = k \<and> owed ?M x = 0}
        = {x. live (hs S x) \<and> closing (hs S x) \<and> sig_loop (hs S x) = k \<and> owed S x = 0}"
      unfolding f o using h(2) by auto
    then show ?thesis using sig_okD(4) [OF assms(1), of k] by (simp add: closing_ok_def)
  qed
  moreover have "event_ok ?M k" for k
    using sig_okD(5) [OF assms(1), of k] h(3) assms(4) wa(1) by (simp add: event_ok_def cong: event_pc.case_cong)
  ultimately show ?thesis by (rule sig_okI)
qed

text \<open>The walk ends and keeps everything in order; \<open>ys\<close> are the handles still ahead.\<close>

lemma again_good: "again es = Some (e, es') \<Longrightarrow> list_all P es \<Longrightarrow> P e \<and> e \<noteq> EINTR \<and> list_all P es'"
  by (induction es rule: again.induct) (auto split: if_splits)

lemma handler_loop_ok:
  assumes "sig_ok S" "inorder (signal_tree S) = xs @ ys" "length ys < n" "sn \<noteq> 0"
    and "handler_loop n sn (case ys of [] \<Rightarrow> None | y # _ \<Rightarrow> Some y) es S = Some x"
  shows "x = Inl Assert_failed \<and> \<not> list_all (\<lambda>e. e \<in> {0, EINTR, EAGAIN}) es \<or> (\<exists>es' S'. x = Inr (es', S') \<and> sig_ok S')"
  using assms
proof (induction n arbitrary: xs ys es S)
  case (Suc n)
  show ?case
  proof (cases ys)
    case Nil
    then show ?thesis using Suc.prems by auto
  next
    case (Cons h ys')
    show ?thesis
    proof (cases "signum (hs S h) = sn")
      case False
      then show ?thesis using Suc.prems Cons by auto
    next
      case True
      let ?l = "sig_loop (hs S h)"
      obtain e0 es1 where a: "again es = Some (e0, es1)" using Suc.prems(5) Cons True by (auto split: option.splits)
      note g = again_good [OF a, of "\<lambda>e. e \<in> {0, EINTR, EAGAIN}"]
      define e where "e = (if e0 = 0 \<and> 65536 < length (pipe S ?l) + 16 then EAGAIN else e0)"
      define S1 where "S1 = (if e = 0 then upd_sig h (\<lambda>x. x\<lparr>caught_signals := caught_signals x + 1\<rparr>)
          (S\<lparr>pipe := (pipe S)(?l := pipe S ?l @ bytes_of \<lparr>msg_handle = h, msg_signum = sn\<rparr>)\<rparr>) else S)"
      have "e = 0 \<Longrightarrow> length (pipe S ?l) + 16 \<le> 65536" by (auto simp: e_def EAGAIN_def split: if_splits)
      then have ok1: "sig_ok S1" using caught_ok [OF Suc.prems(1) True Suc.prems(4)] Suc.prems(1) by (simp add: S1_def)
      have t1: "signal_tree S1 = signal_tree S" by (simp add: S1_def)
      have i: "inorder (signal_tree S) = xs @ h # ys'" using Suc.prems(2) Cons by simp
      have "distinct (inorder (signal_tree S))" using tree_okD(4) [OF sig_okD(1) [OF Suc.prems(1)]] .
      then have nx: "RB_NEXT (signal_tree S1) h = Inr (case ys' of [] \<Rightarrow> None | y # _ \<Rightarrow> Some y)"
        unfolding t1 by (intro RB_NEXT_ok(1) [OF i]) (auto simp: i)
      have go: "handler_loop (Suc n) sn (Some h) es S =
          (if \<not> (e = 0 \<or> e = EAGAIN) then Some (Inl Assert_failed)
           else run_bind (Some (RB_NEXT (signal_tree S1) h)) (\<lambda>handle. handler_loop n sn handle es1 S1))"
        by (simp only: handler_loop.simps option.case a prod.case Let_def e_def S1_def True simp_thms if_False t1 [unfolded S1_def e_def])
      show ?thesis
      proof (cases "e = 0 \<or> e = EAGAIN")
        case True
        then have "handler_loop n sn (case ys' of [] \<Rightarrow> None | y # _ \<Rightarrow> Some y) es1 S1 = Some x"
          using go Suc.prems(5) Cons nx by simp
        then show ?thesis
          using Suc.IH [OF ok1, of "xs @ [h]" ys' es1] i t1 Suc.prems(3,4) Cons g by auto
      next
        case False
        then have "e0 \<noteq> 0 \<and> e0 \<noteq> EAGAIN" by (auto simp: e_def split: if_splits)
        then have "\<not> list_all (\<lambda>e. e \<in> {0, EINTR, EAGAIN}) es" using g by auto
        then show ?thesis using False go Suc.prems(5) Cons by simp
      qed
    qed
  qed
qed simp

lemma split_dropWhile: "xs = takeWhile P xs @ dropWhile P xs"
  by simp

lemma signal_handler_ok:
  assumes "sig_ok S" "installed S sn"
    and "uv__signal_handler (length (inorder (signal_tree S)) + 1) sn es S = Some x"
  shows "x = Inl Assert_failed \<and> \<not> list_all (\<lambda>e. e \<in> {0, EINTR, EAGAIN}) es \<or> (\<exists>S'. x = Inr S' \<and> sig_ok S')"
proof -
  let ?xs = "inorder (signal_tree S)" and ?P = "\<lambda>h. signum (hs S h) < sn"
  note T = tree_okD [OF sig_okD(1) [OF assms(1)]]
  have sn: "sn \<noteq> 0" using T(5) assms(2) by simp
  obtain r es1 where l: "uv__signal_lock es = Some (r, es1)"
    using assms(3) by (cases "uv__signal_lock es") (auto simp: uv__signal_handler_def)
  have es1: "list_all (\<lambda>e. e \<in> {0, EINTR, EAGAIN}) es \<Longrightarrow> list_all (\<lambda>e. e \<in> {0, EINTR, EAGAIN}) es1"
    using l again_good by (auto simp: uv__signal_lock_def)
  show ?thesis
  proof (cases "r = 0")
    case False
    then have "x = Inr S" using assms(3) l by (simp add: uv__signal_handler_def)
    then show ?thesis using assms(1) by blast
  next
    case True
    have f: "uv__signal_first_handle sn S =
        (case dropWhile ?P ?xs of [] \<Rightarrow> None | h # _ \<Rightarrow> if signum (hs S h) = sn then Some h else None)"
      by (rule first_handle_ok [OF T(2) zero_not_in_tree [OF assms(1)]])
    obtain xs ys where xy: "?xs = xs @ ys" "uv__signal_first_handle sn S = (case ys of [] \<Rightarrow> None | y # _ \<Rightarrow> Some y)"
    proof (cases "uv__signal_first_handle sn S")
      case None
      then show thesis using that [of ?xs "[]"] by simp
    next
      case (Some h)
      then have "uv__signal_first_handle sn S = (case dropWhile ?P ?xs of [] \<Rightarrow> None | y # _ \<Rightarrow> Some y)"
        unfolding f by (cases "dropWhile ?P ?xs") (auto split: if_splits)
      then show thesis by (rule that [OF split_dropWhile])
    qed
    have "length ys < length ?xs + 1" using xy(1) by simp
    note hl = handler_loop_ok [OF assms(1) xy(1) this sn, of es1]
    have "(case handler_loop (length ?xs + 1) sn (uv__signal_first_handle sn S) es1 S of
        None \<Rightarrow> True | Some y \<Rightarrow> y = Inl Assert_failed \<and> \<not> list_all (\<lambda>e. e \<in> {0, EINTR, EAGAIN}) es \<or> (\<exists>es' S'. y = Inr (es', S') \<and> sig_ok S'))"
      using hl es1 unfolding xy(2) by (auto split: option.splits)
    then show ?thesis using assms(3) l True
      by (auto simp: uv__signal_handler_def elim!: run_bind_Some split: option.splits)
  qed
qed

section \<open>Every step\<close>

lemma forget_ok:
  assumes "forget r = Some x" "\<And>y. r = Some y \<Longrightarrow> y = Inl Aborted \<and> P \<or> (\<exists>a S'. y = Inr (a, S') \<and> sig_ok S')"
  shows "x = Inl Aborted \<and> P \<or> (\<exists>S'. x = Inr S' \<and> sig_ok S')"
  using assms(1) unfolding forget_def by (rule run_bind_Some) (use assms(2) in fastforce)+

lemma granted_list: "granted es \<longleftrightarrow> list_all (\<lambda>e. e \<in> {0, EINTR}) es"
  by (simp add: granted_def list_all_iff)

lemma sig_act_ok:
  assumes "sig_ok S" "sig_act a S = Some x"
  shows "(\<exists>f. x = Inl f \<and> refused a f) \<or> (\<exists>S'. x = Inr S' \<and> sig_ok S')"
proof (cases a)
  case (Init l h made)
  then show ?thesis using assms signal_init_ok [OF assms(1), of l h made] by (auto simp: sig_act_def split: if_splits)
next
  case (Start h cb sn es)
  then have u: "live (hs S h)" "\<not> closing (hs S h)" and
    f: "forget (run_bind (uv_signal_start h cb sn es S) (\<lambda>(err, es, S). Some (Inr (es, S)))) = Some x"
    using assms(2) by (auto simp: sig_act_def usable_def split: if_splits)
  have "x = Inl Aborted \<and> \<not> granted es \<or> (\<exists>S'. x = Inr S' \<and> sig_ok S')"
    by (rule forget_ok [OF f]) (auto elim!: run_bind_Some dest!: signal_start_ok [OF assms(1) u])
  then show ?thesis unfolding Start refused_def granted_list by simp
next
  case (Stop h es)
  then have u: "live (hs S h)" "\<not> closing (hs S h)" and f: "forget (uv_signal_stop h es S) = Some x"
    using assms(2) by (auto simp: sig_act_def usable_def split: if_splits)
  have "x = Inl Aborted \<and> \<not> granted es \<or> (\<exists>S'. x = Inr S' \<and> sig_ok S')"
    by (rule forget_ok [OF f])
      (use u in \<open>auto simp: uv_signal_stop_def dest!: stop_ok [OF assms(1) u(1)] intro: stopped_ok [OF assms(1)]\<close>)
  then show ?thesis unfolding Stop refused_def granted_list by simp
next
  case (Close h es)
  then have u: "live (hs S h)" "\<not> closing (hs S h)" and f: "forget (close_signal h es S) = Some x"
    using assms(2) by (auto simp: sig_act_def usable_def split: if_splits)
  have "x = Inl Aborted \<and> \<not> granted es \<or> (\<exists>S'. x = Inr S' \<and> sig_ok S')"
    by (rule forget_ok [OF f]) (use close_signal_ok [OF assms(1) u] in blast)
  then show ?thesis unfolding Close refused_def granted_list by simp
next
  case (Raise sn es)
  then show ?thesis using assms(2) signal_handler_ok [OF assms(1), of sn es x]
    by (auto simp: sig_act_def refused_def split: if_splits)
next
  case (Enter l)
  then show ?thesis using assms event_enter_ok [OF assms(1), of l] by (auto simp: sig_act_def)
next
  case (Read l r)
  then show ?thesis using assms(2) event_read_ok [OF assms(1), of l r x]
    by (auto simp: sig_act_def refused_def split: if_splits)
next
  case (Go_on l)
  then show ?thesis using assms(2) event_step_ok [OF assms(1), of l x] by (auto simp: sig_act_def)
next
  case (Finish l)
  then show ?thesis using assms(2) finish_one_ok [OF assms(1), of l x] by (auto simp: sig_act_def split: if_splits)
qed

lemma sig_reach_ok: "sig_reach no_signals S \<Longrightarrow> sig_ok S"
  by (induction rule: sig_reach.induct) (use no_signals_ok sig_act_ok in \<open>force+\<close>)

section \<open>A signal reaches its handles\<close>

lemma handler_loop_delivers:
  assumes "sig_ok S" "inorder (signal_tree S) = xs @ ys" "length ys < n" "sn \<noteq> 0"
    and "\<forall>h \<in> set ys. sn \<le> signum (hs S h)" "sorted_wrt (\<lambda>x y. signum (hs S x) \<le> signum (hs S y)) ys"
    and "\<forall>l. length (pipe S l) + 16 * length ys \<le> 65536"
  shows "\<exists>k' S'. handler_loop n sn (case ys of [] \<Rightarrow> None | y # _ \<Rightarrow> Some y) (replicate (length ys + k) 0) S
      = Some (Inr (replicate k' 0, S')) \<and> k \<le> k'
    \<and> (\<forall>x. owed S' x = owed S x + of_bool (x \<in> set ys \<and> signum (hs S x) = sn))"
  using assms
proof (induction n arbitrary: xs ys S)
  case (Suc n)
  show ?case
  proof (cases ys)
    case Nil
    then show ?thesis by auto
  next
    case (Cons h ys')
    show ?thesis
    proof (cases "signum (hs S h) = sn")
      case False
      then have "sn < signum (hs S h)" using Suc.prems(5) Cons by (simp add: order_le_less)
      then have "\<forall>x \<in> set ys. signum (hs S x) \<noteq> sn" using Suc.prems(6) Cons by fastforce
      then have "\<forall>x. owed S x = owed S x + of_bool (x \<in> set ys \<and> signum (hs S x) = sn)" by auto
      moreover have "handler_loop (Suc n) sn (case ys of [] \<Rightarrow> None | y # _ \<Rightarrow> Some y) (replicate (length ys + k) 0) S
          = Some (Inr (replicate (length ys + k) 0, S))" using Cons False by simp
      ultimately show ?thesis using le_add2 by blast
    next
      case True
      let ?l = "sig_loop (hs S h)"
      let ?M = "upd_sig h (\<lambda>x. x\<lparr>caught_signals := caught_signals x + 1\<rparr>)
          (S\<lparr>pipe := (pipe S)(?l := pipe S ?l @ bytes_of \<lparr>msg_handle = h, msg_signum = sn\<rparr>)\<rparr>)"
      have room: "length (pipe S ?l) + 16 \<le> 65536" using Suc.prems(7) [rule_format, of ?l] Cons by simp
      note okM = caught_ok [OF Suc.prems(1) True Suc.prems(4) room]
      have w: "whole (pipe S ?l)" using sig_okD(5) [OF Suc.prems(1), of ?l] by (simp add: event_ok_def)
      have i: "inorder (signal_tree S) = xs @ h # ys'" using Suc.prems(2) Cons by simp
      have d: "distinct (inorder (signal_tree S))" using tree_okD(4) [OF sig_okD(1) [OF Suc.prems(1)]] .
      have nx: "RB_NEXT (signal_tree S) h = Inr (case ys' of [] \<Rightarrow> None | y # _ \<Rightarrow> Some y)"
        using d by (intro RB_NEXT_ok(1) [OF i]) (auto simp: i)
      have s: "signum (hs ?M x) = signum (hs S x)" for x by simp
      have "handler_loop (Suc n) sn (Some h) (replicate (length ys + k) 0) S
          = handler_loop n sn (case ys' of [] \<Rightarrow> None | y # _ \<Rightarrow> Some y) (replicate (length ys' + k) 0) ?M"
        using True room nx Cons by (simp add: EINTR_def Let_def)
      moreover have "length (pipe ?M l) + 16 * length ys' \<le> 65536" for l
        using Suc.prems(7) [rule_format, of l] Cons by (cases "l = ?l") simp_all
      moreover have "\<forall>x \<in> set ys'. sn \<le> signum (hs ?M x)" "sorted_wrt (\<lambda>x y. signum (hs ?M x) \<le> signum (hs ?M y)) ys'"
        unfolding s using Suc.prems(5,6) Cons by simp_all
      ultimately obtain k' S' where IH: "handler_loop (Suc n) sn (Some h) (replicate (length ys + k) 0) S = Some (Inr (replicate k' 0, S'))"
          "k \<le> k'" "\<forall>x. owed S' x = owed ?M x + of_bool (x \<in> set ys' \<and> signum (hs S x) = sn)"
        using Suc.IH [OF okM, of "xs @ [h]" ys'] i Suc.prems(3,4) Cons unfolding s by auto
      have "h \<notin> set ys'" using d i by simp
      then have "\<forall>x. owed S' x = owed S x + of_bool (x \<in> set ys \<and> signum (hs S x) = sn)"
        unfolding IH(3) [rule_format] caught_owed [OF w] using Cons True by auto
      then show ?thesis using IH(1,2) Cons by auto
    qed
  qed
qed simp

lemma raise_delivers:
  assumes "sig_ok S" "installed S sn" "\<forall>l. length (pipe S l) + 16 * length (inorder (signal_tree S)) \<le> 65536"
  shows "\<exists>S'. sig_act (Raise sn (replicate (length (inorder (signal_tree S)) + 2) 0)) S = Some (Inr S')
    \<and> (\<forall>h. owed S' h = owed S h + of_bool (signum (hs S h) = sn))"
proof -
  let ?xs = "inorder (signal_tree S)" and ?P = "\<lambda>h. signum (hs S h) < sn"
  note T = tree_okD [OF sig_okD(1) [OF assms(1)]]
  have sn: "sn \<noteq> 0" using T(5) assms(2) by simp
  have f: "uv__signal_first_handle sn S =
      (case dropWhile ?P ?xs of [] \<Rightarrow> None | h # _ \<Rightarrow> if signum (hs S h) = sn then Some h else None)"
    by (rule first_handle_ok [OF T(2) zero_not_in_tree [OF assms(1)]])
  have so: "sorted_wrt (\<lambda>x y. signum (hs S x) \<le> signum (hs S y)) ?xs"
    using T(2) by (rule sorted_wrt_mono_rel [rotated]) (auto simp: uv__signal_compare_def split: if_splits)
  have n: "uv__signal_first_handle sn S \<noteq> None"
    using first_handle_None [OF T(2) zero_not_in_tree [OF assms(1)], of sn] T(3,5) assms(2) by auto
  let ?ys = "dropWhile ?P ?xs"
  have e: "uv__signal_first_handle sn S = (case ?ys of [] \<Rightarrow> None | y # _ \<Rightarrow> Some y)"
    using n unfolding f by (cases ?ys) (auto split: if_splits)
  have split: "?xs = takeWhile ?P ?xs @ ?ys" by simp
  have sy: "sorted_wrt (\<lambda>x y. signum (hs S x) \<le> signum (hs S y)) ?ys"
    using so by (subst (asm) split) (simp add: sorted_wrt_append)
  have ge: "\<forall>h \<in> set ?ys. sn \<le> signum (hs S h)"
  proof (cases ?ys)
    case (Cons h ys')
    then have "\<not> signum (hs S h) < sn" by (metis hd_dropWhile list.distinct(1) list.sel(1))
    then show ?thesis using sy Cons by auto
  next
    case Nil
    then show ?thesis by (simp only: list.set) simp
  qed
  have len: "length ?xs = length (takeWhile ?P ?xs) + length ?ys" by (subst split) (simp only: length_append)
  define k where "k = length (takeWhile ?P ?xs)"
  have k: "length ?xs + 2 = Suc (length ?ys + Suc k)" using len by (simp add: k_def)
  have "\<forall>l. length (pipe S l) + 16 * length ?ys \<le> 65536"
  proof
    fix l
    show "length (pipe S l) + 16 * length ?ys \<le> 65536" using assms(3) [rule_format, of l] len by simp
  qed
  from handler_loop_delivers [OF assms(1) split _ sn ge sy this, of "length ?xs + 1" "Suc k"] len
  obtain k' S' where h: "handler_loop (length ?xs + 1) sn (uv__signal_first_handle sn S) (replicate (length ?ys + Suc k) 0) S
      = Some (Inr (replicate k' 0, S'))" "Suc k \<le> k'"
      "\<forall>x. owed S' x = owed S x + of_bool (x \<in> set ?ys \<and> signum (hs S x) = sn)"
    unfolding e by auto
  have "x \<in> set ?ys \<longleftrightarrow> True" if "signum (hs S x) = sn" for x
  proof -
    have "x \<in> set ?xs" "\<not> signum (hs S x) < sn" using T(3) that sn by auto
    moreover have "set ?xs = set (takeWhile ?P ?xs) \<union> set ?ys" by (simp only: split [symmetric] set_append [symmetric])
    ultimately show ?thesis by (auto dest: set_takeWhileD)
  qed
  then have owed: "\<forall>x. owed S' x = owed S x + of_bool (signum (hs S x) = sn)" using h(3) by auto
  obtain k'' where "k' = Suc k''" using h(2) by (cases k') auto
  then have "uv__signal_handler (length ?xs + 1) sn (replicate (length ?xs + 2) 0) S = Some (Inr S')"
    unfolding k using h(1) by (simp add: uv__signal_handler_def uv__signal_lock_def uv__signal_unlock_def EINTR_def)
  then show ?thesis using owed assms(2) by (simp add: sig_act_def list_all_iff)
qed

section \<open>Calls return\<close>

text \<open>When the kernel lets every call through.\<close>

lemma replicate_more: "k \<le> m \<Longrightarrow> replicate m (x :: 'a) = replicate k x @ replicate (m - k) x"
  by (simp flip: replicate_add)

lemma lock_returns:
  "uv__signal_block_and_lock (0 # 0 # 0 # es) = Some (Inr es)" "uv__signal_unlock_and_unblock (0 # 0 # es) = Some (Inr es)"
  by (simp_all add: uv__signal_block_and_lock_def uv__signal_unlock_and_unblock_def must_def one_call_def
      uv__signal_lock_def uv__signal_unlock_def EINTR_def)

lemma stop_returns:
  assumes "tree_ok S" "signum (hs S h) \<noteq> 0 \<Longrightarrow> h \<in> set (inorder (signal_tree S))"
  shows "\<exists>es' S'. uv__signal_stop h (0 # 0 # 0 # 0 # 0 # 0 # es) S = Some (Inr (es', S')) \<and> (\<exists>p. es' = p @ es \<and> set p \<subseteq> {0})"
proof (cases "signum (hs S h) = 0")
  case True
  then show ?thesis by (auto simp: uv__signal_stop_def intro: exI [of _ "[0, 0, 0, 0, 0, 0]"])
next
  case False
  note T = tree_okD [OF assms(1)]
  obtain t where "RB_REMOVE (signal_tree S) h = Inr t" using RB_REMOVE_ok [OF T(1) assms(2) [OF False] T(4)] by auto
  then show ?thesis using False
    by (auto simp: uv__signal_stop_def lock_returns uv__signal_unregister_handler_def must_def Let_def
        intro: exI [of _ "[]"] exI [of _ "[0]"])
qed

lemma start_locked_returns:
  assumes "tree_ok S" "signum (hs S h) = 0"
  shows "\<exists>es' S'. start_locked h cb sn (0 # 0 # 0 # 0 # 0 # 0 # 0 # es) S = Some (Inr (0, es', S'))"
proof -
  note T = tree_okD [OF assms(1)]
  have nh: "h \<notin> set (inorder (signal_tree S))" using T(3) assms(2) by simp
  have "\<exists>r t. RB_INSERT (uv__signal_compare (hs (upd_sig h (\<lambda>x. x\<lparr>signum := sn\<rparr>) (S\<lparr>installed := i\<rparr>)))) (signal_tree S) h = Inr (r, t)" for i
  proof -
    let ?m = "hs (upd_sig h (\<lambda>x. x\<lparr>signum := sn\<rparr>) (S\<lparr>installed := i\<rparr>))"
    have "sorted_wrt (\<lambda>x y. uv__signal_compare ?m x y < 0) (inorder (signal_tree S))"
      using compare_cong [of "inorder (signal_tree S)" ?m "hs S"] T(2) nh by fastforce
    then show ?thesis using signal_order.RB_INSERT_ok(2) [OF T(1) _ nh] by blast
  qed
  then obtain r1 t1 r2 t2 where
    "RB_INSERT (uv__signal_compare (hs (upd_sig h (\<lambda>x. x\<lparr>signum := sn\<rparr>) (S\<lparr>installed := (installed S)(sn := True)\<rparr>)))) (signal_tree S) h = Inr (r1, t1)"
    "RB_INSERT (uv__signal_compare (hs (upd_sig h (\<lambda>x. x\<lparr>signum := sn\<rparr>) (S\<lparr>installed := installed S\<rparr>)))) (signal_tree S) h = Inr (r2, t2)"
    by metis
  then show ?thesis
    by (auto simp: start_locked_def lock_returns uv__signal_register_handler_def must_def Let_def)
qed

lemma start_returns:
  assumes "sig_ok S" "live (hs S h)" "\<not> closing (hs S h)"
  shows "\<exists>r es' S'. uv_signal_start h cb sn (replicate 13 0) S = Some (Inr (r, es', S'))"
proof (cases "sn = 0 \<or> sn = signum (hs S h)")
  case True
  then show ?thesis using assms(3) by (auto simp: uv_signal_start_def)
next
  case False
  note T = tree_okD [OF sig_okD(1) [OF assms(1)]]
  show ?thesis
  proof (cases "signum (hs S h) = 0")
    case True
    then show ?thesis using False assms(3) start_locked_returns [OF sig_okD(1) [OF assms(1)] True, of cb sn "replicate 6 0"]
      by (auto simp: uv_signal_start_def eval_nat_numeral)
  next
    case on: False
    obtain es' S' p where st: "uv__signal_stop h (0 # 0 # 0 # 0 # 0 # 0 # replicate 7 0) S = Some (Inr (es', S'))"
        "es' = p @ replicate 7 0" "set p \<subseteq> {0}"
      using stop_returns [OF sig_okD(1) [OF assms(1)], of h "replicate 7 0"] T(3) by auto
    then have "stopped h S S'" using stop_ok [OF assms(1,2) st(1)] by auto
    then have S': "tree_ok S'" "signum (hs S' h) = 0" by (simp_all add: stopped_def)
    have "p = replicate (length p) 0" using st(3) by (intro replicate_eqI) auto
    then have "es' = replicate (length p + 7) 0" using st(2) by (metis replicate_add)
    then have "es' = 0 # 0 # 0 # 0 # 0 # 0 # 0 # replicate (length p) 0" by (simp add: eval_nat_numeral)
    then obtain es2 S2 where "start_locked h cb sn es' S' = Some (Inr (0, es2, S2))"
      using start_locked_returns [OF S', of cb sn] by blast
    moreover have "replicate 13 (0 :: int) = 0 # 0 # 0 # 0 # 0 # 0 # replicate 7 0" by (simp add: eval_nat_numeral)
    ultimately show ?thesis using False on assms(3) st(1) by (auto simp: uv_signal_start_def)
  qed
qed

section \<open>Properties\<close>

text \<open>
  C35: Signals and closing handles, in any interleaving of the threads.  No step fails unless the
  kernel refuses a call: an operation on a handle aborts only if its script has an answer other
  than success and \<open>EINTR\<close>, dispatching only if \<open>read\<close> fails with something other than \<open>EINTR\<close> and
  \<open>EAGAIN\<close>, and catching fails its assertion only for such an answer of \<open>write\<close>; no other assertion
  fails, and no pointer of a message dangles.  Every message in a pipe or in the buffer of
  \<open>uv__signal_event\<close> belongs to a handle that is still there; a closing handle is in the list of
  closing handles, once, exactly when no message is on its way to it any more; a signal has its
  handler installed exactly when a handle watches it.
\<close>
theorem uv_signals_close_safely:
  assumes "sig_reach no_signals S"
  shows "(\<forall>a f. sig_act a S = Some (Inl f) \<longrightarrow>
      (case a of
         Start h cb sn es \<Rightarrow> f = Aborted \<and> \<not> list_all (\<lambda>e. e \<in> {0, EINTR}) es
       | Stop h es \<Rightarrow> f = Aborted \<and> \<not> list_all (\<lambda>e. e \<in> {0, EINTR}) es
       | Close h es \<Rightarrow> f = Aborted \<and> \<not> list_all (\<lambda>e. e \<in> {0, EINTR}) es
       | Raise sn es \<Rightarrow> f = Assert_failed \<and> \<not> list_all (\<lambda>e. e \<in> {0, EINTR, EAGAIN}) es
       | Read l r \<Rightarrow> f = Aborted \<and> r < 0 \<and> - r \<notin> {EINTR, EAGAIN}
       | _ \<Rightarrow> False))
    \<and> (\<forall>l. \<forall>m \<in> set (under_way S l). live (hs S (msg_handle m)) \<and> sig_loop (hs S (msg_handle m)) = l)
    \<and> (\<forall>l. distinct (close_list S l))
    \<and> (\<forall>h l. h \<in> set (close_list S l) \<longleftrightarrow> live (hs S h) \<and> closing (hs S h) \<and> sig_loop (hs S h) = l \<and> owed S h = 0)
    \<and> (\<forall>sn. installed S sn \<longleftrightarrow> sn \<noteq> 0 \<and> (\<exists>h. live (hs S h) \<and> \<not> closing (hs S h) \<and> signum (hs S h) = sn))"
proof -
  have ok: "sig_ok S" using assms by (rule sig_reach_ok)
  have "installed S sn \<longleftrightarrow> sn \<noteq> 0 \<and> (\<exists>h. live (hs S h) \<and> \<not> closing (hs S h) \<and> signum (hs S h) = sn)" for sn
    using tree_okD(5) [OF sig_okD(1) [OF ok], of sn] sig_okD(2) [OF ok] by (auto simp: handle_ok_def)
  moreover have "refused a f" if "sig_act a S = Some (Inl f)" for a f using sig_act_ok [OF ok that] by simp
  ultimately show ?thesis
    unfolding refused_def using sig_okD(3,4) [OF ok] by (simp add: messages_ok_def closing_ok_def)
qed

text \<open>A handle is closed between a signal and the dispatch of its message.\<close>

fun sig_run :: "sig_action list \<Rightarrow> uv_signals \<Rightarrow> uv_signals option" where
  "sig_run [] S = Some S"
| "sig_run (a # as) S = (case sig_act a S of Some (Inr S') \<Rightarrow> sig_run as S' | _ \<Rightarrow> None)"

lemma sig_run_reach: "sig_run as S = Some S' \<Longrightarrow> sig_reach S0 S \<Longrightarrow> sig_reach S0 S'"
  by (induction as S rule: sig_run.induct) (auto split: option.splits sum.splits intro: sig_reach.step)

lemma bytes_of_simps:
  "bytes_of m \<noteq> []" "message_at 0 (bytes_of m @ b) = Some m" "message_at 0 (bytes_of m) = Some m"
  by (simp_all add: bytes_of_form message_at_def)

lemmas sig_run_defs = sig_act_def uv_signal_init_def uv__signal_loop_once_init_def in_user_code_def usable_def forget_def
  uv_signal_start_def start_locked_def lock_returns uv__signal_first_handle_def RB_NFIND_def RB_INSERT_def
  uv__signal_register_handler_def must_def one_call_def no_signals_def upd_sig_def Let_def uv__signal_handler_def
  uv__signal_lock_def uv__signal_unlock_def EINTR_def EAGAIN_def RB_NEXT_def uv__signal_compare_def whole_bytes bytes_of_simps
  close_signal_def uv__signal_close_def uv__signal_stop_def RB_REMOVE_def uv__signal_unregister_handler_def event_enter_def
  event_read_def read_answers_def event_step_def event_message_def event_again_def event_done_def make_close_pending_def

lemma close_while_caught:
  "\<exists>S. sig_run [Init 5 2 0, Start 2 8 10 [0,0,0,0,0,0,0,0,0,0,0,0,0], Raise 10 [0,0,0], Close 2 [0,0,0,0,0,0]] no_signals = Some S
   \<and> live (hs S 2) \<and> closing (hs S 2) \<and> sig_loop (hs S 2) = 5 \<and> under_way S 5 = [\<lparr>msg_handle = 2, msg_signum = 10\<rparr>]"
  by (simp add: sig_run_defs under_way_def)

text \<open>So the close callback of the handle has to wait.\<close>

lemma uv_signals_close_safely_witness:
  "\<exists>S. sig_reach no_signals S \<and> closing (hs S 2) \<and> owed S 2 = 1 \<and> 2 \<notin> set (close_list S 5)"
proof -
  obtain S where S: "sig_reach no_signals S" "live (hs S 2)" "closing (hs S 2)" "sig_loop (hs S 2) = 5"
      "under_way S 5 = [\<lparr>msg_handle = 2, msg_signum = 10\<rparr>]"
    using close_while_caught sig_run_reach [OF _ sig_reach.start] by blast
  have o: "owed S 2 = 1" by (simp add: owed_def S(4,5))
  have "2 \<in> set (close_list S 5) \<longleftrightarrow> live (hs S 2) \<and> closing (hs S 2) \<and> sig_loop (hs S 2) = 5 \<and> owed S 2 = 0"
    using uv_signals_close_safely [OF S(1)] by blast
  then show ?thesis using S o by auto
qed

text \<open>
  Reads that give part of a message, which the comment in \<open>uv__signal_event\<close> says are waited out:
  \<open>continue\<close> goes to the condition of the loop, which is false, and the bytes in the buffer are
  lost with the message they began.
\<close>

lemma event_partial_read_lost:
  assumes "event_pc S l = Reading" "buf S l = []" "pipe S l = bytes_of m @ b"
  shows "\<exists>S1 S2. event_read l 8 S = Some (Inr S1) \<and> event_step l S1 = Some (Inr S2)
    \<and> event_pc S2 l = Not_running \<and> pipe S2 l = map (Piece m) [8..<16] @ b"
proof -
  have e: "(8::nat) div 16 = 0" by simp
  have d: "drop 8 (bytes_of m) = map (Piece m) [8..<16]" by (simp add: bytes_of_def drop_map)
  show ?thesis using assms
    by (simp add: event_read_def EINTR_def EAGAIN_def event_step_def event_again_def Let_def d)
qed

text \<open>Sequences of insertions (\<open>True\<close>) and removals, and the sets they leave.\<close>

fun tree_ops :: "(addr \<Rightarrow> uv_signal_t) \<Rightarrow> (bool \<times> addr) list \<Rightarrow> addr rb_tree \<Rightarrow> addr rb_tree res" where
  "tree_ops m [] t = Inr t"
| "tree_ops m ((ins, h) # ops) t =
     bind_res (if ins then bind_res (RB_INSERT (uv__signal_compare m) t h) (\<lambda>(_, t). Inr t)
               else if RB_FIND (uv__signal_compare m) h t = None then Inr t else RB_REMOVE t h) (tree_ops m ops)"

fun set_ops :: "(bool \<times> addr) list \<Rightarrow> addr set \<Rightarrow> addr set" where
  "set_ops [] A = A"
| "set_ops ((ins, h) # ops) A = set_ops ops (if ins then insert h A else A - {h})"

lemma tree_ops_ok:
  assumes "rb_ok t" "sorted_wrt (\<lambda>x y. uv__signal_compare m x y < 0) (inorder t)"
  shows "\<exists>u. tree_ops m ops t = Inr u \<and> rb_ok u \<and> sorted_wrt (\<lambda>x y. uv__signal_compare m x y < 0) (inorder u)
    \<and> set (inorder u) = set_ops ops (set (inorder t))"
  using assms
proof (induction ops arbitrary: t)
  case (Cons op ops)
  obtain ins h where op: "op = (ins, h)" by fastforce
  note d = signal_order.ordered_distinct [OF Cons.prems(2)]
  have "\<exists>v. (if ins then bind_res (RB_INSERT (uv__signal_compare m) t h) (\<lambda>(_, t). Inr t)
               else if RB_FIND (uv__signal_compare m) h t = None then Inr t else RB_REMOVE t h) = Inr v
      \<and> rb_ok v \<and> sorted_wrt (\<lambda>x y. uv__signal_compare m x y < 0) (inorder v)
      \<and> set (inorder v) = (if ins then insert h (set (inorder t)) else set (inorder t) - {h})"
  proof (cases "h \<in> set (inorder t)")
    case True
    then show ?thesis
      using signal_order.RB_INSERT_ok(1) [OF Cons.prems True] RB_REMOVE_ok [OF Cons.prems(1) True d] Cons.prems d
        signal_order.ordered_remove1 [OF Cons.prems(2), of h]
      by (auto simp: signal_order.RB_FIND_ok [OF Cons.prems(2)])
  next
    case False
    then show ?thesis
      using signal_order.RB_INSERT_ok(2) [OF Cons.prems False] Cons.prems
      by (auto simp: signal_order.RB_FIND_ok [OF Cons.prems(2)])
  qed
  then obtain v where v: "tree_ops m (op # ops) t = tree_ops m ops v" "rb_ok v"
      "sorted_wrt (\<lambda>x y. uv__signal_compare m x y < 0) (inorder v)" "set_ops (op # ops) (set (inorder t)) = set_ops ops (set (inorder v))"
    unfolding op by auto
  show ?case using Cons.IH [OF v(2,3)] unfolding v(1,4) .
qed simp

text \<open>
  C36: The red-black tree of the signal handles.  Any sequence of insertions and removals runs
  without a fault and leaves the elements inserted and not removed, each once, in the order of
  \<open>uv__signal_compare\<close>; the tree is a red-black tree, and no path in it is longer than twice the
  logarithm of its size.
\<close>
theorem uv_rb_tree_is_ordered_set:
  "\<exists>t. tree_ops m ops Null = Inr t \<and> rb_ok t \<and> sorted_wrt (\<lambda>x y. uv__signal_compare m x y < 0) (inorder t)
     \<and> distinct (inorder t) \<and> set (inorder t) = set_ops ops {} \<and> 2 ^ (depth t div 2) \<le> length (inorder t) + 1"
proof -
  have "rb_ok Null" by (simp add: rb_ok_def)
  from tree_ops_ok [OF this, of m ops] obtain t where t: "tree_ops m ops Null = Inr t" "rb_ok t"
      "sorted_wrt (\<lambda>x y. uv__signal_compare m x y < 0) (inorder t)" "set (inorder t) = set_ops ops {}" by auto
  then show ?thesis using signal_order.ordered_distinct [OF t(3)] rb_depth [OF t(2)] by blast
qed

end
