(* ===== verification/UvThread.thy ===== *)
theory UvThread
  imports UvBase
begin

text \<open>
  The synchronisation primitives of libuv on POSIX threads: \<open>third/libuv/src/unix/thread.c\<close>, which
  the thread pools of the server and of the library use.

  The C library answers a call with a number, the argument \<open>k\<close>.  What is modelled of it is what POSIX
  promises: with \<open>0\<close> the call has its effect, and that it may answer only when the effect is
  possible, a lock is free for instance; any other answer is an error, of which nothing is said but that
  the call then has no effect.  So a call may fail for any reason at any time (\<open>EDEADLK\<close>, \<open>EAGAIN\<close> for
  too many readers, \<open>EINVAL\<close>), and a reader may be held back by a waiting writer, as nothing makes
  the library answer \<open>0\<close>.  A pair of arguments for which there is no such answer has no step, \<open>None\<close>.
  Threads are numbers.  The code for Apple and Android is left out.
\<close>

text \<open>Answers of calls that have no other effect here: \<open>0\<close> or an error number.\<close>

type_synonym answers = "int list"

definition answer :: "answers \<Rightarrow> (int \<times> answers) option" where
  "answer es = (case es of [] \<Rightarrow> None | e # es \<Rightarrow> Some (e, es))"

text \<open>\<open>if (call) abort();\<close>\<close>

definition or_abort :: "(int \<times> 'a) option \<Rightarrow> 'a res option" where
  "or_abort r = map_option (\<lambda>(e, a). if e \<noteq> 0 then Inl Aborted else Inr a) r"

section \<open>Mutexes\<close>

record uv_mutex_t =
  owner :: "nat option"
  checks :: bool

definition pthread_mutex_lock :: "nat \<Rightarrow> int \<Rightarrow> uv_mutex_t \<Rightarrow> (int \<times> uv_mutex_t) option" where
  "pthread_mutex_lock t k m =
     (if k \<noteq> 0 then Some (k, m) else if owner m = None then Some (0, m\<lparr>owner := Some t\<rparr>) else None)"

definition pthread_mutex_unlock :: "nat \<Rightarrow> int \<Rightarrow> uv_mutex_t \<Rightarrow> (int \<times> uv_mutex_t) option" where
  "pthread_mutex_unlock t k m =
     (if k \<noteq> 0 then Some (k, m) else if owner m = Some t then Some (0, m\<lparr>owner := None\<rparr>) else None)"

definition pthread_mutex_destroy :: "uv_mutex_t \<Rightarrow> int" where
  "pthread_mutex_destroy m = (if owner m = None then 0 else EBUSY)"

text \<open>\<open>debug\<close>: the macro of error-checking mutexes is defined and \<open>NDEBUG\<close> is not.\<close>

definition uv_mutex_init :: "bool \<Rightarrow> answers \<Rightarrow> (int \<times> uv_mutex_t) res option" where
  "uv_mutex_init debug es =
     (if \<not> debug then map_option (\<lambda>(e, es). Inr (- e, \<lparr>owner = None, checks = False\<rparr>)) (answer es)
      else
        run_bind (or_abort (answer es)) (\<lambda>es.
        run_bind (or_abort (answer es)) (\<lambda>es.
        case answer es of
          None \<Rightarrow> None
        | Some (err, es) \<Rightarrow>
            run_bind (or_abort (answer es)) (\<lambda>es. Some (Inr (- err, \<lparr>owner = None, checks = True\<rparr>))))))"

definition uv_mutex_destroy :: "uv_mutex_t \<Rightarrow> unit res" where
  "uv_mutex_destroy m = (if pthread_mutex_destroy m \<noteq> 0 then Inl Aborted else Inr ())"

definition uv_mutex_lock :: "nat \<Rightarrow> int \<Rightarrow> uv_mutex_t \<Rightarrow> uv_mutex_t res option" where
  "uv_mutex_lock t k m = or_abort (pthread_mutex_lock t k m)"

text \<open>The calls that try: another error than that the lock is taken, or cannot be had now, aborts.\<close>

definition or_busy :: "(int \<times> 'a) option \<Rightarrow> (int \<times> 'a) res option" where
  "or_busy r = map_option (\<lambda>(err, a).
     if err \<noteq> 0 then
       if err \<noteq> EBUSY \<and> err \<noteq> EAGAIN then Inl Aborted else Inr (- EBUSY, a)
     else Inr (0, a)) r"

text \<open>\<open>pthread_mutex_trylock\<close> has the effect of \<open>pthread_mutex_lock\<close>; what differs is that it answers at once.\<close>

definition uv_mutex_trylock :: "nat \<Rightarrow> int \<Rightarrow> uv_mutex_t \<Rightarrow> (int \<times> uv_mutex_t) res option" where
  "uv_mutex_trylock t k m = or_busy (pthread_mutex_lock t k m)"

definition uv_mutex_unlock :: "nat \<Rightarrow> int \<Rightarrow> uv_mutex_t \<Rightarrow> uv_mutex_t res option" where
  "uv_mutex_unlock t k m = or_abort (pthread_mutex_unlock t k m)"

section \<open>Read-write locks\<close>

record uv_rwlock_t =
  writer :: "nat option"
  readers :: "nat list"

definition uv_rwlock_init :: "answers \<Rightarrow> (int \<times> uv_rwlock_t) option" where
  "uv_rwlock_init es = map_option (\<lambda>(e, es). (- e, \<lparr>writer = None, readers = []\<rparr>)) (answer es)"

definition pthread_rwlock_rdlock :: "nat \<Rightarrow> int \<Rightarrow> uv_rwlock_t \<Rightarrow> (int \<times> uv_rwlock_t) option" where
  "pthread_rwlock_rdlock t k l =
     (if k \<noteq> 0 then Some (k, l) else if writer l = None then Some (0, l\<lparr>readers := readers l @ [t]\<rparr>) else None)"

definition pthread_rwlock_wrlock :: "nat \<Rightarrow> int \<Rightarrow> uv_rwlock_t \<Rightarrow> (int \<times> uv_rwlock_t) option" where
  "pthread_rwlock_wrlock t k l =
     (if k \<noteq> 0 then Some (k, l)
      else if writer l = None \<and> readers l = [] then Some (0, l\<lparr>writer := Some t\<rparr>) else None)"

definition pthread_rwlock_unlock :: "nat \<Rightarrow> int \<Rightarrow> uv_rwlock_t \<Rightarrow> (int \<times> uv_rwlock_t) option" where
  "pthread_rwlock_unlock t k l =
     (if k \<noteq> 0 then Some (k, l)
      else if writer l = Some t then Some (0, l\<lparr>writer := None\<rparr>)
      else if t \<in> set (readers l) then Some (0, l\<lparr>readers := remove1 t (readers l)\<rparr>) else None)"

definition uv_rwlock_destroy :: "uv_rwlock_t \<Rightarrow> unit res" where
  "uv_rwlock_destroy l = (if writer l \<noteq> None \<or> readers l \<noteq> [] then Inl Aborted else Inr ())"

definition uv_rwlock_rdlock :: "nat \<Rightarrow> int \<Rightarrow> uv_rwlock_t \<Rightarrow> uv_rwlock_t res option" where
  "uv_rwlock_rdlock t k l = or_abort (pthread_rwlock_rdlock t k l)"

definition uv_rwlock_tryrdlock :: "nat \<Rightarrow> int \<Rightarrow> uv_rwlock_t \<Rightarrow> (int \<times> uv_rwlock_t) res option" where
  "uv_rwlock_tryrdlock t k l = or_busy (pthread_rwlock_rdlock t k l)"

definition uv_rwlock_rdunlock :: "nat \<Rightarrow> int \<Rightarrow> uv_rwlock_t \<Rightarrow> uv_rwlock_t res option" where
  "uv_rwlock_rdunlock t k l = or_abort (pthread_rwlock_unlock t k l)"

definition uv_rwlock_wrlock :: "nat \<Rightarrow> int \<Rightarrow> uv_rwlock_t \<Rightarrow> uv_rwlock_t res option" where
  "uv_rwlock_wrlock t k l = or_abort (pthread_rwlock_wrlock t k l)"

definition uv_rwlock_trywrlock :: "nat \<Rightarrow> int \<Rightarrow> uv_rwlock_t \<Rightarrow> (int \<times> uv_rwlock_t) res option" where
  "uv_rwlock_trywrlock t k l = or_busy (pthread_rwlock_wrlock t k l)"

definition uv_rwlock_wrunlock :: "nat \<Rightarrow> int \<Rightarrow> uv_rwlock_t \<Rightarrow> uv_rwlock_t res option" where
  "uv_rwlock_wrunlock t k l = or_abort (pthread_rwlock_unlock t k l)"

section \<open>Semaphores\<close>

text \<open>
  A semaphore is its value.  \<open>sem_post\<close> answers 0 below the maximum only, \<open>sem_wait\<close> and \<open>sem_trywait\<close>
  when the value is not 0, and \<open>sem_trywait\<close> answers \<open>EAGAIN\<close> when it is.
\<close>

definition SEM_VALUE_MAX :: nat where "SEM_VALUE_MAX = 2147483647"

definition uv_sem_init :: "nat \<Rightarrow> int \<times> nat" where
  "uv_sem_init value = (if SEM_VALUE_MAX < value then (- EINVAL, 0) else (0, value))"

definition sem_post :: "int \<Rightarrow> nat \<Rightarrow> (int \<times> nat) option" where
  "sem_post k s = (if k \<noteq> 0 then Some (k, s) else if s < SEM_VALUE_MAX then Some (0, Suc s) else None)"

definition sem_wait :: "int \<Rightarrow> nat \<Rightarrow> (int \<times> nat) option" where
  "sem_wait k s = (if k \<noteq> 0 then Some (k, s) else if 0 < s then Some (0, s - 1) else None)"

definition sem_trywait :: "int \<Rightarrow> nat \<Rightarrow> (int \<times> nat) option" where
  "sem_trywait k s = (if k = EAGAIN \<and> s \<noteq> 0 then None else sem_wait k s)"

definition uv_sem_post :: "int \<Rightarrow> nat \<Rightarrow> nat res option" where
  "uv_sem_post k s = or_abort (sem_post k s)"

fun uv_sem_wait :: "answers \<Rightarrow> nat \<Rightarrow> nat res option" where
  "uv_sem_wait [] s = None"
| "uv_sem_wait (k # ks) s =
     (case sem_wait k s of
        None \<Rightarrow> None
      | Some (r, s) \<Rightarrow>
          if r = EINTR then uv_sem_wait ks s
          else if r \<noteq> 0 then Some (Inl Aborted) else Some (Inr s))"

fun uv_sem_trywait :: "answers \<Rightarrow> nat \<Rightarrow> (int \<times> nat) res option" where
  "uv_sem_trywait [] s = None"
| "uv_sem_trywait (k # ks) s =
     (case sem_trywait k s of
        None \<Rightarrow> None
      | Some (r, s) \<Rightarrow>
          if r = EINTR then uv_sem_trywait ks s
          else if r \<noteq> 0 then
            if r = EAGAIN then Some (Inr (- EAGAIN, s)) else Some (Inl Aborted)
          else Some (Inr (0, s)))"

section \<open>Condition variables\<close>

text \<open>The threads that wait, and those that are woken and have to get the mutex back.\<close>

record uv_cond_t =
  sleeping :: "nat list"
  awakened :: "nat list"

text \<open>
  \<open>uv_cond_init\<close>: the error, and how often the attributes and the condition variable were made
  less how often they were destroyed.
\<close>

definition uv_cond_init :: "answers \<Rightarrow> (int \<times> int \<times> int) option" where
  "uv_cond_init es =
     (case answer es of
        None \<Rightarrow> None
      | Some (err, es) \<Rightarrow>
          if err \<noteq> 0 then Some (- err, 0, 0)
          else
            (case answer es of
               None \<Rightarrow> None
             | Some (err, es) \<Rightarrow>
                 if err \<noteq> 0 then Some (- err, 1 - 1, 0)
                 else
                   (case answer es of
                      None \<Rightarrow> None
                    | Some (err, es) \<Rightarrow>
                        if err \<noteq> 0 then Some (- err, 1 - 1, 0)
                        else
                          (case answer es of
                             None \<Rightarrow> None
                           | Some (err, es) \<Rightarrow>
                               if err \<noteq> 0 then Some (- err, 1 - 1, 1 - 1) else Some (0, 1 - 1, 1)))))"

definition uv_cond_destroy :: "uv_cond_t \<Rightarrow> unit res" where
  "uv_cond_destroy c = (if sleeping c \<noteq> [] then Inl Aborted else Inr ())"

text \<open>The thread to wake is the one named, or none when nobody waits.\<close>

definition uv_cond_signal :: "int \<Rightarrow> nat \<Rightarrow> uv_cond_t \<Rightarrow> uv_cond_t res" where
  "uv_cond_signal k t c =
     (if k \<noteq> 0 then Inl Aborted
      else Inr (if t \<in> set (sleeping c) then c\<lparr>sleeping := remove1 t (sleeping c), awakened := awakened c @ [t]\<rparr> else c))"

definition uv_cond_broadcast :: "int \<Rightarrow> uv_cond_t \<Rightarrow> uv_cond_t res" where
  "uv_cond_broadcast k c = (if k \<noteq> 0 then Inl Aborted else Inr (c\<lparr>sleeping := [], awakened := awakened c @ sleeping c\<rparr>))"

text \<open>
  \<open>uv_cond_wait\<close> up to the release of the mutex, and from getting it back.  A thread may be woken
  without a signal.
\<close>

definition uv_cond_wait :: "nat \<Rightarrow> int \<Rightarrow> uv_cond_t \<Rightarrow> uv_mutex_t \<Rightarrow> (uv_cond_t \<times> uv_mutex_t) res option" where
  "uv_cond_wait t k c m =
     run_bind (or_abort (pthread_mutex_unlock t k m)) (\<lambda>m. Some (Inr (c\<lparr>sleeping := sleeping c @ [t]\<rparr>, m)))"

definition uv_cond_wake :: "nat \<Rightarrow> int \<Rightarrow> uv_cond_t \<Rightarrow> uv_mutex_t \<Rightarrow> (uv_cond_t \<times> uv_mutex_t) res option" where
  "uv_cond_wake t k c m =
     (if t \<in> set (sleeping c) \<union> set (awakened c) then
        run_bind (or_abort (pthread_mutex_lock t k m)) (\<lambda>m.
        Some (Inr (c\<lparr>sleeping := remove1 t (sleeping c), awakened := remove1 t (awakened c)\<rparr>, m)))
      else None)"

text \<open>\<open>struct timespec\<close>: seconds and nanoseconds.\<close>

record timespec =
  tv_sec :: u64
  tv_nsec :: u64

definition NANOSEC :: u64 where "NANOSEC = 1000000000"

definition deadline :: "u64 \<Rightarrow> u64 \<Rightarrow> timespec" where
  "deadline timeout now = (let timeout = timeout + now in \<lparr>tv_sec = timeout div NANOSEC, tv_nsec = timeout mod NANOSEC\<rparr>)"

text \<open>\<open>timed\<close> is \<open>pthread_cond_timedwait\<close>: the answer for a deadline.\<close>

definition uv_cond_timedwait :: "(timespec \<Rightarrow> int) \<Rightarrow> u64 \<Rightarrow> u64 \<Rightarrow> int res" where
  "uv_cond_timedwait timed timeout now =
     (let r = timed (deadline timeout now) in
      if r = 0 then Inr 0 else if r = ETIMEDOUT then Inr (- ETIMEDOUT) else Inl Aborted)"

section \<open>Barriers, once, keys\<close>

record uv_barrier_t =
  bcount :: nat
  arrived :: "nat list"

definition PTHREAD_BARRIER_SERIAL_THREAD :: int where "PTHREAD_BARRIER_SERIAL_THREAD = - 1"

definition uv_barrier_init :: "answers \<Rightarrow> nat \<Rightarrow> (int \<times> uv_barrier_t) option" where
  "uv_barrier_init es n =
     (if n = 0 then Some (- EINVAL, \<lparr>bcount = 0, arrived = []\<rparr>)
      else map_option (\<lambda>(e, es). (- e, \<lparr>bcount = n, arrived = []\<rparr>)) (answer es))"

definition uv_barrier_destroy :: "uv_barrier_t \<Rightarrow> unit res" where
  "uv_barrier_destroy b = (if arrived b \<noteq> [] then Inl Aborted else Inr ())"

definition barrier_return :: "int \<Rightarrow> int res" where
  "barrier_return r =
     (if r \<noteq> 0 \<and> r \<noteq> PTHREAD_BARRIER_SERIAL_THREAD then Inl Aborted
      else Inr (if r = PTHREAD_BARRIER_SERIAL_THREAD then 1 else 0))"

text \<open>A thread arrives; when it is the last all return, the thread \<open>s\<close> with the special value.\<close>

definition uv_barrier_wait :: "nat \<Rightarrow> nat \<Rightarrow> uv_barrier_t \<Rightarrow> uv_barrier_t \<times> (nat \<times> int res) list" where
  "uv_barrier_wait s t b =
     (let ts = arrived b @ [t] in
      if length ts < bcount b then (b\<lparr>arrived := ts\<rparr>, [])
      else (b\<lparr>arrived := []\<rparr>, map (\<lambda>x. (x, barrier_return (if x = s then PTHREAD_BARRIER_SERIAL_THREAD else 0))) ts))"

definition uv_once :: "bool \<Rightarrow> ('s \<Rightarrow> 's) \<Rightarrow> 's \<Rightarrow> bool \<times> 's" where
  "uv_once guard callback s = (True, if guard then s else callback s)"

text \<open>A key is the value of each thread, or nothing after it is deleted.\<close>

definition uv_key_create :: "answers \<Rightarrow> (int \<times> (nat \<Rightarrow> nat) option) option" where
  "uv_key_create es = map_option (\<lambda>(e, es). (- e, if e = 0 then Some (\<lambda>_. 0) else None)) (answer es)"

definition uv_key_delete :: "(nat \<Rightarrow> nat) option \<Rightarrow> (nat \<Rightarrow> nat) option res" where
  "uv_key_delete k = (if k = None then Inl Aborted else Inr None)"

definition uv_key_get :: "nat \<Rightarrow> (nat \<Rightarrow> nat) option \<Rightarrow> nat" where
  "uv_key_get t k = (case k of None \<Rightarrow> 0 | Some f \<Rightarrow> f t)"

definition uv_key_set :: "nat \<Rightarrow> nat \<Rightarrow> (nat \<Rightarrow> nat) option \<Rightarrow> (nat \<Rightarrow> nat) option res" where
  "uv_key_set t v k = (case k of None \<Rightarrow> Inl Aborted | Some f \<Rightarrow> Inr (Some (f(t := v))))"

section \<open>Threads\<close>

text \<open>
  The blocks of \<open>struct thread_ctx\<close> by their addresses, the addresses passed to threads that have
  not begun yet, the calls of the threads' functions with their arguments, and the threads that
  have returned.  A thread is named by the address of its block.
\<close>

record uv_threads =
  ctxs :: "nat \<Rightarrow> (nat \<times> nat) ptr"
  next_ctx :: nat
  created :: "nat list"
  entered :: "(nat \<times> nat \<times> nat) list"

text \<open>\<open>got\<close>: whether \<open>malloc\<close> gives a block; \<open>err\<close>: the result of \<open>pthread_create\<close>.\<close>

definition uv_thread_create :: "bool \<Rightarrow> int \<Rightarrow> nat \<Rightarrow> nat \<Rightarrow> uv_threads \<Rightarrow> int \<times> uv_threads" where
  "uv_thread_create got err entry_fun arg T =
     (if \<not> got then (- ENOMEM, T)
      else
        let ctx = next_ctx T;
            T = T\<lparr>ctxs := (ctxs T)(ctx := Live (entry_fun, arg)), next_ctx := Suc ctx\<rparr>
        in if err \<noteq> 0 then (- err, T\<lparr>ctxs := (ctxs T)(ctx := Dangling)\<rparr>)
           else (0, T\<lparr>created := created T @ [ctx]\<rparr>))"

definition uv__thread_start :: "nat \<Rightarrow> uv_threads \<Rightarrow> uv_threads res" where
  "uv__thread_start ctx T =
     (case ctxs T ctx of
        Live (entry_fun, arg) \<Rightarrow>
          Inr (T\<lparr>ctxs := (ctxs T)(ctx := Dangling), created := remove1 ctx (created T),
                 entered := entered T @ [(ctx, entry_fun, arg)]\<rparr>)
      | Null \<Rightarrow> Inl Null_deref
      | Dangling \<Rightarrow> Inl Use_after_free)"

definition uv_thread_join :: "int \<Rightarrow> int" where
  "uv_thread_join e = - e"

definition uv_thread_equal :: "nat \<Rightarrow> nat \<Rightarrow> bool" where
  "uv_thread_equal t1 t2 \<longleftrightarrow> t1 = t2"

section \<open>Threads that use the locks\<close>

text \<open>
  One mutex with a condition variable, one read-write lock and one semaphore.  \<open>inside\<close>,
  \<open>reading\<close> and \<open>writing\<close> are the threads that have returned from the call that takes the lock
  and not yet called the one that releases it, \<open>posted\<close> and \<open>taken\<close> count the returns of the
  semaphore's calls.  Threads use the calls in pairs, and one that waits calls nothing else.
\<close>

record sync =
  mx :: uv_mutex_t
  cv :: uv_cond_t
  rw :: uv_rwlock_t
  sm :: nat
  inside :: "nat set"
  reading :: "nat list"
  writing :: "nat set"
  posted :: nat
  taken :: nat

datatype sync_action =
    Lock nat int | Try_lock nat int | Unlock nat int | Cond_wait nat int | Cond_wake nat int | Signal nat int | Broadcast int
  | Rd_lock nat int | Try_rd_lock nat int | Rd_unlock nat int | Wr_lock nat int | Try_wr_lock nat int | Wr_unlock nat int
  | Post int | Sem_wait answers | Sem_trywait answers

definition waits :: "nat \<Rightarrow> sync \<Rightarrow> bool" where
  "waits t S \<longleftrightarrow> t \<in> set (sleeping (cv S)) \<union> set (awakened (cv S))"

definition on_mx :: "nat \<Rightarrow> uv_mutex_t res option \<Rightarrow> (nat set \<Rightarrow> nat set) \<Rightarrow> sync \<Rightarrow> sync res option" where
  "on_mx t r f S = run_bind r (\<lambda>m. Some (Inr (S\<lparr>mx := m, inside := f (inside S)\<rparr>)))"

definition on_rw :: "uv_rwlock_t res option \<Rightarrow> (nat list \<Rightarrow> nat list) \<Rightarrow> (nat set \<Rightarrow> nat set) \<Rightarrow> sync \<Rightarrow> sync res option" where
  "on_rw r f g S = run_bind r (\<lambda>l. Some (Inr (S\<lparr>rw := l, reading := f (reading S), writing := g (writing S)\<rparr>)))"

definition sync_act :: "sync_action \<Rightarrow> sync \<Rightarrow> sync res option" where
  "sync_act a S =
     (case a of
        Lock t k \<Rightarrow> if t \<notin> inside S \<and> \<not> waits t S then on_mx t (uv_mutex_lock t k (mx S)) (insert t) S else None
      | Try_lock t k \<Rightarrow>
          if t \<notin> inside S \<and> \<not> waits t S then
            run_bind (uv_mutex_trylock t k (mx S)) (\<lambda>(e, m).
            Some (Inr (S\<lparr>mx := m, inside := (if e = 0 then insert t (inside S) else inside S)\<rparr>)))
          else None
      | Unlock t k \<Rightarrow> if t \<in> inside S then on_mx t (uv_mutex_unlock t k (mx S)) (\<lambda>I. I - {t}) S else None
      | Cond_wait t k \<Rightarrow>
          if t \<in> inside S then
            run_bind (uv_cond_wait t k (cv S) (mx S)) (\<lambda>(c, m). Some (Inr (S\<lparr>cv := c, mx := m, inside := inside S - {t}\<rparr>)))
          else None
      | Cond_wake t k \<Rightarrow>
          run_bind (uv_cond_wake t k (cv S) (mx S)) (\<lambda>(c, m). Some (Inr (S\<lparr>cv := c, mx := m, inside := insert t (inside S)\<rparr>)))
      | Signal t k \<Rightarrow> run_bind (Some (uv_cond_signal k t (cv S))) (\<lambda>c. Some (Inr (S\<lparr>cv := c\<rparr>)))
      | Broadcast k \<Rightarrow> run_bind (Some (uv_cond_broadcast k (cv S))) (\<lambda>c. Some (Inr (S\<lparr>cv := c\<rparr>)))
      | Rd_lock t k \<Rightarrow>
          if t \<notin> set (reading S) \<union> writing S then on_rw (uv_rwlock_rdlock t k (rw S)) (\<lambda>R. R @ [t]) id S else None
      | Try_rd_lock t k \<Rightarrow>
          if t \<notin> set (reading S) \<union> writing S then
            run_bind (uv_rwlock_tryrdlock t k (rw S)) (\<lambda>(e, l).
            Some (Inr (S\<lparr>rw := l, reading := (if e = 0 then reading S @ [t] else reading S)\<rparr>)))
          else None
      | Rd_unlock t k \<Rightarrow> if t \<in> set (reading S) then on_rw (uv_rwlock_rdunlock t k (rw S)) (remove1 t) id S else None
      | Wr_lock t k \<Rightarrow>
          if t \<notin> set (reading S) \<union> writing S then on_rw (uv_rwlock_wrlock t k (rw S)) id (insert t) S else None
      | Try_wr_lock t k \<Rightarrow>
          if t \<notin> set (reading S) \<union> writing S then
            run_bind (uv_rwlock_trywrlock t k (rw S)) (\<lambda>(e, l).
            Some (Inr (S\<lparr>rw := l, writing := (if e = 0 then insert t (writing S) else writing S)\<rparr>)))
          else None
      | Wr_unlock t k \<Rightarrow> if t \<in> writing S then on_rw (uv_rwlock_wrunlock t k (rw S)) id (\<lambda>W. W - {t}) S else None
      | Post k \<Rightarrow> run_bind (uv_sem_post k (sm S)) (\<lambda>s. Some (Inr (S\<lparr>sm := s, posted := Suc (posted S)\<rparr>)))
      | Sem_wait ks \<Rightarrow> run_bind (uv_sem_wait ks (sm S)) (\<lambda>s. Some (Inr (S\<lparr>sm := s, taken := Suc (taken S)\<rparr>)))
      | Sem_trywait ks \<Rightarrow>
          run_bind (uv_sem_trywait ks (sm S)) (\<lambda>(e, s).
          Some (Inr (S\<lparr>sm := s, taken := (if e = 0 then Suc (taken S) else taken S)\<rparr>))))"

inductive sync_reach :: "sync \<Rightarrow> sync \<Rightarrow> bool" for S0 where
  start: "sync_reach S0 S0"
| step: "sync_reach S0 S \<Longrightarrow> sync_act a S = Some (Inr S') \<Longrightarrow> sync_reach S0 S'"

text \<open>The state after the calls that initialise the objects.\<close>

definition unlocked :: "bool \<Rightarrow> nat \<Rightarrow> sync" where
  "unlocked debug value = \<lparr>mx = \<lparr>owner = None, checks = debug\<rparr>, cv = \<lparr>sleeping = [], awakened = []\<rparr>,
     rw = \<lparr>writer = None, readers = []\<rparr>, sm = value, inside = {}, reading = [], writing = {}, posted = 0, taken = 0\<rparr>"

definition sync_ok :: "nat \<Rightarrow> sync \<Rightarrow> bool" where
  "sync_ok value S \<longleftrightarrow> inside S = set_option (owner (mx S))
     \<and> distinct (sleeping (cv S)) \<and> distinct (awakened (cv S)) \<and> (\<forall>t \<in> set (sleeping (cv S)). t \<notin> set (awakened (cv S)))
     \<and> (\<forall>t \<in> inside S. \<not> waits t S)
     \<and> reading S = readers (rw S) \<and> distinct (reading S) \<and> writing S = set_option (writer (rw S))
     \<and> (writing S \<noteq> {} \<longrightarrow> reading S = [])
     \<and> sm S + taken S = value + posted S"

text \<open>The answers for which a call may abort: errors, of the calls that try and retry not all.\<close>

definition refusal :: "sync_action \<Rightarrow> bool" where
  "refusal a =
     (case a of
        Lock t k \<Rightarrow> k \<noteq> 0 | Unlock t k \<Rightarrow> k \<noteq> 0 | Cond_wait t k \<Rightarrow> k \<noteq> 0 | Cond_wake t k \<Rightarrow> k \<noteq> 0
      | Signal t k \<Rightarrow> k \<noteq> 0 | Broadcast k \<Rightarrow> k \<noteq> 0 | Rd_lock t k \<Rightarrow> k \<noteq> 0 | Rd_unlock t k \<Rightarrow> k \<noteq> 0
      | Wr_lock t k \<Rightarrow> k \<noteq> 0 | Wr_unlock t k \<Rightarrow> k \<noteq> 0 | Post k \<Rightarrow> k \<noteq> 0
      | Try_lock t k \<Rightarrow> k \<notin> {0, EBUSY, EAGAIN} | Try_rd_lock t k \<Rightarrow> k \<notin> {0, EBUSY, EAGAIN}
      | Try_wr_lock t k \<Rightarrow> k \<notin> {0, EBUSY, EAGAIN}
      | Sem_wait ks \<Rightarrow> \<not> list_all (\<lambda>k. k \<in> {0, EINTR}) ks
      | Sem_trywait ks \<Rightarrow> \<not> list_all (\<lambda>k. k \<in> {0, EINTR, EAGAIN}) ks)"

lemma sem_wait_result:
  "uv_sem_wait ks s = Some r \<Longrightarrow> 0 < s \<and> r = Inr (s - 1) \<or> r = Inl Aborted \<and> \<not> list_all (\<lambda>k. k \<in> {0, EINTR}) ks"
proof (induction ks s rule: uv_sem_wait.induct)
  case (2 k ks s)
  show ?case
  proof (cases "k = EINTR")
    case True
    then show ?thesis using 2 by (auto simp: sem_wait_def EINTR_def)
  next
    case False
    then show ?thesis using "2.prems" by (auto simp: sem_wait_def EINTR_def split: if_splits)
  qed
qed simp

lemma sem_trywait_result:
  "uv_sem_trywait ks s = Some r \<Longrightarrow> s = 0 \<and> r = Inr (- EAGAIN, 0) \<or> 0 < s \<and> r = Inr (0, s - 1)
     \<or> r = Inl Aborted \<and> \<not> list_all (\<lambda>k. k \<in> {0, EINTR, EAGAIN}) ks"
proof (induction ks s rule: uv_sem_trywait.induct)
  case (2 k ks s)
  show ?case
  proof (cases "k = EINTR")
    case True
    then show ?thesis using 2 by (auto simp: sem_trywait_def sem_wait_def EINTR_def EAGAIN_def)
  next
    case False
    then show ?thesis using "2.prems" by (auto simp: sem_trywait_def sem_wait_def EINTR_def EAGAIN_def split: if_splits)
  qed
qed simp

lemmas lock_defs = uv_mutex_lock_def uv_mutex_trylock_def uv_mutex_unlock_def pthread_mutex_lock_def
  pthread_mutex_unlock_def uv_rwlock_rdlock_def uv_rwlock_tryrdlock_def uv_rwlock_rdunlock_def uv_rwlock_wrlock_def
  uv_rwlock_trywrlock_def uv_rwlock_wrunlock_def pthread_rwlock_rdlock_def pthread_rwlock_wrlock_def
  pthread_rwlock_unlock_def or_abort_def or_busy_def EBUSY_def EAGAIN_def refusal_def

lemmas mutex_simps = sync_act_def sync_ok_def lock_defs on_mx_def waits_def uv_cond_wait_def uv_cond_wake_def
  uv_cond_signal_def uv_cond_broadcast_def

lemmas rwlock_simps = sync_act_def sync_ok_def lock_defs on_rw_def waits_def

lemma sync_act_mutex:
  assumes "sync_ok v S" "sync_act a S = Some r" "a \<in> {Lock t k, Try_lock t k, Unlock t k, Cond_wait t k, Cond_wake t k, Signal t k, Broadcast k}"
  shows "(\<exists>S'. r = Inr S' \<and> sync_ok v S') \<or> r = Inl Aborted \<and> refusal a"
proof -
  from assms(3) consider "a = Lock t k" | "a = Try_lock t k" | "a = Unlock t k" | "a = Cond_wait t k" | "a = Cond_wake t k" | "a = Signal t k" | "a = Broadcast k" by blast
  then show ?thesis
  proof cases
    case 1
    then show ?thesis using assms(1,2) by (cases "k = 0") (auto simp: mutex_simps split: if_splits option.splits)
  next
    case 2
    then show ?thesis using assms(1,2) by (cases "k = 0") (auto simp: mutex_simps split: if_splits option.splits)
  next
    case 3
    then show ?thesis using assms(1,2) by (cases "k = 0") (auto simp: mutex_simps split: if_splits option.splits)
  next
    case 4
    then show ?thesis using assms(1,2) by (cases "k = 0") (auto simp: mutex_simps split: if_splits option.splits)
  next
    case 5
    then show ?thesis using assms(1,2) by (cases "k = 0") (auto simp: mutex_simps split: if_splits option.splits)
  next
    case 6
    then show ?thesis using assms(1,2) by (cases "k = 0") (auto simp: mutex_simps split: if_splits option.splits)
  next
    case 7
    then show ?thesis using assms(1,2) by (cases "k = 0") (auto simp: mutex_simps split: if_splits option.splits)
  qed
qed

lemma sync_act_rwlock:
  assumes "sync_ok v S" "sync_act a S = Some r" "a \<in> {Rd_lock t k, Try_rd_lock t k, Rd_unlock t k, Wr_lock t k, Try_wr_lock t k, Wr_unlock t k}"
  shows "(\<exists>S'. r = Inr S' \<and> sync_ok v S') \<or> r = Inl Aborted \<and> refusal a"
proof -
  from assms(3) consider "a = Rd_lock t k" | "a = Try_rd_lock t k" | "a = Rd_unlock t k" | "a = Wr_lock t k" | "a = Try_wr_lock t k" | "a = Wr_unlock t k" by blast
  then show ?thesis
  proof cases
    case 1
    then show ?thesis using assms(1,2) by (cases "k = 0") (auto simp: rwlock_simps split: if_splits option.splits)
  next
    case 2
    then show ?thesis using assms(1,2) by (cases "k = 0") (auto simp: rwlock_simps split: if_splits option.splits)
  next
    case 3
    then show ?thesis using assms(1,2) by (cases "k = 0") (auto simp: rwlock_simps split: if_splits option.splits)
  next
    case 4
    then show ?thesis using assms(1,2) by (cases "k = 0") (auto simp: rwlock_simps split: if_splits option.splits)
  next
    case 5
    then show ?thesis using assms(1,2) by (cases "k = 0") (auto simp: rwlock_simps split: if_splits option.splits)
  next
    case 6
    then show ?thesis using assms(1,2) by (cases "k = 0") (auto simp: rwlock_simps split: if_splits option.splits)
  qed
qed

lemma sync_act_sem:
  assumes "sync_ok v S" "sync_act a S = Some r" "a = Post k \<or> a = Sem_wait ks \<or> a = Sem_trywait ks"
  shows "(\<exists>S'. r = Inr S' \<and> sync_ok v S') \<or> r = Inl Aborted \<and> refusal a"
  using assms(3)
proof (elim disjE)
  assume a: "a = Post k"
  then show ?thesis using assms(1,2)
    by (auto simp: sync_act_def sync_ok_def uv_sem_post_def sem_post_def or_abort_def refusal_def waits_def split: if_splits)
next
  assume a: "a = Sem_wait ks"
  then obtain x where "uv_sem_wait ks (sm S) = Some x" using assms(2) by (cases "uv_sem_wait ks (sm S)") (auto simp: sync_act_def)
  then show ?thesis using assms(1,2) a sem_wait_result [of ks "sm S" x]
    by (auto simp: sync_act_def sync_ok_def waits_def refusal_def)
next
  assume a: "a = Sem_trywait ks"
  then obtain x where "uv_sem_trywait ks (sm S) = Some x" using assms(2) by (cases "uv_sem_trywait ks (sm S)") (auto simp: sync_act_def)
  then show ?thesis using assms(1,2) a sem_trywait_result [of ks "sm S" x]
    by (auto simp: sync_act_def sync_ok_def waits_def refusal_def EAGAIN_def)
qed

lemma sync_act_ok:
  assumes "sync_ok v S" "sync_act a S = Some r"
  shows "(\<exists>S'. r = Inr S' \<and> sync_ok v S') \<or> r = Inl Aborted \<and> refusal a"
proof (cases a)
  case (Post k)
  then show ?thesis using sync_act_sem [OF assms, of k "[]"] by blast
next
  case (Sem_wait ks)
  then show ?thesis using sync_act_sem [OF assms, of 0 ks] by blast
next
  case (Sem_trywait ks)
  then show ?thesis using sync_act_sem [OF assms, of 0 ks] by blast
qed (use sync_act_mutex [OF assms] sync_act_rwlock [OF assms] in blast)+

lemma sync_reach_ok: "sync_reach (unlocked debug v) S \<Longrightarrow> sync_ok v S"
proof (induction rule: sync_reach.induct)
  case start
  show ?case by (simp add: unlocked_def sync_ok_def waits_def)
next
  case (step S a S')
  then show ?case using sync_act_ok [of v S a "Inr S'"] by blast
qed

text \<open>
  C39: The locks of libuv, used in pairs by any threads in any order, whatever the C library answers.
  A call that returns has its effect: at most one thread is between the return of the call that
  takes a mutex, or of a try that says it succeeded, and the call that releases it, also when threads
  wait on a condition variable and are woken, with or without a signal; a writer is alone; a
  semaphore is taken exactly as often as the calls that wait for it have returned with
  success.  So an error of the library never passes for a lock: the call aborts, and it
  does so for nothing but an error; interruptions are retried, and a lock that is busy makes the
  calls that try say so.  A free lock is taken when the library grants it.
\<close>
theorem uv_locks_exclude:
  assumes "sync_reach (unlocked debug v) S"
  shows "(\<forall>a f. sync_act a S = Some (Inl f) \<longrightarrow> f = Aborted \<and> refusal a)
    \<and> (\<forall>t \<in> inside S. inside S = {t}) \<and> (\<forall>t \<in> writing S. writing S = {t} \<and> reading S = [])
    \<and> sm S + taken S = v + posted S
    \<and> (inside S = {} \<longrightarrow> (\<forall>t. \<exists>m. uv_mutex_lock t 0 (mx S) = Some (Inr m) \<and> owner m = Some t))
    \<and> (writing S = {} \<longrightarrow> (\<forall>t. \<exists>l. uv_rwlock_rdlock t 0 (rw S) = Some (Inr l) \<and> t \<in> set (readers l)))
    \<and> (writing S = {} \<and> reading S = [] \<longrightarrow> (\<forall>t. \<exists>l. uv_rwlock_wrlock t 0 (rw S) = Some (Inr l) \<and> writer l = Some t))"
proof -
  have ok: "sync_ok v S" using assms by (rule sync_reach_ok)
  then have "(\<forall>t \<in> inside S. inside S = {t}) \<and> (\<forall>t \<in> writing S. writing S = {t} \<and> reading S = []) \<and> sm S + taken S = v + posted S"
    by (auto simp: sync_ok_def)
  moreover have "inside S = {} \<longrightarrow> (\<forall>t. \<exists>m. uv_mutex_lock t 0 (mx S) = Some (Inr m) \<and> owner m = Some t)"
    using ok by (auto simp: sync_ok_def lock_defs)
  moreover have "writing S = {} \<longrightarrow> (\<forall>t. \<exists>l. uv_rwlock_rdlock t 0 (rw S) = Some (Inr l) \<and> t \<in> set (readers l))"
    using ok by (auto simp: sync_ok_def lock_defs)
  moreover have "writing S = {} \<and> reading S = [] \<longrightarrow> (\<forall>t. \<exists>l. uv_rwlock_wrlock t 0 (rw S) = Some (Inr l) \<and> writer l = Some t)"
    using ok by (auto simp: sync_ok_def lock_defs)
  moreover have "f = Aborted \<and> refusal a" if "sync_act a S = Some (Inl f)" for a f
    using sync_act_ok [OF ok that] by simp
  ultimately show ?thesis by (simp only: HOL.simp_thms) blast
qed

fun sync_run :: "sync_action list \<Rightarrow> sync \<Rightarrow> sync option" where
  "sync_run [] S = Some S"
| "sync_run (a # as) S = (case sync_act a S of Some (Inr S') \<Rightarrow> sync_run as S' | _ \<Rightarrow> None)"

lemma sync_run_reach: "sync_reach S0 S \<Longrightarrow> sync_run as S = Some S' \<Longrightarrow> sync_reach S0 S'"
  by (induction as arbitrary: S) (auto split: option.splits sum.splits intro: sync_reach.step)

lemma woken_run:
  "\<exists>S. sync_run [Lock 1 0, Cond_wait 1 0, Lock 2 0, Try_lock 3 EBUSY, Signal 1 0, Rd_lock 1 0, Rd_lock 2 0, Post 0, Sem_wait [EINTR, 0]]
       (unlocked True 0) = Some S
     \<and> 2 \<in> inside S \<and> awakened (cv S) = [1] \<and> sleeping (cv S) = []"
  by (simp add: sync_act_def lock_defs unlocked_def on_mx_def on_rw_def waits_def uv_cond_wait_def uv_cond_signal_def uv_sem_post_def
      sem_post_def sem_wait_def SEM_VALUE_MAX_def EINTR_def)

text \<open>A thread was woken while another one holds the mutex; a third that the library refuses it does not go on.\<close>

lemma uv_locks_exclude_witness:
  "\<exists>S. sync_reach (unlocked True 0) S \<and> awakened (cv S) = [1] \<and> inside S = {2}
     \<and> sync_act (Lock 3 EAGAIN) S = Some (Inl Aborted) \<and> refusal (Lock 3 EAGAIN)"
proof -
  obtain S where S: "sync_reach (unlocked True 0) S" "2 \<in> inside S" "awakened (cv S) = [1]" "sleeping (cv S) = []"
    using woken_run sync_run_reach [OF sync_reach.start] by blast
  note l = uv_locks_exclude [OF S(1)]
  have in2: "inside S = {2}" using l S(2) by blast
  have a: "sync_act (Lock 3 EAGAIN) S = Some (Inl Aborted)" using S(3,4) in2
    by (simp add: sync_act_def waits_def on_mx_def lock_defs)
  then have "refusal (Lock 3 EAGAIN)" using l by blast
  then show ?thesis using S in2 a by blast
qed

section \<open>Deadlines\<close>

text \<open>
  \<open>uv_cond_timedwait\<close> waits until \<open>timeout\<close> nanoseconds after now, when the sum fits 64 bits; the
  nanoseconds of the deadline are always in range.
\<close>

lemma deadline_exact:
  assumes "unat timeout + unat now < 2 ^ 64"
  shows "unat (tv_sec (deadline timeout now)) * 1000000000 + unat (tv_nsec (deadline timeout now)) = unat timeout + unat now"
    "unat (tv_nsec (deadline timeout now)) < 1000000000"
proof -
  have s: "unat (timeout + now) = unat timeout + unat now" using assms by (simp add: unat_word_ariths(1))
  have n: "unat NANOSEC = 1000000000" by (simp add: NANOSEC_def)
  show "unat (tv_sec (deadline timeout now)) * 1000000000 + unat (tv_nsec (deadline timeout now)) = unat timeout + unat now"
    by (simp add: deadline_def Let_def unat_div unat_mod n s div_mult_mod_eq)
  show "unat (tv_nsec (deadline timeout now)) < 1000000000" by (simp add: deadline_def Let_def unat_mod n)
qed

text \<open>The longest timeout, which is meant to wait for ever, gives a deadline that has passed.\<close>

lemma longest_timeout_passed:
  assumes "now \<noteq> 0"
  shows "unat (tv_sec (deadline (- 1) now)) * 1000000000 + unat (tv_nsec (deadline (- 1) now)) + 1 = unat now"
proof -
  have "unat (- 1 + now) + 1 = unat now" using assms by (simp add: unat_minus_one unat_gt_0)
  moreover have "unat NANOSEC = 1000000000" by (simp add: NANOSEC_def)
  ultimately show ?thesis by (simp add: deadline_def Let_def unat_div unat_mod div_mult_mod_eq)
qed

section \<open>Threads begin once\<close>

inductive threads_reach :: "uv_threads \<Rightarrow> uv_threads \<Rightarrow> bool" for T0 where
  start: "threads_reach T0 T0"
| create: "threads_reach T0 T \<Longrightarrow> threads_reach T0 (snd (uv_thread_create got err f arg T))"
| run: "threads_reach T0 T \<Longrightarrow> c \<in> set (created T) \<Longrightarrow> uv__thread_start c T = Inr T' \<Longrightarrow> threads_reach T0 T'"

definition no_threads :: uv_threads where
  "no_threads = \<lparr>ctxs = (\<lambda>_. Null), next_ctx = 0, created = [], entered = []\<rparr>"

definition threads_ok :: "uv_threads \<Rightarrow> bool" where
  "threads_ok T \<longleftrightarrow> distinct (created T) \<and> distinct (map fst (entered T))
     \<and> (\<forall>c. c \<in> set (created T) \<longleftrightarrow> (\<exists>x. ctxs T c = Live x)) \<and> (\<forall>c. next_ctx T \<le> c \<longleftrightarrow> ctxs T c = Null)
     \<and> (\<forall>c \<in> fst ` set (entered T). ctxs T c = Dangling)"

lemma thread_create_ok: "threads_ok T \<Longrightarrow> threads_ok (snd (uv_thread_create got err f arg T))"
proof -
  assume ok: "threads_ok T"
  let ?n = "next_ctx T"
  have n: "ctxs T ?n = Null" "?n \<notin> set (created T)" "?n \<notin> fst ` set (entered T)"
    using ok unfolding threads_ok_def by (blast, metis order_refl ptr.distinct(1), metis order_refl ptr.distinct(3))
  have s: "Suc ?n \<le> c \<longleftrightarrow> ?n \<le> c \<and> c \<noteq> ?n" for c by auto
  show ?thesis
  proof (cases "got \<and> err = 0")
    case True
    then show ?thesis using ok n unfolding threads_ok_def by (simp add: uv_thread_create_def Let_def s) (metis image_eqI)
  next
    case False
    then show ?thesis using ok n unfolding threads_ok_def by (auto simp: uv_thread_create_def Let_def s)
  qed
qed

lemma thread_start_ok:
  assumes "threads_ok T" "c \<in> set (created T)"
  shows "\<exists>T'. uv__thread_start c T = Inr T' \<and> threads_ok T'"
proof -
  obtain f arg where x: "ctxs T c = Live (f, arg)" using assms unfolding threads_ok_def by (metis prod.exhaust)
  have "c \<notin> fst ` set (entered T)" using assms(1) x unfolding threads_ok_def by (metis ptr.distinct(5))
  then show ?thesis using assms x by (auto simp: uv__thread_start_def threads_ok_def)
qed

text \<open>
  In any interleaving a thread that begins finds its block, the blocks alive are those of threads
  that have not begun, and each thread calls its function once.
\<close>

lemma threads_begin_once:
  assumes "threads_reach no_threads T"
  shows "\<forall>c \<in> set (created T). \<exists>T'. uv__thread_start c T = Inr T'" "{c. \<exists>x. ctxs T c = Live x} = set (created T)"
    "distinct (map fst (entered T))"
proof -
  have "threads_ok T" using assms
  proof (induction rule: threads_reach.induct)
    case start
    show ?case by (simp add: threads_ok_def no_threads_def)
  next
    case (run T c T')
    then show ?case using thread_start_ok [of T c] by auto
  qed (rule thread_create_ok)
  then show "\<forall>c \<in> set (created T). \<exists>T'. uv__thread_start c T = Inr T'" "{c. \<exists>x. ctxs T c = Live x} = set (created T)"
      "distinct (map fst (entered T))"
    using thread_start_ok [of T] by (blast, auto simp: threads_ok_def)
qed

text \<open>Exactly one thread of a full barrier gets the special value.\<close>

lemma barrier_one_serial:
  assumes "length (arrived b) + 1 = bcount b" "distinct (arrived b @ [t])" "s \<in> set (arrived b @ [t])" "uv_barrier_wait s t b = (b', rs)"
  shows "map fst rs = arrived b @ [t]" "\<forall>(x, r) \<in> set rs. r = Inr (of_bool (x = s))" "arrived b' = []"
  using assms by (auto simp: uv_barrier_wait_def Let_def barrier_return_def PTHREAD_BARRIER_SERIAL_THREAD_def comp_def)

text \<open>Whatever fails in \<open>uv_cond_init\<close>, what was made is destroyed.\<close>

lemma cond_init_balanced: "uv_cond_init es = Some (r, a, c) \<Longrightarrow> a = 0 \<and> c = of_bool (r = 0)"
  by (auto simp: uv_cond_init_def split: option.splits if_splits)

end
