(* ===== verification/UvLoopInit.thy ===== *)
theory UvLoopInit
  imports UvLoop UvSignal UvThread
begin

text \<open>
  Making and closing loops: \<open>uv_loop_init\<close> and \<open>uv__loop_close\<close> of \<open>third/libuv/src/unix/loop.c\<close>,
  \<open>uv_loop_close\<close> of \<open>uv-common.c\<close> and the functions of \<open>signal.c\<close> they call, over the loop of
  \<open>UvLoop\<close>, the signal handles of \<open>UvSignal\<close> and the locks of \<open>UvThread\<close>.

  The state joins them: the loop, the signal state of the process, in which the loop has the
  address \<open>self\<close> and a signal handle the number it has in the loop, and the fields of
  \<open>uv_loop_t\<close> that only these functions use.  Locks are \<open>None\<close> before they are made and after they
  are destroyed.  System calls, also those of the signal lock, take their answers from the loop's
  script, the calls that make locks from \<open>lock_answers\<close>.
\<close>

section \<open>State\<close>

record uv_loop_obj =
  lp :: uv_loop_t
  sg :: uv_signals
  self :: addr
  signal_pipefd :: "int \<times> int"
  child_watcher :: hid
  wq_async :: hid
  cloexec_lock :: "uv_rwlock_t option"
  wq_mutex :: "uv_mutex_t option"
  lock_answers :: answers
  signal_lock_pipefd :: "(int \<times> int) option"

text \<open>Handles and watchers that have never been used: the maps of a new loop hold no others.\<close>

definition no_handle :: uv_handle_t where
  "no_handle = \<lparr>htype = UV_UNKNOWN_HANDLE, flags = 0, close_cb = None, timer_cb = None, timeout = 0, repeat = 0, start_id = 0,
     watcher_cb = None, async_cb = None, pending = 0, poll_io = 0, poll_cb = None\<rparr>"

definition no_io :: uv__io_t where
  "no_io = \<lparr>io_handler = None, io_fd = 0, io_events = 0, io_pevents = 0, io_stale = False\<rparr>"

definition on_loop :: "(uv_loop_t \<Rightarrow> uv_loop_t res option) \<Rightarrow> uv_loop_obj \<Rightarrow> uv_loop_obj res option" where
  "on_loop f O' = run_bind (f (lp O')) (\<lambda>L. Some (Inr (O'\<lparr>lp := L\<rparr>)))"

section \<open>The signal part\<close>

text \<open>\<open>pthread_once\<close> has run it when the lock's pipe is there.\<close>

definition uv__signal_global_once_init :: "uv_loop_obj \<Rightarrow> uv_loop_obj res option" where
  "uv__signal_global_once_init O' =
     (if signal_lock_pipefd O' \<noteq> None then Some (Inr O')
      else
        run_bind (uv__make_pipe False (lp O')) (\<lambda>(err, a, b, L).
        if err \<noteq> 0 then Some (Inl Aborted)
        else
          (case uv__signal_unlock (sys L) of
             None \<Rightarrow> None
           | Some (r, es) \<Rightarrow>
               if r \<noteq> 0 then Some (Inl Aborted)
               else Some (Inr (O'\<lparr>lp := L\<lparr>sys := es\<rparr>, signal_lock_pipefd := Some (a, b)\<rparr>)))))"

text \<open>The I/O watcher's callback is \<open>uv__signal_event\<close>, of another file.\<close>

definition signal_once_init :: "uv_loop_obj \<Rightarrow> (int \<times> uv_loop_obj) res option" where
  "signal_once_init O' =
     (if fst (signal_pipefd O') \<noteq> - 1 then Some (Inr (0, O'))
      else
        run_bind (uv__make_pipe True (lp O')) (\<lambda>(err, a, b, L).
        if err \<noteq> 0 then Some (Inr (err, O'\<lparr>lp := L\<rparr>))
        else
          run_bind (Some (uv__io_init (signal_io_watcher L) (Some (Other_io 0)) a L)) (\<lambda>L.
          run_bind (Some (uv__io_start (signal_io_watcher L) POLLIN L)) (\<lambda>L.
          Some (Inr (0, O'\<lparr>lp := L, signal_pipefd := (a, b)\<rparr>))))))"

definition signal_init :: "hid \<Rightarrow> uv_loop_obj \<Rightarrow> (int \<times> uv_loop_obj) res option" where
  "signal_init h O' =
     run_bind (signal_once_init O') (\<lambda>(err, O').
     let (_, G) = uv_signal_init err (self O') h (sg O') in
     if err \<noteq> 0 then Some (Inr (err, O'\<lparr>sg := G\<rparr>))
     else Some (Inr (0, O'\<lparr>lp := uv__handle_init h UV_SIGNAL (lp O'), sg := G\<rparr>)))"

text \<open>The loop over the handle queue.\<close>

fun stop_signals :: "hid list \<Rightarrow> uv_loop_obj \<Rightarrow> uv_loop_obj res option" where
  "stop_signals [] O' = Some (Inr O')"
| "stop_signals (h # q) O' =
     (if htype (handles (lp O') h) = UV_SIGNAL then
        run_bind (uv__signal_stop h (sys (lp O')) (sg O')) (\<lambda>(es, G).
        run_bind (if signum (hs (sg O') h) = 0 then Some (Inr (lp O')) else Some (uv__handle_stop h ((lp O')\<lparr>sys := es\<rparr>))) (\<lambda>L.
        stop_signals q (O'\<lparr>lp := L, sg := G\<rparr>)))
      else stop_signals q O')"

definition close_if_open :: "int \<Rightarrow> uv_loop_t \<Rightarrow> uv_loop_t res option" where
  "close_if_open fd L = (if fd \<noteq> - 1 then close_fd fd L else Some (Inr L))"

definition signal_cleanup :: "uv_loop_obj \<Rightarrow> uv_loop_obj res option" where
  "signal_cleanup O' =
     run_bind (stop_signals (handle_queue (lp O')) O') (\<lambda>O'.
     run_bind (on_loop (close_if_open (fst (signal_pipefd O'))) O') (\<lambda>O'.
     run_bind (on_loop (close_if_open (snd (signal_pipefd O'))) O') (\<lambda>O'.
     Some (Inr (O'\<lparr>signal_pipefd := (- 1, - 1),
        sg := (sg O')\<lparr>pipe_open := (pipe_open (sg O'))(self O' := False), pipe := (pipe (sg O'))(self O' := [])\<rparr>\<rparr>)))))"

section \<open>uv_loop_init\<close>

text \<open>From the call of \<open>memset\<close> to the platform's part.\<close>

definition init_fields :: "uv_loop_t \<Rightarrow> uv_loop_t" where
  "init_fields L =
     (let L = L\<lparr>handles := (\<lambda>_. no_handle), ios := (\<lambda>_. no_io), active_handles := 0, handle_queue := [], active_reqs := [],
            stop_flag := False, block_sigprof := False, backend_fd := 0, pending_queue := [], watcher_queue := [], watchers := [],
            nfds := 0, inflight := None, closing_handles := [], watcher_handles := (\<lambda>_. []), async_handles := [], run_queue := [],
            pending_run := [], timer_heap := heap_init, timer_counter := 0, time := 0, wq := [], interest := (\<lambda>_. None)\<rparr>;
          L = uv__async_init (uv__update_time L)
      in L\<lparr>backend_fd := - 1, emfile_fd := - 1, timer_counter := 0, stop_flag := False\<rparr>)"

definition internal_handle :: "hid \<Rightarrow> uv_loop_t \<Rightarrow> uv_loop_t" where
  "internal_handle h L = upd_handle h (set_flag UV__HANDLE_INTERNAL) (uv__handle_unref h L)"

text \<open>The jumps of the error paths, from the last label to the first.\<close>

definition fail_signal_init :: "int \<Rightarrow> uv_loop_obj \<Rightarrow> (int \<times> uv_loop_obj) res option" where
  "fail_signal_init err O' = run_bind (on_loop uv__platform_loop_delete O') (\<lambda>O'. Some (Inr (err, O')))"

definition fail_rwlock_init :: "int \<Rightarrow> uv_loop_obj \<Rightarrow> (int \<times> uv_loop_obj) res option" where
  "fail_rwlock_init err O' = run_bind (signal_cleanup O') (fail_signal_init err)"

definition destroy_rwlock :: "uv_loop_obj \<Rightarrow> uv_loop_obj res option" where
  "destroy_rwlock O' =
     (case cloexec_lock O' of
        None \<Rightarrow> Some (Inl Use_after_free)
      | Some l \<Rightarrow> run_bind (Some (uv_rwlock_destroy l)) (\<lambda>_. Some (Inr (O'\<lparr>cloexec_lock := None\<rparr>))))"

definition destroy_mutex :: "uv_loop_obj \<Rightarrow> uv_loop_obj res option" where
  "destroy_mutex O' =
     (case wq_mutex O' of
        None \<Rightarrow> Some (Inl Use_after_free)
      | Some m \<Rightarrow> run_bind (Some (uv_mutex_destroy m)) (\<lambda>_. Some (Inr (O'\<lparr>wq_mutex := None\<rparr>))))"

definition fail_mutex_init :: "int \<Rightarrow> uv_loop_obj \<Rightarrow> (int \<times> uv_loop_obj) res option" where
  "fail_mutex_init err O' = run_bind (destroy_rwlock O') (fail_rwlock_init err)"

definition fail_async_init :: "int \<Rightarrow> uv_loop_obj \<Rightarrow> (int \<times> uv_loop_obj) res option" where
  "fail_async_init err O' = run_bind (destroy_mutex O') (fail_mutex_init err)"

text \<open>The answers that \<open>uv_mutex_init\<close> uses: one, or four when it checks for errors.\<close>

definition mutex_calls :: "bool \<Rightarrow> nat" where
  "mutex_calls debug = (if debug then 4 else 1)"

definition make_rwlock :: "uv_loop_obj \<Rightarrow> (int \<times> uv_loop_obj) res option" where
  "make_rwlock O' =
     (case uv_rwlock_init (lock_answers O') of
        None \<Rightarrow> None
      | Some (err, l) \<Rightarrow>
          Some (Inr (err, O'\<lparr>cloexec_lock := (if err = 0 then Some l else None), lock_answers := drop 1 (lock_answers O')\<rparr>)))"

definition make_mutex :: "bool \<Rightarrow> uv_loop_obj \<Rightarrow> (int \<times> uv_loop_obj) res option" where
  "make_mutex debug O' =
     run_bind (uv_mutex_init debug (lock_answers O')) (\<lambda>(err, m).
     Some (Inr (err, O'\<lparr>wq_mutex := (if err = 0 then Some m else None),
       lock_answers := drop (mutex_calls debug) (lock_answers O')\<rparr>)))"

text \<open>\<open>work_done\<close> is the callback of \<open>wq_async\<close>, \<open>uv__work_done\<close>.\<close>

definition uv_loop_init :: "bool \<Rightarrow> cb \<Rightarrow> uv_loop_obj \<Rightarrow> (int \<times> uv_loop_obj) res option" where
  "uv_loop_init debug work_done O' =
     run_bind (uv__signal_global_once_init O') (\<lambda>O'.
     let O' = O'\<lparr>lp := init_fields (lp O'), signal_pipefd := (- 1, - 1), cloexec_lock := None, wq_mutex := None\<rparr> in
     run_bind (uv__platform_loop_init (lp O')) (\<lambda>(err, L).
     let O' = O'\<lparr>lp := L\<rparr> in
     if err \<noteq> 0 then Some (Inr (err, O'))
     else
       run_bind (signal_init (child_watcher O') O') (\<lambda>(err, O').
       if err \<noteq> 0 then fail_signal_init err O'
       else
         let O' = O'\<lparr>lp := internal_handle (child_watcher O') (lp O')\<rparr> in
         run_bind (make_rwlock O') (\<lambda>(err, O').
         if err \<noteq> 0 then fail_rwlock_init err O'
         else
           run_bind (make_mutex debug O') (\<lambda>(err, O').
           if err \<noteq> 0 then fail_mutex_init err O'
           else
             run_bind (uv_async_init (wq_async O') (Some work_done) (lp O')) (\<lambda>(err, L).
             let O' = O'\<lparr>lp := L\<rparr> in
             if err \<noteq> 0 then fail_async_init err O'
             else Some (Inr (0, O'\<lparr>lp := internal_handle (wq_async O') (lp O')\<rparr>))))))))"

section \<open>uv_loop_close\<close>

text \<open>
  Thread 0 closes the loop; the C library grants it the lock of a mutex that is free.  What
  \<open>uv_loop_close\<close> does besides is not modelled: it fills the memory of the loop with ones in debug builds,
  and forgets the default loop when it is this one.
\<close>

definition check_idle :: "uv_loop_obj \<Rightarrow> uv_loop_obj res option" where
  "check_idle O' =
     (case wq_mutex O' of
        None \<Rightarrow> Some (Inl Use_after_free)
      | Some m \<Rightarrow>
          run_bind (uv_mutex_lock 0 0 m) (\<lambda>m.
          if wq (lp O') \<noteq> [] then Some (Inl Assert_failed)
          else if uv__has_active_reqs (lp O') then Some (Inl Assert_failed)
          else run_bind (uv_mutex_unlock 0 0 m) (\<lambda>m. Some (Inr (O'\<lparr>wq_mutex := Some m\<rparr>)))))"

definition uv__loop_close :: "uv_loop_obj \<Rightarrow> uv_loop_obj res option" where
  "uv__loop_close O' =
     run_bind (signal_cleanup O') (\<lambda>O'.
     run_bind (on_loop uv__platform_loop_delete O') (\<lambda>O'.
     run_bind (on_loop uv__async_stop O') (\<lambda>O'.
     run_bind (on_loop (close_if_open (emfile_fd (lp O'))) O') (\<lambda>O'.
     let O' = O'\<lparr>lp := (lp O')\<lparr>emfile_fd := - 1\<rparr>\<rparr> in
     run_bind (on_loop (close_if_open (backend_fd (lp O'))) O') (\<lambda>O'.
     let O' = O'\<lparr>lp := (lp O')\<lparr>backend_fd := - 1\<rparr>\<rparr> in
     run_bind (check_idle O') (\<lambda>O'.
     run_bind (destroy_mutex O') (\<lambda>O'.
     run_bind (destroy_rwlock O') (\<lambda>O'.
     Some (Inr (O'\<lparr>lp := (lp O')\<lparr>watchers := []\<rparr>\<rparr>))))))))))"

definition uv_loop_close :: "uv_loop_obj \<Rightarrow> (int \<times> uv_loop_obj) res option" where
  "uv_loop_close O' =
     (if active_reqs (lp O') \<noteq> [] then Some (Inr (- EBUSY, O'))
      else if list_ex (\<lambda>h. \<not> has_flag UV__HANDLE_INTERNAL (handles (lp O') h)) (handle_queue (lp O')) then Some (Inr (- EBUSY, O'))
      else run_bind (uv__loop_close O') (\<lambda>O'. Some (Inr (0, O'))))"

section \<open>Descriptors\<close>

definition fds :: "uv_loop_t \<Rightarrow> nat set" where
  "fds L = set (opened (os L))"

text \<open>Only the kernel, the script and the static variables of the descriptor functions change.\<close>

definition outside :: "uv_loop_t \<Rightarrow> uv_loop_t \<Rightarrow> bool" where
  "outside L L' \<longleftrightarrow> (\<exists>s k a b c. L' = L\<lparr>sys := s, os := k, no_eventfd2 := a, no_eventfd := b, no_pipe2 := c\<rparr>)"

lemma outsideI: "outside L (L\<lparr>sys := s, os := k\<rparr>)" "outside L L" "outside L (L\<lparr>no_eventfd2 := a\<rparr>)" "outside L (L\<lparr>no_eventfd := a\<rparr>)"
  "outside L (L\<lparr>no_pipe2 := a\<rparr>)"
  unfolding outside_def by (cases L, fastforce)+

lemma outside_trans: "outside L L' \<Longrightarrow> outside L' L'' \<Longrightarrow> outside L L''"
  unfolding outside_def by fastforce

lemma outside_fields:
  assumes "outside L L'"
  shows "handles L' = handles L" "ios L' = ios L" "handle_queue L' = handle_queue L" "active_reqs L' = active_reqs L"
    "active_handles L' = active_handles L" "backend_fd L' = backend_fd L" "watcher_queue L' = watcher_queue L" "watchers L' = watchers L"
    "nfds L' = nfds L" "async_watcher L' = async_watcher L" "async_wfd L' = async_wfd L" "signal_io_watcher L' = signal_io_watcher L"
    "emfile_fd L' = emfile_fd L" "inotify_fd L' = inotify_fd L" "wq L' = wq L" "interest L' = interest L" "allocs L' = allocs L"
    "async_handles L' = async_handles L"
  using assms by (clarsimp simp: outside_def)+

lemma outside_io:
  assumes "outside L L'"
  shows "slot L' = slot L" "io_ok L' = io_ok L"
proof -
  note f = outside_fields [OF assms]
  show s: "slot L' = slot L" by (rule ext) (simp add: slot_def f)
  show "io_ok L' = io_ok L" by (simp add: io_ok_def watcher_ok_def registered_def f s)
qed

text \<open>There is room for \<open>n\<close> more descriptors, and the script holds error numbers.\<close>

definition room :: "nat \<Rightarrow> uv_loop_t \<Rightarrow> bool" where
  "room n L \<longleftrightarrow> streams_open (os L) \<and> length (opened (os L)) + n \<le> 2147483000 \<and> (\<forall>e \<in> set (sys L). 0 \<le> e)"

lemma room_less: "room n L \<Longrightarrow> m \<le> n \<Longrightarrow> room m L"
  by (auto simp: room_def)

lemma lowest_fd_le: "lowest_fd l \<le> length l"
proof (cases "find (\<lambda>n. n \<notin> set l) [0..<Suc (length l)]")
  case (Some n)
  then have "n \<in> set [0..<Suc (length l)]" by (auto simp: find_Some_iff simp del: upt_Suc)
  then show ?thesis using Some by (simp add: lowest_fd_def del: upt_Suc)
qed (simp add: lowest_fd_def)

text \<open>A new descriptor.\<close>

definition new_in :: "uv_loop_t \<Rightarrow> int \<Rightarrow> bool" where
  "new_in L fd \<longleftrightarrow> 2 < fd \<and> fd \<le> 2147483000 \<and> nat fd \<notin> fds L"

lemma get_fd_ok:
  assumes "room (Suc n) L" "get_fd ce nb L = Some x"
  shows "\<exists>e fd L'. x = Inr (e, fd, L') \<and> outside L L' \<and> 0 \<le> e
    \<and> (if e = 0 then new_in L fd \<and> fds L' = insert (nat fd) (fds L) \<and> room n L' else fds L' = fds L \<and> room (Suc n) L')"
proof -
  obtain e fd es k where n: "new_fd ce nb (sys L) (os L) = Some (e, fd, es, k)" "x = Inr (e, int fd, L\<lparr>sys := es, os := k\<rparr>)"
    using assms(2) by (auto simp: get_fd_def split: option.splits)
  note c = new_fd_cases [OF n(1)]
  have st: "streams_open (os L)" "\<forall>e \<in> set (sys L). 0 \<le> e" using assms(1) by (simp_all add: room_def)
  have "length (removeAll fd (opened (os L))) \<le> length (opened (os L))" by (rule length_removeAll_less_eq)
  then have len: "length (opened (install fd ce nb (os L))) \<le> Suc (length (opened (os L)))" by (simp add: install_def)
  have es: "\<forall>e \<in> set es. 0 \<le> e" using c(2) st by blast
  have le: "lowest_fd (opened (os L)) \<le> 2147483000" using lowest_fd_le [of "opened (os L)"] assms(1) by (simp add: room_def)
  show ?thesis
  proof (cases "e = 0")
    case True
    then have "2 < fd" "fd \<notin> set (opened (os L))" "k = install fd ce nb (os L)" "fd \<le> 2147483000" using c(1) st le by auto
    then show ?thesis using n(2) True len es st assms(1)
      by (intro exI [of _ e] exI [of _ "int fd"] exI [of _ "L\<lparr>sys := es, os := k\<rparr>"])
        (auto simp: outsideI new_in_def fds_def room_def streams_open_def)
  next
    case False
    then have "e \<in> set (sys L)" "k = (os L)\<lparr>errno := e\<rparr>" using c(1) st by auto
    then show ?thesis using n(2) False es st assms(1)
      by (intro exI [of _ e] exI [of _ "int fd"] exI [of _ "L\<lparr>sys := es, os := k\<rparr>"])
        (auto simp: outsideI fds_def room_def streams_open_def)
  qed
qed

text \<open>The flag functions, whose result is ignored, and \<open>uv__close\<close>.\<close>

lemma ignore_ok:
  assumes "room n L" "ignore f L = Some x" "f = uv__cloexec fd True \<or> f = uv__nonblock fd True"
  shows "\<exists>L'. x = Inr L' \<and> outside L L' \<and> fds L' = fds L \<and> room n L'"
proof -
  obtain r es k where c: "f (sys L) (os L) = Some (r, es, k)" "x = Inr (L\<lparr>sys := es, os := k\<rparr>)"
    using assms(2) by (cases "f (sys L) (os L)") (auto simp: ignore_def on_kernel_def)
  have g: "opened k = opened (os L) \<and> set es \<subseteq> set (sys L)"
    if "ioctl_loop g (sys L) (os L) = Some (r, es, k)" "\<And>k. opened (g k) = opened k" for g
    using ioctl_loop_result [OF that(1)] ioctl_loop_es [OF that(1)] that(2) by auto
  have "opened k = opened (os L) \<and> set es \<subseteq> set (sys L)"
    using assms(3)
  proof
    assume "f = uv__cloexec fd True"
    then show ?thesis using c(1) g [of "\<lambda>k. k\<lparr>cloexec := insert fd (cloexec k)\<rparr>"] by (simp add: uv__cloexec_def)
  next
    assume "f = uv__nonblock fd True"
    then show ?thesis using c(1) g [of "\<lambda>k. k\<lparr>nonblk := insert fd (nonblk k)\<rparr>"] by (simp add: uv__nonblock_def)
  qed
  then have "opened k = opened (os L)" "set es \<subseteq> set (sys L)" by simp_all
  then show ?thesis using c(2) assms(1) by (auto simp: outsideI fds_def room_def streams_open_def)
qed

lemma close_fd_ok:
  assumes "room n L" "close_fd fd L = Some x" "2 < fd"
  shows "\<exists>L'. x = Inr L' \<and> outside L L' \<and> fds L' = fds L - {nat fd} \<and> room n L'"
proof -
  obtain e es where s: "sys L = e # es" using assms(2,3)
    by (cases "sys L") (auto simp: close_fd_def on_kernel_res_def uv__close_def uv__close_nocheckstdio_def split: if_splits)
  have "length (removeAll (nat fd) (opened (os L))) \<le> length (opened (os L))" by (rule length_removeAll_less_eq)
  moreover have "length (opened (os L)) + n \<le> 2147483000" using assms(1) by (simp add: room_def)
  ultimately have "length (removeAll (nat fd) (opened (os L))) + n \<le> 2147483000" by linarith
  then show ?thesis using assms s
    by (auto simp: close_fd_def on_kernel_res_def uv__close_def uv__close_nocheckstdio_def Let_def fds_def room_def streams_open_def fail_def
        outsideI split: if_splits)
qed

text \<open>Descriptors that came in addition to those of \<open>L\<close>.\<close>

definition grown :: "int set \<Rightarrow> uv_loop_t \<Rightarrow> uv_loop_t \<Rightarrow> bool" where
  "grown A L L' \<longleftrightarrow> outside L L' \<and> (\<forall>fd \<in> A. new_in L fd) \<and> fds L' = nat ` A \<union> fds L"

lemma grown_refl: "grown {} L L"
  by (simp add: grown_def outsideI)

lemma grown_trans: "grown A L L' \<Longrightarrow> grown B L' L'' \<Longrightarrow> grown (A \<union> B) L L''"
  by (auto simp: grown_def new_in_def intro: outside_trans)

lemma grown_static:
  assumes "grown A L L'"
  shows "grown A L (L'\<lparr>no_eventfd2 := a\<rparr>)" "grown A L (L'\<lparr>no_eventfd := a\<rparr>)" "grown A L (L'\<lparr>no_pipe2 := a\<rparr>)"
  using assms outsideI(3-5) [of L'] outside_trans unfolding grown_def by (auto simp: fds_def)

lemma room_static:
  "room n (L\<lparr>no_eventfd2 := a\<rparr>) \<longleftrightarrow> room n L" "room n (L\<lparr>no_eventfd := a\<rparr>) \<longleftrightarrow> room n L" "room n (L\<lparr>no_pipe2 := a\<rparr>) \<longleftrightarrow> room n L"
  by (simp_all add: room_def)

lemma get_fd_grown:
  assumes "room (Suc n) L" "get_fd ce nb L = Some x"
  obtains e fd L' where "x = Inr (e, fd, L')" "0 \<le> e" "e = 0 \<Longrightarrow> grown {fd} L L' \<and> room n L' \<and> 2 < fd"
    "e \<noteq> 0 \<Longrightarrow> grown {} L L' \<and> room (Suc n) L'"
  using get_fd_ok [OF assms] that by (fastforce simp: grown_def new_in_def)

lemma ignore_grown:
  assumes "room n L" "ignore f L = Some x" "f = uv__cloexec fd True \<or> f = uv__nonblock fd True"
  obtains L' where "x = Inr L'" "grown {} L L'" "room n L'"
  using ignore_ok [OF assms] that by (auto simp: grown_def)

lemma two_fds_grown:
  assumes "room (Suc (Suc n)) L" "two_fds ce nb L = Some x"
  obtains e a b L' where "x = Inr (e, a, b, L')" "0 \<le> e"
    "e = 0 \<Longrightarrow> grown {a, b} L L' \<and> room n L' \<and> 2 < a \<and> 2 < b \<and> a \<noteq> b" "e \<noteq> 0 \<Longrightarrow> grown {} L L' \<and> room (Suc (Suc n)) L'"
proof -
  obtain y where y: "get_fd ce nb L = Some y" using assms(2) by (cases "get_fd ce nb L") (auto simp: two_fds_def)
  obtain e a M where g: "y = Inr (e, a, M)" "0 \<le> e" "e = 0 \<Longrightarrow> grown {a} L M \<and> room (Suc n) M \<and> 2 < a"
      "e \<noteq> 0 \<Longrightarrow> grown {} L M \<and> room (Suc (Suc n)) M"
    using get_fd_grown [OF assms(1) y] by blast
  show ?thesis
  proof (cases "e = 0")
    case False
    then show ?thesis using that [of e 0 0 M] assms(2) y g by (simp add: two_fds_def)
  next
    case True
    note gm = g(3) [OF True]
    let ?b = "lowest_fd (opened (os M))"
    have gg: "get_fd ce nb (M\<lparr>sys := 0 # sys M\<rparr>) = Some (Inr (0, int ?b, M\<lparr>os := install ?b ce nb (os M)\<rparr>))"
      by (cases M) (simp add: get_fd_def new_fd_def Let_def)
    have r: "room (Suc n) (M\<lparr>sys := 0 # sys M\<rparr>)" using gm by (simp add: room_def)
    obtain L' where L': "L' = M\<lparr>os := install ?b ce nb (os M)\<rparr>" "grown {int ?b} (M\<lparr>sys := 0 # sys M\<rparr>) L'" "room n L'" "2 < int ?b"
      using get_fd_grown [OF r gg] by auto
    have "outside M (M\<lparr>os := install ?b ce nb (os M)\<rparr>)" using outsideI(1) [where L = M and s = "sys M"] by simp
    then have "grown {int ?b} M L'" using L'(1,2) by (simp add: grown_def new_in_def fds_def)
    then have "grown {a, int ?b} L L'" using grown_trans [of "{a}" L M "{int ?b}" L'] gm by (simp add: insert_commute)
    moreover have "int ?b \<noteq> a"
    proof -
      have "nat a \<in> fds M" using gm by (simp add: grown_def)
      then show ?thesis using lowest_fd_fresh [of "opened (os M)"] by (auto simp: fds_def)
    qed
    moreover have "x = Inr (0, a, int ?b, L')" using assms(2) y g(1) True L'(1) by (simp add: two_fds_def Let_def)
    ultimately show ?thesis using that [of 0 a "int ?b" L'] L' gm by auto
  qed
qed

lemma run_ignore:
  assumes "run_bind (ignore f L) k = Some x" "room n L" "f = uv__cloexec fd True \<or> f = uv__nonblock fd True"
  obtains L' where "k L' = Some x" "grown {} L L'" "room n L'"
proof -
  obtain y where y: "ignore f L = Some y" using assms(1) by (cases "ignore f L") auto
  obtain L' where "y = Inr L'" "grown {} L L'" "room n L'" using ignore_grown [OF assms(2) y assms(3)] by blast
  then show ?thesis using that assms(1) y by simp
qed

lemma old_pipe_grown:
  assumes "room (Suc (Suc n)) L" "old_pipe nonblock L = Some x"
  obtains e a b L' where "x = Inr (e, a, b, L')" "e \<le> 0"
    "e = 0 \<Longrightarrow> grown {a, b} L L' \<and> room n L' \<and> 2 < a \<and> 2 < b \<and> a \<noteq> b" "e \<noteq> 0 \<Longrightarrow> grown {} L L' \<and> room (Suc (Suc n)) L'"
proof -
  obtain y where y: "two_fds False False L = Some y" using assms(2) by (cases "two_fds False False L") (auto simp: old_pipe_def)
  obtain e a b M where g: "y = Inr (e, a, b, M)" "0 \<le> e" "e = 0 \<Longrightarrow> grown {a, b} L M \<and> room n M \<and> 2 < a \<and> 2 < b \<and> a \<noteq> b"
      "e \<noteq> 0 \<Longrightarrow> grown {} L M \<and> room (Suc (Suc n)) M"
    using two_fds_grown [OF assms(1) y] by blast
  show ?thesis
  proof (cases "e = 0")
    case False
    then show ?thesis using that [of "- e" a b M] assms(2) y g by (simp add: old_pipe_def)
  next
    case True
    note gm = g(3) [OF True]
    let ?c = "\<lambda>b. uv__cloexec (nat b) True" and ?n = "\<lambda>b. uv__nonblock (nat b) True"
    have o': "run_bind (ignore (?c a) M) (\<lambda>L. run_bind (ignore (?c b) L) (\<lambda>L.
        if nonblock then run_bind (ignore (?n a) L) (\<lambda>L. run_bind (ignore (?n b) L) (\<lambda>L. Some (Inr (0, a, b, L))))
        else Some (Inr (0, a, b, L)))) = Some x"
      using assms(2) y g(1) True by (simp add: old_pipe_def)
    obtain M1 where 1: "run_bind (ignore (?c b) M1) (\<lambda>L.
        if nonblock then run_bind (ignore (?n a) L) (\<lambda>L. run_bind (ignore (?n b) L) (\<lambda>L. Some (Inr (0, a, b, L))))
        else Some (Inr (0, a, b, L))) = Some x" "grown {} M M1" "room n M1"
      by (rule run_ignore [OF o', where n = n and fd = "nat a"]) (use gm in auto)
    obtain M2 where 2: "(if nonblock then run_bind (ignore (?n a) M2) (\<lambda>L. run_bind (ignore (?n b) L) (\<lambda>L. Some (Inr (0, a, b, L))))
        else Some (Inr (0, a, b, M2))) = Some x" "grown {} M1 M2" "room n M2"
      by (rule run_ignore [OF 1(1), where n = n and fd = "nat b"]) (use 1 in auto)
    have m: "\<exists>L'. x = Inr (0, a, b, L') \<and> grown {} M2 L' \<and> room n L'"
    proof (cases nonblock)
      case True
      then have "run_bind (ignore (?n a) M2) (\<lambda>L. run_bind (ignore (?n b) L) (\<lambda>L. Some (Inr (0, a, b, L)))) = Some x" using 2(1) by simp
      then obtain M3 where 3: "run_bind (ignore (?n b) M3) (\<lambda>L. Some (Inr (0, a, b, L))) = Some x" "grown {} M2 M3" "room n M3"
        by (rule run_ignore [where n = n and fd = "nat a"]) (use 2 in auto)
      obtain M4 where "Some (Inr (0, a, b, M4)) = Some x" "grown {} M3 M4" "room n M4"
        by (rule run_ignore [OF 3(1), where n = n and fd = "nat b"]) (use 3 in auto)
      then show ?thesis using 3 grown_trans [of "{}" M2 M3 "{}" M4] by auto
    qed (use 2 grown_refl in auto)
    then obtain L' where L': "x = Inr (0, a, b, L')" "grown {} M2 L'" "room n L'" by blast
    have "grown {} M L'" using grown_trans [OF 1(2) grown_trans [OF 2(2) L'(2)]] by simp
    then have "grown {a, b} L L'" using grown_trans [of "{a, b}" L M "{}" L'] gm by simp
    then show ?thesis using that [of 0 a b L'] L' gm by simp
  qed
qed

lemma make_pipe_grown:
  assumes "room (Suc (Suc n)) L" "uv__make_pipe nonblock L = Some x"
  obtains e a b L' where "x = Inr (e, a, b, L')" "e \<le> 0"
    "e = 0 \<Longrightarrow> grown {a, b} L L' \<and> room n L' \<and> 2 < a \<and> 2 < b \<and> a \<noteq> b" "e \<noteq> 0 \<Longrightarrow> grown {} L L' \<and> room (Suc (Suc n)) L'"
proof (cases "no_pipe2 L")
  case True
  then show ?thesis using old_pipe_grown [OF assms(1)] assms(2) that by (auto simp: uv__make_pipe_def)
next
  case False
  then obtain y where y: "two_fds True nonblock L = Some y" using assms(2) by (cases "two_fds True nonblock L") (auto simp: uv__make_pipe_def)
  obtain e a b M where g: "y = Inr (e, a, b, M)" "0 \<le> e" "e = 0 \<Longrightarrow> grown {a, b} L M \<and> room n M \<and> 2 < a \<and> 2 < b \<and> a \<noteq> b"
      "e \<noteq> 0 \<Longrightarrow> grown {} L M \<and> room (Suc (Suc n)) M"
    using two_fds_grown [OF assms(1) y] by blast
  show ?thesis
  proof (cases "e = ENOSYS")
    case True
    then have e: "e \<noteq> 0" by (simp add: ENOSYS_def)
    let ?M = "M\<lparr>no_pipe2 := True\<rparr>"
    have M: "grown {} L ?M" "room (Suc (Suc n)) ?M" using g(4) [OF e] grown_static(3) room_static(3) by auto
    have "old_pipe nonblock ?M = Some x" using assms(2) y g(1) False True e by (simp add: uv__make_pipe_def)
    then obtain e' a' b' L' where "x = Inr (e', a', b', L')" "e' \<le> 0"
        "e' = 0 \<Longrightarrow> grown {a', b'} ?M L' \<and> room n L' \<and> 2 < a' \<and> 2 < b' \<and> a' \<noteq> b'" "e' \<noteq> 0 \<Longrightarrow> grown {} ?M L' \<and> room (Suc (Suc n)) L'"
      using old_pipe_grown [OF M(2)] by blast
    then show ?thesis using that [of e' a' b' L'] grown_trans [OF M(1)] by (cases "e' = 0") auto
  next
    case ne: False
    then show ?thesis using that [of "- e" a b M] assms(2) y g False by (cases "e = 0") (auto simp: uv__make_pipe_def)
  qed
qed

lemma open_plain_result:
  assumes "streams_open k" "\<forall>e \<in> set es. 0 \<le> e" "open_plain es k = Some r"
  shows "\<exists>ret es' k'. r = Inr (ret, es', k') \<and> set es' \<subseteq> set es
    \<and> (if 0 \<le> ret then ret = int (lowest_fd (opened k)) \<and> opened k' = nat ret # removeAll (nat ret) (opened k)
       else set (opened k') = set (opened k) \<and> length (opened k') \<le> length (opened k))"
proof -
  obtain e fd es1 k1 where n: "new_fd False False es k = Some (e, fd, es1, k1)"
    using assms(3) by (auto simp: open_plain_def split: option.splits)
  note c = new_fd_cases [OF n assms(1)]
  show ?thesis
  proof (cases "e = 0")
    case False
    then have "e \<in> set es" "k1 = k\<lparr>errno := e\<rparr>" using c(1) by auto
    moreover have "0 < e" using \<open>e \<in> set es\<close> assms(2) False by fastforce
    ultimately show ?thesis using assms(3) n c(2) False
      by (intro exI [of _ "- e"] exI [of _ es1] exI [of _ k1]) (auto simp: open_plain_def)
  next
    case True
    then have fd: "fd = lowest_fd (opened k)" "2 < fd" "fd \<notin> set (opened k)" "k1 = install fd False False k" using c(1) by auto
    obtain err es2 k2 where cl: "uv__cloexec fd True es1 k1 = Some (err, es2, k2)"
      using assms(3) n True by (cases "uv__cloexec fd True es1 k1") (auto simp: open_plain_def finish_fd_def)
    have k2: "opened k2 = opened k1" "set es2 \<subseteq> set es1" "err \<noteq> 0 \<longrightarrow> - err \<in> set es1"
      using cl ioctl_loop_es [of _ es1 k1 err es2 k2] by (auto simp: uv__cloexec_def dest: ioctl_loop_result)
    have len: "length (removeAll fd (opened k)) \<le> length (opened k)" by (rule length_removeAll_less_eq)
    show ?thesis
    proof (cases "err = 0")
      case True
      then have "r = Inr (int fd, es2, k2)" using assms(3) n cl \<open>e = 0\<close> by (simp add: open_plain_def finish_fd_def)
      then show ?thesis using k2 c(2) fd by (auto simp: install_def)
    next
      case False
      then obtain e' es3 where es2: "es2 = e' # es3"
        using assms(3) n cl \<open>e = 0\<close> fd(2)
        by (cases es2) (auto simp: open_plain_def finish_fd_def close_and_return_def uv__close_def uv__close_nocheckstdio_def)
      have "err < 0" using k2(3) False c(2) assms(2) by fastforce
      moreover have "r = Inr (err, es3, snd (snd (the (uv__close_nocheckstdio fd es2 k2))))"
        using assms(3) n cl \<open>e = 0\<close> False fd(2) es2
        by (auto simp: open_plain_def finish_fd_def close_and_return_def uv__close_def uv__close_nocheckstdio_def Let_def)
      moreover have "opened (snd (snd (the (uv__close_nocheckstdio fd es2 k2)))) = removeAll fd (opened k)"
        using k2(1) fd by (auto simp: es2 uv__close_nocheckstdio_def Let_def fail_def install_def)
      ultimately show ?thesis using k2(2) c(2) es2 fd(3) len by auto
    qed
  qed
qed

lemma open_cloexec_result:
  assumes "streams_open k" "\<forall>e \<in> set es. 0 \<le> e" "uv__open_cloexec es k = Some r"
  shows "\<exists>ret es' k'. r = Inr (ret, es', k') \<and> set es' \<subseteq> set es
    \<and> (if 0 \<le> ret then ret = int (lowest_fd (opened k)) \<and> opened k' = nat ret # removeAll (nat ret) (opened k)
       else set (opened k') = set (opened k) \<and> length (opened k') \<le> length (opened k))"
proof (cases "no_cloexec k")
  case True
  then show ?thesis using open_plain_result [OF assms(1,2)] assms(3) by (simp add: uv__open_cloexec_def)
next
  case False
  obtain e fd es1 k1 where n: "new_fd True False es k = Some (e, fd, es1, k1)"
    using assms(3) False by (auto simp: uv__open_cloexec_def split: option.splits)
  note c = new_fd_cases [OF n assms(1)]
  consider "e = 0" | "e \<noteq> 0" "e \<noteq> EINVAL" | "e = EINVAL" by blast
  then show ?thesis
  proof cases
    case 1
    then show ?thesis using assms(3) n c False
      by (intro exI [of _ "int fd"] exI [of _ es1] exI [of _ k1]) (auto simp: uv__open_cloexec_def install_def)
  next
    case 2
    then have "e \<in> set es" "k1 = k\<lparr>errno := e\<rparr>" using c(1) by auto
    moreover have "0 < e" using \<open>e \<in> set es\<close> assms(2) 2 by fastforce
    ultimately show ?thesis using assms(3) n c(2) False 2
      by (intro exI [of _ "- e"] exI [of _ es1] exI [of _ k1]) (auto simp: uv__open_cloexec_def)
  next
    case 3
    then have k1: "k1 = k\<lparr>errno := e\<rparr>" using c(1) by (auto simp: EINVAL_def)
    have "open_plain es1 (k1\<lparr>no_cloexec := True\<rparr>) = Some r"
      using assms(3) n False 3 by (simp add: uv__open_cloexec_def EINVAL_def)
    then show ?thesis using open_plain_result [of "k1\<lparr>no_cloexec := True\<rparr>" es1 r] assms(1,2) c(2) k1
      by (fastforce simp: streams_open_def)
  qed
qed

lemma reopen_grown:
  assumes "grown {a, b} L0 L" "room (Suc n) L" "2 < a" "2 < b" "reopen_pipe a b L = Some x"
  obtains a' b' L' where "x = Inr (a', b', L')" "grown {a', b'} L0 L'" "room n L'" "2 < a'" "2 < b'"
proof -
  have r: "streams_open (os L)" "\<forall>e \<in> set (sys L). 0 \<le> e" "length (opened (os L)) + Suc n \<le> 2147483000"
    using assms(2) by (simp_all add: room_def)
  obtain y where y: "uv__open_cloexec (sys L) (os L) = Some y"
    using assms(5) by (cases "uv__open_cloexec (sys L) (os L)") (auto simp: reopen_pipe_def on_kernel_res_def)
  obtain fd es k where k: "y = Inr (fd, es, k)" "set es \<subseteq> set (sys L)"
      "if 0 \<le> fd then fd = int (lowest_fd (opened (os L))) \<and> opened k = nat fd # removeAll (nat fd) (opened (os L))
       else set (opened k) = set (opened (os L)) \<and> length (opened k) \<le> length (opened (os L))"
    using open_cloexec_result [OF r(1,2) y] by blast
  let ?M = "L\<lparr>sys := es, os := k\<rparr>"
  have oM: "outside L0 ?M" using assms(1) outsideI(1) outside_trans unfolding grown_def by blast
  show ?thesis
  proof (cases "0 \<le> fd")
    case False
    then have "x = Inr (a, b, ?M)" using assms(5) y k(1) by (simp add: reopen_pipe_def on_kernel_res_def)
    moreover have "grown {a, b} L0 ?M" using assms(1) oM k(3) False by (simp add: grown_def fds_def)
    moreover have "room n ?M" using r k False by (auto simp: room_def streams_open_def)
    ultimately show ?thesis using that assms(3,4) by blast
  next
    case True
    then have k': "fd = int (lowest_fd (opened (os L)))" "opened k = nat fd # removeAll (nat fd) (opened (os L))" using k(3) by auto
    have fresh: "nat fd \<notin> fds L" using lowest_fd_fresh [of "opened (os L)"] by (simp add: k'(1) fds_def)
    have "length (removeAll (nat fd) (opened (os L))) \<le> length (opened (os L))" by (rule length_removeAll_less_eq)
    moreover have "length (opened k) = Suc (length (removeAll (nat fd) (opened (os L))))" by (simp add: k'(2))
    ultimately have "length (opened k) + n \<le> 2147483000" using r(3) by linarith
    then have rM: "room n ?M" using r(1,2) k(2) k'(2) by (auto simp: room_def streams_open_def simp del: length_Cons)
    have "nat fd \<noteq> 0" "nat fd \<noteq> 1" "nat fd \<noteq> 2" using fresh r(1) by (auto simp: fds_def streams_open_def)
    then have fd2: "2 < fd" using True by linarith
    have ba: "run_bind (close_fd a ?M) (\<lambda>L. run_bind (close_fd b L) (\<lambda>L. Some (Inr (fd, fd, L)))) = Some x"
      using assms(5) y k(1) True by (simp add: reopen_pipe_def on_kernel_res_def)
    then obtain z where z: "close_fd a ?M = Some z" by (cases "close_fd a ?M") auto
    obtain M1 where 1: "z = Inr M1" "outside ?M M1" "fds M1 = fds ?M - {nat a}" "room n M1"
      using close_fd_ok [OF rM z assms(3)] by blast
    obtain z1 where z1: "close_fd b M1 = Some z1" using ba z 1(1) by (cases "close_fd b M1") auto
    obtain M2 where 2: "z1 = Inr M2" "outside M1 M2" "fds M2 = fds M1 - {nat b}" "room n M2"
      using close_fd_ok [OF 1(4) z1 assms(4)] by blast
    have "fds ?M = insert (nat fd) (fds L)" using k'(2) by (auto simp: fds_def)
    moreover have "fds L = {nat a, nat b} \<union> fds L0" "nat a \<notin> fds L0" "nat b \<notin> fds L0"
      using assms(1) by (auto simp: grown_def new_in_def)
    moreover have "lowest_fd (opened (os L)) \<le> 2147483000" using lowest_fd_le [of "opened (os L)"] r(3) by simp
    moreover have "outside L0 M2" using outside_trans [OF oM outside_trans [OF 1(2) 2(2)]] .
    ultimately have "grown {fd, fd} L0 M2"
      using 1(3) 2(3) fresh fd2 k'(1) by (auto simp: grown_def new_in_def)
    moreover have "x = Inr (fd, fd, M2)" using ba z 1(1) z1 2(1) by simp
    ultimately show ?thesis using that 2(4) fd2 by blast
  qed
qed

lemma old_eventfd_grown:
  assumes "room (Suc n) L" "old_eventfd L = Some x"
  obtains r L' where "x = Inr (r, L')" "0 \<le> r \<Longrightarrow> grown {r} L L' \<and> room n L' \<and> 2 < r" "r < 0 \<Longrightarrow> grown {} L L' \<and> room (Suc n) L'"
proof (cases "no_eventfd L")
  case True
  then show ?thesis using that [of "- ENOSYS" L] assms grown_refl by (simp add: old_eventfd_def ENOSYS_def)
next
  case False
  then obtain y where y: "get_fd False False L = Some y" using assms(2) by (cases "get_fd False False L") (auto simp: old_eventfd_def)
  obtain e fd M where g: "y = Inr (e, fd, M)" "0 \<le> e" "e = 0 \<Longrightarrow> grown {fd} L M \<and> room n M \<and> 2 < fd"
      "e \<noteq> 0 \<Longrightarrow> grown {} L M \<and> room (Suc n) M"
    using get_fd_grown [OF assms(1) y] by blast
  show ?thesis
  proof (cases "e = 0")
    case True
    note gm = g(3) [OF True]
    have "run_bind (ignore (uv__cloexec (nat fd) True) M) (\<lambda>L. run_bind (ignore (uv__nonblock (nat fd) True) L) (\<lambda>L. Some (Inr (fd, L)))) = Some x"
      using assms(2) False y g(1) True by (simp add: old_eventfd_def)
    then obtain M1 where 1: "run_bind (ignore (uv__nonblock (nat fd) True) M1) (\<lambda>L. Some (Inr (fd, L))) = Some x" "grown {} M M1" "room n M1"
      by (rule run_ignore [where n = n and fd = "nat fd"]) (use gm in auto)
    obtain M2 where 2: "Some (Inr (fd, M2)) = Some x" "grown {} M1 M2" "room n M2"
      by (rule run_ignore [OF 1(1), where n = n and fd = "nat fd"]) (use 1 in auto)
    have "grown {fd} L M2" using grown_trans [OF grown_trans [OF _ 1(2)] 2(2), of "{fd}" L] gm by simp
    then show ?thesis using that [of fd M2] 2 gm by auto
  next
    case ne: False
    then have e: "0 < e" using g(2) by simp
    show ?thesis
    proof (cases "e = ENOSYS")
      case True
      then show ?thesis using that [of "- ENOSYS" "M\<lparr>no_eventfd := True\<rparr>"] assms(2) False y g(1,4) ne grown_static(2) room_static(2)
        by (auto simp: old_eventfd_def ENOSYS_def)
    next
      case False
      then show ?thesis using that [of "- e" M] assms(2) \<open>\<not> no_eventfd L\<close> y g(1,4) ne e by (auto simp: old_eventfd_def)
    qed
  qed
qed

lemma eventfd_grown:
  assumes "room (Suc n) L" "uv__async_eventfd L = Some x"
  obtains r L' where "x = Inr (r, L')" "0 \<le> r \<Longrightarrow> grown {r} L L' \<and> room n L' \<and> 2 < r" "r < 0 \<Longrightarrow> grown {} L L' \<and> room (Suc n) L'"
proof (cases "no_eventfd2 L")
  case True
  then show ?thesis using old_eventfd_grown [OF assms(1)] assms(2) that by (auto simp: uv__async_eventfd_def)
next
  case False
  then obtain y where y: "get_fd True True L = Some y" using assms(2) by (cases "get_fd True True L") (auto simp: uv__async_eventfd_def)
  obtain e fd M where g: "y = Inr (e, fd, M)" "0 \<le> e" "e = 0 \<Longrightarrow> grown {fd} L M \<and> room n M \<and> 2 < fd"
      "e \<noteq> 0 \<Longrightarrow> grown {} L M \<and> room (Suc n) M"
    using get_fd_grown [OF assms(1) y] by blast
  consider "e = 0" | "0 < e" "e \<noteq> ENOSYS" | "e = ENOSYS" using g(2) by fastforce
  then show ?thesis
  proof cases
    case 3
    then have e: "e \<noteq> 0" by (simp add: ENOSYS_def)
    let ?M = "M\<lparr>no_eventfd2 := True\<rparr>"
    have M: "grown {} L ?M" "room (Suc n) ?M" using g(4) [OF e] grown_static(1) room_static(1) by auto
    have "old_eventfd ?M = Some x" using assms(2) y g(1) False 3 e by (simp add: uv__async_eventfd_def)
    then obtain r L' where "x = Inr (r, L')" "0 \<le> r \<Longrightarrow> grown {r} ?M L' \<and> room n L' \<and> 2 < r" "r < 0 \<Longrightarrow> grown {} ?M L' \<and> room (Suc n) L'"
      using old_eventfd_grown [OF M(2)] by blast
    then show ?thesis using that [of r L'] grown_trans [OF M(1)] by (cases "0 \<le> r") auto
  qed (use that [of fd M] that [of "- e" M] assms(2) y g False in \<open>auto simp: uv__async_eventfd_def\<close>)
qed

text \<open>The descriptors of the wake-up: one, or the two ends of a pipe.\<close>

definition ends :: "int \<Rightarrow> int \<Rightarrow> int set" where
  "ends a b = {a, b} - {- 1}"

lemma async_fds_grown:
  assumes "room (Suc (Suc (Suc n))) L" "async_fds L = Some x"
  obtains err a b L' where "x = Inr (err, a, b, L')"
    "0 \<le> err \<Longrightarrow> grown (ends a b) L L' \<and> room n L' \<and> 2 < a \<and> (b = - 1 \<or> 2 < b)" "err < 0 \<Longrightarrow> grown {} L L' \<and> room n L'"
proof -
  obtain y where y: "uv__async_eventfd L = Some y" using assms(2) by (cases "uv__async_eventfd L") (auto simp: async_fds_def)
  obtain r M where m: "y = Inr (r, M)" "0 \<le> r \<Longrightarrow> grown {r} L M \<and> room (Suc (Suc n)) M \<and> 2 < r"
      "r < 0 \<Longrightarrow> grown {} L M \<and> room (Suc (Suc (Suc n))) M"
    using eventfd_grown [OF assms(1) y] by blast
  consider "0 \<le> r" | "r < 0" "r \<noteq> - ENOSYS" | "r = - ENOSYS" "r < 0" by (cases "0 \<le> r") auto
  then show ?thesis
  proof cases
    case 1
    then have "grown (ends r (- 1)) L M" using m(2) by (auto simp: ends_def insert_Diff_if)
    then show ?thesis using that [of r r "- 1" M] assms(2) y m 1 room_less by (auto simp: async_fds_def)
  next
    case 2
    then show ?thesis using that [of r 0 0 M] assms(2) y m room_less by (auto simp: async_fds_def)
  next
    case 3
    note gm = m(3) [OF 3(2)]
    obtain z where z: "uv__make_pipe True M = Some z"
      using assms(2) y m(1) 3 by (cases "uv__make_pipe True M") (auto simp: async_fds_def ENOSYS_def)
    obtain e a b M' where p: "z = Inr (e, a, b, M')" "e \<le> 0" "e = 0 \<Longrightarrow> grown {a, b} M M' \<and> room (Suc n) M' \<and> 2 < a \<and> 2 < b \<and> a \<noteq> b"
        "e \<noteq> 0 \<Longrightarrow> grown {} M M' \<and> room (Suc (Suc (Suc n))) M'"
      using make_pipe_grown [OF _ z, of "Suc n"] gm by blast
    show ?thesis
    proof (cases "e = 0")
      case False
      then have "grown {} L M'" "room n M'" using p(4) gm grown_trans [of "{}" L M "{}" M'] room_less by auto
      moreover have "x = Inr (e, a, b, M')" using assms(2) y m(1) 3 z p(1) False by (simp add: async_fds_def ENOSYS_def)
      ultimately show ?thesis using that [of e a b M'] p(2) False by simp
    next
      case True
      have l: "grown {a, b} L M'" "room (Suc n) M'" "2 < a" "2 < b" using p(3) [OF True] gm grown_trans [of "{}" L M "{a, b}" M'] by auto
      obtain w where w: "reopen_pipe a b M' = Some w"
        using assms(2) y m(1) 3 z p(1) True by (cases "reopen_pipe a b M'") (auto simp: async_fds_def ENOSYS_def)
      obtain a' b' L' where r: "w = Inr (a', b', L')" "grown {a', b'} L L'" "room n L'" "2 < a'" "2 < b'"
        using reopen_grown [OF l w] by blast
      have "ends a' b' = {a', b'}" using r(4,5) by (auto simp: ends_def)
      moreover have "x = Inr (0, a', b', L')" using assms(2) y m(1) 3 z p(1) True w r(1) by (simp add: async_fds_def ENOSYS_def)
      ultimately show ?thesis using that [of 0 a' b' L'] r by simp
    qed
  qed
qed

section \<open>Watchers on new descriptors\<close>

lemma maybe_resize_frame:
  assumes "maybe_resize n L = Inr L'"
  shows "os L' = os L" "sys L' = sys L" "async_watcher L' = async_watcher L" "signal_io_watcher L' = signal_io_watcher L"
    "async_wfd L' = async_wfd L" "backend_fd L' = backend_fd L" "emfile_fd L' = emfile_fd L" "inotify_fd L' = inotify_fd L"
    "handles L' = handles L" "handle_queue L' = handle_queue L" "active_reqs L' = active_reqs L" "wq L' = wq L"
    "no_eventfd2 L' = no_eventfd2 L" "interest L' = interest L" "allocs L = [] \<Longrightarrow> allocs L' = []" "ios L' = ios L"
    "watcher_queue L' = watcher_queue L"
  using assms by (auto simp: maybe_resize_def next_alloc_def Let_def split: if_splits list.splits)

lemma io_start_frame:
  assumes "uv__io_start w ev L = Inr L'"
  shows "os L' = os L" "sys L' = sys L" "async_watcher L' = async_watcher L" "signal_io_watcher L' = signal_io_watcher L"
    "async_wfd L' = async_wfd L" "backend_fd L' = backend_fd L" "emfile_fd L' = emfile_fd L" "inotify_fd L' = inotify_fd L"
    "handles L' = handles L" "handle_queue L' = handle_queue L" "active_reqs L' = active_reqs L" "wq L' = wq L"
    "allocs L = [] \<Longrightarrow> allocs L' = []"
proof -
  define M where "M = upd_io w (\<lambda>i. i\<lparr>io_pevents := or (io_pevents i) ev\<rparr>) L"
  obtain N where N: "maybe_resize (word_of_nat (nat (io_fd (ios M w)) + 1)) M = Inr N"
      "L' = (if io_events (ios N w) = io_pevents (ios N w) then
               (if io_events (ios N w) = 0 then N\<lparr>watcher_queue := removeAll w (watcher_queue N)\<rparr> else N)
             else if watchers (queue_watcher w N) ! nat (io_fd (ios M w)) = None
               then (queue_watcher w N)\<lparr>watchers := (watchers (queue_watcher w N))[nat (io_fd (ios M w)) := Some w], nfds := nfds (queue_watcher w N) + 1\<rparr>
               else queue_watcher w N)"
    using assms unfolding uv__io_start_def Let_def M_def [symmetric] by (clarsimp split: if_split_asm) fastforce+
  note f = maybe_resize_frame [OF N(1)]
  show "os L' = os L" "sys L' = sys L" "async_watcher L' = async_watcher L" "signal_io_watcher L' = signal_io_watcher L"
    "async_wfd L' = async_wfd L" "backend_fd L' = backend_fd L" "emfile_fd L' = emfile_fd L" "inotify_fd L' = inotify_fd L"
    "handles L' = handles L" "handle_queue L' = handle_queue L" "active_reqs L' = active_reqs L" "wq L' = wq L"
    "allocs L = [] \<Longrightarrow> allocs L' = []"
    using f by (simp_all add: N(2) queue_watcher_def M_def upd_io_def)
qed

lemma pollin_ok: "events_ok POLLIN"
  by (simp add: events_ok_def poll_mask_def POLLIN_def POLLOUT_def UV__POLLRDHUP_def)

text \<open>A watcher is set up on a descriptor nobody watches.\<close>

lemma watch_new:
  assumes "io_ok L" "allocs L = []" "slot L fd = None" "\<not> registered w L" "2 < fd" "fd \<le> 2147483000" "c \<noteq> None"
  shows "\<exists>M L'. uv__io_init w c fd L = Inr M \<and> uv__io_start w POLLIN M = Inr L' \<and> io_ok L' \<and> allocs L' = []
    \<and> os L' = os L \<and> sys L' = sys L \<and> async_watcher L' = async_watcher L \<and> signal_io_watcher L' = signal_io_watcher L
    \<and> async_wfd L' = async_wfd L \<and> backend_fd L' = backend_fd L \<and> emfile_fd L' = emfile_fd L \<and> inotify_fd L' = inotify_fd L
    \<and> handles L' = handles L \<and> handle_queue L' = handle_queue L \<and> active_reqs L' = active_reqs L \<and> wq L' = wq L
    \<and> io_fd (ios L' w) = fd \<and> registered w L' \<and> (\<forall>x. x \<noteq> w \<longrightarrow> ios L' x = ios L x \<and> registered x L' = registered x L)
    \<and> (\<forall>d. d \<noteq> fd \<longrightarrow> slot L' d = slot L d)"
proof -
  have "- 1 \<le> fd" using assms(5) by simp
  then obtain M where M: "uv__io_init w c fd L = Inr M" "io_ok M" "\<not> registered w M"
      "\<forall>x. x \<noteq> w \<longrightarrow> registered x M = registered x L \<and> ios M x = ios L x"
    using io_init_ok [OF assms(1,4,7)] by blast
  have m: "M = upd_io w (\<lambda>_. \<lparr>io_handler = c, io_fd = fd, io_events = 0, io_pevents = 0, io_stale = False\<rparr>) L"
    using M(1) assms(5) by (simp add: uv__io_init_def split: if_splits)
  have s: "slot M = slot L" by (rule ext) (simp add: slot_def m upd_io_def)
  have fd: "io_fd (ios M w) = fd" by (simp add: m upd_io_def)
  have "fst (next_alloc M)" using assms(2) by (simp add: m upd_io_def next_alloc_def)
  then obtain L' where L': "uv__io_start w POLLIN M = Inr L'" "io_ok L'" "io_upd w M L'" "registered w L'"
    using io_start_ok [OF M(2) _ _ pollin_ok, of w] fd s assms(3,5,6) by fastforce
  have mf: "os M = os L" "sys M = sys L" "async_watcher M = async_watcher L" "signal_io_watcher M = signal_io_watcher L"
      "async_wfd M = async_wfd L" "backend_fd M = backend_fd L" "emfile_fd M = emfile_fd L" "inotify_fd M = inotify_fd L"
      "handles M = handles L" "handle_queue M = handle_queue L" "active_reqs M = active_reqs L" "wq M = wq L" "allocs M = []"
    using assms(2) by (simp_all add: m upd_io_def)
  show ?thesis
    using M(1,4) L' io_start_frame [OF L'(1)] mf fd s by (intro exI [of _ M] exI [of _ L']) (auto simp: io_upd_def)
qed

text \<open>No slot of the table stands for a descriptor that is closed.\<close>

definition slots_open :: "uv_loop_t \<Rightarrow> bool" where
  "slots_open L \<longleftrightarrow> io_ok L \<and> allocs L = [] \<and> (\<forall>d w. slot L d = Some w \<longrightarrow> nat d \<in> fds L)"

lemma slots_open_grown: "slots_open L \<Longrightarrow> grown A L L' \<Longrightarrow> slots_open L'"
  using outside_io [of L L'] outside_fields [of L L'] by (auto simp: slots_open_def grown_def)

lemma slot_new:
  assumes "slots_open L" "grown A L L'" "fd \<in> A"
  shows "slot L' fd = None" "fd \<le> 2147483000"
  using assms outside_io(1) [of L L'] by (cases "slot L fd"; auto simp: slots_open_def grown_def new_in_def)+

text \<open>What \<open>uv__async_start\<close> and the first use of signals leave.\<close>

definition set_up :: "wid \<Rightarrow> int set \<Rightarrow> uv_loop_t \<Rightarrow> uv_loop_t \<Rightarrow> bool" where
  "set_up w A L L' \<longleftrightarrow> (\<forall>fd \<in> A. new_in L fd) \<and> fds L' = nat ` A \<union> fds L \<and> slots_open L' \<and> registered w L'
     \<and> (\<forall>x. x \<noteq> w \<longrightarrow> ios L' x = ios L x \<and> registered x L' = registered x L)
     \<and> async_watcher L' = async_watcher L \<and> signal_io_watcher L' = signal_io_watcher L
     \<and> backend_fd L' = backend_fd L \<and> emfile_fd L' = emfile_fd L \<and> inotify_fd L' = inotify_fd L
     \<and> handles L' = handles L \<and> handle_queue L' = handle_queue L \<and> active_reqs L' = active_reqs L \<and> wq L' = wq L"

lemma set_up_watch:
  assumes "slots_open L" "grown A L M" "fd \<in> A" "2 < fd" "\<not> registered w L" "c \<noteq> None" "room n M"
  shows "\<exists>N L'. uv__io_init w c fd M = Inr N \<and> uv__io_start w POLLIN N = Inr L' \<and> set_up w A L L'
    \<and> io_fd (ios L' w) = fd \<and> async_wfd L' = async_wfd L \<and> room n L'"
proof -
  have o': "outside L M" using assms(2) by (simp add: grown_def)
  note f = outside_fields [OF o'] outside_io [OF o']
  note so = slots_open_grown [OF assms(1,2)]
  have "\<not> registered w M" using assms(5) by (simp add: registered_def f)
  from watch_new [OF _ _ slot_new(1) [OF assms(1-3)] this assms(4) slot_new(2) [OF assms(1-3)] assms(6)] so
  obtain N L' where L': "uv__io_init w c fd M = Inr N" "uv__io_start w POLLIN N = Inr L'" "io_ok L' \<and> allocs L' = []
    \<and> os L' = os M \<and> sys L' = sys M \<and> async_watcher L' = async_watcher M \<and> signal_io_watcher L' = signal_io_watcher M
    \<and> async_wfd L' = async_wfd M \<and> backend_fd L' = backend_fd M \<and> emfile_fd L' = emfile_fd M \<and> inotify_fd L' = inotify_fd M
    \<and> handles L' = handles M \<and> handle_queue L' = handle_queue M \<and> active_reqs L' = active_reqs M \<and> wq L' = wq M
    \<and> io_fd (ios L' w) = fd \<and> registered w L' \<and> (\<forall>x. x \<noteq> w \<longrightarrow> ios L' x = ios M x \<and> registered x L' = registered x M)
    \<and> (\<forall>d. d \<noteq> fd \<longrightarrow> slot L' d = slot M d)"
    unfolding slots_open_def by blast
  have "nat fd \<in> fds M" using assms(2,3) by (auto simp: grown_def)
  then have "slots_open L'" using so L'(3) unfolding slots_open_def fds_def by metis
  moreover have "fds L' = nat ` A \<union> fds L" "\<forall>fd \<in> A. new_in L fd" using L'(3) assms(2) by (simp_all add: fds_def grown_def)
  moreover have "registered x M = registered x L" for x by (simp add: registered_def f)
  moreover have "room n L'" using L'(3) assms(7) by (simp add: room_def)
  ultimately show ?thesis using L' by (intro exI [of _ N] exI [of _ L']) (simp add: set_up_def f)
qed

lemma wfd_io: "slot (L\<lparr>async_wfd := c\<rparr>) = slot L" "io_ok (L\<lparr>async_wfd := c\<rparr>) = io_ok L"
proof -
  show "slot (L\<lparr>async_wfd := c\<rparr>) = slot L" by (rule ext) (simp add: slot_def)
  then show "io_ok (L\<lparr>async_wfd := c\<rparr>) = io_ok L" by (simp add: io_ok_def watcher_ok_def registered_def)
qed

lemma async_start_ok:
  assumes "slots_open L" "room (Suc (Suc (Suc n))) L" "io_fd (ios L (async_watcher L)) = - 1" "\<not> registered (async_watcher L) L"
    "uv__async_start L = Some x"
  obtains err L' where "x = Inr (err, L')"
    "err \<noteq> 0 \<Longrightarrow> grown {} L L' \<and> room n L'"
    "err = 0 \<Longrightarrow> set_up (async_watcher L) (ends (io_fd (ios L' (async_watcher L))) (async_wfd L')) L L' \<and> room n L'
       \<and> 2 < io_fd (ios L' (async_watcher L)) \<and> (async_wfd L' = - 1 \<or> 2 < async_wfd L')"
proof -
  obtain y where y: "async_fds L = Some y" using assms(3,5) by (cases "async_fds L") (auto simp: uv__async_start_def Let_def)
  obtain err a b M where m: "y = Inr (err, a, b, M)"
      "0 \<le> err \<Longrightarrow> grown (ends a b) L M \<and> room n M \<and> 2 < a \<and> (b = - 1 \<or> 2 < b)" "err < 0 \<Longrightarrow> grown {} L M \<and> room n M"
    using async_fds_grown [OF assms(2) y] by blast
  show ?thesis
  proof (cases "err < 0")
    case True
    then show ?thesis using that [of err M] assms(3,5) y m by (simp add: uv__async_start_def Let_def)
  next
    case False
    then have gm: "grown (ends a b) L M" "room n M" "2 < a" "b = - 1 \<or> 2 < b" using m(2) by auto
    have "a \<in> ends a b" using gm(3) by (simp add: ends_def)
    from set_up_watch [OF assms(1) gm(1) this gm(3) assms(4) _ gm(2), of "Some Async_io"]
    obtain N L' where L': "uv__io_init (async_watcher L) (Some Async_io) a M = Inr N" "uv__io_start (async_watcher L) POLLIN N = Inr L'"
        "set_up (async_watcher L) (ends a b) L L'" "io_fd (ios L' (async_watcher L)) = a" "room n L'" by auto
    let ?L = "L'\<lparr>async_wfd := b\<rparr>"
    have "set_up (async_watcher L) (ends a b) L ?L"
    proof -
      have "registered x ?L = registered x L'" for x by (simp add: registered_def wfd_io)
      moreover have "fds ?L = fds L'" by (simp add: fds_def)
      ultimately show ?thesis using L'(3) unfolding set_up_def slots_open_def by (auto simp: wfd_io)
    qed
    moreover have "x = Inr (0, ?L)" using assms(3,5) y m(1) False L'(1,2) by (simp add: uv__async_start_def Let_def)
    ultimately show ?thesis using that [of 0 ?L] L'(4,5) gm(3,4) by (simp add: room_def)
  qed
qed

section \<open>A new loop\<close>

lemma update_time_fields:
  "os (uv__update_time L) = os L" "sys (uv__update_time L) = sys L" "ios (uv__update_time L) = ios L" "watchers (uv__update_time L) = watchers L"
  "watcher_queue (uv__update_time L) = watcher_queue L" "nfds (uv__update_time L) = nfds L" "allocs (uv__update_time L) = allocs L"
  "async_watcher (uv__update_time L) = async_watcher L" "signal_io_watcher (uv__update_time L) = signal_io_watcher L"
  "handle_queue (uv__update_time L) = handle_queue L" "active_reqs (uv__update_time L) = active_reqs L" "wq (uv__update_time L) = wq L"
  "handles (uv__update_time L) = handles L"
  by (simp_all add: uv__update_time_def split: list.splits)

lemma init_fields_views:
  "os (init_fields L) = os L" "sys (init_fields L) = sys L" "allocs (init_fields L) = allocs L" "watchers (init_fields L) = []"
  "watcher_queue (init_fields L) = []" "nfds (init_fields L) = 0" "ios (init_fields L) = (\<lambda>_. no_io)(async_watcher L := no_io\<lparr>io_fd := - 1\<rparr>)"
  "async_watcher (init_fields L) = async_watcher L" "signal_io_watcher (init_fields L) = signal_io_watcher L"
  "backend_fd (init_fields L) = - 1" "emfile_fd (init_fields L) = - 1" "handle_queue (init_fields L) = []" "active_reqs (init_fields L) = []"
  "wq (init_fields L) = []" "handles (init_fields L) = (\<lambda>_. no_handle)" "async_wfd (init_fields L) = - 1"
  by (simp_all add: init_fields_def Let_def uv__async_init_def upd_io_def update_time_fields)

lemma init_fields_open:
  assumes "allocs L = []"
  shows "slots_open (init_fields L)" "\<not> registered w (init_fields L)" "room n (init_fields L) = room n L" "fds (init_fields L) = fds L"
proof -
  have s: "slot (init_fields L) d = None" for d by (auto simp: slot_def init_fields_views)
  show "\<not> registered w (init_fields L)" by (simp add: registered_def s)
  show "slots_open (init_fields L)"
    using assms by (simp add: slots_open_def io_ok_def watcher_ok_def registered_def s init_fields_views no_io_def UvIo.taken_def)
  show "room n (init_fields L) = room n L" "fds (init_fields L) = fds L" by (simp_all add: room_def fds_def init_fields_views)
qed

lemma platform_init_ok:
  assumes "room (Suc n) L" "uv__platform_loop_init L = Some x"
  obtains err M fd where "x = Inr (err, M\<lparr>backend_fd := fd, inotify_fd := - 1\<rparr>)" "room n M"
    "err = 0 \<Longrightarrow> grown {fd} L M \<and> 2 < fd" "err \<noteq> 0 \<Longrightarrow> grown {} L M \<and> fd = - 1"
proof -
  obtain y where y: "get_fd True False L = Some y" using assms(2) by (cases "get_fd True False L") (auto simp: uv__platform_loop_init_def Let_def)
  obtain e fd M where g: "y = Inr (e, fd, M)" "0 \<le> e" "e = 0 \<Longrightarrow> grown {fd} L M \<and> room n M \<and> 2 < fd"
      "e \<noteq> 0 \<Longrightarrow> grown {} L M \<and> room (Suc n) M"
    using get_fd_grown [OF assms(1) y] by blast
  show ?thesis
  proof (cases "e = ENOSYS \<or> e = EINVAL")
    case False
    then show ?thesis
      using that [where err = "if e = 0 then 0 else - e" and M = M and fd = "if e = 0 then fd else - 1"] assms(2) y g room_less
      by (cases "e = 0") (auto simp: uv__platform_loop_init_def Let_def)
  next
    case True
    then have ne: "e \<noteq> 0" by (auto simp: ENOSYS_def EINVAL_def)
    note gm = g(4) [OF ne]
    obtain z where z: "get_fd False False M = Some z"
      using assms(2) y g(1) True by (cases "get_fd False False M") (auto simp: uv__platform_loop_init_def Let_def)
    obtain e' fd' M' where h: "z = Inr (e', fd', M')" "0 \<le> e'" "e' = 0 \<Longrightarrow> grown {fd'} M M' \<and> room n M' \<and> 2 < fd'"
        "e' \<noteq> 0 \<Longrightarrow> grown {} M M' \<and> room (Suc n) M'"
      using get_fd_grown [OF _ z, of n] gm by blast
    show ?thesis
    proof (cases "e' = 0")
      case False
      have "grown {} L M'" using grown_trans [of "{}" L M "{}" M'] gm h(4) [OF False] by simp
      then show ?thesis using that [where err = "- e'" and M = M' and fd = "- 1"] assms(2) y g(1) True z h(1,4) False room_less
        by (auto simp: uv__platform_loop_init_def Let_def)
    next
      case e': True
      note hm = h(3) [OF e']
      have "run_bind (ignore (uv__cloexec (nat fd') True) M') (\<lambda>L. Some (Inr (0, L\<lparr>backend_fd := fd', inotify_fd := - 1\<rparr>))) = Some x"
        using assms(2) y g(1) True z h(1) e' by (simp add: uv__platform_loop_init_def Let_def)
      then obtain M2 where 2: "Some (Inr (0, M2\<lparr>backend_fd := fd', inotify_fd := - 1\<rparr>)) = Some x" "grown {} M' M2" "room n M2"
        by (rule run_ignore [where n = n and fd = "nat fd'"]) (use hm in auto)
      have "grown {fd'} L M2" using grown_trans [OF _ grown_trans [OF _ 2(2)], of "{}" L M "{fd'}"] gm hm by simp
      then show ?thesis using that [where err = 0 and M = M2 and fd = fd'] 2 hm by auto
    qed
  qed
qed

lemma signal_once_ok:
  assumes "slots_open (lp P)" "room (Suc (Suc n)) (lp P)" "\<not> registered (signal_io_watcher (lp P)) (lp P)" "signal_pipefd P = (- 1, - 1)"
    "signal_once_init P = Some x"
  obtains err L' a b where "x = Inr (err, P\<lparr>lp := L', signal_pipefd := (a, b)\<rparr>)" "room n L'"
    "err \<noteq> 0 \<Longrightarrow> grown {} (lp P) L' \<and> a = - 1 \<and> b = - 1"
    "err = 0 \<Longrightarrow> set_up (signal_io_watcher (lp P)) {a, b} (lp P) L' \<and> async_wfd L' = async_wfd (lp P) \<and> 2 < a \<and> 2 < b \<and> a \<noteq> b"
proof -
  let ?L = "lp P"
  obtain y where y: "uv__make_pipe True ?L = Some y"
    using assms(4,5) by (cases "uv__make_pipe True ?L") (auto simp: signal_once_init_def)
  obtain e a b M where p: "y = Inr (e, a, b, M)" "e \<le> 0" "e = 0 \<Longrightarrow> grown {a, b} ?L M \<and> room n M \<and> 2 < a \<and> 2 < b \<and> a \<noteq> b"
      "e \<noteq> 0 \<Longrightarrow> grown {} ?L M \<and> room (Suc (Suc n)) M"
    using make_pipe_grown [OF assms(2) y] by blast
  show ?thesis
  proof (cases "e = 0")
    case False
    have "P\<lparr>lp := M\<rparr> = P\<lparr>lp := M, signal_pipefd := (- 1, - 1)\<rparr>" using assms(4) by simp
    then show ?thesis using that [where err = e and L' = M and a = "- 1" and b = "- 1"] assms(4,5) y p(1,4) False room_less by (auto simp: signal_once_init_def)
  next
    case True
    have gm: "grown {a, b} ?L M" "room n M" "2 < a" "2 < b" "a \<noteq> b" using p(3) [OF True] by auto
    from set_up_watch [OF assms(1) gm(1) _ gm(3) assms(3) _ gm(2), of "Some (Other_io 0)"]
    obtain N L' where L': "uv__io_init (signal_io_watcher ?L) (Some (Other_io 0)) a M = Inr N"
        "uv__io_start (signal_io_watcher ?L) POLLIN N = Inr L'" "set_up (signal_io_watcher ?L) {a, b} ?L L'"
        "async_wfd L' = async_wfd ?L" "room n L'" by auto
    have "signal_io_watcher M = signal_io_watcher ?L" using gm(1) outside_fields(12) by (simp add: grown_def)
    moreover have "signal_io_watcher N = signal_io_watcher ?L"
      using L'(2) io_start_frame(4) [OF L'(2)] L'(3) by (simp add: set_up_def)
    ultimately have "x = Inr (0, P\<lparr>lp := L', signal_pipefd := (a, b)\<rparr>)"
      using assms(4,5) y p(1) True L'(1,2) by (simp add: signal_once_init_def)
    then show ?thesis using that [where err = 0 and L' = L' and a = a and b = b] L' gm by blast
  qed
qed

section \<open>Closing what was opened\<close>

lemma run_bind_assoc: "run_bind (run_bind r f) k = run_bind r (\<lambda>a. run_bind (f a) k)"
  by (simp add: run_bind_def split: option.splits sum.splits)

lemma run_close:
  assumes "run_bind (close_fd fd L) k = Some x" "room n L" "2 < fd"
  obtains L' where "k L' = Some x" "outside L L'" "fds L' = fds L - {nat fd}" "room n L'"
proof -
  obtain y where y: "close_fd fd L = Some y" using assms(1) by (cases "close_fd fd L") auto
  obtain L' where "y = Inr L'" "outside L L'" "fds L' = fds L - {nat fd}" "room n L'" using close_fd_ok [OF assms(2) y assms(3)] by blast
  then show ?thesis using that assms(1) y by simp
qed

lemma run_close_if:
  assumes "run_bind (close_if_open fd L) k = Some x" "room n L" "fd = - 1 \<or> 2 < fd"
  obtains L' where "k L' = Some x" "outside L L'" "fds L' = fds L - nat ` ({fd} - {- 1})" "room n L'"
proof (cases "fd = - 1")
  case True
  then show ?thesis using that [of L] assms(1,2) outsideI(2) by (simp add: close_if_open_def)
next
  case False
  then have "run_bind (close_fd fd L) k = Some x" "2 < fd" using assms by (auto simp: close_if_open_def)
  then obtain L' where "k L' = Some x" "outside L L'" "fds L' = fds L - {nat fd}" "room n L'" using run_close assms(2) by blast
  then show ?thesis using that False by (simp add: insert_Diff_if)
qed

lemma on_loop_bind: "run_bind (on_loop f P) k = run_bind (f (lp P)) (\<lambda>L. k (P\<lparr>lp := L\<rparr>))"
  by (simp add: on_loop_def run_bind_def split: option.splits sum.splits)

lemma stop_signals_none:
  "(\<And>h. h \<in> set q \<Longrightarrow> htype (handles (lp P) h) = UV_SIGNAL \<Longrightarrow> signum (hs (sg P) h) = 0) \<Longrightarrow> stop_signals q P = Some (Inr P)"
  by (induction q) (cases P, auto simp: uv__signal_stop_def)

definition quiet_signals :: "uv_loop_obj \<Rightarrow> bool" where
  "quiet_signals P \<longleftrightarrow> (\<forall>h \<in> set (handle_queue (lp P)). htype (handles (lp P) h) = UV_SIGNAL \<longrightarrow> signum (hs (sg P) h) = 0)"

lemma signal_cleanup_ok:
  assumes "run_bind (signal_cleanup P) k = Some x" "room n (lp P)" "quiet_signals P"
    "fst (signal_pipefd P) = - 1 \<or> 2 < fst (signal_pipefd P)" "snd (signal_pipefd P) = - 1 \<or> 2 < snd (signal_pipefd P)"
  obtains L' G where "k (P\<lparr>lp := L', signal_pipefd := (- 1, - 1), sg := G\<rparr>) = Some x" "outside (lp P) L'"
    "fds L' = fds (lp P) - nat ` ends (fst (signal_pipefd P)) (snd (signal_pipefd P))" "room n L'"
proof -
  let ?a = "fst (signal_pipefd P)" and ?b = "snd (signal_pipefd P)"
  let ?G = "(sg P)\<lparr>pipe_open := (pipe_open (sg P))(self P := False), pipe := (pipe (sg P))(self P := [])\<rparr>"
  have "stop_signals (handle_queue (lp P)) P = Some (Inr P)" using assms(3) by (intro stop_signals_none) (auto simp: quiet_signals_def)
  then have "run_bind (close_if_open ?a (lp P)) (\<lambda>L. run_bind (close_if_open ?b L) (\<lambda>L.
      k (P\<lparr>lp := L, signal_pipefd := (- 1, - 1), sg := ?G\<rparr>))) = Some x"
    using assms(1) by (simp add: signal_cleanup_def on_loop_bind run_bind_assoc)
  then obtain L1 where 1: "run_bind (close_if_open ?b L1) (\<lambda>L. k (P\<lparr>lp := L, signal_pipefd := (- 1, - 1), sg := ?G\<rparr>)) = Some x"
      "outside (lp P) L1" "fds L1 = fds (lp P) - nat ` ({?a} - {- 1})" "room n L1"
    by (rule run_close_if) (use assms in auto)
  obtain L2 where 2: "k (P\<lparr>lp := L2, signal_pipefd := (- 1, - 1), sg := ?G\<rparr>) = Some x"
      "outside L1 L2" "fds L2 = fds L1 - nat ` ({?b} - {- 1})" "room n L2"
    by (rule run_close_if [OF 1(1,4)]) (use assms in auto)
  have "ends ?a ?b = ({?a} - {- 1}) \<union> ({?b} - {- 1})" by (auto simp: ends_def)
  then have "fds L2 = fds (lp P) - nat ` ends ?a ?b" using 1(3) 2(3) by auto
  then show ?thesis using that 2 outside_trans [OF 1(2) 2(2)] by blast
qed

lemma io_stop_fields:
  assumes "uv__io_stop w ev L = Inr L'"
  shows "os L' = os L" "sys L' = sys L" "async_watcher L' = async_watcher L" "emfile_fd L' = emfile_fd L" "backend_fd L' = backend_fd L"
    "active_reqs L' = active_reqs L" "wq L' = wq L"
  using assms by (auto simp: uv__io_stop_def upd_io_def queue_watcher_def Let_def split: if_splits)

lemma close_wfd:
  assumes "run_bind
      (if async_wfd L \<noteq> - 1 then
         run_bind (if async_wfd L \<noteq> fd then close_fd (async_wfd L) L else Some (Inr L)) (\<lambda>L. Some (Inr (L\<lparr>async_wfd := - 1\<rparr>)))
       else Some (Inr L)) k = Some x"
    and "room n L" "async_wfd L = - 1 \<or> 2 < async_wfd L"
  obtains L1 c where "k (L1\<lparr>async_wfd := c\<rparr>) = Some x" "outside L L1"
    "fds L1 = fds L - (if async_wfd L \<noteq> - 1 \<and> async_wfd L \<noteq> fd then {nat (async_wfd L)} else {})" "room n L1"
proof -
  consider "async_wfd L = - 1" | "async_wfd L \<noteq> - 1" "async_wfd L = fd" | "async_wfd L \<noteq> - 1" "async_wfd L \<noteq> fd" by blast
  then show ?thesis
  proof cases
    case 1
    then have "k (L\<lparr>async_wfd := - 1\<rparr>) = Some x" using assms(1) by (cases L) simp
    then show ?thesis using that [where ?L1.0 = L and c = "- 1"] 1 assms(2) by (simp add: outsideI(2))
  next
    case 2
    then have "k (L\<lparr>async_wfd := - 1\<rparr>) = Some x" using assms(1) by simp
    then show ?thesis using that [where ?L1.0 = L and c = "- 1"] 2 assms(2) by (simp add: outsideI(2))
  next
    case 3
    then have "run_bind (close_fd (async_wfd L) L) (\<lambda>L. k (L\<lparr>async_wfd := - 1\<rparr>)) = Some x" using assms(1) by (simp add: run_bind_assoc)
    then obtain L1 where "k (L1\<lparr>async_wfd := - 1\<rparr>) = Some x" "outside L L1" "fds L1 = fds L - {nat (async_wfd L)}" "room n L1"
      by (rule run_close) (use assms 3 in auto)
    then show ?thesis using that [where ?L1.0 = L1 and c = "- 1"] 3 by simp
  qed
qed

lemma async_stop_ok:
  assumes "run_bind (uv__async_stop L) k = Some x" "room n L" "io_ok L" "registered (async_watcher L) L"
    "2 < io_fd (ios L (async_watcher L))" "async_wfd L = - 1 \<or> 2 < async_wfd L"
  obtains L' where "k L' = Some x" "fds L' = fds L - nat ` ends (io_fd (ios L (async_watcher L))) (async_wfd L)" "room n L'"
    "emfile_fd L' = emfile_fd L" "backend_fd L' = backend_fd L" "active_reqs L' = active_reqs L" "wq L' = wq L"
proof -
  let ?w = "async_watcher L"
  let ?fd = "io_fd (ios L ?w)"
  have "run_bind
      (if async_wfd L \<noteq> - 1 then
         run_bind (if async_wfd L \<noteq> ?fd then close_fd (async_wfd L) L else Some (Inr L)) (\<lambda>L. Some (Inr (L\<lparr>async_wfd := - 1\<rparr>)))
       else Some (Inr L))
      (\<lambda>L. run_bind (Some (uv__io_stop ?w POLLIN L)) (\<lambda>L. run_bind (close_fd (io_fd (ios L ?w)) L) (\<lambda>L.
        k (upd_io ?w (\<lambda>i. i\<lparr>io_fd := - 1\<rparr>) L)))) = Some x"
  proof -
    have "(?fd = - 1) = False" using assms(5) by simp
    then show ?thesis using assms(1) unfolding uv__async_stop_def Let_def by (simp only: run_bind_assoc run_bind_simps if_False)
  qed
  then obtain L1 c where
    c: "run_bind (Some (uv__io_stop ?w POLLIN (L1\<lparr>async_wfd := c\<rparr>))) (\<lambda>L. run_bind (close_fd (io_fd (ios L ?w)) L) (\<lambda>L.
        k (upd_io ?w (\<lambda>i. i\<lparr>io_fd := - 1\<rparr>) L))) = Some x" "outside L L1"
      "fds L1 = fds L - (if async_wfd L \<noteq> - 1 \<and> async_wfd L \<noteq> ?fd then {nat (async_wfd L)} else {})" "room n L1"
    by (rule close_wfd [OF _ assms(2,6)])
  define M where "M = L1\<lparr>async_wfd := c\<rparr>"
  have M: "run_bind (Some (uv__io_stop ?w POLLIN M)) (\<lambda>L. run_bind (close_fd (io_fd (ios L ?w)) L) (\<lambda>L.
        k (upd_io ?w (\<lambda>i. i\<lparr>io_fd := - 1\<rparr>) L))) = Some x" "\<exists>L1 c. outside L L1 \<and> M = L1\<lparr>async_wfd := c\<rparr>"
      "fds M = fds L - (if async_wfd L \<noteq> - 1 \<and> async_wfd L \<noteq> ?fd then {nat (async_wfd L)} else {})" "room n M"
    using c(1) apply (simp only: M_def)
    using c(2) apply (auto simp: M_def)[1]
    using c(3) apply (simp add: M_def fds_def)
    using c(4) by (simp add: M_def room_def)
  note o' = c(2) M_def
  note f = outside_fields [OF o'(1)] outside_io [OF o'(1)]
  have s: "slot M = slot L" and ioM: "io_ok M" using assms(3) f by (simp_all only: M_def wfd_io)
  have fdM: "io_fd (ios M ?w) = ?fd" by (simp add: o'(2) f)
  have "slot M (io_fd (ios M ?w)) = Some ?w" using assms(4) by (simp add: s fdM registered_def)
  then obtain N where N: "uv__io_stop ?w POLLIN M = Inr N" "io_upd ?w M N" 
    using io_stop_ok [OF ioM pollin_ok, of ?w] fdM assms(5) by auto
  note g = io_stop_fields [OF N(1)]
  have "io_fd (ios N ?w) = ?fd" using N(2) fdM by (simp add: io_upd_def)
  then have "run_bind (close_fd ?fd N) (\<lambda>L. k (upd_io ?w (\<lambda>i. i\<lparr>io_fd := - 1\<rparr>) L)) = Some x" using M(1) N(1) by simp
  moreover have "room n N" using M(4) g(1,2) by (simp add: room_def)
  ultimately obtain N' where N': "k (upd_io ?w (\<lambda>i. i\<lparr>io_fd := - 1\<rparr>) N') = Some x" "outside N N'" "fds N' = fds N - {nat ?fd}" "room n N'"
    by (rule run_close) (use assms in auto)
  let ?L = "upd_io ?w (\<lambda>i. i\<lparr>io_fd := - 1\<rparr>) N'"
  have "fds N = fds M" using g(1) by (simp add: fds_def)
  then have "fds ?L = fds L - nat ` ends ?fd (async_wfd L)"
    using N'(3) M(3) assms(5) by (auto simp: fds_def upd_io_def ends_def)
  moreover have "room n ?L" using N'(4) by (simp add: room_def upd_io_def)
  moreover have "emfile_fd ?L = emfile_fd L" "backend_fd ?L = backend_fd L" "active_reqs ?L = active_reqs L" "wq ?L = wq L"
    using outside_fields [OF N'(2)] g f by (simp_all add: upd_io_def o'(2))
  ultimately show ?thesis using that N'(1) by blast
qed

text \<open>A loop that has just been made, with the descriptors \<open>B\<close> of others.\<close>

definition own_fds :: "uv_loop_obj \<Rightarrow> int set" where
  "own_fds P = {backend_fd (lp P), fst (signal_pipefd P), snd (signal_pipefd P)}
     \<union> ends (io_fd (ios (lp P) (async_watcher (lp P)))) (async_wfd (lp P))"

definition made :: "nat set \<Rightarrow> uv_loop_obj \<Rightarrow> bool" where
  "made B P \<longleftrightarrow> fds (lp P) = nat ` own_fds P \<union> B \<and> (\<forall>d \<in> own_fds P. 2 < d \<and> nat d \<notin> B)
     \<and> io_ok (lp P) \<and> registered (async_watcher (lp P)) (lp P) \<and> 2 < io_fd (ios (lp P) (async_watcher (lp P)))
     \<and> (async_wfd (lp P) = - 1 \<or> 2 < async_wfd (lp P)) \<and> emfile_fd (lp P) = - 1 \<and> inotify_fd (lp P) = - 1
     \<and> active_reqs (lp P) = [] \<and> wq (lp P) = []
     \<and> list_all (\<lambda>h. has_flag UV__HANDLE_INTERNAL (handles (lp P) h)) (handle_queue (lp P)) \<and> quiet_signals P
     \<and> cloexec_lock P = Some \<lparr>writer = None, readers = []\<rparr> \<and> (\<exists>c. wq_mutex P = Some \<lparr>owner = None, checks = c\<rparr>)"

lemma check_idle_ok:
  assumes "wq_mutex P = Some \<lparr>owner = None, checks = c\<rparr>" "wq (lp P) = []" "active_reqs (lp P) = []"
  shows "check_idle P = Some (Inr P)"
  using assms by (cases P) (simp add: check_idle_def uv_mutex_lock_def uv_mutex_unlock_def pthread_mutex_lock_def pthread_mutex_unlock_def
      or_abort_def uv__has_active_reqs_def)

lemma loop_close_ok:
  assumes "made B P" "room n (lp P)" "uv_loop_close P = Some x"
  shows "\<exists>P'. x = Inr (0, P') \<and> fds (lp P') = B \<and> cloexec_lock P' = None \<and> wq_mutex P' = None
    \<and> signal_pipefd P' = (- 1, - 1) \<and> backend_fd (lp P') = - 1"
proof -
  let ?L = "lp P" and ?a = "fst (signal_pipefd P)" and ?b = "snd (signal_pipefd P)"
  have D: "fds ?L = nat ` own_fds P \<union> B" "\<forall>d \<in> own_fds P. 2 < d \<and> nat d \<notin> B"
    and io: "io_ok ?L" "registered (async_watcher ?L) ?L" "2 < io_fd (ios ?L (async_watcher ?L))" "async_wfd ?L = - 1 \<or> 2 < async_wfd ?L"
    and e: "emfile_fd ?L = - 1" "inotify_fd ?L = - 1" "active_reqs ?L = []" "wq ?L = []" "quiet_signals P"
      "list_all (\<lambda>h. has_flag UV__HANDLE_INTERNAL (handles ?L h)) (handle_queue ?L)"
    and l: "cloexec_lock P = Some \<lparr>writer = None, readers = []\<rparr>"
    using assms(1) by (simp_all add: made_def)
  obtain c where m: "wq_mutex P = Some \<lparr>owner = None, checks = c\<rparr>" using assms(1) by (auto simp: made_def)
  have ab: "?a = - 1 \<or> 2 < ?a" "?b = - 1 \<or> 2 < ?b" "2 < backend_fd ?L" using D(2) by (auto simp: own_fds_def)
  have "run_bind (signal_cleanup P) (\<lambda>P.
     run_bind (uv__platform_loop_delete (lp P)) (\<lambda>L. run_bind (uv__async_stop L) (\<lambda>L.
     run_bind (close_if_open (emfile_fd L) L) (\<lambda>L. let L = L\<lparr>emfile_fd := - 1\<rparr> in
     run_bind (close_if_open (backend_fd L) L) (\<lambda>L. let P = P\<lparr>lp := L\<lparr>backend_fd := - 1\<rparr>\<rparr> in
     run_bind (check_idle P) (\<lambda>P. run_bind (destroy_mutex P) (\<lambda>P. run_bind (destroy_rwlock P) (\<lambda>P.
     Some (Inr (0, P\<lparr>lp := (lp P)\<lparr>watchers := []\<rparr>\<rparr>)))))))))) = Some x"
    using assms(3) e(3,6)
    by (simp add: uv_loop_close_def uv__loop_close_def on_loop_bind run_bind_assoc Let_def list_all_iff list_ex_iff)
  then obtain L1 G where 1: "(\<lambda>P. run_bind (uv__platform_loop_delete (lp P)) (\<lambda>L. run_bind (uv__async_stop L) (\<lambda>L.
     run_bind (close_if_open (emfile_fd L) L) (\<lambda>L. let L = L\<lparr>emfile_fd := - 1\<rparr> in
     run_bind (close_if_open (backend_fd L) L) (\<lambda>L. let P = P\<lparr>lp := L\<lparr>backend_fd := - 1\<rparr>\<rparr> in
     run_bind (check_idle P) (\<lambda>P. run_bind (destroy_mutex P) (\<lambda>P. run_bind (destroy_rwlock P) (\<lambda>P.
     Some (Inr (0, P\<lparr>lp := (lp P)\<lparr>watchers := []\<rparr>\<rparr>)))))))))) (P\<lparr>lp := L1, signal_pipefd := (- 1, - 1), sg := G\<rparr>) = Some x"
      "outside ?L L1" "fds L1 = fds ?L - nat ` ends ?a ?b" "room n L1"
    by (rule signal_cleanup_ok [OF _ assms(2) e(5) ab(1,2)])
  note f = outside_fields [OF 1(2)] outside_io [OF 1(2)]
  have "uv__platform_loop_delete L1 = Some (Inr L1)" using e(2) f by (simp add: uv__platform_loop_delete_def)
  then have "run_bind (uv__async_stop L1) (\<lambda>L.
     run_bind (close_if_open (emfile_fd L) L) (\<lambda>L. let L = L\<lparr>emfile_fd := - 1\<rparr> in
     run_bind (close_if_open (backend_fd L) L) (\<lambda>L. let P = P\<lparr>signal_pipefd := (- 1, - 1), sg := G, lp := L\<lparr>backend_fd := - 1\<rparr>\<rparr> in
     run_bind (check_idle P) (\<lambda>P. run_bind (destroy_mutex P) (\<lambda>P. run_bind (destroy_rwlock P) (\<lambda>P.
     Some (Inr (0, P\<lparr>lp := (lp P)\<lparr>watchers := []\<rparr>\<rparr>))))))))  = Some x"
    using 1(1) by simp
  moreover have "io_ok L1" "registered (async_watcher L1) L1" "2 < io_fd (ios L1 (async_watcher L1))" "async_wfd L1 = - 1 \<or> 2 < async_wfd L1"
    using io f by (simp_all add: registered_def)
  ultimately obtain L2 where 2: "(\<lambda>L. run_bind (close_if_open (emfile_fd L) L) (\<lambda>L. let L = L\<lparr>emfile_fd := - 1\<rparr> in
     run_bind (close_if_open (backend_fd L) L) (\<lambda>L. let P = P\<lparr>signal_pipefd := (- 1, - 1), sg := G, lp := L\<lparr>backend_fd := - 1\<rparr>\<rparr> in
     run_bind (check_idle P) (\<lambda>P. run_bind (destroy_mutex P) (\<lambda>P. run_bind (destroy_rwlock P) (\<lambda>P.
     Some (Inr (0, P\<lparr>lp := (lp P)\<lparr>watchers := []\<rparr>\<rparr>)))))))) L2 = Some x"
      "fds L2 = fds L1 - nat ` ends (io_fd (ios L1 (async_watcher L1))) (async_wfd L1)" "room n L2"
      "emfile_fd L2 = emfile_fd L1" "backend_fd L2 = backend_fd L1" "active_reqs L2 = active_reqs L1" "wq L2 = wq L1"
    by (rule async_stop_ok [OF _ 1(4)])
  have L2: "emfile_fd L2 = - 1" "backend_fd L2 = backend_fd ?L" "active_reqs L2 = []" "wq L2 = []" using 2 f e by simp_all
  let ?M = "L2\<lparr>emfile_fd := - 1\<rparr>"
  have "run_bind (close_fd (backend_fd ?L) ?M) (\<lambda>L. let P = P\<lparr>signal_pipefd := (- 1, - 1), sg := G, lp := L\<lparr>backend_fd := - 1\<rparr>\<rparr> in
     run_bind (check_idle P) (\<lambda>P. run_bind (destroy_mutex P) (\<lambda>P. run_bind (destroy_rwlock P) (\<lambda>P.
     Some (Inr (0, P\<lparr>lp := (lp P)\<lparr>watchers := []\<rparr>\<rparr>)))))) = Some x"
    using 2(1) L2 ab(3) by (simp add: close_if_open_def Let_def)
  moreover have "room n ?M" using 2(3) by (simp add: room_def)
  ultimately obtain L3 where 3: "(\<lambda>L. let P = P\<lparr>signal_pipefd := (- 1, - 1), sg := G, lp := L\<lparr>backend_fd := - 1\<rparr>\<rparr> in
     run_bind (check_idle P) (\<lambda>P. run_bind (destroy_mutex P) (\<lambda>P. run_bind (destroy_rwlock P) (\<lambda>P.
     Some (Inr (0, P\<lparr>lp := (lp P)\<lparr>watchers := []\<rparr>\<rparr>)))))) L3 = Some x"
      "outside ?M L3" "fds L3 = fds ?M - {nat (backend_fd ?L)}" "room n L3"
    by (rule run_close [OF _ _ ab(3)])
  note g = outside_fields [OF 3(2)]
  have "active_reqs L3 = []" "wq L3 = []" using g L2 by simp_all
  then have "x = Inr (0, P\<lparr>signal_pipefd := (- 1, - 1), sg := G, wq_mutex := None, cloexec_lock := None, lp := L3\<lparr>backend_fd := - 1, watchers := []\<rparr>\<rparr>)"
    using 3(1) m l by (simp add: check_idle_ok [where c = c] destroy_mutex_def destroy_rwlock_def uv_mutex_destroy_def uv_rwlock_destroy_def
        pthread_mutex_destroy_def Let_def)
  moreover have "fds L3 = B"
  proof -
    define E where "E = nat ` ends (io_fd (ios ?L (async_watcher ?L))) (async_wfd ?L)"
    have "ends ?a ?b = {?a, ?b}" using D(2) by (auto simp: own_fds_def ends_def)
    then have own: "nat ` own_fds P = {nat (backend_fd ?L), nat ?a, nat ?b} \<union> E" "nat ` ends ?a ?b = {nat ?a, nat ?b}"
      by (simp_all add: own_fds_def E_def image_Un)
    have "fds ?M = fds L2" by (simp add: fds_def)
    moreover have "fds L2 = fds L1 - E" using 2(2) f by (simp add: E_def)
    ultimately have "fds L3 = (nat ` own_fds P \<union> B) - {nat ?a, nat ?b} - E - {nat (backend_fd ?L)}"
      using 3(3) 1(3) D(1) own(2) by simp
    moreover have "nat ` own_fds P \<inter> B = {}" using D(2) by auto
    ultimately show ?thesis unfolding own(1) by blast
  qed
  moreover have "fds (L3\<lparr>backend_fd := - 1, watchers := []\<rparr>) = fds L3" by (simp add: fds_def)
  ultimately show ?thesis by simp
qed

end
