(* ===== verification/UvLoopLife.thy ===== *)
theory UvLoopLife
  imports UvLoopInit
begin

text \<open>
  A loop from \<open>uv_loop_init\<close> to \<open>uv_loop_close\<close>: the descriptors and the locks that each step of
  \<open>UvLoopInit\<close> adds, what its error paths give back, and that closing gives back the rest.
\<close>

section \<open>Making a loop\<close>

text \<open>Only the handles and their counts differ.\<close>

definition same_io :: "uv_loop_t \<Rightarrow> uv_loop_t \<Rightarrow> bool" where
  "same_io L L' \<longleftrightarrow> os L' = os L \<and> sys L' = sys L \<and> ios L' = ios L \<and> watchers L' = watchers L \<and> watcher_queue L' = watcher_queue L
     \<and> nfds L' = nfds L \<and> interest L' = interest L \<and> allocs L' = allocs L \<and> async_watcher L' = async_watcher L
     \<and> signal_io_watcher L' = signal_io_watcher L \<and> async_wfd L' = async_wfd L \<and> emfile_fd L' = emfile_fd L
     \<and> active_reqs L' = active_reqs L \<and> wq L' = wq L"

lemma same_io_facts:
  assumes "same_io L L'"
  shows "slots_open L' = slots_open L" "registered w L' = registered w L" "fds L' = fds L" "room n L' = room n L" "io_ok L' = io_ok L"
proof -
  have s: "slot L' = slot L" using assms by (intro ext) (simp add: slot_def same_io_def)
  show r: "registered w L' = registered w L" for w using assms by (simp add: registered_def s same_io_def)
  show f: "fds L' = fds L" "room n L' = room n L" using assms by (simp_all add: fds_def room_def same_io_def)
  have "watcher_ok w L' = watcher_ok w L" for w using assms by (simp add: watcher_ok_def r same_io_def)
  then show "io_ok L' = io_ok L" using assms by (simp add: io_ok_def s same_io_def)
  then show "slots_open L' = slots_open L" using assms by (simp add: slots_open_def s f same_io_def)
qed

lemma same_io_trans: "same_io L L' \<Longrightarrow> same_io L' L'' \<Longrightarrow> same_io L L''"
  by (simp add: same_io_def)

lemma handle_init_io: "same_io L (uv__handle_init h ty L)"
  by (simp add: same_io_def uv__handle_init_def upd_handle_def)

lemma backend_io: "same_io L (L\<lparr>backend_fd := b, inotify_fd := i\<rparr>)"
  by (simp add: same_io_def)

lemma internal_io: "same_io L (internal_handle h L)"
  by (simp add: same_io_def internal_handle_def uv__handle_unref_def uv__active_handle_rm_def upd_handle_def Let_def)

lemma internal_views:
  "backend_fd (internal_handle h L) = backend_fd L" "inotify_fd (internal_handle h L) = inotify_fd L"
  "handle_queue (internal_handle h L) = handle_queue L" "x \<noteq> h \<Longrightarrow> handles (internal_handle h L) x = handles L x"
  "htype (handles (internal_handle h L) h) = htype (handles L h)" "has_flag UV__HANDLE_INTERNAL (handles (internal_handle h L) h)"
proof -
  show "backend_fd (internal_handle h L) = backend_fd L" "inotify_fd (internal_handle h L) = inotify_fd L"
    "handle_queue (internal_handle h L) = handle_queue L" "x \<noteq> h \<Longrightarrow> handles (internal_handle h L) x = handles L x"
    "htype (handles (internal_handle h L) h) = htype (handles L h)"
    by (simp_all add: internal_handle_def uv__handle_unref_def uv__active_handle_rm_def upd_handle_def Let_def set_flag_def clear_flag_def)
  show "has_flag UV__HANDLE_INTERNAL (handles (internal_handle h L) h)"
    by (simp add: internal_handle_def upd_handle_def has_flag_def set_flag_def UV__HANDLE_INTERNAL_def bit.conj_disj_distrib2 or_eq_0_iff)
qed

text \<open>After the child watcher is set up.\<close>

definition half_made :: "nat set \<Rightarrow> uv_loop_obj \<Rightarrow> bool" where
  "half_made B P \<longleftrightarrow> fds (lp P) = nat ` {backend_fd (lp P), fst (signal_pipefd P), snd (signal_pipefd P)} \<union> B
     \<and> (\<forall>d \<in> {backend_fd (lp P), fst (signal_pipefd P), snd (signal_pipefd P)}. 2 < d \<and> nat d \<notin> B)
     \<and> nat (backend_fd (lp P)) \<noteq> nat (fst (signal_pipefd P)) \<and> nat (backend_fd (lp P)) \<noteq> nat (snd (signal_pipefd P))
     \<and> slots_open (lp P) \<and> emfile_fd (lp P) = - 1 \<and> inotify_fd (lp P) = - 1 \<and> active_reqs (lp P) = [] \<and> wq (lp P) = []
     \<and> handle_queue (lp P) = [child_watcher P] \<and> htype (handles (lp P) (child_watcher P)) = UV_SIGNAL
     \<and> has_flag UV__HANDLE_INTERNAL (handles (lp P) (child_watcher P)) \<and> signum (hs (sg P) (child_watcher P)) = 0
     \<and> io_fd (ios (lp P) (async_watcher (lp P))) = - 1 \<and> \<not> registered (async_watcher (lp P)) (lp P)"

text \<open>What a call of \<open>uv_loop_init\<close> leaves that fails.\<close>

definition not_made :: "nat set \<Rightarrow> uv_loop_obj \<Rightarrow> bool" where
  "not_made B P \<longleftrightarrow> fds (lp P) = nat ` ({backend_fd (lp P)} - {- 1}) \<union> B \<and> cloexec_lock P = None \<and> wq_mutex P = None
     \<and> signal_pipefd P = (- 1, - 1)"

lemma fail_rwlock_ok:
  assumes "half_made B P" "room n (lp P)" "cloexec_lock P = None" "wq_mutex P = None" "fail_rwlock_init err P = Some x"
  shows "\<exists>P'. x = Inr (err, P') \<and> not_made B P' \<and> signal_lock_pipefd P' = signal_lock_pipefd P"
proof -
  let ?a = "fst (signal_pipefd P)" and ?b = "snd (signal_pipefd P)"
  have h: "2 < ?a" "2 < ?b" "2 < backend_fd (lp P)" "fds (lp P) = nat ` {backend_fd (lp P), ?a, ?b} \<union> B" "quiet_signals P" "inotify_fd (lp P) = - 1"
    "nat ?a \<notin> B" "nat ?b \<notin> B" "nat (backend_fd (lp P)) \<noteq> nat ?a" "nat (backend_fd (lp P)) \<noteq> nat ?b"
    using assms(1) by (auto simp: half_made_def quiet_signals_def)
  have "run_bind (signal_cleanup P) (fail_signal_init err) = Some x" using assms(5) by (simp add: fail_rwlock_init_def)
  then obtain L' G where L': "fail_signal_init err (P\<lparr>lp := L', signal_pipefd := (- 1, - 1), sg := G\<rparr>) = Some x" "outside (lp P) L'"
      "fds L' = fds (lp P) - nat ` ends ?a ?b" "room n L'"
    by (rule signal_cleanup_ok [OF _ assms(2) h(5)]) (use h in auto)
  have "inotify_fd L' = - 1" "backend_fd L' = backend_fd (lp P)" using outside_fields [OF L'(2)] h(6) by simp_all
  then have "x = Inr (err, P\<lparr>signal_pipefd := (- 1, - 1), sg := G, lp := L'\<rparr>)" "backend_fd L' = backend_fd (lp P)"
    using L'(1) by (simp_all add: fail_signal_init_def on_loop_bind uv__platform_loop_delete_def)
  moreover have "nat ` ends ?a ?b = {nat ?a, nat ?b}" using h by (auto simp: ends_def)
  then have "fds L' = nat ` ({backend_fd (lp P)} - {- 1}) \<union> B" using L'(3) h by auto
  ultimately show ?thesis using assms(3,4) by (simp add: not_made_def)
qed

lemma fail_mutex_ok:
  assumes "half_made B P" "room n (lp P)" "cloexec_lock P = Some \<lparr>writer = None, readers = []\<rparr>" "wq_mutex P = None" "fail_mutex_init err P = Some x"
  shows "\<exists>P'. x = Inr (err, P') \<and> not_made B P' \<and> signal_lock_pipefd P' = signal_lock_pipefd P"
proof -
  let ?P = "P\<lparr>cloexec_lock := None\<rparr>"
  have "fail_rwlock_init err ?P = Some x"
    using assms(3,5) by (simp add: fail_mutex_init_def destroy_rwlock_def uv_rwlock_destroy_def)
  moreover have "half_made B ?P" using assms(1) by (simp add: half_made_def)
  ultimately show ?thesis using fail_rwlock_ok [of B ?P n err x] assms(2,4) by simp
qed

text \<open>The first signal handle of a loop.\<close>

lemma loop_signal_init_ok:
  assumes "slots_open L" "room (Suc (Suc n)) L" "\<And>w. \<not> registered w L" "fds L = insert (nat (backend_fd L)) B" "2 < backend_fd L"
    "nat (backend_fd L) \<notin> B" "streams_open (os L)" "ios L (async_watcher L) = no_io\<lparr>io_fd := - 1\<rparr>" "async_watcher L \<noteq> signal_io_watcher L"
    "emfile_fd L = - 1" "inotify_fd L = - 1" "active_reqs L = []" "wq L = []" "handle_queue L = []"
    "lp P = L" "signal_pipefd P = (- 1, - 1)" "signal_init (child_watcher P) P = Some x"
  shows "\<exists>err P'. x = Inr (err, P') \<and> room n (lp P') \<and> cloexec_lock P' = cloexec_lock P \<and> wq_mutex P' = wq_mutex P
    \<and> child_watcher P' = child_watcher P \<and> wq_async P' = wq_async P \<and> signal_lock_pipefd P' = signal_lock_pipefd P
    \<and> (err \<noteq> 0 \<longrightarrow> fds (lp P') = fds L \<and> inotify_fd (lp P') = - 1 \<and> backend_fd (lp P') = backend_fd L \<and> signal_pipefd P' = (- 1, - 1))
    \<and> (err = 0 \<longrightarrow> half_made B (P'\<lparr>lp := internal_handle (child_watcher P) (lp P')\<rparr>))"
proof -
  obtain y where y: "signal_once_init P = Some y" using assms(17) by (cases "signal_once_init P") (auto simp: signal_init_def)
  obtain err L' a b where s: "y = Inr (err, P\<lparr>lp := L', signal_pipefd := (a, b)\<rparr>)" "room n L'"
      "err \<noteq> 0 \<Longrightarrow> grown {} (lp P) L' \<and> a = - 1 \<and> b = - 1"
      "err = 0 \<Longrightarrow> set_up (signal_io_watcher (lp P)) {a, b} (lp P) L' \<and> async_wfd L' = async_wfd (lp P) \<and> 2 < a \<and> 2 < b \<and> a \<noteq> b"
    by (rule signal_once_ok [of P n y]) (use assms(1-3,15,16) y in auto)
  show ?thesis
  proof (cases "err = 0")
    case False
    have g: "grown {} L L'" using s(3) [OF False] assms(15) by simp
    note f = outside_fields [of L L']
    have "x = Inr (err, P\<lparr>lp := L', signal_pipefd := (a, b), sg := snd (uv_signal_init err (self P) (child_watcher P) (sg P))\<rparr>)"
      using assms(17) y s(1) False by (simp add: signal_init_def split: prod.splits)
    moreover have "fds L' = fds L" "outside L L'" using g by (simp_all add: grown_def)
    ultimately show ?thesis using s(2,3) False f assms(11) by simp
  next
    case True
    have u: "set_up (signal_io_watcher L) {a, b} L L'" "2 < a" "2 < b" "a \<noteq> b" using s(4) [OF True] assms(15) by auto
    let ?c = "child_watcher P"
    let ?G = "snd (uv_signal_init 0 (self P) ?c (sg P))"
    let ?H = "uv__handle_init ?c UV_SIGNAL L'"
    let ?I = "internal_handle ?c ?H"
    have x: "x = Inr (0, P\<lparr>signal_pipefd := (a, b), lp := ?H, sg := ?G\<rparr>)"
      using assms(17) y s(1) True by (simp add: signal_init_def split: prod.splits)
    have io: "same_io L' ?I" using same_io_trans [OF handle_init_io internal_io] .
    note i = same_io_facts [OF io]
    have su: "\<forall>fd \<in> {a, b}. new_in L fd" "fds L' = nat ` {a, b} \<union> fds L" "slots_open L'" "ios L' (async_watcher L) = ios L (async_watcher L)"
        "registered (async_watcher L) L' = registered (async_watcher L) L" "async_watcher L' = async_watcher L" "backend_fd L' = backend_fd L"
        "emfile_fd L' = - 1" "inotify_fd L' = - 1" "handle_queue L' = []" "active_reqs L' = []" "wq L' = []"
      using u(1) assms(9-14) unfolding set_up_def by (blast | metis)+
    have ne: "nat a \<notin> fds L" "nat b \<notin> fds L" using su(1) by (simp_all add: new_in_def)
    have fd: "nat (backend_fd L) \<noteq> nat a" "nat (backend_fd L) \<noteq> nat b" "nat a \<notin> B" "nat b \<notin> B"
        "fds L' = {nat (backend_fd L), nat a, nat b} \<union> B"
      using ne su(2) unfolding assms(4) by auto
    have v: "os ?I = os L'" "ios ?I = ios L'" "async_watcher ?I = async_watcher L'" "emfile_fd ?I = emfile_fd L'"
        "active_reqs ?I = active_reqs L'" "wq ?I = wq L'"
      using io unfolding same_io_def by blast+
    have H: "backend_fd ?I = backend_fd L" "inotify_fd ?I = - 1" "handle_queue ?I = [?c]" "htype (handles ?I ?c) = UV_SIGNAL"
      using su(7,9,10) by (simp_all add: internal_views uv__handle_init_def upd_handle_def)
    have sgn: "signum (hs ?G ?c) = 0"
      by (simp add: uv_signal_init_def uv__signal_loop_once_init_def upd_sig_def Let_def)
    have aw: "async_watcher ?I = async_watcher L" "ios ?I (async_watcher L) = no_io\<lparr>io_fd := - 1\<rparr>" "\<not> registered (async_watcher L) ?I"
      using su(4-6) assms(3,8) v(2,3) i(2) by simp_all
    have e: "emfile_fd ?I = - 1" "active_reqs ?I = []" "wq ?I = []" "slots_open ?I" "fds ?I = fds L'"
      using su(3,8,11,12) v i(1,3) by simp_all
    have "half_made B (P\<lparr>signal_pipefd := (a, b), sg := ?G, lp := ?I\<rparr>)"
      using fd H sgn aw e internal_views(6) u(2,3) assms(5,6) by (simp add: half_made_def no_io_def)
    moreover have "room n ?H" using same_io_facts(4) [OF handle_init_io] s(2) by blast
    ultimately show ?thesis using x by simp
  qed
qed

text \<open>The handle \<open>wq_async\<close>.\<close>

lemma half_made_grown:
  assumes "half_made B P" "grown {} (lp P) L'"
  shows "half_made B (P\<lparr>lp := L'\<rparr>)"
proof -
  have o': "outside (lp P) L'" "fds L' = fds (lp P)" using assms(2) by (simp_all add: grown_def)
  have "slots_open L'" using slots_open_grown [OF _ assms(2)] assms(1) by (simp add: half_made_def)
  moreover have "registered w L' = registered w (lp P)" for w
    by (simp add: registered_def outside_fields [OF o'(1)] outside_io [OF o'(1)])
  ultimately show ?thesis using assms(1) outside_fields [OF o'(1)] o'(2) by (simp add: half_made_def)
qed

definition ready_async :: "hid \<Rightarrow> cb option \<Rightarrow> uv_loop_t \<Rightarrow> uv_loop_t" where
  "ready_async h c L =
     uv__active_handle_add (upd_handle h (set_flag UV__HANDLE_ACTIVE)
       ((upd_handle h (\<lambda>x. x\<lparr>async_cb := c, pending := 0\<rparr>) (uv__handle_init h UV_ASYNC L))\<lparr>async_handles := async_handles L @ [h]\<rparr>))"

lemma ready_async_io: "same_io L (ready_async h c L)"
  by (simp add: same_io_def ready_async_def uv__handle_init_def upd_handle_def uv__active_handle_add_def)

lemma ready_async_views:
  "backend_fd (ready_async h c L) = backend_fd L" "inotify_fd (ready_async h c L) = inotify_fd L"
  "handle_queue (ready_async h c L) = handle_queue L @ [h]" "x \<noteq> h \<Longrightarrow> handles (ready_async h c L) x = handles L x"
  "htype (handles (ready_async h c L) h) = UV_ASYNC"
  by (simp_all add: ready_async_def uv__handle_init_def upd_handle_def uv__active_handle_add_def set_flag_def)

lemma async_init_ready:
  "uv_async_init h c L = run_bind (uv__async_start L) (\<lambda>(err, L). if err \<noteq> 0 then Some (Inr (err, L)) else Some (Inr (0, ready_async h c L)))"
proof -
  have "uv__handle_start h ((upd_handle h (\<lambda>x. x\<lparr>async_cb := c, pending := 0\<rparr>) (uv__handle_init h UV_ASYNC L))\<lparr>async_handles := async_handles L @ [h]\<rparr>)
      = Inr (ready_async h c L)" for L
    by (simp add: uv__handle_start_def uv__handle_init_def upd_handle_def has_flag_def set_flag_def ready_async_def Let_def
        UV__HANDLE_REF_def UV__HANDLE_ACTIVE_def UV__HANDLE_CLOSING_def)
  moreover have "async_handles (upd_handle h f (uv__handle_init h UV_ASYNC L)) = async_handles L" for f L
    by (simp add: upd_handle_def uv__handle_init_def)
  ultimately show ?thesis by (auto simp: uv_async_init_def Let_def run_bind_def split: option.splits sum.splits)
qed

lemma async_init_ok:
  assumes "half_made B P" "room (Suc (Suc (Suc n))) (lp P)" "child_watcher P \<noteq> wq_async P"
    "cloexec_lock P = Some \<lparr>writer = None, readers = []\<rparr>" "wq_mutex P = Some \<lparr>owner = None, checks = c\<rparr>"
    "uv_async_init (wq_async P) (Some wd) (lp P) = Some x"
  shows "\<exists>err L'. x = Inr (err, L') \<and> room n L' \<and> (err \<noteq> 0 \<longrightarrow> half_made B (P\<lparr>lp := L'\<rparr>))
    \<and> (err = 0 \<longrightarrow> made B (P\<lparr>lp := internal_handle (wq_async P) L'\<rparr>))"
proof -
  let ?L = "lp P" and ?h = "wq_async P" and ?w = "async_watcher (lp P)"
  have h: "slots_open ?L" "io_fd (ios ?L ?w) = - 1" "\<not> registered ?w ?L" using assms(1) by (simp_all add: half_made_def)
  obtain y where y: "uv__async_start ?L = Some y" using assms(6) by (cases "uv__async_start ?L") (auto simp: async_init_ready)
  obtain err L' where s: "y = Inr (err, L')" "err \<noteq> 0 \<Longrightarrow> grown {} ?L L' \<and> room n L'"
      "err = 0 \<Longrightarrow> set_up ?w (ends (io_fd (ios L' ?w)) (async_wfd L')) ?L L' \<and> room n L'
         \<and> 2 < io_fd (ios L' ?w) \<and> (async_wfd L' = - 1 \<or> 2 < async_wfd L')"
    by (rule async_start_ok [OF h(1) assms(2) h(2,3) y]) blast
  show ?thesis
  proof (cases "err = 0")
    case False
    then have "x = Inr (err, L')" using assms(6) y s(1) by (simp add: async_init_ready)
    then show ?thesis using False s(2) half_made_grown [OF assms(1)] by simp
  next
    case True
    let ?E = "ends (io_fd (ios L' ?w)) (async_wfd L')"
    have u: "set_up ?w ?E ?L L'" "room n L'" "2 < io_fd (ios L' ?w)" "async_wfd L' = - 1 \<or> 2 < async_wfd L'" using s(3) [OF True] by auto
    define M where "M = ready_async ?h (Some wd) L'"
    define N where "N = internal_handle ?h M"
    have io: "same_io L' N" unfolding N_def M_def using same_io_trans [OF ready_async_io internal_io] .
    note i = same_io_facts [OF io]
    have l: "emfile_fd ?L = - 1" "inotify_fd ?L = - 1" "handle_queue ?L = [child_watcher P]" "active_reqs ?L = []" "wq ?L = []"
      using assms(1) unfolding half_made_def by blast+
    have su: "\<forall>fd \<in> ?E. new_in ?L fd" "fds L' = nat ` ?E \<union> fds ?L" "slots_open L'" "registered ?w L'" "async_watcher L' = ?w"
        "backend_fd L' = backend_fd ?L" "emfile_fd L' = - 1" "inotify_fd L' = - 1" "handle_queue L' = [child_watcher P]" "active_reqs L' = []"
        "wq L' = []" "handles L' = handles ?L"
      using u(1) unfolding set_up_def l by blast+
    have v: "ios N = ios L'" "async_watcher N = ?w" "async_wfd N = async_wfd L'" "emfile_fd N = - 1" "active_reqs N = []" "wq N = []"
      using io unfolding same_io_def su(5,7,10,11) by blast+
    have H: "backend_fd N = backend_fd ?L" "inotify_fd N = - 1" "handle_queue N = [child_watcher P, ?h]"
        "handles N (child_watcher P) = handles ?L (child_watcher P)" "htype (handles N ?h) = UV_ASYNC"
        "has_flag UV__HANDLE_INTERNAL (handles N ?h)"
      using su(6,8,9,12) assms(3) by (simp_all add: N_def M_def internal_views ready_async_views)
    have q: "quiet_signals (P\<lparr>lp := N\<rparr>)" using assms(1) H(3-5) by (simp add: quiet_signals_def half_made_def)
    have own: "own_fds (P\<lparr>lp := N\<rparr>) = {backend_fd ?L, fst (signal_pipefd P), snd (signal_pipefd P)} \<union> ?E"
      by (simp add: own_fds_def H(1) v)
    have hm: "fds ?L = nat ` {backend_fd ?L, fst (signal_pipefd P), snd (signal_pipefd P)} \<union> B"
        "\<forall>d \<in> {backend_fd ?L, fst (signal_pipefd P), snd (signal_pipefd P)}. 2 < d \<and> nat d \<notin> B"
        "has_flag UV__HANDLE_INTERNAL (handles ?L (child_watcher P))"
      using assms(1) unfolding half_made_def by blast+
    have f: "fds N = nat ` own_fds (P\<lparr>lp := N\<rparr>) \<union> B" unfolding own i(3) su(2) hm(1) by blast
    have d: "\<forall>d \<in> own_fds (P\<lparr>lp := N\<rparr>). 2 < d \<and> nat d \<notin> B"
      using su(1) hm(2) unfolding own new_in_def hm(1) by blast
    have "io_ok N" "registered ?w N" using su(3,4) i(2,5) by (simp_all add: slots_open_def)
    then have "made B (P\<lparr>lp := N\<rparr>)"
      using f d v H hm(3) q u(3,4) assms(4,5) by (simp add: made_def)
    moreover have "x = Inr (0, M)" using assms(6) y s(1) True by (simp add: async_init_ready M_def)
    moreover have "room n M" using same_io_facts(4) [OF ready_async_io] u(2) by (simp add: M_def)
    ultimately show ?thesis by (simp add: N_def)
  qed
qed

section \<open>Closing comes to an end\<close>

text \<open>A part of the code that asks the system for at most \<open>m\<close> answers.\<close>

definition within :: "nat \<Rightarrow> uv_loop_t \<Rightarrow> uv_loop_t res option \<Rightarrow> bool" where
  "within m L r \<longleftrightarrow> (\<exists>x. r = Some x \<and> (\<forall>L'. x = Inr L' \<longrightarrow> length (sys L) \<le> length (sys L') + m))"

lemma within_bind:
  assumes "within m L r" "\<And>L'. length (sys L) \<le> length (sys L') + m \<Longrightarrow> k L' \<noteq> None"
  shows "run_bind r k \<noteq> None"
  using assms by (auto simp: within_def run_bind_def split: sum.splits)

lemma within_close: "sys L \<noteq> [] \<Longrightarrow> within 1 L (close_fd fd L)"
  by (cases "sys L") (auto simp: within_def close_fd_def on_kernel_res_def uv__close_def uv__close_nocheckstdio_def Let_def)

lemma within_close_if: "sys L \<noteq> [] \<Longrightarrow> within 1 L (close_if_open fd L)"
  using within_close by (auto simp: close_if_open_def within_def)

lemma within_seq:
  assumes "within m L r" "\<And>L'. length (sys L) \<le> length (sys L') + m \<Longrightarrow> within n L' (k L')"
  shows "within (m + n) L (run_bind r k)"
  using assms by (fastforce simp: within_def run_bind_def split: sum.splits)

lemma within_pure: "within 0 L (Some (Inl f))" "sys L' = sys L \<Longrightarrow> within 0 L (Some (Inr L'))"
  by (simp_all add: within_def)

lemma within_async_stop: "2 \<le> length (sys L) \<Longrightarrow> within 2 L (uv__async_stop L)"
proof -
  assume a: "2 \<le> length (sys L)"
  then have ne: "sys L \<noteq> []" by auto
  let ?w = "async_watcher L"
  have one: "within 1 L (if async_wfd L \<noteq> - 1 then
             run_bind (if async_wfd L \<noteq> io_fd (ios L ?w) then close_fd (async_wfd L) L else Some (Inr L)) (\<lambda>L.
             Some (Inr (L\<lparr>async_wfd := - 1\<rparr>)))
           else Some (Inr L))"
    using within_seq [OF within_close [OF ne, of "async_wfd L"] within_pure(2) [of "L'\<lparr>async_wfd := - 1\<rparr>" L' for L']]
    by (auto simp: within_def)
  have "within 1 M (run_bind (Some (uv__io_stop ?w POLLIN M)) (\<lambda>L. run_bind (close_fd (io_fd (ios L ?w)) L) (\<lambda>L.
      Some (Inr (upd_io ?w (\<lambda>i. i\<lparr>io_fd := - 1\<rparr>) L)))))" if "length (sys L) \<le> length (sys M) + 1" for M
  proof (cases "uv__io_stop ?w POLLIN M")
    case (Inl f)
    then show ?thesis by (simp add: within_def)
  next
    case (Inr N)
    then have s: "sys N = sys M" by (rule io_stop_fields(2))
    then have "within (1 + 0) N (run_bind (close_fd (io_fd (ios N ?w)) N) (\<lambda>L. Some (Inr (upd_io ?w (\<lambda>i. i\<lparr>io_fd := - 1\<rparr>) L))))"
      using a that by (intro within_seq within_close within_pure) (auto simp: upd_io_def)
    then show ?thesis using Inr s by (simp add: within_def)
  qed
  then have "within (1 + 1) L (uv__async_stop L)" if "io_fd (ios L ?w) \<noteq> - 1"
    using within_seq [OF one] that by (simp add: uv__async_stop_def Let_def del: run_bind_simps)
  then show ?thesis by (cases "io_fd (ios L ?w) = - 1") (auto simp: uv__async_stop_def within_def numeral_2_eq_2)
qed

lemma within_platform_delete: "sys L \<noteq> [] \<Longrightarrow> within 1 L (uv__platform_loop_delete L)"
proof (cases "inotify_fd L = - 1")
  case True
  then show ?thesis by (simp add: uv__platform_loop_delete_def within_def)
next
  case False
  assume a: "sys L \<noteq> []"
  show ?thesis
  proof (cases "uv__io_stop (inotify_read_watcher L) POLLIN L")
    case (Inl f)
    then show ?thesis using False by (simp add: uv__platform_loop_delete_def within_def)
  next
    case (Inr N)
    then have s: "sys N = sys L" by (rule io_stop_fields(2))
    then have "within (1 + 0) N (run_bind (close_fd (inotify_fd N) N) (\<lambda>L. Some (Inr (L\<lparr>inotify_fd := - 1\<rparr>))))"
      using a by (intro within_seq within_close within_pure) auto
    then show ?thesis using Inr s False by (simp add: uv__platform_loop_delete_def within_def)
  qed
qed

lemma loop_close_returns:
  assumes "made B P" "7 \<le> length (sys (lp P))"
  shows "uv_loop_close P \<noteq> None"
proof -
  have q: "quiet_signals P" and l: "cloexec_lock P = Some \<lparr>writer = None, readers = []\<rparr>" using assms(1) by (simp_all add: made_def)
  obtain c where m: "wq_mutex P = Some \<lparr>owner = None, checks = c\<rparr>" using assms(1) by (auto simp: made_def)
  have st: "stop_signals (handle_queue (lp P)) P = Some (Inr P)" using q by (intro stop_signals_none) (auto simp: quiet_signals_def)
  have fin: "run_bind (check_idle Q) (\<lambda>P. run_bind (destroy_mutex P) (\<lambda>P. run_bind (destroy_rwlock P) (\<lambda>P. Some (Inr (k P))))) \<noteq> None"
    if "wq_mutex Q = wq_mutex P" for Q and k :: "uv_loop_obj \<Rightarrow> uv_loop_obj"
    using that m
    by (auto simp: check_idle_def uv_mutex_lock_def uv_mutex_unlock_def pthread_mutex_lock_def pthread_mutex_unlock_def or_abort_def
        destroy_mutex_def destroy_rwlock_def run_bind_def split: option.splits sum.splits)
  have "uv__loop_close P \<noteq> None"
    unfolding uv__loop_close_def signal_cleanup_def st run_bind_simps run_bind_assoc on_loop_bind Let_def
    by (intro within_bind [OF within_close_if] within_bind [OF within_platform_delete] within_bind [OF within_async_stop] fin)
      (use assms(2) in auto)
  then show ?thesis by (auto simp: uv_loop_close_def run_bind_def split: option.splits sum.splits)
qed

section \<open>From uv_loop_init to uv_loop_close\<close>

text \<open>The pipe that serves as the signal lock, once for the process.\<close>

fun lock_ends :: "(int \<times> int) option \<Rightarrow> int set" where
  "lock_ends None = {}"
| "lock_ends (Some (a, b)) = {a, b}"

lemma again_suffix: "again es = Some (e, es') \<Longrightarrow> set es' \<subseteq> set es"
  by (induction es rule: again.induct) (auto split: if_splits)

lemma global_once_ok:
  assumes "room (Suc (Suc n)) (lp P)" "nat ` lock_ends (signal_lock_pipefd P) \<subseteq> fds (lp P)" "uv__signal_global_once_init P = Some x"
  shows "x = Inl Aborted \<or> (\<exists>L' q. x = Inr (P\<lparr>lp := L', signal_lock_pipefd := q\<rparr>) \<and> outside (lp P) L' \<and> room n L'
    \<and> fds L' = fds (lp P) \<union> nat ` lock_ends q)"
proof (cases "signal_lock_pipefd P")
  case (Some p)
  then have "P\<lparr>lp := lp P, signal_lock_pipefd := Some p\<rparr> = P" by (cases P) simp
  then have "x = Inr (P\<lparr>lp := lp P, signal_lock_pipefd := Some p\<rparr>)"
    using assms(3) Some by (simp only: uv__signal_global_once_init_def) simp
  moreover have "room n (lp P)" by (rule room_less [OF assms(1)]) simp
  moreover have "fds (lp P) = fds (lp P) \<union> nat ` lock_ends (Some p)" using assms(2) Some by auto
  ultimately show ?thesis using outsideI(2) by (intro disjI2 exI [of _ "lp P"] exI [of _ "Some p"]) simp
next
  case None
  then obtain y where y: "uv__make_pipe False (lp P) = Some y"
    using assms(3) by (cases "uv__make_pipe False (lp P)") (auto simp: uv__signal_global_once_init_def)
  obtain e a b L' where p: "y = Inr (e, a, b, L')" "e \<le> 0"
      "e = 0 \<Longrightarrow> grown {a, b} (lp P) L' \<and> room n L' \<and> 2 < a \<and> 2 < b \<and> a \<noteq> b" "e \<noteq> 0 \<Longrightarrow> grown {} (lp P) L' \<and> room (Suc (Suc n)) L'"
    using make_pipe_grown [OF assms(1) y] by blast
  show ?thesis
  proof (cases "e = 0")
    case False
    then show ?thesis using assms(3) None y p(1) by (simp add: uv__signal_global_once_init_def)
  next
    case True
    note g = p(3) [OF True]
    obtain r es where u: "uv__signal_unlock (sys L') = Some (r, es)"
      using assms(3) None y p(1) True by (cases "uv__signal_unlock (sys L')") (auto simp: uv__signal_global_once_init_def)
    then have "set es \<subseteq> set (sys L')" using again_suffix by (auto simp: uv__signal_unlock_def)
    then have "room n (L'\<lparr>sys := es\<rparr>)" using g by (auto simp: room_def)
    moreover have "outside (lp P) (L'\<lparr>sys := es\<rparr>)"
      using outside_trans [of "lp P" L'] outsideI(1) [where L = L' and s = es and k = "os L'"] g by (auto simp: grown_def)
    moreover have "fds (L'\<lparr>sys := es\<rparr>) = fds (lp P) \<union> nat ` lock_ends (Some (a, b))" using g by (auto simp: fds_def grown_def)
    moreover have "x = Inl Aborted \<or> x = Inr (P\<lparr>lp := L'\<lparr>sys := es\<rparr>, signal_lock_pipefd := Some (a, b)\<rparr>)"
      using assms(3) None y p(1) True u by (auto simp: uv__signal_global_once_init_def split: if_splits)
    ultimately show ?thesis by (elim disjE) (blast, metis)
  qed
qed

text \<open>A loop whose last steps are left: the locks and \<open>wq_async\<close>.\<close>

lemma half_made_locks: "half_made B (P\<lparr>cloexec_lock := c, wq_mutex := m, lock_answers := l\<rparr>) = half_made B P"
  "half_made B (P\<lparr>cloexec_lock := c, lock_answers := l\<rparr>) = half_made B P" "half_made B (P\<lparr>wq_mutex := m, lock_answers := l\<rparr>) = half_made B P"
  by (simp_all add: half_made_def)

definition settled :: "nat set \<Rightarrow> uv_loop_obj \<Rightarrow> fault + int \<times> uv_loop_obj \<Rightarrow> bool" where
  "settled B P x \<longleftrightarrow> x = Inl Aborted \<or> (\<exists>r P'. x = Inr (r, P') \<and> signal_lock_pipefd P' = signal_lock_pipefd P
     \<and> (if r = 0 then made B P' \<and> room 0 (lp P') else not_made B P'))"

lemma fail_async_ok:
  assumes "half_made B P" "room n (lp P)" "cloexec_lock P = Some \<lparr>writer = None, readers = []\<rparr>"
    "wq_mutex P = Some \<lparr>owner = None, checks = c\<rparr>" "fail_async_init err P = Some x"
  shows "\<exists>P'. x = Inr (err, P') \<and> not_made B P' \<and> signal_lock_pipefd P' = signal_lock_pipefd P"
proof -
  let ?P = "P\<lparr>wq_mutex := None\<rparr>"
  have "fail_mutex_init err ?P = Some x"
    using assms(4,5) by (simp add: fail_async_init_def destroy_mutex_def uv_mutex_destroy_def pthread_mutex_destroy_def)
  moreover have "half_made B ?P" using assms(1) by (simp add: half_made_def)
  ultimately show ?thesis using fail_mutex_ok [of B ?P n err x] assms(2,3) by simp
qed

lemma async_settled:
  assumes "half_made B P" "room (Suc (Suc (Suc n))) (lp P)" "child_watcher P \<noteq> wq_async P"
    "cloexec_lock P = Some \<lparr>writer = None, readers = []\<rparr>" "wq_mutex P = Some \<lparr>owner = None, checks = c\<rparr>"
    "run_bind (uv_async_init (wq_async P) (Some wd) (lp P)) (\<lambda>(err, L).
       if err \<noteq> 0 then fail_async_init err (P\<lparr>lp := L\<rparr>) else Some (Inr (0, P\<lparr>lp := internal_handle (wq_async P) L\<rparr>))) = Some x"
  shows "settled B P x"
proof -
  obtain y where y: "uv_async_init (wq_async P) (Some wd) (lp P) = Some y"
    using assms(6) by (cases "uv_async_init (wq_async P) (Some wd) (lp P)") auto
  obtain err L' where e: "y = Inr (err, L')" "room n L'" "err \<noteq> 0 \<longrightarrow> half_made B (P\<lparr>lp := L'\<rparr>)"
      "err = 0 \<longrightarrow> made B (P\<lparr>lp := internal_handle (wq_async P) L'\<rparr>)"
    using async_init_ok [OF assms(1-5) y] by blast
  show ?thesis
  proof (cases "err = 0")
    case True
    have "room 0 (internal_handle (wq_async P) L')"
      using room_less [OF e(2)] same_io_facts(4) [OF internal_io, of 0 "wq_async P" L'] by simp
    then show ?thesis using assms(6) y e(1,4) True by (auto simp: settled_def)
  next
    case False
    have "fail_async_init err (P\<lparr>lp := L'\<rparr>) = Some x" using assms(6) y e(1) False by simp
    from fail_async_ok [OF _ _ _ _ this, of B n c] show ?thesis
      using e(2,3) False assms(4,5) by (auto simp: settled_def)
  qed
qed

lemma locks_settled:
  assumes "half_made B P" "room (Suc (Suc (Suc n))) (lp P)" "child_watcher P \<noteq> wq_async P" "cloexec_lock P = None" "wq_mutex P = None"
    "run_bind (make_rwlock P) (\<lambda>(err, P).
       if err \<noteq> 0 then fail_rwlock_init err P
       else
         run_bind (make_mutex debug P) (\<lambda>(err, P).
         if err \<noteq> 0 then fail_mutex_init err P
         else
           run_bind (uv_async_init (wq_async P) (Some wd) (lp P)) (\<lambda>(err, L).
           if err \<noteq> 0 then fail_async_init err (P\<lparr>lp := L\<rparr>)
           else Some (Inr (0, P\<lparr>lp := internal_handle (wq_async P) L\<rparr>))))) = Some x"
  shows "settled B P x"
proof -
  obtain err l where l: "uv_rwlock_init (lock_answers P) = Some (err, l)" using assms(6) by (auto simp: make_rwlock_def split: option.splits)
  then have l': "l = \<lparr>writer = None, readers = []\<rparr>" by (auto simp: uv_rwlock_init_def)
  show ?thesis
  proof (cases "err = 0")
    case False
    let ?P = "P\<lparr>cloexec_lock := None, lock_answers := drop 1 (lock_answers P)\<rparr>"
    have "fail_rwlock_init err ?P = Some x" using assms(6) l False by (simp add: make_rwlock_def)
    from fail_rwlock_ok [OF _ _ _ _ this, of B "Suc (Suc (Suc n))"] show ?thesis
      using assms(1,2,5) False by (auto simp: half_made_locks settled_def)
  next
    case True
    define Q where "Q = P\<lparr>cloexec_lock := Some l, lock_answers := drop 1 (lock_answers P)\<rparr>"
    have Q: "half_made B Q" "room (Suc (Suc (Suc n))) (lp Q)" "child_watcher Q \<noteq> wq_async Q" "cloexec_lock Q = Some \<lparr>writer = None, readers = []\<rparr>"
        "wq_mutex Q = None" "signal_lock_pipefd Q = signal_lock_pipefd P"
      using assms(1-5) l' by (simp_all add: Q_def half_made_locks)
    have m: "run_bind (make_mutex debug Q) (\<lambda>(err, P).
         if err \<noteq> 0 then fail_mutex_init err P
         else
           run_bind (uv_async_init (wq_async P) (Some wd) (lp P)) (\<lambda>(err, L).
           if err \<noteq> 0 then fail_async_init err (P\<lparr>lp := L\<rparr>)
           else Some (Inr (0, P\<lparr>lp := internal_handle (wq_async P) L\<rparr>)))) = Some x"
      using assms(6) l True by (simp add: make_rwlock_def Q_def)
    obtain y where y: "uv_mutex_init debug (lock_answers Q) = Some y"
      using m by (cases "uv_mutex_init debug (lock_answers Q)") (auto simp: make_mutex_def)
    have yc: "y = Inl Aborted \<or> (\<exists>e. y = Inr (e, \<lparr>owner = None, checks = debug\<rparr>))"
      using y by (auto simp: uv_mutex_init_def or_abort_def run_bind_def split: option.splits sum.splits if_splits)
    then consider "y = Inl Aborted" | e c where "y = Inr (e, \<lparr>owner = None, checks = c\<rparr>)" by blast
    then show ?thesis
    proof cases
      case 1
      then show ?thesis using m y by (simp add: make_mutex_def settled_def)
    next
      case (2 e c)
      show ?thesis
      proof (cases "e = 0")
        case False
        let ?P = "Q\<lparr>wq_mutex := None, lock_answers := drop (mutex_calls debug) (lock_answers Q)\<rparr>"
        have "fail_mutex_init e ?P = Some x" using m y 2 False by (simp add: make_mutex_def)
        from fail_mutex_ok [OF _ _ _ _ this, of B "Suc (Suc (Suc n))"] show ?thesis
          using Q False by (auto simp: half_made_locks settled_def)
      next
        case True
        let ?P = "Q\<lparr>wq_mutex := Some \<lparr>owner = None, checks = c\<rparr>, lock_answers := drop (mutex_calls debug) (lock_answers Q)\<rparr>"
        have "settled B ?P x"
          by (rule async_settled [where n = n and c = c and wd = wd]) (use Q m y 2 True in \<open>simp_all add: make_mutex_def half_made_locks\<close>)
        then show ?thesis using Q(6) by (simp add: settled_def)
      qed
    qed
  qed
qed

lemma platform_settled:
  assumes "lp P = init_fields L" "allocs L = []" "room 6 (lp P)" "async_watcher L \<noteq> signal_io_watcher L" "child_watcher P \<noteq> wq_async P"
    "signal_pipefd P = (- 1, - 1)" "cloexec_lock P = None" "wq_mutex P = None"
    "run_bind (uv__platform_loop_init (lp P)) (\<lambda>(err, L).
       if err \<noteq> 0 then Some (Inr (err, P\<lparr>lp := L\<rparr>))
       else
         run_bind (signal_init (child_watcher P) (P\<lparr>lp := L\<rparr>)) (\<lambda>(err, P).
         if err \<noteq> 0 then fail_signal_init err P
         else k (P\<lparr>lp := internal_handle (child_watcher P) (lp P)\<rparr>))) = Some x"
    and rest: "\<And>Q. half_made (fds L) Q \<Longrightarrow> room 3 (lp Q) \<Longrightarrow> child_watcher Q \<noteq> wq_async Q \<Longrightarrow> cloexec_lock Q = None \<Longrightarrow>
      wq_mutex Q = None \<Longrightarrow> signal_lock_pipefd Q = signal_lock_pipefd P \<Longrightarrow> k Q = Some x \<Longrightarrow> settled (fds L) Q x"
  shows "settled (fds L) P x"
proof -
  note op = init_fields_open [OF assms(2)]
  obtain y where y: "uv__platform_loop_init (lp P) = Some y" using assms(9) by (cases "uv__platform_loop_init (lp P)") auto
  have r: "room (Suc 5) (lp P)" using assms(3) by (simp add: numeral_eq_Suc)
  obtain err M fd where m: "y = Inr (err, M\<lparr>backend_fd := fd, inotify_fd := - 1\<rparr>)" "room 5 M"
      "err = 0 \<Longrightarrow> grown {fd} (lp P) M \<and> 2 < fd" "err \<noteq> 0 \<Longrightarrow> grown {} (lp P) M \<and> fd = - 1"
    using platform_init_ok [OF r y] by blast
  let ?M = "M\<lparr>backend_fd := fd, inotify_fd := - 1\<rparr>"
  note io = backend_io [where L = M and b = fd and i = "- 1"]
  note i = same_io_facts [OF io]
  have B: "fds (lp P) = fds L" by (simp add: assms(1) op)
  show ?thesis
  proof (cases "err = 0")
    case False
    have "x = Inr (err, P\<lparr>lp := ?M\<rparr>)" using assms(9) y m(1) False by simp
    moreover have "fds ?M = fds L" using m(4) [OF False] B i(3) by (simp add: grown_def)
    ultimately show ?thesis using False m(4) assms(6-8) by (simp add: settled_def not_made_def)
  next
    case True
    have g: "grown {fd} (lp P) M" "2 < fd" using m(3) [OF True] by auto
    then have o': "outside (lp P) M" "fds M = insert (nat fd) (fds L)" "nat fd \<notin> fds L" using B by (auto simp: grown_def new_in_def)
    note f = outside_fields [OF o'(1)] outside_io [OF o'(1)]
    have so: "slots_open ?M" using slots_open_grown [OF _ g(1)] op(1) assms(1) i(1) by simp
    have reg: "\<not> registered w ?M" for w
    proof -
      have "registered w M = registered w (lp P)" by (simp add: registered_def f)
      then show ?thesis using i(2) op(2) assms(1) by simp
    qed
    have fM: "fds ?M = insert (nat (backend_fd ?M)) (fds L)" using o'(2) i(3) by simp
    have iv: "ios ?M (async_watcher ?M) = no_io\<lparr>io_fd := - 1\<rparr>" "async_watcher ?M \<noteq> signal_io_watcher ?M" "emfile_fd ?M = - 1"
        "active_reqs ?M = []" "wq ?M = []" "handle_queue ?M = []"
      using assms(4) f by (simp_all add: assms(1) init_fields_views)
    have r5: "room (Suc (Suc 3)) ?M" using m(2) i(4) by (simp add: numeral_eq_Suc)
    let ?P = "P\<lparr>lp := ?M\<rparr>"
    have n: "run_bind (signal_init (child_watcher P) ?P) (\<lambda>(err, P).
         if err \<noteq> 0 then fail_signal_init err P
         else k (P\<lparr>lp := internal_handle (child_watcher P) (lp P)\<rparr>)) = Some x"
      using assms(9) y m(1) True by simp
    then obtain z where z: "signal_init (child_watcher P) ?P = Some z" by (cases "signal_init (child_watcher P) ?P") auto
    have z': "signal_init (child_watcher ?P) ?P = Some z" "signal_pipefd ?P = (- 1, - 1)" "lp ?P = ?M" using z assms(6) by simp_all
    have st: "streams_open (os ?M)" "2 < backend_fd ?M" "nat (backend_fd ?M) \<notin> fds L" "inotify_fd ?M = - 1"
      using m(2) g(2) o'(3) by (simp_all add: room_def)
    obtain e Q where q: "z = Inr (e, Q)" "room 3 (lp Q)" "cloexec_lock Q = None" "wq_mutex Q = None" "child_watcher Q = child_watcher P"
        "wq_async Q = wq_async P" "signal_lock_pipefd Q = signal_lock_pipefd P"
        "e \<noteq> 0 \<longrightarrow> fds (lp Q) = fds ?M \<and> inotify_fd (lp Q) = - 1 \<and> backend_fd (lp Q) = fd \<and> signal_pipefd Q = (- 1, - 1)"
        "e = 0 \<longrightarrow> half_made (fds L) (Q\<lparr>lp := internal_handle (child_watcher P) (lp Q)\<rparr>)"
      using loop_signal_init_ok [OF so r5 reg fM st(2,3,1) iv(1-3) st(4) iv(4-6) z'(3,2,1)] assms(7,8) by auto
    show ?thesis
    proof (cases "e = 0")
      case False
      have l: "fds (lp Q) = fds ?M" "inotify_fd (lp Q) = - 1" "backend_fd (lp Q) = fd" "signal_pipefd Q = (- 1, - 1)" using q(8) False by auto
      have "fail_signal_init e Q = Some x" using n z q(1) False by simp
      then have "x = Inr (e, Q)" using l(2) by (cases Q) (simp add: fail_signal_init_def on_loop_def uv__platform_loop_delete_def)
      moreover have "fds (lp Q) = nat ` ({fd} - {- 1}) \<union> fds L" using l(1) fM g(2) by auto
      ultimately show ?thesis using False l(3,4) q(3,4,7) by (simp add: settled_def not_made_def)
    next
      case True
      let ?Q = "Q\<lparr>lp := internal_handle (child_watcher P) (lp Q)\<rparr>"
      have "room 3 (lp ?Q)" using q(2) same_io_facts(4) [OF internal_io] by simp
      moreover have "k ?Q = Some x" using n z q(1,5) True by simp
      ultimately have "settled (fds L) ?Q x" using rest [of ?Q] q True assms(5) by simp
      then show ?thesis using q(7) by (simp add: settled_def)
    qed
  qed
qed

lemma loop_init_settled:
  assumes "room 8 (lp P)" "allocs (lp P) = []" "nat ` lock_ends (signal_lock_pipefd P) \<subseteq> fds (lp P)"
    "async_watcher (lp P) \<noteq> signal_io_watcher (lp P)" "child_watcher P \<noteq> wq_async P" "uv_loop_init debug wd P = Some x"
  shows "x = Inl Aborted \<or> (\<exists>r P'. x = Inr (r, P')
    \<and> (let B = fds (lp P) \<union> nat ` lock_ends (signal_lock_pipefd P') in
       if r = 0 then made B P' \<and> room 0 (lp P') else not_made B P'))"
proof -
  obtain y where y: "uv__signal_global_once_init P = Some y"
    using assms(6) by (cases "uv__signal_global_once_init P") (auto simp: uv_loop_init_def)
  have r: "room (Suc (Suc 6)) (lp P)" using assms(1) by (simp add: numeral_eq_Suc)
  from global_once_ok [OF r assms(3) y] show ?thesis
  proof (elim disjE exE conjE)
    assume "y = Inl Aborted"
    then show ?thesis using assms(6) y by (simp add: uv_loop_init_def)
  next
    fix L q
    assume l: "y = Inr (P\<lparr>lp := L, signal_lock_pipefd := q\<rparr>)" "outside (lp P) L" "room 6 L" "fds L = fds (lp P) \<union> nat ` lock_ends q"
    note f = outside_fields [OF l(2)]
    have a: "allocs L = []" "async_watcher L \<noteq> signal_io_watcher L" using assms(2,4) f by simp_all
    define Q where "Q = P\<lparr>signal_lock_pipefd := q, lp := init_fields L, signal_pipefd := (- 1, - 1), cloexec_lock := None, wq_mutex := None\<rparr>"
    have Q: "lp Q = init_fields L" "signal_pipefd Q = (- 1, - 1)" "cloexec_lock Q = None" "wq_mutex Q = None"
        "child_watcher Q \<noteq> wq_async Q" "signal_lock_pipefd Q = q" "room 6 (lp Q)"
      using assms(5) l(3) init_fields_open(3) [OF a(1)] by (simp_all add: Q_def)
    define k where "k = (\<lambda>P. run_bind (make_rwlock P) (\<lambda>(err, P).
           if err \<noteq> 0 then fail_rwlock_init err P
           else
             run_bind (make_mutex debug P) (\<lambda>(err, P).
             if err \<noteq> 0 then fail_mutex_init err P
             else
               run_bind (uv_async_init (wq_async P) (Some wd) (lp P)) (\<lambda>(err, L).
               if err \<noteq> 0 then fail_async_init err (P\<lparr>lp := L\<rparr>)
               else Some (Inr (0, P\<lparr>lp := L, lp := internal_handle (wq_async (P\<lparr>lp := L\<rparr>)) (lp (P\<lparr>lp := L\<rparr>))\<rparr>))))))"
    define rest where "rest = (\<lambda>Q. run_bind (uv__platform_loop_init (lp Q)) (\<lambda>(err, L).
       if err \<noteq> 0 then Some (Inr (err, Q\<lparr>lp := L\<rparr>))
       else
         run_bind (signal_init (child_watcher (Q\<lparr>lp := L\<rparr>)) (Q\<lparr>lp := L\<rparr>)) (\<lambda>(err, P).
         if err \<noteq> 0 then fail_signal_init err P
         else k (P\<lparr>lp := internal_handle (child_watcher P) (lp P)\<rparr>))))"
    have "uv_loop_init debug wd P = run_bind (uv__signal_global_once_init P) (\<lambda>P.
        rest (P\<lparr>lp := init_fields (lp P), signal_pipefd := (- 1, - 1), cloexec_lock := None, wq_mutex := None\<rparr>))"
      unfolding uv_loop_init_def Let_def rest_def k_def by (rule refl)
    then have "rest Q = Some x" using assms(6) y l(1) by (simp add: Q_def)
    then have q: "run_bind (uv__platform_loop_init (lp Q)) (\<lambda>(err, L).
       if err \<noteq> 0 then Some (Inr (err, Q\<lparr>lp := L\<rparr>))
       else
         run_bind (signal_init (child_watcher Q) (Q\<lparr>lp := L\<rparr>)) (\<lambda>(err, P).
         if err \<noteq> 0 then fail_signal_init err P
         else k (P\<lparr>lp := internal_handle (child_watcher P) (lp P)\<rparr>))) = Some x"
      by (simp add: rest_def cong: if_cong)
    have "settled (fds L) Q x"
    proof (rule platform_settled [OF Q(1) a(1) Q(7) a(2) Q(5,2,3,4) q])
      fix R
      assume "half_made (fds L) R" "room 3 (lp R)" "child_watcher R \<noteq> wq_async R" "cloexec_lock R = None" "wq_mutex R = None"
        "k R = Some x"
      then show "settled (fds L) R x"
        using locks_settled [of "fds L" R 0 debug wd x] unfolding k_def numeral_3_eq_3 by (simp cong: if_cong)
    qed
    then show ?thesis using l(4) Q(6) by (auto simp: settled_def Let_def split: if_splits)
  qed
qed

section \<open>A concrete process\<close>

definition new_process :: "script \<Rightarrow> uv_loop_obj" where
  "new_process es = \<lparr>lp = empty_loop\<lparr>sys := es\<rparr>, sg = no_signals, self = 0, signal_pipefd = (0, 0), child_watcher = 5, wq_async = 6,
     cloexec_lock = None, wq_mutex = None, lock_answers = [0, 0], signal_lock_pipefd = None\<rparr>"

lemma next_power_16: "next_power_of_two 10 = 16"
  by (simp add: next_power_of_two_def)

lemma plain_numbers: "\<not> (16 :: u32) < 14" "(0 :: int) \<noteq> EINTR" "(0 :: int) \<noteq> ENOSYS" "(0 :: int) \<noteq> EINVAL" "EINTR \<noteq> 0" "ENOSYS \<noteq> 0"
  "EINVAL \<noteq> 0" "POLLIN \<noteq> 0" "0 \<noteq> POLLIN" "\<not> pipe_open no_signals 0" "and POLLIN (not poll_mask) = 0" "and (or 0 POLLIN) (not poll_mask) = 0"
  "ENOSYS = 38" "EINTR = 4"
  by (simp_all add: EINTR_def ENOSYS_def EINVAL_def POLLIN_def no_signals_def poll_mask_def POLLOUT_def UV__POLLRDHUP_def)

lemmas init_simps = uv_loop_init_def uv__signal_global_once_init_def new_process_def uv__make_pipe_def two_fds_def get_fd_def new_fd_def
  lowest_fd_def install_def empty_loop_def plain_kernel_def uv__signal_unlock_def init_fields_def uv__update_time_def uv__async_init_def
  uv__platform_loop_init_def signal_init_def signal_once_init_def uv_signal_init_def uv__signal_loop_once_init_def Let_def

lemmas watch_simps = uv__io_init_def uv__io_start_def maybe_resize_def next_alloc_def queue_watcher_def upd_io_def upd_sig_def
  uv__handle_init_def upd_handle_def next_power_16

lemmas lock_simps = make_rwlock_def uv_rwlock_init_def make_mutex_def uv_mutex_init_def answer_def internal_handle_def uv__handle_unref_def
  uv__active_handle_rm_def set_flag_def clear_flag_def has_flag_def UV__HANDLE_REF_def UV__HANDLE_ACTIVE_def UV__HANDLE_CLOSING_def
  UV__HANDLE_INTERNAL_def uv_async_init_def uv__async_start_def async_fds_def uv__async_eventfd_def uv__handle_start_def
  uv__active_handle_add_def

lemma new_process_runs:
  "\<exists>P'. uv_loop_init False 1 (new_process [0, 0, 0, 0, 0, 0, 0, 0, 0, 0, 0, 0]) = Some (Inr (0, P')) \<and> length (sys (lp P')) = 7
     \<and> signal_lock_pipefd P' = Some (4, 5) \<and> own_fds P' = {6, 7, 8, 9}"
  by (simp add: init_simps watch_simps lock_simps plain_numbers own_fds_def ends_def insert_commute insert_Diff_if)

text \<open>
  The error paths close nothing that the platform's part opened but \<open>inotify_fd\<close>: when the pipe of
  the signals cannot be made (here with \<open>EMFILE\<close>, 24) \<open>uv_loop_init\<close> returns with the epoll
  descriptor 6 open.
\<close>

lemma failed_init_leaks:
  "\<exists>P'. uv_loop_init False 1 (new_process [0, 0, 0, 24]) = Some (Inr (- 24, P')) \<and> backend_fd (lp P') = 6
     \<and> fds (lp P') = {0, 1, 2, 3, 4, 5, 6} \<and> fds (lp (new_process [])) = {0, 1, 2, 3} \<and> signal_lock_pipefd P' = Some (4, 5)"
  by (simp add: init_simps watch_simps lock_simps plain_numbers fail_signal_init_def on_loop_def uv__platform_loop_delete_def fds_def
      fail_def) (auto simp: numeral_eq_Suc)

section \<open>The life of a loop\<close>

text \<open>
  C40: \<open>uv_loop_init\<close>, whichever of its calls fail, either aborts, returns an error, when at most
  \<open>backend_fd\<close> is left of what it opened besides the signal lock of the process and no lock
  exists, or returns 0.  Then the loop owns its descriptors, which nobody had, the lock and the
  mutex are free, its handles are all internal, and \<open>uv_loop_close\<close> does not find it busy: given
  the answers to its calls of \<open>close\<close> it returns 0, the descriptors open are those from before
  with the signal lock's, and both locks are destroyed.
\<close>
theorem uv_loop_lifecycle:
  assumes "room 8 (lp P)" "allocs (lp P) = []" "nat ` lock_ends (signal_lock_pipefd P) \<subseteq> fds (lp P)"
    "async_watcher (lp P) \<noteq> signal_io_watcher (lp P)" "child_watcher P \<noteq> wq_async P" "uv_loop_init debug wd P = Some x"
  shows "x = Inl Aborted \<or> (\<exists>r P'. x = Inr (r, P')
    \<and> (let B = fds (lp P) \<union> nat ` lock_ends (signal_lock_pipefd P') in
       if r \<noteq> 0 then not_made B P'
       else made B P' \<and> (7 \<le> length (sys (lp P')) \<longrightarrow>
         (\<exists>P''. uv_loop_close P' = Some (Inr (0, P'')) \<and> fds (lp P'') = B \<and> cloexec_lock P'' = None \<and> wq_mutex P'' = None
            \<and> signal_pipefd P'' = (- 1, - 1) \<and> backend_fd (lp P'') = - 1))))"
proof -
  have "\<exists>P''. uv_loop_close P' = Some (Inr (0, P'')) \<and> fds (lp P'') = B \<and> cloexec_lock P'' = None \<and> wq_mutex P'' = None
      \<and> signal_pipefd P'' = (- 1, - 1) \<and> backend_fd (lp P'') = - 1"
    if "made B P'" "room 0 (lp P')" "7 \<le> length (sys (lp P'))" for B P'
    using loop_close_ok [OF that(1,2)] loop_close_returns [OF that(1,3)] by blast
  then show ?thesis using loop_init_settled [OF assms] unfolding Let_def by (auto split: if_splits)
qed

lemma uv_loop_lifecycle_witness:
  "\<exists>P'. uv_loop_init False 1 (new_process [0, 0, 0, 0, 0, 0, 0, 0, 0, 0, 0, 0]) = Some (Inr (0, P')) \<and> own_fds P' = {6, 7, 8, 9}
    \<and> (\<exists>P''. uv_loop_close P' = Some (Inr (0, P'')) \<and> fds (lp P'') = {0, 1, 2, 3, 4, 5})"
proof -
  let ?P = "new_process [0, 0, 0, 0, 0, 0, 0, 0, 0, 0, 0, 0]"
  obtain P' where P': "uv_loop_init False 1 ?P = Some (Inr (0, P'))" "length (sys (lp P')) = 7" "signal_lock_pipefd P' = Some (4, 5)"
      "own_fds P' = {6, 7, 8, 9}"
    using new_process_runs by blast
  have h: "room 8 (lp ?P)" "allocs (lp ?P) = []" "nat ` lock_ends (signal_lock_pipefd ?P) \<subseteq> fds (lp ?P)"
    "async_watcher (lp ?P) \<noteq> signal_io_watcher (lp ?P)" "child_watcher ?P \<noteq> wq_async ?P" and f: "fds (lp ?P) = {0, 1, 2, 3}"
    by (auto simp: new_process_def empty_loop_def plain_kernel_def room_def streams_open_def fds_def)
  from uv_loop_lifecycle [OF h P'(1)] obtain P'' where "uv_loop_close P' = Some (Inr (0, P''))"
      "fds (lp P'') = fds (lp ?P) \<union> nat ` lock_ends (Some (4, 5))"
    using P'(2,3) by (auto simp: Let_def split: if_splits)
  then show ?thesis using P'(1,4) f by (intro exI [of _ P']) auto
qed

end
