(* ===== verification/Spec2Isabelle.thy ===== *)
theory Spec2Isabelle
  imports NetSvr Glist UvInet UvLoop UvHeapSpec UvWork UvErrno UvSignal UvLoopLife
begin

text \<open>
  Verification library of svrNet, a small TCP server framework in C and C++, and of the parts of
  the vendored libuv that carry its event loop.

  The program.  \<open>net_create\<close> and \<open>net_start\<close> of \<open>src/src/ep_svr.c\<close> set up a server with a
  listener thread, an epoll loop, a send thread and a pool of workers.  The epoll loop reads the
  bytes of a connection (\<open>handle_EPOLLIN_event\<close>), joins them with the rest kept in the receive
  cache (\<open>helper/recvhelper.cpp\<close>), cuts packets off (\<open>core/pack.c\<close>) and pushes each to the work
  engine (\<open>core/engine.c\<close>), which queues it for the thread pool (\<open>third/threadpool\<close>, over the
  task queue \<open>third/queue\<close>).  A worker calls the user's handler, frames the answer and puts it
  into the send queue (\<open>helper/sendhelper.cpp\<close>); the send thread arms the connection for output
  and \<open>handle_EPOLLOUT_event\<close> writes the entry out.  Connections are found by their ids
  (\<open>conn/conn.cpp\<close>).

  Theories and sources.
  \<^item> \<open>Prelude\<close>, \<open>Interfaces\<close>: machine types, faults, C conversions, byte encodings; the locales
    \<open>keyed_store\<close> and its extensions, which the connection table and the receive cache interpret.
  \<^item> \<open>Config\<close>, \<open>Pack\<close>: \<open>inc/config.h\<close>, \<open>core/pack.c\<close>; framing is a round trip, \<open>parse_pack\<close>
    cuts exactly one frame, and where its length arithmetic wraps.
  \<^item> \<open>ConnTable\<close>, \<open>RecvHelper\<close>, \<open>SendHelper\<close>, \<open>SendThread\<close>: the tables and queues under their
    locks, each operation with its effect on every key, and one step of \<open>send_func\<close>.
  \<^item> \<open>Store\<close>, \<open>Gqueue\<close>, \<open>Glist\<close>: a store of linked nodes, the task queue and the linked list at
    pointer level; with blocks and buffers of any size the queue answers as a list does, and
    releasing it gives every cell back.
  \<^item> \<open>ThreadPool\<close>: workers as program counters, any interleaving; each accepted item is called
    back once, items start in order, no wake-up is lost.
  \<^item> \<open>Common\<close>, \<open>Engine\<close>, \<open>EpSvr\<close>, \<open>EpOut\<close>, \<open>NetSvr\<close>: the server's state and its handlers, and
    the interleavings of its threads: no fault under the size limits, at most one answer per
    request and its bytes on the descriptor it belongs to, no leak of heap blocks or
    descriptors; and the errors the code has.  A turn of the send thread and the handler of an
    event are single steps; workers also run between the attempts to push a packet.
  \<^item> \<open>UvBase\<close>, \<open>UvInet\<close>: \<open>third/libuv/src/inet.c\<close>; printing and reading addresses is a round
    trip.
  \<^item> \<open>UvFd\<close>: the descriptor functions of \<open>unix/core.c\<close> over a kernel table; no path of failing
    calls leaks a descriptor.
  \<^item> \<open>UvHeap\<close>, \<open>UvHandle\<close>, \<open>UvTimer\<close>: \<open>heap-inl.h\<close>, the loop's state with the handle macros of
    \<open>uv-common.h\<close>, \<open>unix/timer.c\<close>; the heap order, the count of active handles, and that the due
    timers fire once each in order.  \<open>UvHeapSpec\<close>: the heap gives what a sorted list gives.
  \<^item> \<open>UvWatcher\<close>, \<open>UvIo\<close>, \<open>UvPoll\<close>, \<open>UvAsync\<close>: \<open>unix/loop-watcher.c\<close>, the \<open>uv__io_*\<close> functions of
    \<open>unix/core.c\<close> and \<open>unix/linux-core.c\<close>, \<open>unix/poll.c\<close>, \<open>unix/async.c\<close>; the table of watchers
    and what epoll watches agree, watchers run once each, requests from other threads are
    answered.
  \<^item> \<open>UvLoop\<close>: \<open>uv_run\<close>, \<open>uv_close\<close> and \<open>uv__io_poll\<close>; a closed handle is called back once.
  \<^item> \<open>UvThreadPool\<close>: \<open>third/libuv/src/threadpool.c\<close>; a submitted request runs at most once and is
    finished once, cancelled or not.  \<open>UvWork\<close>: the work requests on top, which keep the loop alive
    until they are done, and the destructor that waits for the workers.  \<open>UvErrno\<close>: the error tables of \<open>uv-errno.h\<close> and \<open>uv.h\<close>;
    codes and names determine each other.
  \<^item> \<open>UvRbTree\<close>: the red-black trees of \<open>include/tree.h\<close>; insertion and removal keep the order, the
    colours and the black height.  \<open>UvSignal\<close>: \<open>unix/signal.c\<close> over such a tree; a signal reaches each
    of its handles once, and a handle that is being closed is called back once no message is on
    its way to it.
  \<^item> \<open>UvThread\<close>: \<open>unix/thread.c\<close>, with the answers of the C library as arguments and spurious
    wake-ups; a call that returns has its effect, so locks exclude, semaphores count and
    condition variables give the mutex back, and an error aborts.
  \<^item> \<open>UvLoopInit\<close>, \<open>UvLoopLife\<close>: \<open>uv_loop_init\<close> and \<open>uv_loop_close\<close>; what each failing call leaves,
    and that closing gives back what making took.

  Conventions.  A result \<open>Inl f\<close> is the faulting statement the code reached (a failed assertion,
  an access outside its object, a call of \<open>abort\<close>), \<open>Inr\<close> its value.  What the kernel, the clock,
  \<open>malloc\<close>, the user's handler and callbacks answer is an argument: a function, or the list of
  the answers in order; code that is still running or waiting when a list or the fuel ends has
  the value \<open>None\<close>.  Fuel stands only for loops that other code can prolong.  It is enough when
  it exceeds the length of the queue the loop works on, as \<open>clear_loop_enough\<close> (task queue),
  \<open>run_timers_enough\<close> (timers), \<open>run_watchers_enough\<close> (loop watchers) and \<open>async_loop_answers\<close>
  (async handles) show; \<open>poll_loop\<close> and \<open>run_loop\<close> take one unit of fuel per call of
  \<open>epoll_wait\<close> and per round of the loop.  Critical sections are single steps.  Sleeping and
  printing are left out.

  Not modelled.  The test programs; \<open>third/libxml2\<close>, which the server does not call; of libuv
  the streams, files, processes and name resolution and the ports to other systems.  A closed
  handle's or watcher's dangling queue links are marked, not followed.  The counter of the task
  queue does not overflow: it would need \<open>2 ^ 31\<close> blocks, and the pool keeps it to 65.  Nodes of
  the timer heap are positions in level order, so its pointers are not in the model.
\<close>

end
